(* ===== verification/Pool_Prelude.thy ===== *)
theory Pool_Prelude
  imports Main "HOL-Library.AList" "HOL-Library.Word"
begin

unbundle bit_operations_syntax

text \<open>
  Shared vocabulary of the development: the byte strings Rust's \<open>String\<close> and \<open>Vec<u8>\<close> are
  modelled by, the pieces of the Rust standard library that the pooler's parsers use
  (\<open>split\<close>, \<open>lines\<close>, \<open>trim\<close>, \<open>parse::<u64>\<close>, \<open>to_string\<close>, \<open>from_utf8_lossy\<close>), the association
  lists a \<open>HashMap\<close> is modelled by, and the lemmas about them that the component theories share.

  A Rust string is the list of its UTF-8 bytes (an Isabelle \<open>char\<close> is a byte), so \<open>length\<close> is
  \<open>str::len\<close>. A \<open>HashMap\<close> is an association list with distinct keys whose list order stands for
  the unspecified iteration order: a statement proved for every such list holds for every order.
\<close>

named_theorems pool_defs \<open>definitions unfolded by the component proofs\<close>
named_theorems byte_simps \<open>rewrite rules on bytes, pieces and lines\<close>

type_synonym bytes = string
type_synonym ('k, 'v) hashmap = "('k \<times> 'v) list"
type_synonym u64 = nat

abbreviation NUL :: char where "NUL \<equiv> CHR 0x00"
abbreviation TAB :: char where "TAB \<equiv> CHR 0x09"
abbreviation NEWLINE :: char where "NEWLINE \<equiv> CHR 0x0A"
abbreviation CR :: char where "CR \<equiv> CHR 0x0D"

abbreviation U64_LIMIT :: nat where "U64_LIMIT \<equiv> 2 ^ 64"

definition code :: "char \<Rightarrow> nat" where
  "code c = of_char c"

lemma code_lt_256 [simp]: "code c < 256"
  using of_char_of [of "of_char c :: nat"] by (simp add: code_def)

lemma code_inject [simp]: "code a = code b \<longleftrightarrow> a = b"
  by (simp add: code_def)

section \<open>Splitting\<close>

text \<open>\<open>str::split(c)\<close>: the pieces between the separators, always at least one.\<close>

fun split_on :: "'a \<Rightarrow> 'a list \<Rightarrow> 'a list list" where
  "split_on c [] = [[]]"
| "split_on c (x # xs) =
     (if x = c then [] # split_on c xs
      else (case split_on c xs of [] \<Rightarrow> [[x]] | p # ps \<Rightarrow> (x # p) # ps))"

lemma split_on_not_Nil [simp]: "split_on c xs \<noteq> []"
  by (induction xs) (auto split: list.splits)

lemma split_on_no_sep [byte_simps]: "c \<notin> set xs \<Longrightarrow> split_on c xs = [xs]"
  by (induction xs) auto

lemma split_on_append [byte_simps]:
  "c \<notin> set p \<Longrightarrow> split_on c (p @ c # rest) = p # split_on c rest"
  by (induction p) auto

lemma split_on_pieces: "p \<in> set (split_on c xs) \<Longrightarrow> c \<notin> set p \<and> set p \<subseteq> set xs"
proof (induction xs arbitrary: p)
  case (Cons x xs)
  then show ?case by (cases "split_on c xs") (auto split: if_splits, blast+)
qed simp

text \<open>
  \<open>str::lines\<close>: a line ends at a newline, a carriage return right before that newline is
  dropped, and what follows the last newline is a line only if it is not empty.
\<close>

definition strip_cr :: "string \<Rightarrow> string" where
  "strip_cr l = (if l \<noteq> [] \<and> last l = CR then butlast l else l)"

definition rust_lines :: "string \<Rightarrow> string list" where
  "rust_lines s =
     (let ps = split_on NEWLINE s
      in map strip_cr (butlast ps) @ (if last ps = [] then [] else [last ps]))"

lemma rust_lines_Nil [simp]: "rust_lines [] = []"
  by (simp add: rust_lines_def)

lemma strip_cr_id [byte_simps]: "CR \<notin> set l \<Longrightarrow> strip_cr l = l"
  by (metis last_in_set strip_cr_def)

lemma rust_lines_Cons [byte_simps]:
  "NEWLINE \<notin> set l \<Longrightarrow> CR \<notin> set l \<Longrightarrow> rust_lines (l @ NEWLINE # rest) = l # rust_lines rest"
  by (simp add: rust_lines_def Let_def split_on_append strip_cr_id)

lemma rust_lines_concat:
  assumes "\<And>l. l \<in> set ls \<Longrightarrow> NEWLINE \<notin> set l \<and> CR \<notin> set l"
  shows "rust_lines (concat (map (\<lambda>l. l @ [NEWLINE]) ls)) = ls"
  using assms by (induction ls) (auto simp: rust_lines_Cons)

section \<open>Decimal numbers\<close>

definition is_ascii_digit :: "char \<Rightarrow> bool" where
  "is_ascii_digit c \<longleftrightarrow> 48 \<le> code c \<and> code c \<le> 57"

definition digit_char :: "nat \<Rightarrow> char" where
  "digit_char d = char_of (48 + d)"

text \<open>\<open>u64::to_string\<close>.\<close>

fun show_nat :: "nat \<Rightarrow> string" where
  "show_nat n = (if n < 10 then [digit_char n] else show_nat (n div 10) @ [digit_char (n mod 10)])"

declare show_nat.simps [simp del]

fun digits_value :: "nat \<Rightarrow> string \<Rightarrow> nat option" where
  "digits_value acc [] = Some acc"
| "digits_value acc (c # cs) =
     (if is_ascii_digit c then digits_value (10 * acc + (code c - 48)) cs else None)"

text \<open>
  \<open>str::parse::<u64>\<close>: an optional plus sign, at least one digit, nothing else, and a value
  that fits 64 bits.
\<close>

definition rust_parse_u64 :: "string \<Rightarrow> u64 option" where
  "rust_parse_u64 s =
     (let ds = (case s of [] \<Rightarrow> [] | c # cs \<Rightarrow> if c = CHR ''+'' then cs else s)
      in if ds = [] then None
         else case digits_value 0 ds of
                None \<Rightarrow> None
              | Some n \<Rightarrow> if n < U64_LIMIT then Some n else None)"

lemma code_char_of [simp]: "n < 256 \<Longrightarrow> code (char_of n) = n"
  by (simp add: code_def)

lemma code_digit_char: "d < 10 \<Longrightarrow> code (digit_char d) = 48 + d"
  by (simp add: digit_char_def)

lemma is_ascii_digit_digit_char: "d < 10 \<Longrightarrow> is_ascii_digit (digit_char d)"
  by (simp add: is_ascii_digit_def code_digit_char)

lemma show_nat_digits: "c \<in> set (show_nat n) \<Longrightarrow> is_ascii_digit c"
proof (induction n arbitrary: c rule: show_nat.induct)
  case (1 n)
  then show ?case
    by (subst (asm) show_nat.simps) (auto simp: is_ascii_digit_digit_char split: if_splits)
qed

lemma show_nat_not_Nil [simp]: "show_nat n \<noteq> []"
  by (subst show_nat.simps) simp

lemma digits_value_append:
  "digits_value acc (xs @ ys) =
     (case digits_value acc xs of None \<Rightarrow> None | Some a \<Rightarrow> digits_value a ys)"
  by (induction xs arbitrary: acc) auto

lemma digits_value_show_nat: "digits_value 0 (show_nat n) = Some n"
proof (induction n rule: show_nat.induct)
  case (1 n)
  show ?case
  proof (cases "n < 10")
    case True
    then show ?thesis
      by (subst show_nat.simps) (simp add: is_ascii_digit_digit_char code_digit_char)
  next
    case False
    with 1 show ?thesis
      by (subst show_nat.simps)
        (simp add: digits_value_append is_ascii_digit_digit_char code_digit_char)
  qed
qed

lemma rust_parse_u64_digits:
  assumes "s \<noteq> []" "\<And>c. c \<in> set s \<Longrightarrow> is_ascii_digit c" "digits_value 0 s = Some n" "n < U64_LIMIT"
  shows "rust_parse_u64 s = Some n"
proof -
  obtain c cs where s: "s = c # cs" using assms(1) by (cases s) auto
  have "c \<noteq> CHR ''+''" using assms(2) [of c] s by (auto simp: is_ascii_digit_def code_def)
  then show ?thesis using assms s by (simp add: rust_parse_u64_def)
qed

lemma rust_parse_u64_show_nat [byte_simps]: "n < U64_LIMIT \<Longrightarrow> rust_parse_u64 (show_nat n) = Some n"
  by (rule rust_parse_u64_digits) (auto simp: show_nat_digits digits_value_show_nat)

lemma rust_parse_u64_bound: "rust_parse_u64 s = Some n \<Longrightarrow> n < U64_LIMIT"
  by (auto simp: rust_parse_u64_def Let_def split: option.splits if_splits)

section \<open>Character classes\<close>

definition is_ascii_lowercase :: "char \<Rightarrow> bool" where
  "is_ascii_lowercase c \<longleftrightarrow> 97 \<le> code c \<and> code c \<le> 122"

definition is_ascii_graphic :: "char \<Rightarrow> bool" where
  "is_ascii_graphic c \<longleftrightarrow> 33 \<le> code c \<and> code c \<le> 126"

text \<open>
  \<open>char::is_control\<close> on UTF-8 bytes: the general category Cc is U+0000..U+001F (one byte),
  U+007F (one byte) and U+0080..U+009F, encoded as the byte C2 followed by 80..9F. In UTF-8
  the byte C2 is always a lead byte, so the pair is never part of another character.
\<close>

fun has_control :: "string \<Rightarrow> bool" where
  "has_control [] = False"
| "has_control (c # cs) =
     (code c < 32 \<or> code c = 127
      \<or> (code c = 194 \<and> (case cs of [] \<Rightarrow> False | d # _ \<Rightarrow> 128 \<le> code d \<and> code d < 160))
      \<or> has_control cs)"

lemma has_control_no_low:
  "\<not> has_control s \<Longrightarrow> c \<in> set s \<Longrightarrow> 32 \<le> code c"
  by (induction s) (auto simp: not_less)

lemma has_control_no_tab_newline [byte_simps]:
  assumes "\<not> has_control s"
  shows "TAB \<notin> set s" "NEWLINE \<notin> set s" "CR \<notin> set s" "NUL \<notin> set s"
  using has_control_no_low [OF assms] by (force simp: code_def)+

text \<open>
  \<open>str::trim\<close> strips White_Space characters; \<open>ws_seqs\<close> lists the UTF-8 encoding of each of them
  (U+0009..U+000D, U+0020, U+0085, U+00A0, U+1680, U+2000..U+200A, U+2028, U+2029, U+202F,
  U+205F, U+3000).
\<close>

definition ws_seqs :: "string list" where
  "ws_seqs =
     map (\<lambda>n. [char_of n]) [9, 10, 11, 12, 13, 32 :: nat]
     @ map (map char_of) ([[194, 133], [194, 160], [225, 154, 128]] :: nat list list)
     @ map (\<lambda>n. map char_of [226, 128, n]) [128..<139 :: nat]
     @ map (map char_of) ([[226, 128, 168], [226, 128, 169], [226, 128, 175], [226, 129, 159],
                           [227, 128, 128]] :: nat list list)"

fun strip_any :: "string list \<Rightarrow> string \<Rightarrow> string option" where
  "strip_any [] s = None"
| "strip_any (w # ws) s =
     (if take (length w) s = w then Some (drop (length w) s) else strip_any ws s)"

lemma strip_any_length: "strip_any ws s = Some t \<Longrightarrow> [] \<notin> set ws \<Longrightarrow> length t < length s"
  by (induction ws) (auto split: if_splits, metis diff_less length_greater_0_conv take_Nil)

lemma ws_seqs_nonempty: "[] \<notin> set ws_seqs" "[] \<notin> set (map rev ws_seqs)"
  by (auto simp: ws_seqs_def)

function trim_with :: "string list \<Rightarrow> string \<Rightarrow> string" where
  "trim_with ws s =
     (if [] \<in> set ws then s else case strip_any ws s of None \<Rightarrow> s | Some t \<Rightarrow> trim_with ws t)"
  by pat_completeness auto
termination
  by (relation "measure (\<lambda>(ws, s). length s)") (auto simp: strip_any_length)

declare trim_with.simps [simp del]

definition rust_trim :: "string \<Rightarrow> string" where
  "rust_trim s = rev (trim_with (map rev ws_seqs) (rev (trim_with ws_seqs s)))"

lemma strip_any_None:
  "(\<And>w. w \<in> set ws \<Longrightarrow> w \<noteq> [] \<and> hd w \<noteq> c) \<Longrightarrow> strip_any ws (c # cs) = None"
proof (induction ws)
  case (Cons w ws)
  then have "strip_any ws (c # cs) = None" by simp
  moreover obtain a as where "w = a # as" "a \<noteq> c" using Cons.prems [of w] by (cases w) auto
  ultimately show ?case by simp
qed simp

lemma hd_ws_seqs: "w \<in> set ws_seqs \<Longrightarrow> code (hd w) \<le> 32 \<or> 128 \<le> code (hd w)"
  by (auto simp: ws_seqs_def code_def)

lemma last_ws_seqs: "w \<in> set ws_seqs \<Longrightarrow> code (hd (rev w)) \<le> 32 \<or> 128 \<le> code (hd (rev w))"
  by (auto simp: ws_seqs_def code_def)

text \<open>A string whose bytes are all printable ASCII is its own trim.\<close>

lemma trim_with_id:
  assumes "\<And>w. w \<in> set ws \<Longrightarrow> code (hd w) \<le> 32 \<or> 128 \<le> code (hd w)"
    and "[] \<notin> set ws" and "s = [] \<or> is_ascii_graphic (hd s)"
  shows "trim_with ws s = s"
proof -
  have "strip_any ws s = None"
  proof (cases s)
    case Nil
    then show ?thesis using assms(2) by (induction ws) auto
  next
    case (Cons c cs)
    then show ?thesis
      using assms by (auto intro!: strip_any_None simp: is_ascii_graphic_def) fastforce+
  qed
  then show ?thesis by (subst trim_with.simps) simp
qed

lemma rust_trim_ends [byte_simps]:
  assumes "s \<noteq> []" "is_ascii_graphic (hd s)" "is_ascii_graphic (last s)"
  shows "rust_trim s = s"
proof -
  have a: "trim_with ws_seqs s = s"
    using assms by (intro trim_with_id) (auto simp: hd_ws_seqs ws_seqs_nonempty)
  have b: "trim_with (map rev ws_seqs) (rev s) = rev s"
    using assms by (intro trim_with_id) (auto simp: ws_seqs_nonempty hd_rev dest: last_ws_seqs)
  show ?thesis by (simp add: rust_trim_def a b)
qed

text \<open>\<open>str::starts_with\<close>.\<close>

definition starts_with :: "string \<Rightarrow> string \<Rightarrow> bool" where
  "starts_with p s \<longleftrightarrow> take (length p) s = p"

section \<open>Lossy UTF-8 decoding\<close>

text \<open>
  \<open>String::from_utf8_lossy\<close>: well-formed sequences are kept, each maximal prefix of an
  ill-formed one becomes U+FFFD (the bytes EF BF BD). \<open>utf8_second\<close> is the range of the second
  byte for a three- or four-byte lead, which excludes overlong forms and surrogates.
\<close>

definition is_cont :: "char \<Rightarrow> bool" where
  "is_cont c \<longleftrightarrow> 128 \<le> code c \<and> code c < 192"

definition utf8_width :: "char \<Rightarrow> nat" where
  "utf8_width c =
     (let n = code c in
      if n < 128 then 1 else if 194 \<le> n \<and> n < 224 then 2
      else if 224 \<le> n \<and> n < 240 then 3 else if 240 \<le> n \<and> n < 245 then 4 else 0)"

definition utf8_second :: "char \<Rightarrow> char \<Rightarrow> bool" where
  "utf8_second c d =
     (if code c = 224 then 160 \<le> code d \<and> code d < 192
      else if code c = 237 then 128 \<le> code d \<and> code d < 160
      else if code c = 240 then 144 \<le> code d \<and> code d < 192
      else if code c = 244 then 128 \<le> code d \<and> code d < 144
      else is_cont d)"

definition replacement :: string where
  "replacement = map char_of [239, 191, 189 :: nat]"

text \<open>\<open>utf8_next c rest\<close> is how many bytes after the lead \<open>c\<close> belong to it, and whether they complete it.\<close>

definition utf8_next :: "char \<Rightarrow> string \<Rightarrow> nat \<times> bool" where
  "utf8_next c rest =
     (let w = utf8_width c in
      if w = 1 then (0, True)
      else if w = 0 then (0, False)
      else (case rest of
              [] \<Rightarrow> (0, False)
            | d # r2 \<Rightarrow>
                if \<not> utf8_second c d then (0, False)
                else if w = 2 then (1, True)
                else (case r2 of
                        [] \<Rightarrow> (1, False)
                      | e # r3 \<Rightarrow>
                          if \<not> is_cont e then (1, False)
                          else if w = 3 then (2, True)
                          else (case r3 of
                                  [] \<Rightarrow> (2, False)
                                | f # _ \<Rightarrow> if is_cont f then (3, True) else (2, False)))))"

function from_utf8_lossy :: "bytes \<Rightarrow> string" where
  "from_utf8_lossy [] = []"
| "from_utf8_lossy (c # rest) =
     (case utf8_next c rest of
        (n, ok) \<Rightarrow> (if ok then c # take n rest else replacement) @ from_utf8_lossy (drop n rest))"
  by pat_completeness auto
termination
  by (relation "measure length") auto

text \<open>\<open>valid_utf8\<close> is \<open>str::from_utf8(..).is_ok()\<close>.\<close>

function valid_utf8 :: "bytes \<Rightarrow> bool" where
  "valid_utf8 [] = True"
| "valid_utf8 (c # rest) =
     (case utf8_next c rest of (n, ok) \<Rightarrow> ok \<and> valid_utf8 (drop n rest))"
  by pat_completeness auto
termination
  by (relation "measure length") auto

lemma from_utf8_lossy_valid: "valid_utf8 s \<Longrightarrow> from_utf8_lossy s = s"
  by (induction s rule: valid_utf8.induct) (auto split: prod.splits)

lemma utf8_next_ascii [simp]: "code c < 128 \<Longrightarrow> utf8_next c rest = (0, True)"
  by (simp add: utf8_next_def utf8_width_def)

lemma valid_utf8_ascii: "(\<And>c. c \<in> set s \<Longrightarrow> code c < 128) \<Longrightarrow> valid_utf8 s"
  by (induction s) auto

section \<open>Hash maps\<close>

definition hm_wf :: "('k, 'v) hashmap \<Rightarrow> bool" where
  "hm_wf m \<longleftrightarrow> distinct (map fst m)"

abbreviation hm_get :: "('k, 'v) hashmap \<Rightarrow> 'k \<Rightarrow> 'v option" where
  "hm_get \<equiv> map_of"

definition hm_insert :: "'k \<Rightarrow> 'v \<Rightarrow> ('k, 'v) hashmap \<Rightarrow> ('k, 'v) hashmap" where
  "hm_insert k v m = AList.update k v m"

definition hm_remove :: "'k \<Rightarrow> ('k, 'v) hashmap \<Rightarrow> ('k, 'v) hashmap" where
  "hm_remove k m = AList.delete k m"

lemma hm_wf_Nil [simp]: "hm_wf []"
  by (simp add: hm_wf_def)

lemma hm_wf_insert [simp, intro]: "hm_wf m \<Longrightarrow> hm_wf (hm_insert k v m)"
  by (simp add: hm_wf_def hm_insert_def distinct_update)

lemma hm_wf_remove [simp, intro]: "hm_wf m \<Longrightarrow> hm_wf (hm_remove k m)"
  by (simp add: hm_wf_def hm_remove_def distinct_delete)

lemma hm_get_insert [simp]: "hm_get (hm_insert k v m) = (hm_get m)(k \<mapsto> v)"
  by (simp add: hm_insert_def update_conv')

lemma hm_get_remove [simp]: "hm_get (hm_remove k m) = (hm_get m)(k := None)"
  by (simp add: hm_remove_def delete_conv')

lemma hm_in_set: "hm_wf m \<Longrightarrow> (k, v) \<in> set m \<longleftrightarrow> hm_get m k = Some v"
  by (simp add: hm_wf_def)

lemma hm_wf_filter [simp, intro]: "hm_wf m \<Longrightarrow> hm_wf (filter P m)"
  by (simp add: hm_wf_def distinct_map_filter)

lemma hm_get_filter:
  assumes "hm_wf m"
  shows "hm_get (filter P m) k =
    (case hm_get m k of None \<Rightarrow> None | Some v \<Rightarrow> if P (k, v) then Some v else None)"
  using assms by (induction m) (force simp: hm_wf_def split: option.splits dest: map_of_SomeD)+

text \<open>Collecting an iterator of pairs into a map inserts them one by one, later ones winning.\<close>

definition hm_collect :: "('k \<times> 'v) list \<Rightarrow> ('k, 'v) hashmap" where
  "hm_collect kvs = fold (\<lambda>(k, v) m. hm_insert k v m) kvs []"

lemma hm_fold_insert_get:
  "hm_get (fold (\<lambda>(k, v) m. hm_insert k v m) kvs m) = hm_get m ++ map_of (rev kvs)"
  by (induction kvs arbitrary: m) (auto simp: map_add_upd_left map_add_def fun_eq_iff split: option.splits)

lemma hm_fold_insert_wf: "hm_wf m \<Longrightarrow> hm_wf (fold (\<lambda>(k, v) m. hm_insert k v m) kvs m)"
  by (induction kvs arbitrary: m) auto

lemma hm_get_collect: "hm_get (hm_collect kvs) = map_of (rev kvs)"
  by (simp add: hm_collect_def hm_fold_insert_get)

lemma hm_wf_collect [simp]: "hm_wf (hm_collect kvs)"
  by (simp add: hm_collect_def hm_fold_insert_wf)

lemma map_of_rev_distinct: "distinct (map fst kvs) \<Longrightarrow> map_of (rev kvs) = map_of kvs"
  by (intro map_of_inject_set [THEN iffD2]) (auto simp: rev_map [symmetric])

lemma hm_get_collect_wf: "hm_wf kvs \<Longrightarrow> hm_get (hm_collect kvs) = hm_get kvs"
  by (simp add: hm_get_collect map_of_rev_distinct hm_wf_def)

lemma hm_same_get:
  assumes "hm_wf m" "hm_wf m'" "hm_get m = hm_get m'"
  shows "set m = set m'" "length m = length m'"
proof -
  show "set m = set m'" using assms by (auto simp: hm_in_set [symmetric])
    (metis (mono_tags) assms hm_in_set)+
  then show "length m = length m'"
    using assms by (metis distinct_card distinct_map hm_wf_def)
qed

lemma length_hm_insert: "hm_get m k = None \<Longrightarrow> length (hm_insert k v m) = Suc (length m)"
  by (induction m) (auto simp: hm_insert_def split: if_splits)

lemma length_hm_remove: "length (hm_remove k m) \<le> length m"
  by (simp add: hm_remove_def length_delete_le)

lemma set_hm_remove: "set (hm_remove k m) = {(k', v) \<in> set m. k' \<noteq> k}"
  by (auto simp: hm_remove_def AList.delete_eq)

section \<open>Big-endian integers\<close>

definition be_nat :: "bytes \<Rightarrow> nat" where
  "be_nat bs = fold (\<lambda>b acc. 256 * acc + code b) bs 0"

text \<open>\<open>i32::from_be_bytes\<close>: four bytes, two's complement.\<close>

definition i32_from_be_bytes :: "bytes \<Rightarrow> int" where
  "i32_from_be_bytes bs =
     (let n = be_nat bs in if n < 2 ^ 31 then int n else int n - 2 ^ 32)"

text \<open>\<open>i32::to_be_bytes\<close>; a negative value is encoded modulo \<open>2 ^ 32\<close>.\<close>

definition be_bytes4 :: "nat \<Rightarrow> bytes" where
  "be_bytes4 n = map (\<lambda>k. char_of (n div 256 ^ k mod 256)) [3, 2, 1, 0]"

definition i32_to_be_bytes :: "int \<Rightarrow> bytes" where
  "i32_to_be_bytes i = be_bytes4 (nat (i mod 2 ^ 32))"

lemma length_i32_to_be_bytes [simp]: "length (i32_to_be_bytes i) = 4"
  by (simp add: i32_to_be_bytes_def be_bytes4_def)

lemma be_nat_be_bytes4:
  assumes "n < 2 ^ 32"
  shows "be_nat (be_bytes4 n) = n"
proof -
  define a b c where "a = n div 256" and "b = a div 256" and "c = b div 256"
  have "n div 65536 = b" "n div 16777216 = c"
    by (simp_all add: a_def b_def c_def div_mult2_eq [symmetric])
  then have "be_nat (be_bytes4 n) =
      256 * (256 * (256 * (c mod 256) + b mod 256) + a mod 256) + n mod 256"
    by (simp add: be_nat_def be_bytes4_def code_def a_def algebra_simps)
  moreover have "c mod 256 = c"
    using assms by (simp add: a_def b_def c_def div_mult2_eq [symmetric] less_mult_imp_div_less)
  moreover have "256 * c + b mod 256 = b" "256 * b + a mod 256 = a" "256 * a + n mod 256 = n"
    by (simp_all add: a_def b_def c_def)
  ultimately show ?thesis by simp
qed

lemma i32_roundtrip:
  assumes "- (2 ^ 31) \<le> i" "i < 2 ^ 31"
  shows "i32_from_be_bytes (i32_to_be_bytes i) = i"
proof -
  have "nat (i mod 2 ^ 32) < 2 ^ 32" by (simp add: nat_less_iff)
  then have n: "be_nat (i32_to_be_bytes i) = nat (i mod 2 ^ 32)"
    by (simp only: i32_to_be_bytes_def be_nat_be_bytes4)
  show ?thesis
  proof (cases "0 \<le> i")
    case True
    then have "i mod 2 ^ 32 = i" using assms by simp
    then show ?thesis using n assms True by (simp add: i32_from_be_bytes_def nat_less_iff)
  next
    case False
    then have "i mod 2 ^ 32 = i + 2 ^ 32"
      using assms mod_pos_pos_trivial [of "i + 2 ^ 32" "2 ^ 32"] by simp
    then show ?thesis using n assms False by (simp add: i32_from_be_bytes_def Let_def nat_less_iff)
  qed
qed

end
