(* ===== verification/Wire.thy ===== *)
theory Wire
  imports Pool_Prelude
begin

text \<open>
  The client-facing half of the PostgreSQL v3 protocol that the pooler speaks itself:
  \<open>src/src/startup.rs\<close> (the SSL/GSS preamble and the StartupMessage) and \<open>src/src/auth.rs\<close> (the
  cleartext password challenge and the FATAL ErrorResponse).

  A connection is the plaintext the client still has to be read (\<open>inp\<close>), everything the pooler
  has written so far (\<open>out\<close>) and whether the TLS layer is up (\<open>secure\<close>). \<open>read_exact\<close> on a stream
  that ends early is the error \<open>UnexpectedEof\<close>. The TLS acceptor (rustls) is not part of the
  repository: it is the parameter \<open>tls\<close>, a function from the client's remaining raw bytes to the
  plaintext carried in them, \<open>None\<close> when the handshake fails.
\<close>

record conn =
  inp :: bytes
  out :: bytes
  secure :: bool

datatype wire_error =
    UnexpectedEof
  | StartupTooSmall int
  | TlsHandshakeFailed
  | NoDatabaseNorUser
  | UnsupportedProtocol int
  | ExpectedPasswordMessage char
  | PasswordTooSmall int
  | PasswordAuthFailed

record startup_info =
  database :: string
  user :: string
  raw :: bytes

definition SSL_REQUEST_CODE :: int where "SSL_REQUEST_CODE = 80877103"
definition GSS_ENC_REQUEST_CODE :: int where "GSS_ENC_REQUEST_CODE = 80877104"
definition PROTOCOL_V3 :: int where "PROTOCOL_V3 = 196608"
definition AUTH_CLEARTEXT_PASSWORD :: int where "AUTH_CLEARTEXT_PASSWORD = 3"

lemmas startup_codes = SSL_REQUEST_CODE_def GSS_ENC_REQUEST_CODE_def PROTOCOL_V3_def

definition write_all :: "bytes \<Rightarrow> conn \<Rightarrow> conn" where
  "write_all bs c = c\<lparr>out := out c @ bs\<rparr>"

definition read_exact :: "nat \<Rightarrow> conn \<Rightarrow> (wire_error + bytes) \<times> conn" where
  "read_exact n c =
     (if length (inp c) < n then (Inl UnexpectedEof, c)
      else (Inr (take n (inp c)), c\<lparr>inp := drop n (inp c)\<rparr>))"

lemma write_all_simps [simp]:
  "inp (write_all bs c) = inp c" "out (write_all bs c) = out c @ bs"
  "secure (write_all bs c) = secure c"
  by (simp_all add: write_all_def)

lemma read_exact_Inr:
  "read_exact n c = (Inr bs, c') \<longleftrightarrow>
     length bs = n \<and> inp c = bs @ inp c' \<and> out c' = out c \<and> secure c' = secure c"
  by (cases c; cases c') (auto simp: read_exact_def append_eq_conv_conj split: if_splits)

section \<open>Startup messages\<close>

text \<open>One length-prefixed startup-phase message: its code, the length prefix and the body.\<close>

definition read_message :: "conn \<Rightarrow> (wire_error + int \<times> bytes \<times> bytes) \<times> conn" where
  "read_message c =
     (case read_exact 4 c of
        (Inl e, c1) \<Rightarrow> (Inl e, c1)
      | (Inr len_buf, c1) \<Rightarrow>
          let len = i32_from_be_bytes len_buf in
          if len < 8 then (Inl (StartupTooSmall len), c1)
          else case read_exact (nat (len - 4)) c1 of
                 (Inl e, c2) \<Rightarrow> (Inl e, c2)
               | (Inr body, c2) \<Rightarrow> (Inr (i32_from_be_bytes (take 4 body), len_buf, body), c2))"

fun parse_params_parts :: "bytes list \<Rightarrow> (string, string) hashmap \<Rightarrow> (string, string) hashmap" where
  "parse_params_parts [] m = m"
| "parse_params_parts (key # parts) m =
     (if key = [] then m
      else case parts of
             [] \<Rightarrow> hm_insert (from_utf8_lossy key) (from_utf8_lossy []) m
           | val # parts' \<Rightarrow>
               parse_params_parts parts' (hm_insert (from_utf8_lossy key) (from_utf8_lossy val) m))"

definition parse_params :: "bytes \<Rightarrow> (string, string) hashmap" where
  "parse_params bs = parse_params_parts (split_on NUL bs) []"

definition parse_startup_message :: "bytes \<Rightarrow> bytes \<Rightarrow> wire_error + startup_info" where
  "parse_startup_message len_buf body =
     (let params = parse_params (drop 4 body);
          u = (case hm_get params ''user'' of Some u \<Rightarrow> u | None \<Rightarrow> []);
          d = (case hm_get params ''database'' of Some d \<Rightarrow> (if d = [] then u else d) | None \<Rightarrow> u)
      in if d = [] then Inl NoDatabaseNorUser
         else Inr \<lparr>database = d, user = u, raw = len_buf @ body\<rparr>)"

lemma read_message_consumes:
  "read_message c = (Inr m, c') \<Longrightarrow> length (inp c') < length (inp c)"
  by (auto simp: read_message_def read_exact_def Let_def split: prod.splits sum.splits if_splits)

text \<open>The loop after the preamble, run over a plain or a TLS stream alike.\<close>

function read_startup_plain :: "conn \<Rightarrow> (wire_error + startup_info) \<times> conn" where
  "read_startup_plain c =
     (case read_message c of
        (Inl e, c1) \<Rightarrow> (Inl e, c1)
      | (Inr (cd, len_buf, body), c1) \<Rightarrow>
          if cd = SSL_REQUEST_CODE \<or> cd = GSS_ENC_REQUEST_CODE
          then read_startup_plain (write_all ''N'' c1)
          else if cd = PROTOCOL_V3 then (parse_startup_message len_buf body, c1)
          else (Inl (UnsupportedProtocol cd), c1))"
  by pat_completeness auto
termination
  by (relation "measure (\<lambda>c. length (inp c))")
    (auto dest!: sym [THEN read_message_consumes])

declare read_startup_plain.simps [simp del]

type_synonym tls_acceptor = "bytes \<Rightarrow> bytes option"

function read_startup :: "tls_acceptor option \<Rightarrow> conn \<Rightarrow> (wire_error + startup_info) \<times> conn" where
  "read_startup tls c =
     (case read_message c of
        (Inl e, c1) \<Rightarrow> (Inl e, c1)
      | (Inr (cd, len_buf, body), c1) \<Rightarrow>
          if cd = SSL_REQUEST_CODE \<and> tls \<noteq> None
          then let c2 = write_all ''S'' c1 in
               (case the tls (inp c2) of
                  None \<Rightarrow> (Inl TlsHandshakeFailed, c2)
                | Some plain \<Rightarrow> read_startup_plain (c2\<lparr>inp := plain, secure := True\<rparr>))
          else if cd = SSL_REQUEST_CODE \<or> cd = GSS_ENC_REQUEST_CODE
          then read_startup tls (write_all ''N'' c1)
          else if cd = PROTOCOL_V3 then (parse_startup_message len_buf body, c1)
          else (Inl (UnsupportedProtocol cd), c1))"
  by pat_completeness auto
termination
  by (relation "measure (\<lambda>(tls, c). length (inp c))")
    (auto dest!: sym [THEN read_message_consumes])

declare read_startup.simps [simp del]

subsection \<open>What a successful read returns\<close>

lemma parse_startup_message_Inr:
  assumes "parse_startup_message len_buf body = Inr info"
  shows "database info \<noteq> []" "raw info = len_buf @ body"
  using assms by (auto simp: parse_startup_message_def Let_def split: if_splits)

lemma read_message_Inr:
  assumes "read_message c = (Inr (cd, len_buf, body), c')"
  shows "inp c = len_buf @ body @ inp c'" "length len_buf = 4" "4 \<le> length body"
    "cd = i32_from_be_bytes (take 4 body)" "out c' = out c" "secure c' = secure c"
    "i32_from_be_bytes len_buf = int (length len_buf + length body)"
  using assms
  by (auto simp: read_message_def read_exact_Inr Let_def split: prod.splits sum.splits if_splits)

lemma read_startup_plain_Inr:
  "read_startup_plain c = (Inr info, c') \<Longrightarrow>
     \<exists>pre n. inp c = pre @ raw info @ inp c' \<and> database info \<noteq> [] \<and> 8 \<le> length (raw info)
       \<and> out c' = out c @ replicate n CHR ''N'' \<and> secure c' = secure c"
proof (induction c rule: read_startup_plain.induct)
  case (1 c)
  from "1.prems" obtain cd len_buf body c1
    where m: "read_message c = (Inr (cd, len_buf, body), c1)"
    by (subst (asm) read_startup_plain.simps) (auto split: prod.splits sum.splits)
  note r = read_message_Inr [OF m]
  show ?case
  proof (cases "cd = SSL_REQUEST_CODE \<or> cd = GSS_ENC_REQUEST_CODE")
    case True
    with "1.prems" m have "read_startup_plain (write_all ''N'' c1) = (Inr info, c')"
      by (subst (asm) read_startup_plain.simps) (auto split: if_splits)
    from "1.IH" [OF m [symmetric] refl refl refl True this] obtain pre n
      where "inp c1 = pre @ raw info @ inp c'" "database info \<noteq> []" "8 \<le> length (raw info)"
        "out c' = out c1 @ CHR ''N'' # replicate n CHR ''N''" "secure c' = secure c1"
      by auto
    with r show ?thesis
      by (intro exI [of _ "len_buf @ body @ pre"] exI [of _ "Suc n"]) auto
  next
    case False
    with "1.prems" m have "parse_startup_message len_buf body = Inr info" "c1 = c'"
      by (subst (asm) read_startup_plain.simps; auto split: if_splits)+
    with r parse_startup_message_Inr [of len_buf body info] show ?thesis
      by (intro exI [of _ "[]"] exI [of _ 0]) auto
  qed
qed

section \<open>The client's encoding of a StartupMessage\<close>

text \<open>
  The message format the PostgreSQL protocol documentation gives: the length of the whole
  message, the protocol code, the parameter pairs, each name and value ended by a NUL byte, and
  a final NUL. \<open>preamble_packet\<close> is an SSLRequest or a GSSENCRequest.
\<close>

definition encode_params :: "(string \<times> string) list \<Rightarrow> bytes" where
  "encode_params ps = concat (map (\<lambda>(k, v). k @ [NUL] @ v @ [NUL]) ps) @ [NUL]"

definition startup_packet :: "(string \<times> string) list \<Rightarrow> bytes" where
  "startup_packet ps =
     (let b = i32_to_be_bytes PROTOCOL_V3 @ encode_params ps
      in i32_to_be_bytes (int (length b) + 4) @ b)"

definition preamble_packet :: "int \<Rightarrow> bytes" where
  "preamble_packet cd = i32_to_be_bytes 8 @ i32_to_be_bytes cd"

definition params_ok :: "(string \<times> string) list \<Rightarrow> bool" where
  "params_ok ps \<longleftrightarrow>
     (\<forall>(k, v) \<in> set ps. k \<noteq> [] \<and> NUL \<notin> set k \<and> NUL \<notin> set v \<and> valid_utf8 k \<and> valid_utf8 v)
     \<and> length (encode_params ps) + 8 < 2 ^ 31"

lemma parse_params_encode:
  assumes "\<forall>(k, v) \<in> set ps. k \<noteq> [] \<and> NUL \<notin> set k \<and> NUL \<notin> set v \<and> valid_utf8 k \<and> valid_utf8 v"
  shows "parse_params_parts (split_on NUL (encode_params ps)) m =
    fold (\<lambda>(k, v) m. hm_insert k v m) ps m"
  using assms
  by (induction ps arbitrary: m)
    (auto simp: encode_params_def split_on_append from_utf8_lossy_valid)

lemma hm_get_parse_params_encode:
  "params_ok ps \<Longrightarrow> hm_get (parse_params (encode_params ps)) = map_of (rev ps)"
  by (simp add: parse_params_def parse_params_encode params_ok_def hm_fold_insert_get)

lemma read_message_packet:
  assumes "inp c = i32_to_be_bytes (int (length b) + 4) @ b @ rest"
    and "4 \<le> length b" "length b + 4 < 2 ^ 31"
  shows "read_message c =
    (Inr (i32_from_be_bytes (take 4 b), i32_to_be_bytes (int (length b) + 4), b), c\<lparr>inp := rest\<rparr>)"
proof -
  have "i32_from_be_bytes (i32_to_be_bytes (int (length b) + 4)) = int (length b) + 4"
    using assms(3) by (intro i32_roundtrip) auto
  then show ?thesis
    using assms by (simp add: read_message_def read_exact_def Let_def)
qed

lemma read_message_preamble:
  assumes "inp c = preamble_packet cd @ rest" "- (2 ^ 31) \<le> cd" "cd < 2 ^ 31"
  shows "read_message c = (Inr (cd, i32_to_be_bytes 8, i32_to_be_bytes cd), c\<lparr>inp := rest\<rparr>)"
  using read_message_packet [of c "i32_to_be_bytes cd" rest] i32_roundtrip [OF assms(2,3)] assms(1)
  by (simp add: preamble_packet_def)

lemma read_message_startup:
  assumes "inp c = startup_packet ps @ rest" "params_ok ps"
  obtains len_buf body where "read_message c = (Inr (PROTOCOL_V3, len_buf, body), c\<lparr>inp := rest\<rparr>)"
    "drop 4 body = encode_params ps" "len_buf @ body = startup_packet ps"
proof -
  let ?b = "i32_to_be_bytes PROTOCOL_V3 @ encode_params ps"
  have rt: "i32_from_be_bytes (i32_to_be_bytes PROTOCOL_V3) = PROTOCOL_V3"
    by (rule i32_roundtrip) (simp_all add: PROTOCOL_V3_def)
  have "inp c = i32_to_be_bytes (int (length ?b) + 4) @ ?b @ rest"
    using assms(1) by (simp add: startup_packet_def Let_def)
  moreover have "4 \<le> length ?b" "length ?b + 4 < 2 ^ 31"
    using assms(2) by (simp_all add: params_ok_def)
  ultimately have "read_message c =
      (Inr (PROTOCOL_V3, i32_to_be_bytes (int (length ?b) + 4), ?b), c\<lparr>inp := rest\<rparr>)"
    using read_message_packet [of c ?b rest] rt by simp
  then show ?thesis by (rule that) (simp_all add: startup_packet_def Let_def)
qed

text \<open>The parameter a client's list gives for a name: the last occurrence, as the map keeps it.\<close>

abbreviation param :: "(string \<times> string) list \<Rightarrow> string \<Rightarrow> string" where
  "param ps k \<equiv> (case map_of (rev ps) k of Some v \<Rightarrow> v | None \<Rightarrow> [])"

definition requested_database :: "(string \<times> string) list \<Rightarrow> string" where
  "requested_database ps =
     (if param ps ''database'' = [] then param ps ''user'' else param ps ''database'')"

lemma parse_startup_message_encode:
  assumes "params_ok ps" "drop 4 body = encode_params ps" "requested_database ps \<noteq> []"
  shows "parse_startup_message len_buf body =
    Inr \<lparr>database = requested_database ps, user = param ps ''user'', raw = len_buf @ body\<rparr>"
  using assms
  by (auto simp: parse_startup_message_def hm_get_parse_params_encode Let_def
      requested_database_def split: option.splits if_splits)

section \<open>The password challenge\<close>

definition byte :: "char \<Rightarrow> 8 word" where
  "byte c = of_nat (code c)"

text \<open>\<open>constant_time_eq\<close> folds the exclusive or of the byte pairs into one accumulator.\<close>

definition constant_time_eq :: "bytes \<Rightarrow> bytes \<Rightarrow> bool" where
  "constant_time_eq a b =
     (if length a \<noteq> length b then False
      else fold (\<lambda>(x, y) diff. diff OR (byte x XOR byte y)) (zip a b) (0 :: 8 word) = 0)"

definition strip_nul :: "bytes \<Rightarrow> bytes" where
  "strip_nul b = (if b \<noteq> [] \<and> last b = NUL then butlast b else b)"

definition SQLSTATE_INVALID_PASSWORD :: string where
  "SQLSTATE_INVALID_PASSWORD = ''28P01''"

definition SQLSTATE_INSUFFICIENT_PRIVILEGE :: string where
  "SQLSTATE_INSUFFICIENT_PRIVILEGE = ''42501''"

definition fatal_fields :: "string \<Rightarrow> string \<Rightarrow> bytes" where
  "fatal_fields sqlstate msg =
     ''S'' @ ''FATAL'' @ [NUL] @ ''C'' @ sqlstate @ [NUL] @ ''M'' @ msg @ [NUL] @ [NUL]"

definition send_fatal :: "string \<Rightarrow> string \<Rightarrow> conn \<Rightarrow> conn" where
  "send_fatal sqlstate msg c =
     (let fields = fatal_fields sqlstate msg
      in write_all (''E'' @ i32_to_be_bytes (int (length fields + 4)) @ fields) c)"

definition password_challenge :: bytes where
  "password_challenge =
     ''R'' @ i32_to_be_bytes 8 @ i32_to_be_bytes AUTH_CLEARTEXT_PASSWORD"

definition require_password :: "string \<Rightarrow> conn \<Rightarrow> (wire_error + unit) \<times> conn" where
  "require_password expected c =
     (let c0 = write_all password_challenge c in
      case read_exact 1 c0 of
        (Inl e, c1) \<Rightarrow> (Inl e, c1)
      | (Inr tag, c1) \<Rightarrow>
          if hd tag \<noteq> CHR ''p'' then (Inl (ExpectedPasswordMessage (hd tag)), c1)
          else case read_exact 4 c1 of
            (Inl e, c2) \<Rightarrow> (Inl e, c2)
          | (Inr len_buf, c2) \<Rightarrow>
              let len = i32_from_be_bytes len_buf in
              if len < 5 then (Inl (PasswordTooSmall len), c2)
              else case read_exact (nat (len - 4)) c2 of
                (Inl e, c3) \<Rightarrow> (Inl e, c3)
              | (Inr body, c3) \<Rightarrow>
                  if constant_time_eq (strip_nul body) expected then (Inr (), c3)
                  else (Inl PasswordAuthFailed,
                        send_fatal SQLSTATE_INVALID_PASSWORD ''password authentication failed'' c3))"

lemma or_eq_0_iff: "(a OR b = (0 :: 8 word)) \<longleftrightarrow> a = 0 \<and> b = 0"
  by (auto simp: bit_eq_iff bit_or_iff)

lemma xor_eq_0_iff_byte: "(a XOR b = (0 :: 8 word)) \<longleftrightarrow> a = b"
  by (metis xor.left_commute xor.right_neutral xor_self_eq)

lemma byte_inject: "byte x = byte y \<longleftrightarrow> x = y"
proof -
  have "unat (byte c) = code c" for c by (simp add: byte_def unat_of_nat)
  then show ?thesis by (metis code_inject)
qed

lemma diff_fold_zero_iff:
  "length a = length b \<Longrightarrow>
     fold (\<lambda>(x, y) diff. diff OR (byte x XOR byte y)) (zip a b) (d :: 8 word) = 0
     \<longleftrightarrow> d = 0 \<and> a = b"
  by (induction a b arbitrary: d rule: list_induct2)
    (auto simp: or_eq_0_iff xor_eq_0_iff_byte byte_inject)

lemma constant_time_eq_iff: "constant_time_eq a b \<longleftrightarrow> a = b"
  by (auto simp: constant_time_eq_def diff_fold_zero_iff)

text \<open>The PasswordMessage a client sends.\<close>

definition password_packet :: "bytes \<Rightarrow> bytes" where
  "password_packet body = ''p'' @ i32_to_be_bytes (int (length body) + 4) @ body"

lemma require_password_packet:
  assumes "inp c = password_packet body @ rest" "body \<noteq> []" "length body + 4 < 2 ^ 31"
  shows "require_password expected c =
    (let c3 = c\<lparr>out := out c @ password_challenge, inp := rest\<rparr> in
     if strip_nul body = expected then (Inr (), c3)
     else (Inl PasswordAuthFailed,
           send_fatal SQLSTATE_INVALID_PASSWORD ''password authentication failed'' c3))"
proof -
  have "i32_from_be_bytes (i32_to_be_bytes (int (length body) + 4)) = int (length body) + 4"
    using assms(3) by (intro i32_roundtrip) auto
  then show ?thesis
    using assms
    by (auto simp: require_password_def password_packet_def read_exact_def Let_def
        constant_time_eq_iff write_all_def not_less Suc_le_eq)
qed

lemma require_password_Inr:
  assumes "require_password expected c = (Inr u, c')"
  shows "\<exists>len_buf body. inp c = CHR ''p'' # len_buf @ body @ inp c' \<and> length len_buf = 4
      \<and> body \<noteq> [] \<and> i32_from_be_bytes len_buf = int (length body) + 4 \<and> strip_nul body = expected"
    and "out c' = out c @ password_challenge" and "secure c' = secure c"
  using assms
  by (auto simp: require_password_def read_exact_Inr Let_def constant_time_eq_iff
      length_Suc_conv split: prod.splits sum.splits if_splits) fastforce+

section \<open>Reading a client's startup\<close>

text \<open>The requests a client may send first, each answered by one \<open>N\<close>; the loop then goes on with the rest.\<close>

definition encryption_requests :: "int list \<Rightarrow> bool" where
  "encryption_requests pre \<longleftrightarrow> list_all (\<lambda>cd. cd = SSL_REQUEST_CODE \<or> cd = GSS_ENC_REQUEST_CODE) pre"

lemma read_message_request:
  assumes "encryption_requests (cd # pre)" "inp c = concat (map preamble_packet (cd # pre)) @ tail_bs"
  shows "read_message c = (Inr (cd, i32_to_be_bytes 8, i32_to_be_bytes cd), c\<lparr>inp := concat (map preamble_packet pre) @ tail_bs\<rparr>)"
  using assms by (intro read_message_preamble) (auto simp: encryption_requests_def startup_codes)

lemma read_startup_skips:
  assumes "encryption_requests pre" "tls = None \<or> SSL_REQUEST_CODE \<notin> set pre"
    and "inp c = concat (map preamble_packet pre) @ tail_bs"
  shows "read_startup tls c = read_startup tls (c\<lparr>inp := tail_bs, out := out c @ replicate (length pre) CHR ''N''\<rparr>)"
  using assms
proof (induction pre arbitrary: c)
  case (Cons cd pre)
  let ?c1 = "write_all ''N'' (c\<lparr>inp := concat (map preamble_packet pre) @ tail_bs\<rparr>)"
  have "read_startup tls c = read_startup tls ?c1"
    using read_message_request [OF Cons.prems(1,3)] Cons.prems(1,2)
    by (subst read_startup.simps) (auto simp: encryption_requests_def)
  also have "\<dots> = read_startup tls (?c1\<lparr>inp := tail_bs, out := out ?c1 @ replicate (length pre) CHR ''N''\<rparr>)"
    using Cons.prems by (intro Cons.IH) (auto simp: encryption_requests_def)
  finally show ?case by (simp add: write_all_def)
qed (auto intro!: arg_cong [where f = "read_startup tls"] conn.equality)

lemma read_startup_plain_skips:
  assumes "encryption_requests pre" "inp c = concat (map preamble_packet pre) @ tail_bs"
  shows "read_startup_plain c = read_startup_plain (c\<lparr>inp := tail_bs, out := out c @ replicate (length pre) CHR ''N''\<rparr>)"
  using assms
proof (induction pre arbitrary: c)
  case (Cons cd pre)
  let ?c1 = "write_all ''N'' (c\<lparr>inp := concat (map preamble_packet pre) @ tail_bs\<rparr>)"
  have "read_startup_plain c = read_startup_plain ?c1"
    using read_message_request [OF Cons.prems] Cons.prems(1)
    by (subst read_startup_plain.simps) (auto simp: encryption_requests_def)
  also have "\<dots> = read_startup_plain (?c1\<lparr>inp := tail_bs, out := out ?c1 @ replicate (length pre) CHR ''N''\<rparr>)"
    using Cons.prems by (intro Cons.IH) (auto simp: encryption_requests_def)
  finally show ?case by (simp add: write_all_def)
qed (auto intro!: arg_cong [where f = read_startup_plain] conn.equality)

abbreviation client_startup :: "(string \<times> string) list \<Rightarrow> startup_info" where
  "client_startup ps \<equiv> \<lparr>database = requested_database ps, user = param ps ''user'', raw = startup_packet ps\<rparr>"

lemma read_startup_last:
  assumes "params_ok ps" "requested_database ps \<noteq> []" "inp c = startup_packet ps @ rest"
  shows "read_startup tls c = (Inr (client_startup ps), c\<lparr>inp := rest\<rparr>)"
    and "read_startup_plain c = (Inr (client_startup ps), c\<lparr>inp := rest\<rparr>)"
proof -
  obtain len_buf body
    where m: "read_message c = (Inr (PROTOCOL_V3, len_buf, body), c\<lparr>inp := rest\<rparr>)"
      and b: "drop 4 body = encode_params ps" and r: "len_buf @ body = startup_packet ps"
    using read_message_startup [OF assms(3,1)] by blast
  note p = parse_startup_message_encode [OF assms(1) b assms(2), of len_buf]
  show "read_startup tls c = (Inr (client_startup ps), c\<lparr>inp := rest\<rparr>)"
    using m r p by (subst read_startup.simps) (simp add: startup_codes)
  show "read_startup_plain c = (Inr (client_startup ps), c\<lparr>inp := rest\<rparr>)"
    using m r p by (subst read_startup_plain.simps) (simp add: startup_codes)
qed

text \<open>
  What a client puts on the wire, and what it is answered: requests that are declined and the message, or,
  where the pooler has TLS, requests that are declined, the one that is accepted, and the rest through the
  tunnel, with \<open>pre\<close> the requests before any tunnel and \<open>post\<close> those in it.
\<close>

definition plain_client :: "(string \<times> string) list \<Rightarrow> int list \<Rightarrow> bytes \<Rightarrow> bytes \<Rightarrow> bool" where
  "plain_client ps pre rest bs \<longleftrightarrow>
     encryption_requests pre \<and> bs = concat (map preamble_packet pre) @ startup_packet ps @ rest"

definition tls_client ::
  "tls_acceptor \<Rightarrow> (string \<times> string) list \<Rightarrow> int list \<Rightarrow> int list \<Rightarrow> bytes \<Rightarrow> bytes \<Rightarrow> bool" where
  "tls_client accept ps pre post rest bs \<longleftrightarrow>
     encryption_requests pre \<and> SSL_REQUEST_CODE \<notin> set pre \<and>
     (\<exists>cipher plain. bs = concat (map preamble_packet pre) @ preamble_packet SSL_REQUEST_CODE @ cipher
        \<and> accept cipher = Some plain \<and> plain_client ps post rest plain)"

lemma read_startup_client:
  assumes "params_ok ps" "requested_database ps \<noteq> []" "tls = None \<or> SSL_REQUEST_CODE \<notin> set pre"
    and "plain_client ps pre rest (inp c)"
  shows "read_startup tls c =
    (Inr (client_startup ps), c\<lparr>inp := rest, out := out c @ replicate (length pre) CHR ''N''\<rparr>)"
  using assms(4) read_startup_skips [OF _ assms(3), of c "startup_packet ps @ rest"] read_startup_last(1) [OF assms(1,2)]
  by (simp add: plain_client_def)

lemma read_startup_tls_client:
  assumes "params_ok ps" "requested_database ps \<noteq> []" "tls_client accept ps pre post rest (inp c)"
  shows "read_startup (Some accept) c =
    (Inr (client_startup ps),
     c\<lparr>inp := rest, out := out c @ replicate (length pre) CHR ''N'' @ ''S'' @ replicate (length post) CHR ''N'', secure := True\<rparr>)"
proof -
  obtain cipher plain where c: "inp c = concat (map preamble_packet pre) @ preamble_packet SSL_REQUEST_CODE @ cipher"
    "accept cipher = Some plain" "plain = concat (map preamble_packet post) @ startup_packet ps @ rest"
    "encryption_requests pre" "SSL_REQUEST_CODE \<notin> set pre" "encryption_requests post"
    using assms(3) by (auto simp: tls_client_def plain_client_def)
  let ?c1 = "c\<lparr>inp := preamble_packet SSL_REQUEST_CODE @ cipher, out := out c @ replicate (length pre) CHR ''N''\<rparr>"
  let ?c2 = "write_all ''S'' (?c1\<lparr>inp := cipher\<rparr>)\<lparr>inp := plain, secure := True\<rparr>"
  have "read_startup (Some accept) c = read_startup (Some accept) ?c1"
    using read_startup_skips [OF c(4) _ c(1)] c(5) by simp
  also have "\<dots> = read_startup_plain ?c2"
  proof -
    have "read_message ?c1 = (Inr (SSL_REQUEST_CODE, i32_to_be_bytes 8, i32_to_be_bytes SSL_REQUEST_CODE), ?c1\<lparr>inp := cipher\<rparr>)"
      by (rule read_message_preamble) (simp_all add: startup_codes)
    then show ?thesis using c(2) by (subst read_startup.simps) (simp add: Let_def)
  qed
  also have "\<dots> = (Inr (client_startup ps), ?c2\<lparr>inp := rest, out := out ?c2 @ replicate (length post) CHR ''N''\<rparr>)"
    using read_startup_plain_skips [OF c(6), of ?c2 "startup_packet ps @ rest"] c(3) read_startup_last(2) [OF assms(1,2)] by simp
  finally show ?thesis by (simp add: write_all_def)
qed

definition startup_example :: conn where
  "startup_example = \<lparr>inp = preamble_packet SSL_REQUEST_CODE
     @ startup_packet [(''user'', ''app''), (''database'', ''shop'')] @ ''Q'', out = [], secure = False\<rparr>"

lemma startup_example_ok: "params_ok [(''user'', ''app''), (''database'', ''shop'')]"
  by (simp add: params_ok_def encode_params_def code_def)

lemma startup_example_params:
  "requested_database [(''user'', ''app''), (''database'', ''shop'')] = ''shop''"
  "param [(''user'', ''app''), (''database'', ''shop'')] ''user'' = ''app''"
  by (simp_all add: requested_database_def)

lemma startup_example_read:
  "read_startup None startup_example =
    (Inr \<lparr>database = ''shop'', user = ''app'',
          raw = startup_packet [(''user'', ''app''), (''database'', ''shop'')]\<rparr>,
     startup_example\<lparr>inp := ''Q'', out := ''N''\<rparr>)"
  using read_startup_client [OF startup_example_ok, of None "[SSL_REQUEST_CODE]" "''Q''" startup_example]
  by (simp add: startup_example_def startup_example_params plain_client_def encryption_requests_def)

section \<open>Properties\<close>

text \<open>
  C39: Decoding a client's startup, with and without TLS. Let a client send a StartupMessage whose names and
  values have no NUL byte and are valid UTF-8, whose names are not empty, which fits a message and names a
  database or a user. If it sends SSL or GSS encryption requests before (only GSS ones where the pooler
  has TLS), it is answered one \<open>N\<close> for each. If the pooler has TLS and the client asks for it, the request is
  answered \<open>S\<close> and what follows is read through the tunnel, with an \<open>N\<close> for each further request there. Either
  way the startup is read as the database and user it named (the user's name when it names no database),
  exactly the bytes that follow are left to be read, and the message kept for replay is the client's
  packet byte for byte.
\<close>

theorem read_startup_decodes_client:
  assumes "params_ok ps" "requested_database ps \<noteq> []"
  shows "((tls = None \<or> SSL_REQUEST_CODE \<notin> set pre) \<and> plain_client ps pre rest (inp c) \<longrightarrow>
      read_startup tls c =
        (Inr \<lparr>database = requested_database ps, user = param ps ''user'', raw = startup_packet ps\<rparr>,
         c\<lparr>inp := rest, out := out c @ replicate (length pre) CHR ''N''\<rparr>))
    \<and> (tls_client accept ps pre post rest (inp c) \<longrightarrow>
      read_startup (Some accept) c =
        (Inr \<lparr>database = requested_database ps, user = param ps ''user'', raw = startup_packet ps\<rparr>,
         c\<lparr>inp := rest, out := out c @ replicate (length pre) CHR ''N'' @ ''S'' @ replicate (length post) CHR ''N'', secure := True\<rparr>))"
  using read_startup_client [OF assms] read_startup_tls_client [OF assms] by blast

theorem read_startup_decodes_client_witness:
  "read_startup None startup_example =
    (Inr \<lparr>database = ''shop'', user = ''app'',
          raw = startup_packet [(''user'', ''app''), (''database'', ''shop'')]\<rparr>,
     startup_example\<lparr>inp := ''Q'', out := ''N''\<rparr>)
   \<and> read_startup (Some Some) startup_example =
    (Inr \<lparr>database = ''shop'', user = ''app'',
          raw = startup_packet [(''user'', ''app''), (''database'', ''shop'')]\<rparr>,
     startup_example\<lparr>inp := ''Q'', out := ''S'', secure := True\<rparr>)"
  using read_startup_decodes_client [OF startup_example_ok, of None "[SSL_REQUEST_CODE]" "''Q''" startup_example Some "[]"]
    read_startup_decodes_client [OF startup_example_ok, of None "[]" "''Q''" startup_example Some "[]"]
  by (simp add: startup_example_def startup_example_params plain_client_def tls_client_def encryption_requests_def)

text \<open>
  Replay is verbatim and encryption is not doubled. Whatever a client sends, when the startup
  read succeeds the database is not empty and the bytes kept for replay are a contiguous segment
  of what the client sent on the layer the session runs on, immediately before what is left to
  read; in plaintext the replies were only \<open>N\<close>, and over TLS there was exactly one \<open>S\<close>, before the
  handshake.
\<close>

theorem read_startup_replays_verbatim:
  assumes "read_startup tls c = (Inr info, c')" "\<not> secure c"
  shows "database info \<noteq> [] \<and> 8 \<le> length (raw info) \<and>
    ((\<not> secure c' \<and> (\<exists>pre n. inp c = pre @ raw info @ inp c' \<and> out c' = out c @ replicate n CHR ''N''))
     \<or> (secure c' \<and> (\<exists>acceptor pre cipher plain n m pre'. tls = Some acceptor
          \<and> inp c = pre @ cipher \<and> acceptor cipher = Some plain \<and> plain = pre' @ raw info @ inp c'
          \<and> out c' = out c @ replicate n CHR ''N'' @ CHR ''S'' # replicate m CHR ''N'')))"
  using assms
proof (induction tls c rule: read_startup.induct)
  case (1 tls c)
  from "1.prems"(1) obtain cd len_buf body c1
    where m: "read_message c = (Inr (cd, len_buf, body), c1)"
    by (subst (asm) read_startup.simps) (auto split: prod.splits sum.splits)
  note r = read_message_Inr [OF m]
  consider (upgrade) "cd = SSL_REQUEST_CODE" "tls \<noteq> None"
    | (decline) "\<not> (cd = SSL_REQUEST_CODE \<and> tls \<noteq> None)"
        "cd = SSL_REQUEST_CODE \<or> cd = GSS_ENC_REQUEST_CODE"
    | (start) "cd = PROTOCOL_V3" "\<not> (cd = SSL_REQUEST_CODE \<or> cd = GSS_ENC_REQUEST_CODE)"
    | (other) "cd \<noteq> PROTOCOL_V3" "\<not> (cd = SSL_REQUEST_CODE \<or> cd = GSS_ENC_REQUEST_CODE)"
    by blast
  then show ?case
  proof cases
    case upgrade
    then obtain acc plain where acc: "tls = Some acc" "acc (inp c1) = Some plain"
      and rp: "read_startup_plain (write_all ''S'' c1\<lparr>inp := plain, secure := True\<rparr>) = (Inr info, c')"
      using "1.prems"(1) m by (subst (asm) read_startup.simps) (auto simp: Let_def split: option.splits)
    from read_startup_plain_Inr [OF rp] obtain pre' n where
      "plain = pre' @ raw info @ inp c'" "database info \<noteq> []" "8 \<le> length (raw info)"
      "out c' = out c1 @ CHR ''S'' # replicate n CHR ''N''" "secure c'"
      by auto
    then show ?thesis
      using r acc
      by (intro conjI disjI2 exI [of _ acc] exI [of _ "len_buf @ body"] exI [of _ "inp c1"]
          exI [of _ plain] exI [of _ 0] exI [of _ n] exI [of _ pre']) simp_all
  next
    case decline
    then have rp: "read_startup tls (write_all ''N'' c1) = (Inr info, c')"
      using "1.prems"(1) m by (subst (asm) read_startup.simps) auto
    have "\<not> secure (write_all ''N'' c1)" using r "1.prems"(2) by simp
    note ih = "1.IH" [OF m [symmetric] refl refl refl decline rp this]
    note db = ih [THEN conjunct1] ih [THEN conjunct2, THEN conjunct1]
    from ih show ?thesis
    proof (elim conjE disjE exE)
      fix pre n assume "inp (write_all ''N'' c1) = pre @ raw info @ inp c'"
        "out c' = out (write_all ''N'' c1) @ replicate n CHR ''N''" "\<not> secure c'"
      then show ?thesis
        using r db by (intro conjI disjI1 exI [of _ "len_buf @ body @ pre"] exI [of _ "Suc n"]) auto
    next
      fix acc pre cipher plain n k pre'
      assume a: "secure c'" "tls = Some acc" "inp (write_all ''N'' c1) = pre @ cipher"
        "acc cipher = Some plain" "plain = pre' @ raw info @ inp c'"
        "out c' = out (write_all ''N'' c1) @ replicate n CHR ''N'' @ CHR ''S'' # replicate k CHR ''N''"
      show ?thesis
        using r db a
        by (intro conjI disjI2 exI [of _ acc] exI [of _ "len_buf @ body @ pre"] exI [of _ cipher]
            exI [of _ plain] exI [of _ "Suc n"] exI [of _ k] exI [of _ pre']) simp_all
    qed
  next
    case start
    then have "parse_startup_message len_buf body = Inr info" "c1 = c'"
      using "1.prems"(1) m by (subst (asm) read_startup.simps, auto)+
    then show ?thesis
      using r parse_startup_message_Inr [of len_buf body info] "1.prems"(2)
      by (intro conjI disjI1 exI [of _ "[]"] exI [of _ 0]) auto
  next
    case other
    then show ?thesis using "1.prems"(1) m by (subst (asm) read_startup.simps) auto
  qed
qed

theorem read_startup_replays_verbatim_witness:
  "\<exists>pre. inp startup_example = pre @ startup_packet [(''user'', ''app''), (''database'', ''shop'')] @ ''Q''"
proof -
  from read_startup_replays_verbatim [OF startup_example_read] show ?thesis
    by (auto simp: startup_example_def)
qed

text \<open>
  C10: The password gate admits exactly the expected password. On any client input the challenge
  succeeds if and only if what follows is a PasswordMessage, of the length it declares, whose
  text (one trailing NUL removed) is the expected password; then nothing but the challenge was
  written and exactly that message was consumed.
\<close>

theorem require_password_accepts_iff:
  "require_password expected c = (Inr (), c') \<longleftrightarrow>
    (\<exists>len_buf body. inp c = CHR ''p'' # len_buf @ body @ inp c' \<and> length len_buf = 4 \<and> body \<noteq> []
       \<and> i32_from_be_bytes len_buf = int (length body) + 4 \<and> strip_nul body = expected)
    \<and> out c' = out c @ password_challenge \<and> secure c' = secure c" (is "?L \<longleftrightarrow> ?R")
proof
  assume ?L
  then show ?R using require_password_Inr [of expected c "()" c'] by blast
next
  assume ?R
  then obtain len_buf body where i: "inp c = CHR ''p'' # len_buf @ body @ inp c'" "length len_buf = 4"
    "body \<noteq> []" "i32_from_be_bytes len_buf = int (length body) + 4" "strip_nul body = expected"
    "out c' = out c @ password_challenge" "secure c' = secure c" by blast
  then have "0 < length body" by simp
  then show ?L
    using i by (cases c; cases c')
      (simp add: require_password_def read_exact_def Let_def write_all_def constant_time_eq_iff)
qed

text \<open>
  A refused client is told why, in a decodable message. The ErrorResponse the pooler sends is
  the tag \<open>E\<close>, a length that counts itself and all that follows, and the three NUL-terminated
  fields severity, SQLSTATE and text, closed by an empty field, so that splitting it at the NUL
  bytes gives back exactly the state and text it was built from.
\<close>

theorem send_fatal_decodes:
  assumes "NUL \<notin> set sqlstate" "NUL \<notin> set msg" "length sqlstate + length msg < 2 ^ 30"
  shows "\<exists>len_buf fields. out (send_fatal sqlstate msg c) = out c @ CHR ''E'' # len_buf @ fields
    \<and> length len_buf = 4 \<and> i32_from_be_bytes len_buf = int (4 + length fields)
    \<and> split_on NUL fields = [''SFATAL'', CHR ''C'' # sqlstate, CHR ''M'' # msg, [], []]"
proof -
  let ?f = "fatal_fields sqlstate msg"
  have f: "?f = ''SFATAL'' @ NUL # (CHR ''C'' # sqlstate) @ NUL # (CHR ''M'' # msg) @ NUL # [] @ NUL # []"
    by (simp add: fatal_fields_def)
  have split: "split_on NUL ?f = [''SFATAL'', CHR ''C'' # sqlstate, CHR ''M'' # msg, [], []]"
    using assms(1,2) unfolding f by (subst split_on_append; simp)+
  have "i32_from_be_bytes (i32_to_be_bytes (int (length ?f + 4))) = int (length ?f + 4)"
    using assms(3) by (intro i32_roundtrip) (simp_all add: fatal_fields_def)
  then show ?thesis
    using split
    by (intro exI [of _ "i32_to_be_bytes (int (length ?f + 4))"] exI [of _ ?f])
      (simp add: send_fatal_def Let_def)
qed

theorem send_fatal_decodes_witness:
  "\<exists>len_buf fields.
    out (send_fatal ''28P01'' ''no'' \<lparr>inp = [], out = [], secure = False\<rparr>) = CHR ''E'' # len_buf @ fields
    \<and> split_on NUL fields = [''SFATAL'', ''C28P01'', ''Mno'', [], []]"
  using send_fatal_decodes [of "''28P01''" "''no''" "\<lparr>inp = [], out = [], secure = False\<rparr>"] by auto

end
