(* ===== verification/Interfaces.thy ===== *)
theory Interfaces
  imports Pool_Prelude "HOL-Library.List_Lexorder" "HOL-Library.Char_ord"
begin

text \<open>
  The contracts several components share, each stated once as a locale and interpreted by the
  components that provide it: transition systems with an inductive invariant, line codecs (the
  tab-separated files of \<open>store.rs\<close>, \<open>pending.rs\<close> and \<open>dedicated.rs\<close>), capped exponential
  back-off (the offload back-off and the bring-up breaker of \<open>registry.rs\<close>), and registries whose
  tier changes survive a crash (\<open>store.rs\<close>, as the tier changes of \<open>registry.rs\<close> rely on it).
\<close>

section \<open>Transition systems\<close>

inductive run_of :: "('s \<Rightarrow> bool) \<Rightarrow> ('s \<Rightarrow> 's \<Rightarrow> bool) \<Rightarrow> 's \<Rightarrow> bool" for init step where
  run_init: "init s \<Longrightarrow> run_of init step s"
| run_step: "run_of init step s \<Longrightarrow> step s t \<Longrightarrow> run_of init step t"

lemma run_next: "run_of init step x \<Longrightarrow> step x y \<Longrightarrow> y = z \<Longrightarrow> run_of init step z"
  by (auto intro: run_step)

locale inductive_invariant =
  fixes init :: "'s \<Rightarrow> bool" and step :: "'s \<Rightarrow> 's \<Rightarrow> bool" and inv :: "'s \<Rightarrow> bool"
  assumes inv_init: "init s \<Longrightarrow> inv s"
    and inv_step: "inv s \<Longrightarrow> step s t \<Longrightarrow> inv t"
begin

lemma reachable_inv: "run_of init step s \<Longrightarrow> inv s"
  by (induction rule: run_of.induct) (auto intro: inv_init inv_step)

lemma steps_inv: "inv s \<Longrightarrow> step\<^sup>*\<^sup>* s t \<Longrightarrow> inv t"
  by (rotate_tac 1, induction rule: rtranclp_induct) (auto intro: inv_step)

end

section \<open>Line-oriented files\<close>

definition encode_lines :: "('k \<Rightarrow> 'v \<Rightarrow> string) \<Rightarrow> ('k, 'v) hashmap \<Rightarrow> string" where
  "encode_lines enc m = concat (map (\<lambda>(k, v). enc k v @ [NEWLINE]) m)"

definition decode_lines :: "(string \<Rightarrow> ('k \<times> 'v) option) \<Rightarrow> string \<Rightarrow> ('k, 'v) hashmap" where
  "decode_lines dec s = hm_collect (List.map_filter dec (rust_lines s))"

lemma hm_wf_decode_lines [simp]: "hm_wf (decode_lines dec s)"
  by (simp add: decode_lines_def)

lemma decode_lines_Nil [simp]: "decode_lines dec [] = []"
  by (simp add: decode_lines_def hm_collect_def List.map_filter_def)

locale line_codec =
  fixes enc :: "'k \<Rightarrow> 'v \<Rightarrow> string" and dec :: "string \<Rightarrow> ('k \<times> 'v) option"
    and ok :: "'k \<Rightarrow> 'v \<Rightarrow> bool"
  assumes enc_line: "ok k v \<Longrightarrow> NEWLINE \<notin> set (enc k v) \<and> CR \<notin> set (enc k v)"
    and dec_enc: "ok k v \<Longrightarrow> dec (enc k v) = Some (k, v)"
begin

lemma rust_lines_encode:
  "\<forall>(k, v) \<in> set m. ok k v \<Longrightarrow> rust_lines (encode_lines enc m) = map (\<lambda>(k, v). enc k v) m"
  by (induction m) (auto simp: encode_lines_def rust_lines_Cons enc_line)

lemma map_filter_dec_encode:
  "\<forall>(k, v) \<in> set m. ok k v \<Longrightarrow> List.map_filter dec (map (\<lambda>(k, v). enc k v) m) = m"
  by (induction m) (auto simp: List.map_filter_def dec_enc)

lemma decode_encode:
  assumes "\<forall>(k, v) \<in> set m. ok k v" "hm_wf m"
  shows "hm_get (decode_lines dec (encode_lines enc m)) = hm_get m"
  using assms by (simp add: decode_lines_def rust_lines_encode map_filter_dec_encode hm_get_collect_wf)

end

text \<open>A tab-separated line: \<open>split('\t')\<close> gives back the fields it was joined from.\<close>

fun join_tab :: "string list \<Rightarrow> string" where
  "join_tab [] = []"
| "join_tab [f] = f"
| "join_tab (f # fs) = f @ TAB # join_tab fs"

lemma split_on_join_tab:
  "fs \<noteq> [] \<Longrightarrow> \<forall>f \<in> set fs. TAB \<notin> set f \<Longrightarrow> split_on TAB (join_tab fs) = fs"
  by (induction fs rule: join_tab.induct) (auto simp: split_on_append split_on_no_sep)

lemma set_join_tab: "set (join_tab fs) \<subseteq> insert TAB (\<Union> (set ` set fs))"
  by (induction fs rule: join_tab.induct) auto

lemma not_in_join_tab: "c \<noteq> TAB \<Longrightarrow> \<forall>f \<in> set fs. c \<notin> set f \<Longrightarrow> c \<notin> set (join_tab fs)"
  using set_join_tab [of fs] by auto

definition plain_field :: "string \<Rightarrow> bool" where
  "plain_field f \<longleftrightarrow> TAB \<notin> set f \<and> NEWLINE \<notin> set f \<and> CR \<notin> set f"

lemma plain_field_show_nat [simp]: "plain_field (show_nat n)"
  using show_nat_digits [of _ n] by (force simp: plain_field_def is_ascii_digit_def code_def)

lemma plain_field_no_control: "\<not> has_control s \<Longrightarrow> plain_field s"
  by (auto simp: plain_field_def dest: has_control_no_tab_newline)

lemma plain_field_graphic: "(\<And>c. c \<in> set s \<Longrightarrow> is_ascii_graphic c) \<Longrightarrow> plain_field s"
  by (force simp: plain_field_def is_ascii_graphic_def code_def)

lemma plain_line:
  assumes "\<forall>f \<in> set fs. plain_field f"
  shows "NEWLINE \<notin> set (join_tab fs) \<and> CR \<notin> set (join_tab fs)"
  using assms by (intro conjI not_in_join_tab) (auto simp: plain_field_def)

lemma split_plain:
  "fs \<noteq> [] \<Longrightarrow> \<forall>f \<in> set fs. plain_field f \<Longrightarrow> split_on TAB (join_tab fs) = fs"
  by (rule split_on_join_tab) (auto simp: plain_field_def)

text \<open>Sorting a map's entries by key only fixes the iteration order.\<close>

lemma hm_wf_sort_key [simp]: "hm_wf (sort_key f m) \<longleftrightarrow> hm_wf m"
  by (simp add: hm_wf_def distinct_map inj_on_def)

lemma hm_get_sort_key [simp]: "hm_wf m \<Longrightarrow> hm_get (sort_key f m) = hm_get m"
  by (intro map_of_inject_set [THEN iffD2]) (auto simp: hm_wf_def distinct_map inj_on_def)

section \<open>Capped exponential back-off\<close>

text \<open>
  \<open>hold n\<close> is the delay after \<open>n\<close> consecutive failures. The clients count failures per key and
  clear the count on success.
\<close>

locale capped_backoff =
  fixes hold :: "nat \<Rightarrow> nat" and base :: nat and cap :: nat
  assumes hold_first: "hold (Suc 0) = base"
    and hold_step: "1 \<le> n \<Longrightarrow> hold (Suc n) = min (2 * hold n) cap"
    and base_le_cap: "base \<le> cap" and base_pos: "0 < base"
begin

lemma hold_le_cap: "1 \<le> n \<Longrightarrow> hold n \<le> cap"
  by (induction n rule: nat_induct_at_least) (auto simp: hold_first base_le_cap hold_step)

lemma hold_closed_form: "1 \<le> n \<Longrightarrow> hold n = min (base * 2 ^ (n - 1)) cap"
proof (induction n rule: nat_induct_at_least)
  case base
  then show ?case using base_le_cap by (simp add: hold_first)
next
  case (Suc n)
  then obtain k where k: "n = Suc k" by (cases n) auto
  with Suc have "hold n = min (base * 2 ^ k) cap" by simp
  with k show ?case by (simp add: hold_step min_def)
qed

lemma hold_mono: "1 \<le> m \<Longrightarrow> m \<le> n \<Longrightarrow> hold m \<le> hold n"
proof -
  assume m: "1 \<le> m" "m \<le> n"
  then have "base * 2 ^ (m - 1) \<le> base * 2 ^ (n - 1)" by (simp add: power_increasing diff_le_mono)
  with m show ?thesis by (simp add: hold_closed_form min.coboundedI1)
qed

lemma hold_ge_base: "1 \<le> n \<Longrightarrow> base \<le> hold n"
  using hold_mono [of 1 n] by (simp add: hold_first)

end

section \<open>Registries that survive a crash\<close>

text \<open>
  What the tier changes of \<open>registry.rs\<close> need of the registry they write through: a tier change is
  visible at once, touches no other row, and, when its write succeeded, is what a process started
  after a crash reads; recording a binding is visible at once and leaves the file alone.
\<close>

locale durable_registry =
  fixes ok :: "'s \<Rightarrow> bool" and look :: "'s \<Rightarrow> 'k \<Rightarrow> 'r option" and after_crash :: "'s \<Rightarrow> 'k \<Rightarrow> 'r option"
    and change :: "bool \<Rightarrow> 'k \<Rightarrow> 't \<Rightarrow> 's \<Rightarrow> 's" and retier :: "'t \<Rightarrow> 'r \<Rightarrow> 'r"
    and bind :: "'k \<Rightarrow> 'v \<Rightarrow> 's \<Rightarrow> 's" and bound :: "'v \<Rightarrow> 'r \<Rightarrow> bool"
  assumes change_look: "look (change b k t s) = (look s)(k := map_option (retier t) (look s k))"
    and change_durable: "ok s \<Longrightarrow> look s k \<noteq> None \<Longrightarrow> after_crash (change True k t s) = look (change True k t s)"
    and change_missing: "look s k = None \<Longrightarrow> change b k t s = s"
    and bind_look: "\<exists>r. bound v r \<and> look (bind k v s) = (look s)(k \<mapsto> r)"
    and bind_lags: "after_crash (bind k v s) = after_crash s"
begin

lemma change_survives:
  "ok s \<Longrightarrow> look s k = Some r \<Longrightarrow>
     look (change True k t s) k = Some (retier t r) \<and> after_crash (change True k t s) k = Some (retier t r)"
  by (simp add: change_look change_durable)

lemma change_other: "j \<noteq> k \<Longrightarrow> look (change b k t s) j = look s j"
  by (simp add: change_look)

end

end
