(* ===== verification/Dedicated.thy ===== *)
theory Dedicated
  imports Interfaces
begin

text \<open>
  \<open>src/src/dedicated.rs\<close>: the provisioned \<open>(database, role, password)\<close> credentials. The state is the
  in-memory map keyed by database name and the contents of the credential file (\<open>None\<close> when there is
  no file). A write of the file is a temp file plus a rename, so a failed write (\<open>disk_ok = False\<close>)
  leaves the old contents. The clock (\<open>now\<close>, unix seconds) and the bytes of \<open>/dev/urandom\<close> are arguments.
\<close>

record credential =
  cred_database :: string
  role :: string
  password :: string
  created_at :: u64

record credentials =
  by_database :: "(string, credential) hashmap"
  cred_file :: "string option"

datatype cred_error =
    NameRequired string
  | NameTooLong string string
  | NameBadStart string string
  | NameBadChars string string
  | NameReservedPrefix string string
  | ReservedDatabase string
  | ReservedRole string
  | PasswordTooShort
  | PasswordTooLong
  | PasswordNotGraphic
  | AlreadyProvisioned string
  | TooManyRecords
  | RoleTaken string string
  | PersistFailed
  | UrandomFailed
  | ExistingSchema string

definition MAX_RECORDS :: nat where "MAX_RECORDS = 512"
definition GENERATED_PASSWORD_LEN :: nat where "GENERATED_PASSWORD_LEN = 24"
definition MIN_PASSWORD_LEN :: nat where "MIN_PASSWORD_LEN = 12"
definition MAX_PASSWORD_LEN :: nat where "MAX_PASSWORD_LEN = 128"

definition ALPHABET :: string where
  "ALPHABET = ''ABCDEFGHIJKLMNOPQRSTUVWXYZabcdefghijklmnopqrstuvwxyz0123456789-_''"

definition RESERVED_DATABASES :: "string list" where
  "RESERVED_DATABASES = [''postgres'', ''template0'', ''template1'']"

definition RESERVED_ROLES :: "string list" where
  "RESERVED_ROLES = [''postgres'', ''root'']"

section \<open>Validation\<close>

definition ident_char :: "char \<Rightarrow> bool" where
  "ident_char c \<longleftrightarrow> is_ascii_lowercase c \<or> is_ascii_digit c \<or> c = CHR ''_''"

definition validate_identifier :: "string \<Rightarrow> string \<Rightarrow> cred_error + string" where
  "validate_identifier s0 what =
     (let s = rust_trim s0 in
      if s = [] then Inl (NameRequired what)
      else if length s > 63 then Inl (NameTooLong what s)
      else if \<not> is_ascii_lowercase (hd s) then Inl (NameBadStart what s)
      else if \<not> list_all ident_char s then Inl (NameBadChars what s)
      else if starts_with ''pg_'' s \<or> starts_with ''spare'' s then Inl (NameReservedPrefix what s)
      else Inr s)"

definition validate_password :: "string \<Rightarrow> cred_error + unit" where
  "validate_password p =
     (if length p < MIN_PASSWORD_LEN then Inl PasswordTooShort
      else if length p > MAX_PASSWORD_LEN then Inl PasswordTooLong
      else if \<not> list_all is_ascii_graphic p then Inl PasswordNotGraphic
      else Inr ())"

text \<open>\<open>urandom\<close> is what \<open>read_exact\<close> of the buffer returned, \<open>None\<close> on an I/O error.\<close>

definition generate_password :: "bytes option \<Rightarrow> cred_error + string" where
  "generate_password urandom =
     (case urandom of
        None \<Rightarrow> Inl UrandomFailed
      | Some buf \<Rightarrow> Inr (map (\<lambda>b. ALPHABET ! (code b AND 0x3f)) buf))"

section \<open>The file format\<close>

definition cred_line :: "credential \<Rightarrow> string" where
  "cred_line c = join_tab [cred_database c, role c, password c, show_nat (created_at c)]"

definition cred_serialize :: "(string, credential) hashmap \<Rightarrow> string" where
  "cred_serialize m =
     concat (map (\<lambda>c. cred_line c @ [NEWLINE]) (sort_key cred_database (map snd m)))"

definition cred_parse_line :: "string \<Rightarrow> (string \<times> credential) option" where
  "cred_parse_line line =
     (if rust_trim line = [] then None
      else case split_on TAB line of
             d # r # p # rest \<Rightarrow>
               if d = [] \<or> r = [] \<or> p = [] then None
               else Some (d, \<lparr>cred_database = d, role = r, password = p,
                              created_at = (case rest of
                                  [] \<Rightarrow> 0
                                | v # _ \<Rightarrow> (case rust_parse_u64 v of None \<Rightarrow> 0 | Some n \<Rightarrow> n))\<rparr>)
           | _ \<Rightarrow> None)"

definition cred_parse :: "string \<Rightarrow> (string, credential) hashmap" where
  "cred_parse s = decode_lines cred_parse_line s"

definition cred_load :: "string option \<Rightarrow> credentials" where
  "cred_load file =
     \<lparr>by_database = (case file of None \<Rightarrow> [] | Some s \<Rightarrow> cred_parse s), cred_file = file\<rparr>"

section \<open>Lookups and the routing rule\<close>

definition by_role :: "credentials \<Rightarrow> string \<Rightarrow> credential option" where
  "by_role cs r = map_option snd (List.find (\<lambda>(_, c). role c = r) (by_database cs))"

definition is_dedicated :: "credentials \<Rightarrow> string \<Rightarrow> bool" where
  "is_dedicated cs d \<longleftrightarrow> hm_get (by_database cs) d \<noteq> None"

definition challenge_password :: "credentials \<Rightarrow> string \<Rightarrow> string option \<Rightarrow> string option" where
  "challenge_password cs r shared =
     (case by_role cs r of Some c \<Rightarrow> Some (password c) | None \<Rightarrow> shared)"

definition quoted :: "string \<Rightarrow> string" where
  "quoted s = CHR 0x22 # s @ [CHR 0x22]"

definition authorize :: "credentials \<Rightarrow> string \<Rightarrow> string \<Rightarrow> string + unit" where
  "authorize cs r d =
     (case by_role cs r of
        Some c \<Rightarrow>
          if cred_database c = d then Inr ()
          else Inl (''role '' @ quoted r @ '' is provisioned for database '' @ quoted (cred_database c)
                    @ '' only and cannot open or create any other database'')
      | None \<Rightarrow>
          if is_dedicated cs d
          then Inl (''database '' @ quoted d @ '' is dedicated and can only be opened by its own role'')
          else Inr ())"

text \<open>The password-free listing, sorted by database name.\<close>

definition cred_list :: "credentials \<Rightarrow> (string \<times> string \<times> u64) list" where
  "cred_list cs =
     sort_key fst (map (\<lambda>(_, c). (cred_database c, role c, created_at c)) (by_database cs))"

section \<open>Provisioning and revoking\<close>

definition cred_persist :: "bool \<Rightarrow> string \<Rightarrow> credentials \<Rightarrow> bool \<times> credentials" where
  "cred_persist disk_ok snapshot cs =
     (if disk_ok then (True, cs\<lparr>cred_file := Some snapshot\<rparr>) else (False, cs))"

text \<open>The validated record is inserted under the map lock; the snapshot is taken before it is released.\<close>

definition cred_insert ::
  "u64 \<Rightarrow> string \<Rightarrow> string \<Rightarrow> string \<Rightarrow> credentials \<Rightarrow> cred_error + credential \<times> string \<times> credentials" where
  "cred_insert now database0 role0 pw cs =
     (case validate_identifier database0 ''database'' of
        Inl e \<Rightarrow> Inl e
      | Inr d \<Rightarrow> (case validate_identifier role0 ''role'' of
          Inl e \<Rightarrow> Inl e
        | Inr r \<Rightarrow>
            if d \<in> set RESERVED_DATABASES then Inl (ReservedDatabase d)
            else if r \<in> set RESERVED_ROLES then Inl (ReservedRole r)
            else (case validate_password pw of
              Inl e \<Rightarrow> Inl e
            | Inr _ \<Rightarrow>
                let rec = \<lparr>cred_database = d, role = r, password = pw, created_at = now\<rparr>;
                    m = by_database cs
                in if hm_get m d \<noteq> None then Inl (AlreadyProvisioned d)
                   else if length m \<ge> MAX_RECORDS then Inl TooManyRecords
                   else (case List.find (\<lambda>(_, c). role c = r) m of
                           Some (_, other) \<Rightarrow> Inl (RoleTaken r (cred_database other))
                         | None \<Rightarrow>
                             let m' = hm_insert d rec m
                             in Inr (rec, cred_serialize m', cs\<lparr>by_database := m'\<rparr>)))))"

definition cred_create ::
  "u64 \<Rightarrow> bool \<Rightarrow> string \<Rightarrow> string \<Rightarrow> string \<Rightarrow> credentials \<Rightarrow> (cred_error + credential) \<times> credentials" where
  "cred_create now disk_ok database0 role0 pw cs =
     (case cred_insert now database0 role0 pw cs of
        Inl e \<Rightarrow> (Inl e, cs)
      | Inr (rec, snapshot, cs1) \<Rightarrow>
          (case cred_persist disk_ok snapshot cs1 of
             (True, cs2) \<Rightarrow> (Inr rec, cs2)
           | (False, cs2) \<Rightarrow>
               (Inl PersistFailed,
                cs2\<lparr>by_database := hm_remove (cred_database rec) (by_database cs2)\<rparr>)))"

definition cred_remove :: "bool \<Rightarrow> string \<Rightarrow> credentials \<Rightarrow> (cred_error + bool) \<times> credentials" where
  "cred_remove disk_ok d cs =
     (if hm_get (by_database cs) d = None then (Inr False, cs)
      else let m' = hm_remove d (by_database cs);
               cs1 = cs\<lparr>by_database := m'\<rparr>
           in case cred_persist disk_ok (cred_serialize m') cs1 of
                (True, cs2) \<Rightarrow> (Inr True, cs2)
              | (False, cs2) \<Rightarrow> (Inl PersistFailed, cs2))"

section \<open>What validation guarantees\<close>

definition ident_ok :: "string \<Rightarrow> bool" where
  "ident_ok s \<longleftrightarrow> s \<noteq> [] \<and> length s \<le> 63 \<and> is_ascii_lowercase (hd s) \<and> list_all ident_char s
     \<and> \<not> starts_with ''pg_'' s \<and> \<not> starts_with ''spare'' s"

definition password_ok :: "string \<Rightarrow> bool" where
  "password_ok p \<longleftrightarrow> MIN_PASSWORD_LEN \<le> length p \<and> length p \<le> MAX_PASSWORD_LEN
     \<and> list_all is_ascii_graphic p"

definition cred_ok :: "string \<Rightarrow> credential \<Rightarrow> bool" where
  "cred_ok k c \<longleftrightarrow> k = cred_database c \<and> ident_ok k \<and> ident_ok (role c)
     \<and> k \<notin> set RESERVED_DATABASES \<and> role c \<notin> set RESERVED_ROLES
     \<and> password_ok (password c) \<and> created_at c < U64_LIMIT"

lemma validate_identifier_Inr:
  "validate_identifier s0 what = Inr s \<longleftrightarrow> s = rust_trim s0 \<and> ident_ok s"
  by (auto simp: validate_identifier_def ident_ok_def Let_def not_less split: if_splits)

lemma validate_password_Inr: "validate_password p = Inr u \<longleftrightarrow> password_ok p"
  by (auto simp: validate_password_def password_ok_def split: if_splits)

lemma ident_char_graphic: "ident_char c \<Longrightarrow> is_ascii_graphic c"
  by (auto simp: ident_char_def is_ascii_graphic_def is_ascii_lowercase_def is_ascii_digit_def code_def)

lemma ident_ok_graphic: "ident_ok s \<Longrightarrow> c \<in> set s \<Longrightarrow> is_ascii_graphic c"
  by (auto simp: ident_ok_def list_all_iff intro: ident_char_graphic)

lemma ident_ok_plain: "ident_ok s \<Longrightarrow> plain_field s"
  by (rule plain_field_graphic) (rule ident_ok_graphic)

lemma password_ok_plain: "password_ok p \<Longrightarrow> plain_field p"
  by (rule plain_field_graphic) (simp add: password_ok_def list_all_iff)

lemma ident_ok_trim: "ident_ok s \<Longrightarrow> rust_trim s = s"
  by (rule rust_trim_ends) (auto simp: ident_ok_def intro: ident_ok_graphic [unfolded ident_ok_def])

lemma cred_line_plain: "cred_ok k c \<Longrightarrow>
   \<forall>f \<in> set [cred_database c, role c, password c, show_nat (created_at c)]. plain_field f"
  by (auto simp: cred_ok_def ident_ok_plain password_ok_plain)

lemma join_tab_not_Nil: "fs \<noteq> [] \<Longrightarrow> last fs \<noteq> [] \<Longrightarrow> join_tab fs \<noteq> []"
  by (cases fs rule: join_tab.cases) auto

lemma last_join_tab: "fs \<noteq> [] \<Longrightarrow> last fs \<noteq> [] \<Longrightarrow> last (join_tab fs) = last (last fs)"
  by (induction fs rule: join_tab.induct) (auto simp: join_tab_not_Nil)

lemma digit_graphic: "is_ascii_digit c \<Longrightarrow> is_ascii_graphic c"
  by (simp add: is_ascii_digit_def is_ascii_graphic_def)

lemma cred_line_trim:
  assumes "cred_ok k c"
  shows "rust_trim (cred_line c) = cred_line c" "cred_line c \<noteq> []"
proof -
  let ?fs = "[cred_database c, role c, password c, show_nat (created_at c)]"
  show ne: "cred_line c \<noteq> []" by (simp add: cred_line_def)
  have "cred_database c \<noteq> []" "is_ascii_graphic (hd (cred_database c))"
    using assms by (auto simp: cred_ok_def ident_ok_def intro: ident_ok_graphic)
  then have "is_ascii_graphic (hd (cred_line c))" by (simp add: cred_line_def)
  moreover have "last (cred_line c) = last (show_nat (created_at c))"
    using last_join_tab [of ?fs] by (simp add: cred_line_def)
  ultimately show "rust_trim (cred_line c) = cred_line c"
    using ne by (intro rust_trim_ends) (auto intro!: digit_graphic show_nat_digits [of _ "created_at c"])
qed

interpretation cred: line_codec "\<lambda>_ c. cred_line c" cred_parse_line cred_ok
proof unfold_locales
  fix k c assume ok: "cred_ok k c"
  show "NEWLINE \<notin> set (cred_line c) \<and> CR \<notin> set (cred_line c)"
    unfolding cred_line_def by (rule plain_line) (rule cred_line_plain [OF ok])
  have "split_on TAB (cred_line c) = [cred_database c, role c, password c, show_nat (created_at c)]"
    unfolding cred_line_def by (rule split_plain) (simp, rule cred_line_plain [OF ok])
  moreover have "cred_database c \<noteq> []" "role c \<noteq> []" "password c \<noteq> []" "k = cred_database c"
    using ok by (auto simp: cred_ok_def ident_ok_def password_ok_def MIN_PASSWORD_LEN_def)
  ultimately show "cred_parse_line (cred_line c) = Some (k, c)"
    using ok cred_line_trim [OF ok] by (simp add: cred_parse_line_def cred_ok_def rust_parse_u64_show_nat)
qed

section \<open>The credential map\<close>

text \<open>
  \<open>creds_ok\<close> is the invariant of the map: every record is validated and stored under its own
  database name, no two records share a role, and the cap on the number of records holds.
\<close>

definition creds_ok :: "(string, credential) hashmap \<Rightarrow> bool" where
  "creds_ok m \<longleftrightarrow> hm_wf m \<and> length m \<le> MAX_RECORDS \<and> (\<forall>(k, c) \<in> set m. cred_ok k c)
     \<and> (\<forall>(k, c) \<in> set m. \<forall>(k', c') \<in> set m. role c = role c' \<longrightarrow> k = k')"

lemma creds_ok_Nil [simp]: "creds_ok []"
  by (simp add: creds_ok_def)

lemma creds_okD:
  assumes "creds_ok m"
  shows "hm_wf m" "hm_get m k = Some c \<Longrightarrow> cred_ok k c"
    "hm_get m k = Some c \<Longrightarrow> hm_get m k' = Some c' \<Longrightarrow> role c = role c' \<Longrightarrow> k = k'"
  using assms by (auto simp: creds_ok_def dest!: map_of_SomeD)

lemma creds_ok_same_get:
  "creds_ok m \<Longrightarrow> hm_wf m' \<Longrightarrow> hm_get m' = hm_get m \<Longrightarrow> creds_ok m'"
  using hm_same_get [of m m'] by (simp add: creds_ok_def)

lemma creds_ok_remove: "creds_ok m \<Longrightarrow> creds_ok (hm_remove k m)"
  using length_hm_remove [of k m] by (auto simp: creds_ok_def set_hm_remove)

lemma creds_ok_insert:
  assumes "creds_ok m" "cred_ok k c" "hm_get m k = None" "length m < MAX_RECORDS"
    and "\<And>k' c'. hm_get m k' = Some c' \<Longrightarrow> role c' \<noteq> role c"
  shows "creds_ok (hm_insert k c m)"
proof -
  have wf: "hm_wf (hm_insert k c m)" using assms(1) by (simp add: creds_ok_def)
  have mem: "(k', c') \<in> set (hm_insert k c m) \<longleftrightarrow> (k' = k \<and> c' = c) \<or> (k' \<noteq> k \<and> hm_get m k' = Some c')"
    for k' c' by (auto simp: hm_in_set [OF wf])
  show ?thesis
    using assms(2-4) wf creds_okD [OF assms(1)] assms(5)
    by (auto simp: creds_ok_def [of "hm_insert k c m"] mem length_hm_insert dest: assms(5) [THEN not_sym])
qed

lemma cred_serialize_encode:
  "cred_serialize m = encode_lines (\<lambda>_ c. cred_line c)
     (map (\<lambda>c. (cred_database c, c)) (sort_key cred_database (map snd m)))"
  by (simp add: cred_serialize_def encode_lines_def comp_def)

lemma sorted_records_same:
  assumes "creds_ok m"
  defines "m' \<equiv> map (\<lambda>c. (cred_database c, c)) (sort_key cred_database (map snd m))"
  shows "hm_wf m'" "hm_get m' = hm_get m"
proof -
  have keys: "map (\<lambda>c. cred_database c) (map snd m) = map fst m"
    using assms(1) by (auto simp: creds_ok_def cred_ok_def)
  have "distinct (map fst m)" using assms(1) by (simp add: creds_ok_def hm_wf_def)
  then have d: "distinct (map cred_database (map snd m))" by (simp only: keys)
  then have "distinct (map cred_database (sort_key cred_database (map snd m)))"
    by (simp only: distinct_map distinct_sort set_sort)
  then show wf: "hm_wf m'" by (simp add: m'_def hm_wf_def comp_def)
  have "set m' = (\<lambda>c. (cred_database c, c)) ` snd ` set m" by (simp add: m'_def)
  also have "\<dots> = (\<lambda>x. (cred_database (snd x), snd x)) ` set m" by (simp add: image_image)
  also have "\<dots> = (\<lambda>x. x) ` set m"
    using assms(1) by (intro image_cong) (auto simp: creds_ok_def cred_ok_def)
  finally have "set m' = set m" by simp
  then show "hm_get m' = hm_get m"
    using map_of_inject_set [of m' m] wf assms(1) by (simp add: hm_wf_def creds_ok_def)
qed

lemma cred_parse_serialize:
  assumes "creds_ok m"
  shows "hm_get (cred_parse (cred_serialize m)) = hm_get m" "creds_ok (cred_parse (cred_serialize m))"
proof -
  note s = sorted_records_same [OF assms]
  have "\<forall>(k, c) \<in> set (map (\<lambda>c. (cred_database c, c)) (sort_key cred_database (map snd m))). cred_ok k c"
    using creds_okD(2) [OF assms] s(2) by (auto simp: hm_in_set [OF s(1)] simp del: set_map)
  then show g: "hm_get (cred_parse (cred_serialize m)) = hm_get m"
    using cred.decode_encode s by (simp add: cred_parse_def cred_serialize_encode)
  show "creds_ok (cred_parse (cred_serialize m))"
    by (rule creds_ok_same_get [OF assms _ g]) (simp add: cred_parse_def)
qed

lemma by_role_iff:
  assumes "creds_ok (by_database cs)"
  shows "by_role cs r = Some c \<longleftrightarrow> (\<exists>k. hm_get (by_database cs) k = Some c \<and> role c = r)"
proof
  assume "by_role cs r = Some c"
  then show "\<exists>k. hm_get (by_database cs) k = Some c \<and> role c = r"
    using hm_in_set [OF creds_okD(1) [OF assms]]
    by (force simp: by_role_def find_Some_iff in_set_conv_nth)
next
  assume "\<exists>k. hm_get (by_database cs) k = Some c \<and> role c = r"
  then obtain k where k: "hm_get (by_database cs) k = Some c" "role c = r" by blast
  then have "List.find (\<lambda>(_, c). role c = r) (by_database cs) \<noteq> None"
    by (auto simp: find_None_iff dest!: map_of_SomeD)
  then obtain k' c' where f: "List.find (\<lambda>(_, c). role c = r) (by_database cs) = Some (k', c')" by auto
  then have "hm_get (by_database cs) k' = Some c'" "role c' = r"
    using hm_in_set [OF creds_okD(1) [OF assms]] by (force simp: find_Some_iff in_set_conv_nth)+
  with k creds_okD(3) [OF assms] have "k = k'" by blast
  with k \<open>hm_get _ k' = Some c'\<close> f show "by_role cs r = Some c" by (simp add: by_role_def)
qed

lemma by_role_None:
  assumes "creds_ok (by_database cs)"
  shows "by_role cs r = None \<longleftrightarrow> (\<forall>k c. hm_get (by_database cs) k = Some c \<longrightarrow> role c \<noteq> r)"
  by (metis assms by_role_iff option.exhaust option.distinct(1))

lemma authorize_Inr_iff:
  assumes "creds_ok (by_database cs)"
  shows "authorize cs r d = Inr () \<longleftrightarrow>
    (\<forall>k c. hm_get (by_database cs) k = Some c \<longrightarrow> (role c = r \<longleftrightarrow> k = d))"
proof (cases "by_role cs r")
  case None
  then show ?thesis
    using by_role_None [OF assms, of r] by (auto simp: authorize_def is_dedicated_def)
next
  case (Some c)
  then obtain k where k: "hm_get (by_database cs) k = Some c" "role c = r"
    using by_role_iff [OF assms, of r c] by blast
  then have "cred_database c = k" using creds_okD(2) [OF assms, of k c] by (simp add: cred_ok_def)
  moreover have "role c' = r \<longleftrightarrow> k' = k" if "hm_get (by_database cs) k' = Some c'" for k' c'
    using creds_okD(3) [OF assms that k(1)] that k by auto
  ultimately show ?thesis
    using Some k(1) by (cases "k = d") (force simp: authorize_def)+
qed

section \<open>Operations keep the invariant\<close>

lemma cred_insert_Inr:
  assumes "cred_insert now d0 r0 pw cs = Inr (rec, snap, cs')" "creds_ok (by_database cs)"
    and "now < U64_LIMIT"
  shows "creds_ok (by_database cs')" "snap = cred_serialize (by_database cs')"
    "by_database cs' = hm_insert (cred_database rec) rec (by_database cs)"
    "cred_file cs' = cred_file cs" "hm_get (by_database cs) (cred_database rec) = None"
    "cred_database rec = rust_trim d0" "role rec = rust_trim r0" "password rec = pw"
    "cred_ok (cred_database rec) rec"
proof -
  let ?d = "rust_trim d0" and ?r = "rust_trim r0"
  have 1: "ident_ok ?d" "ident_ok ?r" "?d \<notin> set RESERVED_DATABASES" "?r \<notin> set RESERVED_ROLES"
    "password_ok pw" "hm_get (by_database cs) ?d = None" "length (by_database cs) < MAX_RECORDS"
    "List.find (\<lambda>(_, c). role c = ?r) (by_database cs) = None"
    and rec: "rec = \<lparr>cred_database = ?d, role = ?r, password = pw, created_at = now\<rparr>"
    and cs': "cs' = cs\<lparr>by_database := hm_insert ?d rec (by_database cs)\<rparr>"
    and "snap = cred_serialize (by_database cs')"
    using assms(1)
    by (auto simp: cred_insert_def Let_def validate_identifier_Inr validate_password_Inr
        split: sum.splits if_splits option.splits)
  then show "snap = cred_serialize (by_database cs')"
    "by_database cs' = hm_insert (cred_database rec) rec (by_database cs)"
    "cred_file cs' = cred_file cs" "hm_get (by_database cs) (cred_database rec) = None"
    "cred_database rec = ?d" "role rec = ?r" "password rec = pw"
    by simp_all
  show ok: "cred_ok (cred_database rec) rec" using 1 assms(3) by (simp add: cred_ok_def rec)
  have "role c' \<noteq> ?r" if "hm_get (by_database cs) k' = Some c'" for k' c'
    using 1(8) that by (auto simp: find_None_iff dest!: map_of_SomeD)
  then show "creds_ok (by_database cs')"
    unfolding cs' using creds_ok_insert [OF assms(2) ok] 1 rec by simp
qed

definition cred_inv :: "credentials \<Rightarrow> bool" where
  "cred_inv cs \<longleftrightarrow> creds_ok (by_database cs)
     \<and> (\<forall>s. cred_file cs = Some s \<longrightarrow> creds_ok (cred_parse s))"

lemma cred_inv_create:
  assumes "cred_inv cs" "now < U64_LIMIT"
  shows "cred_inv (snd (cred_create now disk_ok d r p cs))"
proof (cases "cred_insert now d r p cs")
  case (Inl e)
  then show ?thesis using assms by (simp add: cred_create_def)
next
  case (Inr x)
  then obtain rec snap cs' where x: "cred_insert now d r p cs = Inr (rec, snap, cs')"
    by (cases x) auto
  have ok: "creds_ok (by_database cs)" using assms(1) by (simp add: cred_inv_def)
  show ?thesis
    using cred_insert_Inr [OF x ok assms(2)] assms(1) x
    by (cases disk_ok)
      (auto simp: cred_create_def cred_persist_def cred_inv_def cred_parse_serialize creds_ok_remove)
qed

lemma cred_inv_remove: "cred_inv cs \<Longrightarrow> cred_inv (snd (cred_remove disk_ok d cs))"
  by (auto simp: cred_remove_def cred_persist_def cred_inv_def Let_def cred_parse_serialize
      creds_ok_remove)

lemma cred_inv_load:
  "(\<forall>s. file = Some s \<longrightarrow> creds_ok (cred_parse s)) \<Longrightarrow> cred_inv (cred_load file)"
  by (auto simp: cred_inv_def cred_load_def split: option.splits)

text \<open>
  A process life: operators provision and revoke, with or without a working disk, and the
  process may restart at any point and reload the file.
\<close>

inductive cred_step :: "credentials \<Rightarrow> credentials \<Rightarrow> bool" where
  create: "now < U64_LIMIT \<Longrightarrow> cred_step cs (snd (cred_create now disk_ok d r p cs))"
| remove: "cred_step cs (snd (cred_remove disk_ok d cs))"
| restart: "cred_step cs (cred_load (cred_file cs))"

interpretation cred_life: inductive_invariant "\<lambda>cs. cs = cred_load None" cred_step cred_inv
proof unfold_locales
  show "cs = cred_load None \<Longrightarrow> cred_inv cs" for cs by (simp add: cred_inv_load)
  show "cred_inv s \<Longrightarrow> cred_step s t \<Longrightarrow> cred_inv t" for s t
    by (auto elim!: cred_step.cases intro: cred_inv_create cred_inv_remove cred_inv_load
        simp: cred_inv_def [of s])
qed

abbreviation cred_reachable :: "credentials \<Rightarrow> bool" where
  "cred_reachable \<equiv> run_of (\<lambda>cs. cs = cred_load None) cred_step"

lemma cred_reachable_ok: "cred_reachable cs \<Longrightarrow> creds_ok (by_database cs)"
  using cred_life.reachable_inv by (simp add: cred_inv_def)

section \<open>Properties\<close>

lemma challenge_reload:
  assumes "creds_ok (by_database cs)"
  shows "by_role (cred_load (Some (cred_serialize (by_database cs)))) r = by_role cs r"
    "hm_get (by_database (cred_load (Some (cred_serialize (by_database cs))))) = hm_get (by_database cs)"
proof -
  let ?cs = "cred_load (Some (cred_serialize (by_database cs)))"
  show g: "hm_get (by_database ?cs) = hm_get (by_database cs)"
    using cred_parse_serialize(1) [OF assms] by (simp add: cred_load_def)
  have "creds_ok (by_database ?cs)"
    using cred_parse_serialize(2) [OF assms] by (simp add: cred_load_def)
  then have "by_role ?cs r = Some c \<longleftrightarrow> by_role cs r = Some c" for c
    using assms g by (simp add: by_role_iff)
  then show "by_role ?cs r = by_role cs r" by (metis not_None_eq)
qed

lemma authorize_own:
  assumes "creds_ok (by_database cs)" "by_role cs r = Some c"
  shows "authorize cs r d = Inr () \<longleftrightarrow> d = cred_database c"
  using assms(2) by (auto simp: authorize_def)

text \<open>
  C8: A credential is confined to its database, and a dedicated database to its credential. In
  every state the process can reach by provisioning, revoking (with or without disk errors) and
  restarting, a client with role \<open>r\<close> may open database \<open>d\<close> exactly when every stored credential
  that has the role \<open>r\<close> is for \<open>d\<close> and every stored credential for \<open>d\<close> has the role \<open>r\<close>.
\<close>

theorem authorize_confines:
  assumes "cred_reachable cs"
  shows "authorize cs r d = Inr () \<longleftrightarrow>
    (\<forall>k c. hm_get (by_database cs) k = Some c \<longrightarrow> (role c = r \<longleftrightarrow> k = d))"
  by (rule authorize_Inr_iff [OF cred_reachable_ok [OF assms]])

lemma cred_insert_ok:
  fixes now :: u64
  assumes "ident_ok d" "ident_ok r" "d \<notin> set RESERVED_DATABASES" "r \<notin> set RESERVED_ROLES" "password_ok p"
    "hm_get (by_database cs) d = None" "length (by_database cs) < MAX_RECORDS"
    "\<forall>(k, c) \<in> set (by_database cs). role c \<noteq> r"
  defines "rec \<equiv> \<lparr>cred_database = d, role = r, password = p, created_at = now\<rparr>"
  defines "m \<equiv> hm_insert d rec (by_database cs)"
  shows "cred_insert now d r p cs = Inr (rec, cred_serialize m, cs\<lparr>by_database := m\<rparr>)"
proof -
  have "validate_identifier d ''database'' = Inr d" "validate_identifier r ''role'' = Inr r"
    "validate_password p = Inr ()"
    using assms(1,2,5) by (simp_all add: validate_identifier_Inr validate_password_Inr ident_ok_trim)
  moreover have "List.find (\<lambda>(_, c). role c = r) (by_database cs) = None"
    using assms(8) by (auto simp: find_None_iff)
  ultimately show ?thesis
    using assms(3,4,6,7) by (simp add: cred_insert_def Let_def rec_def m_def)
qed

lemmas ident_eval = ident_ok_def ident_char_def is_ascii_lowercase_def is_ascii_digit_def
  is_ascii_graphic_def starts_with_def code_def RESERVED_DATABASES_def RESERVED_ROLES_def
  password_ok_def MIN_PASSWORD_LEN_def MAX_PASSWORD_LEN_def MAX_RECORDS_def

definition acme :: credentials where
  "acme = snd (cred_create 7 True ''acme'' ''acme_app'' ''correct-horse'' (cred_load None))"

abbreviation acme_cred :: credential where
  "acme_cred \<equiv> \<lparr>cred_database = ''acme'', role = ''acme_app'', password = ''correct-horse'', created_at = 7\<rparr>"

lemma acme_reachable: "cred_reachable acme"
proof -
  have "cred_reachable (cred_load None)" by (rule run_init) (rule refl)
  then show ?thesis unfolding acme_def by (rule run_step) (rule cred_step.create, simp)
qed

lemma acme_inserts:
  "cred_insert 7 ''acme'' ''acme_app'' ''correct-horse'' (cred_load None) =
    Inr (acme_cred, cred_serialize [(''acme'', acme_cred)], \<lparr>by_database = [(''acme'', acme_cred)], cred_file = None\<rparr>)"
  by (subst cred_insert_ok) (simp_all add: ident_eval cred_load_def hm_insert_def)

lemma acme_creates:
  "cred_create 7 True ''acme'' ''acme_app'' ''correct-horse'' (cred_load None) = (Inr acme_cred, acme)"
  unfolding acme_def by (simp add: cred_create_def acme_inserts cred_persist_def)

lemma acme_eq: "acme = \<lparr>by_database = [(''acme'', acme_cred)],
    cred_file = Some (cred_serialize [(''acme'', acme_cred)])\<rparr>"
  unfolding acme_def by (simp add: cred_create_def acme_inserts cred_persist_def)

theorem authorize_confines_witness:
  "authorize acme ''acme_app'' ''acme'' = Inr () \<and> authorize acme ''acme_app'' ''other'' \<noteq> Inr ()
   \<and> authorize acme ''postgres'' ''acme'' \<noteq> Inr () \<and> authorize acme ''postgres'' ''other'' = Inr ()"
  unfolding authorize_confines [OF acme_reachable] by (simp add: acme_eq)

text \<open>
  C37: A provisioned credential survives a restart. Let changes of the credentials run one at a time,
  each with a write that may fail, and restarts between them. When a provisioning then reports success,
  a process started from the file it left challenges that role for exactly the password handed out,
  lets it open its own database and no other, and lets no other role open that database. With two
  provisionings at once this may fail of one of them (\<open>concurrent_creates_lose_one\<close> below).
\<close>

theorem create_survives_restart:
  assumes "cred_reachable cs" "now < U64_LIMIT"
    and "cred_create now disk_ok d r p cs = (Inr rec, cs')"
  shows "challenge_password (cred_load (cred_file cs')) (role rec) shared = Some p
    \<and> (authorize (cred_load (cred_file cs')) (role rec) x = Inr () \<longleftrightarrow> x = cred_database rec)
    \<and> (authorize (cred_load (cred_file cs')) r' (cred_database rec) = Inr () \<longleftrightarrow> r' = role rec)"
proof -
  have ok: "creds_ok (by_database cs)" by (rule cred_reachable_ok [OF assms(1)])
  obtain snap cs1 where i: "cred_insert now d r p cs = Inr (rec, snap, cs1)"
    and f: "disk_ok" "cred_file cs' = Some snap" "by_database cs' = by_database cs1"
    using assms(3)
    by (auto simp: cred_create_def cred_persist_def split: sum.splits prod.splits bool.splits if_splits)
  note ins = cred_insert_Inr [OF i ok assms(2)]
  let ?cs = "cred_load (cred_file cs')"
  have cf: "cred_file cs' = Some (cred_serialize (by_database cs1))" using ins(2) f by simp
  note rl = challenge_reload [OF ins(1), folded cf]
  have okl: "creds_ok (by_database ?cs)"
    using cred_parse_serialize(2) [OF ins(1)] cf by (simp add: cred_load_def)
  have get: "hm_get (by_database ?cs) (cred_database rec) = Some rec"
    using rl(2) ins(3) by simp
  then have br: "by_role ?cs (role rec) = Some rec" using by_role_iff [OF okl] by blast
  then have "challenge_password ?cs (role rec) shared = Some p"
    using ins(8) by (simp add: challenge_password_def)
  moreover have "authorize ?cs r' (cred_database rec) = Inr () \<longleftrightarrow> r' = role rec"
    using authorize_Inr_iff [OF okl, of r' "cred_database rec"] authorize_own [OF okl br] get by metis
  ultimately show ?thesis using authorize_own [OF okl br] by simp
qed

theorem create_survives_restart_witness:
  "challenge_password (cred_load (cred_file acme)) ''acme_app'' (Some ''shared'') = Some ''correct-horse''
   \<and> authorize (cred_load (cred_file acme)) ''acme_app'' ''acme'' = Inr ()
   \<and> authorize (cred_load (cred_file acme)) ''postgres'' ''acme'' \<noteq> Inr ()"
proof -
  have init: "cred_reachable (cred_load None)" by (rule run_init) (rule refl)
  show ?thesis using create_survives_restart [OF init _ acme_creates] by simp
qed

text \<open>
  A provisioning that cannot be persisted leaves nothing behind. When the file cannot be
  written the call fails, and the in-memory credentials and the file are what they were.
\<close>

theorem create_rolls_back:
  "isl (fst (cred_create now False d r p cs))
   \<and> hm_get (by_database (snd (cred_create now False d r p cs))) = hm_get (by_database cs)
   \<and> cred_file (snd (cred_create now False d r p cs)) = cred_file cs"
proof (cases "cred_insert now d r p cs")
  case (Inl e)
  then show ?thesis by (simp add: cred_create_def)
next
  case (Inr x)
  then show ?thesis
    by (auto simp: cred_create_def cred_persist_def cred_insert_def Let_def fun_eq_iff
        split: sum.splits if_splits option.splits)
qed

lemma alphabet_graphic: "list_all is_ascii_graphic ALPHABET"
  by (simp add: ALPHABET_def is_ascii_graphic_def code_def)

lemma alphabet_length: "length ALPHABET = 64"
  by (simp add: ALPHABET_def)

lemma and_63: "(n :: nat) AND 63 = n mod 64"
  using take_bit_eq_mask [of 6 n] by (simp add: mask_eq_exp_minus_1 take_bit_eq_mod)

text \<open>
  Generated passwords are acceptable passwords. From any 24 random bytes the generator makes a
  24-character password over the 64-letter alphabet that passes the same validation as an
  operator's, and every letter of the alphabet is reached by exactly four byte values, so no
  letter is more likely than another.
\<close>

theorem generate_password_valid:
  assumes "length buf = GENERATED_PASSWORD_LEN"
  shows "\<exists>p. generate_password (Some buf) = Inr p \<and> validate_password p = Inr ()
    \<and> length p = GENERATED_PASSWORD_LEN \<and> set p \<subseteq> set ALPHABET
    \<and> (\<forall>i < 64. card {b :: nat. b < 256 \<and> b AND 0x3f = i} = 4)"
proof -
  let ?p = "map (\<lambda>b. ALPHABET ! (code b AND 63)) buf"
  have mem: "ALPHABET ! (code b AND 63) \<in> set ALPHABET" for b
    by (rule nth_mem) (simp add: alphabet_length and_63)
  then have "set ?p \<subseteq> set ALPHABET" by auto
  moreover from this have "list_all is_ascii_graphic ?p"
    using alphabet_graphic by (auto simp: list_all_iff)
  then have "validate_password ?p = Inr ()"
    using assms by (simp add: validate_password_Inr password_ok_def GENERATED_PASSWORD_LEN_def
        MIN_PASSWORD_LEN_def MAX_PASSWORD_LEN_def)
  moreover have "card {b :: nat. b < 256 \<and> b AND 0x3f = i} = 4" if "i < 64" for i
  proof -
    have "b = i \<or> b = i + 64 \<or> b = i + 128 \<or> b = i + 192" if "b < 256" "b mod 64 = i" for b
    proof -
      have "b = 64 * (b div 64) + i" "b div 64 < 4" using that by (auto simp: less_mult_imp_div_less)
      moreover from this have "b div 64 = 0 \<or> b div 64 = 1 \<or> b div 64 = 2 \<or> b div 64 = 3" by linarith
      ultimately show ?thesis by auto
    qed
    then have "{b :: nat. b < 256 \<and> b mod 64 = i} = {i, i + 64, i + 128, i + 192}"
      using that mod_mult_self1 [of i 2 64] mod_mult_self1 [of i 3 64] by auto
    then show ?thesis by (simp add: and_63)
  qed
  ultimately show ?thesis using assms by (simp add: generate_password_def)
qed

theorem generate_password_valid_witness:
  "\<exists>p. generate_password (Some (replicate 24 CHR ''A'')) = Inr p \<and> validate_password p = Inr ()"
  using generate_password_valid [of "replicate 24 CHR ''A''"] by (auto simp: GENERATED_PASSWORD_LEN_def)

text \<open>
  A revocation whose write fails is undone by a restart and cannot be retried. The credential is
  removed from memory before the file is written and is not put back when the write fails: the
  call reports an error, a second revocation then reports that there is nothing to revoke and
  writes nothing, and the restarted process honours the revoked credential again.
\<close>

theorem failed_revocation_resurfaces:
  "fst (cred_remove False ''acme'' acme) = Inl PersistFailed
   \<and> fst (cred_remove True ''acme'' (snd (cred_remove False ''acme'' acme))) = Inr False
   \<and> (let later = snd (cred_remove True ''acme'' (snd (cred_remove False ''acme'' acme)))
      in by_role later ''acme_app'' = None
         \<and> challenge_password (cred_load (cred_file later)) ''acme_app'' None = Some ''correct-horse'')"
proof -
  have ok: "creds_ok [(''acme'', acme_cred)]"
    using cred_reachable_ok [OF acme_reachable] by (simp add: acme_eq)
  have "by_role (cred_load (Some (cred_serialize [(''acme'', acme_cred)]))) ''acme_app'' = Some acme_cred"
    using challenge_reload(1) [of acme "''acme_app''"] ok by (simp add: acme_eq by_role_def)
  then show ?thesis
    by (simp add: acme_eq cred_remove_def cred_persist_def hm_remove_def by_role_def [of "\<lparr>by_database = [], cred_file = f\<rparr>" for f]
        challenge_password_def)
qed

definition two_creates :: credentials where
  "two_creates =
     (case cred_insert 5 ''alpha'' ''alpha'' ''password-one'' (cred_load None) of
        Inr (_, snap1, cs1) \<Rightarrow>
          (case cred_insert 6 ''beta'' ''beta'' ''password-two'' cs1 of
             Inr (_, snap2, cs2) \<Rightarrow>
               snd (cred_persist True snap1 (snd (cred_persist True snap2 cs2)))
           | Inl _ \<Rightarrow> cs1)
      | Inl _ \<Rightarrow> cred_load None)"

lemma two_creates_eq:
  defines "alpha \<equiv> \<lparr>cred_database = ''alpha'', role = ''alpha'', password = ''password-one'', created_at = 5\<rparr>"
    and "beta \<equiv> \<lparr>cred_database = ''beta'', role = ''beta'', password = ''password-two'', created_at = 6\<rparr>"
  shows "two_creates = \<lparr>by_database = [(''alpha'', alpha), (''beta'', beta)],
      cred_file = Some (cred_serialize [(''alpha'', alpha)])\<rparr>"
    and "creds_ok [(''alpha'', alpha)]"
proof -
  have 1: "cred_insert 5 ''alpha'' ''alpha'' ''password-one'' (cred_load None) =
      Inr (alpha, cred_serialize [(''alpha'', alpha)], \<lparr>by_database = [(''alpha'', alpha)], cred_file = None\<rparr>)"
    by (subst cred_insert_ok) (simp_all add: ident_eval cred_load_def hm_insert_def alpha_def)
  have 2: "cred_insert 6 ''beta'' ''beta'' ''password-two'' \<lparr>by_database = [(''alpha'', alpha)], cred_file = None\<rparr> =
      Inr (beta, cred_serialize [(''alpha'', alpha), (''beta'', beta)],
           \<lparr>by_database = [(''alpha'', alpha), (''beta'', beta)], cred_file = None\<rparr>)"
    by (subst cred_insert_ok) (simp_all add: ident_eval hm_insert_def alpha_def beta_def)
  show "two_creates = \<lparr>by_database = [(''alpha'', alpha), (''beta'', beta)],
      cred_file = Some (cred_serialize [(''alpha'', alpha)])\<rparr>"
    by (simp add: two_creates_def 1 2 cred_persist_def)
  show "creds_ok [(''alpha'', alpha)]"
    using cred_insert_Inr(1) [OF 1] by (simp add: cred_load_def)
qed

text \<open>
  Two provisionings can lose one credential. The snapshot is serialised under the map lock but
  written after the lock is released, with nothing to order the writes: when the second
  provisioning's write lands before the first's, both report success, both credentials are
  served, and the restarted process no longer knows the second.
\<close>

theorem concurrent_creates_lose_one:
  "is_dedicated two_creates ''alpha'' \<and> is_dedicated two_creates ''beta''
   \<and> is_dedicated (cred_load (cred_file two_creates)) ''alpha''
   \<and> \<not> is_dedicated (cred_load (cred_file two_creates)) ''beta''"
  using cred_parse_serialize(1) [OF two_creates_eq(2)]
  by (simp add: is_dedicated_def cred_load_def two_creates_eq(1))

end
