(* ===== verification/Store.thy ===== *)
theory Store
  imports Interfaces
begin

text \<open>
  \<open>src/src/store.rs\<close>: the persistent registry \<open>schema \<mapsto> (sandbox id, last activity, tier)\<close>.
  The state holds the in-memory map and the flags of \<open>struct Store\<close>, the contents of the registry
  file, and the detached writes the blocking pool has not run yet (\<open>queue\<close>, any of which may run
  next). A write that fails leaves the file as it was (temp file plus rename). \<open>flush_owed\<close> is the
  control state of the flush loop between clearing \<open>dirty\<close> and taking the map lock.
\<close>

datatype tier = Live | Compacted | Frozen | Archived

record rec =
  sandbox_id :: string
  last_active :: u64
  tier_of :: tier

record store =
  smap :: "(string, rec) hashmap"
  seq :: nat
  written :: nat
  dirty :: bool
  bound_cache :: "string set option"
  sfile :: "string option"
  queue :: "(nat \<times> string) list"
  flush_owed :: bool

definition offloaded :: "rec \<Rightarrow> bool" where
  "offloaded r \<longleftrightarrow> tier_of r \<noteq> Live"

section \<open>The file format\<close>

fun tier_as_str :: "tier \<Rightarrow> string" where
  "tier_as_str Live = ''live''"
| "tier_as_str Compacted = ''compacted''"
| "tier_as_str Frozen = ''frozen''"
| "tier_as_str Archived = ''archived''"

definition tier_parse :: "string \<Rightarrow> tier" where
  "tier_parse s =
     (if s = ''archived'' then Archived else if s = ''frozen'' then Frozen
      else if s = ''compacted'' then Compacted else Live)"

lemma tier_parse_as_str [simp]: "tier_parse (tier_as_str t) = t"
  by (cases t) (simp_all add: tier_parse_def)

definition store_line :: "string \<Rightarrow> rec \<Rightarrow> string" where
  "store_line k v =
     join_tab [k, sandbox_id v, show_nat (last_active v), tier_as_str (tier_of v)]"

definition store_serialize :: "(string, rec) hashmap \<Rightarrow> string" where
  "store_serialize m = encode_lines store_line m"

definition store_parse_line :: "u64 \<Rightarrow> string \<Rightarrow> (string \<times> rec) option" where
  "store_parse_line now line =
     (case split_on TAB line of
        schema # sid # rest \<Rightarrow>
          if schema = [] \<or> sid = [] then None
          else Some (schema,
            \<lparr>sandbox_id = sid,
             last_active = (case rest of
                 [] \<Rightarrow> now
               | v # _ \<Rightarrow> (case rust_parse_u64 v of None \<Rightarrow> now | Some n \<Rightarrow> n)),
             tier_of = tier_parse (case rest of _ # t # _ \<Rightarrow> t | _ \<Rightarrow> ''live'')\<rparr>)
      | _ \<Rightarrow> None)"

definition store_parse :: "u64 \<Rightarrow> string \<Rightarrow> (string, rec) hashmap" where
  "store_parse now s = decode_lines (store_parse_line now) s"

definition store_load :: "u64 \<Rightarrow> string option \<Rightarrow> store" where
  "store_load now f =
     \<lparr>smap = (case f of None \<Rightarrow> [] | Some s \<Rightarrow> store_parse now s), seq = 0, written = 0,
      dirty = False, bound_cache = None, sfile = f, queue = [], flush_owed = False\<rparr>"

section \<open>Snapshots and writes\<close>

text \<open>\<open>seq.fetch_add(1) + 1\<close> on an \<open>AtomicU64\<close>: the generation, and the counter after it.\<close>

definition stamp :: "store \<Rightarrow> string \<Rightarrow> (nat \<times> string) \<times> store" where
  "stamp s snapshot =
     (let g = (seq s + 1) mod U64_LIMIT in ((g, snapshot), s\<lparr>seq := g\<rparr>))"

definition write_latest :: "bool \<Rightarrow> nat \<times> string \<Rightarrow> store \<Rightarrow> store" where
  "write_latest disk_ok w s =
     (case w of (g, contents) \<Rightarrow>
        if g \<le> written s then s
        else if disk_ok then s\<lparr>sfile := Some contents, written := g\<rparr> else s)"

text \<open>\<open>write_detached\<close> hands the closure to the blocking pool; \<open>run_queued\<close> is the pool running one.\<close>

definition write_detached :: "(nat \<times> string) option \<Rightarrow> store \<Rightarrow> store" where
  "write_detached w s = (case w of None \<Rightarrow> s | Some x \<Rightarrow> s\<lparr>queue := queue s @ [x]\<rparr>)"

definition run_queued :: "bool \<Rightarrow> nat \<Rightarrow> store \<Rightarrow> store" where
  "run_queued disk_ok i s =
     (if i < length (queue s)
      then write_latest disk_ok (queue s ! i)
             (s\<lparr>queue := take i (queue s) @ drop (Suc i) (queue s)\<rparr>)
      else s)"

section \<open>Operations\<close>

definition store_record :: "store \<Rightarrow> string \<Rightarrow> rec option" where
  "store_record s schema = hm_get (smap s) schema"

definition store_put :: "u64 \<Rightarrow> string \<Rightarrow> string \<Rightarrow> store \<Rightarrow> store" where
  "store_put now schema sid s =
     (case hm_get (smap s) schema of
        Some r \<Rightarrow>
          if sandbox_id r = sid \<and> tier_of r = Live
          then s\<lparr>smap := hm_insert schema (r\<lparr>last_active := now\<rparr>) (smap s), dirty := True\<rparr>
          else (let m = hm_insert schema \<lparr>sandbox_id = sid, last_active = now, tier_of = Live\<rparr> (smap s)
                in case stamp (s\<lparr>smap := m, bound_cache := None\<rparr>) (store_serialize m) of
                     (w, s') \<Rightarrow> write_detached (Some w) s')
      | None \<Rightarrow>
          let m = hm_insert schema \<lparr>sandbox_id = sid, last_active = now, tier_of = Live\<rparr> (smap s)
          in case stamp (s\<lparr>smap := m, bound_cache := None\<rparr>) (store_serialize m) of
               (w, s') \<Rightarrow> write_detached (Some w) s')"

definition ADOPTED_ID_PREFIX :: string where
  "ADOPTED_ID_PREFIX = ''pending-restore-''"

text \<open>The critical section of \<open>adopt_archived\<close>: the previous record, the stamped snapshot, the new state.\<close>

definition adopt_begin :: "u64 \<Rightarrow> string \<Rightarrow> store \<Rightarrow> rec option \<times> (nat \<times> string) \<times> store" where
  "adopt_begin now schema s =
     (let prev = hm_get (smap s) schema;
          sid = (case prev of Some r \<Rightarrow> sandbox_id r | None \<Rightarrow> ADOPTED_ID_PREFIX @ schema);
          la = (case prev of Some r \<Rightarrow> last_active r | None \<Rightarrow> now);
          m = hm_insert schema \<lparr>sandbox_id = sid, last_active = la, tier_of = Archived\<rparr> (smap s)
      in case stamp (s\<lparr>smap := m, bound_cache := None\<rparr>) (store_serialize m) of
           (w, s') \<Rightarrow> (prev, w, s'))"

definition adopt_archived :: "u64 \<Rightarrow> bool \<Rightarrow> string \<Rightarrow> store \<Rightarrow> rec option \<times> store" where
  "adopt_archived now disk_ok schema s =
     (case adopt_begin now schema s of (prev, w, s') \<Rightarrow> (prev, write_latest disk_ok w s'))"

definition ids_of :: "(string, rec) hashmap \<Rightarrow> string set" where
  "ids_of m = set (map (\<lambda>(_, r). sandbox_id r) m)"

definition bound_ids :: "store \<Rightarrow> string set \<times> store" where
  "bound_ids s =
     (case bound_cache s of
        Some ids \<Rightarrow> (ids, s)
      | None \<Rightarrow>
          let ids = ids_of (smap s)
          in (ids, s\<lparr>bound_cache := Some ids\<rparr>))"

definition flush_swap :: "store \<Rightarrow> store" where
  "flush_swap s = (if dirty s then s\<lparr>dirty := False, flush_owed := True\<rparr> else s)"

definition flush_snapshot :: "store \<Rightarrow> store" where
  "flush_snapshot s =
     (if flush_owed s
      then (case stamp (s\<lparr>flush_owed := False\<rparr>) (store_serialize (smap s)) of
              (w, s') \<Rightarrow> write_detached (Some w) s')
      else s)"

definition flush_dirty :: "store \<Rightarrow> store" where
  "flush_dirty s = flush_snapshot (flush_swap s)"

definition store_touch :: "u64 \<Rightarrow> string \<Rightarrow> store \<Rightarrow> store" where
  "store_touch now schema s =
     (case hm_get (smap s) schema of
        None \<Rightarrow> s
      | Some r \<Rightarrow> s\<lparr>smap := hm_insert schema (r\<lparr>last_active := now\<rparr>) (smap s), dirty := True\<rparr>)"

definition set_tier_begin :: "string \<Rightarrow> tier \<Rightarrow> store \<Rightarrow> ((nat \<times> string) \<times> store) option" where
  "set_tier_begin schema t s =
     (case hm_get (smap s) schema of
        None \<Rightarrow> None
      | Some r \<Rightarrow>
          let m = hm_insert schema (r\<lparr>tier_of := t\<rparr>) (smap s)
          in Some (stamp (s\<lparr>smap := m\<rparr>) (store_serialize m)))"

definition set_tier :: "bool \<Rightarrow> string \<Rightarrow> tier \<Rightarrow> store \<Rightarrow> store" where
  "set_tier disk_ok schema t s =
     (case set_tier_begin schema t s of None \<Rightarrow> s | Some (w, s') \<Rightarrow> write_latest disk_ok w s')"

section \<open>The codec\<close>

definition rec_ok :: "string \<Rightarrow> rec \<Rightarrow> bool" where
  "rec_ok k r \<longleftrightarrow> k \<noteq> [] \<and> plain_field k \<and> sandbox_id r \<noteq> [] \<and> plain_field (sandbox_id r)
     \<and> last_active r < U64_LIMIT"

lemma plain_field_tier [simp]: "plain_field (tier_as_str t)"
  by (cases t) (simp_all add: plain_field_def)

lemma plain_field_append: "plain_field (a @ b) \<longleftrightarrow> plain_field a \<and> plain_field b"
  by (auto simp: plain_field_def)

lemma rec_ok_fields: "rec_ok k r \<Longrightarrow>
  \<forall>f \<in> set [k, sandbox_id r, show_nat (last_active r), tier_as_str (tier_of r)]. plain_field f"
  by (simp add: rec_ok_def)

interpretation store_codec: line_codec store_line "store_parse_line now" rec_ok for now
proof unfold_locales
  fix k r assume ok: "rec_ok k r"
  show "NEWLINE \<notin> set (store_line k r) \<and> CR \<notin> set (store_line k r)"
    unfolding store_line_def by (rule plain_line) (rule rec_ok_fields [OF ok])
  have "split_on TAB (store_line k r) =
      [k, sandbox_id r, show_nat (last_active r), tier_as_str (tier_of r)]"
    unfolding store_line_def by (rule split_plain) (simp, rule rec_ok_fields [OF ok])
  then show "store_parse_line now (store_line k r) = Some (k, r)"
    using ok by (simp add: store_parse_line_def rec_ok_def rust_parse_u64_show_nat)
qed

definition recs_ok :: "(string, rec) hashmap \<Rightarrow> bool" where
  "recs_ok m \<longleftrightarrow> hm_wf m \<and> (\<forall>(k, r) \<in> set m. rec_ok k r)"

lemma recs_ok_Nil [simp]: "recs_ok []"
  by (simp add: recs_ok_def)

lemma recs_ok_insert: "recs_ok m \<Longrightarrow> rec_ok k r \<Longrightarrow> recs_ok (hm_insert k r m)"
  by (auto simp: recs_ok_def hm_in_set split: if_splits dest!: map_of_SomeD)

lemma recs_ok_get: "recs_ok m \<Longrightarrow> hm_get m k = Some r \<Longrightarrow> rec_ok k r"
  by (auto simp: recs_ok_def dest!: map_of_SomeD)

lemma store_parse_serialize:
  "recs_ok m \<Longrightarrow> hm_get (store_parse now (store_serialize m)) = hm_get m"
  by (simp add: recs_ok_def store_parse_def store_serialize_def store_codec.decode_encode)

text \<open>What routing depends on: which VM and which tier a schema is bound to, not the idle clock.\<close>

definition bindings :: "(string, rec) hashmap \<Rightarrow> string \<Rightarrow> (string \<times> tier) option" where
  "bindings m k = map_option (\<lambda>r. (sandbox_id r, tier_of r)) (hm_get m k)"

lemma bindings_touch:
  "hm_get m k = Some r \<Longrightarrow> bindings (hm_insert k (r\<lparr>last_active := n\<rparr>) m) = bindings m"
  by (auto simp: bindings_def fun_eq_iff)

lemma ids_of_bindings: "hm_wf m \<Longrightarrow> z \<in> ids_of m \<longleftrightarrow> (\<exists>k t. bindings m k = Some (z, t))"
  by (force simp: ids_of_def bindings_def hm_in_set [symmetric] image_iff)

lemma ids_of_same_bindings: "hm_wf m \<Longrightarrow> hm_wf m' \<Longrightarrow> bindings m = bindings m' \<Longrightarrow> ids_of m = ids_of m'"
  by (simp add: set_eq_iff ids_of_bindings)

section \<open>Interleavings of operations and writes\<close>

text \<open>
  Clients and sweeps run the critical sections in any order while the blocking pool runs queued
  writes in any order, each of which may fail. \<open>set_tier\<close> and \<open>adopt_archived\<close> wait for their write,
  which is a queued write like the others. The history (the snapshot of every generation) and
  \<open>failed\<close> (has any write failed so far) are ghost state: they record, and never influence, a run.
  Schema names and sandbox ids are non-empty and have no tab, newline or carriage return
  (\<open>is_valid_schema\<close> rejects control characters; sandbox ids are the daemon's), the clock is a \<open>u64\<close>,
  and the generation counter does not wrap.
\<close>

record store_run =
  st :: store
  hist :: "string list"
  failed :: bool

definition name_ok :: "string \<Rightarrow> bool" where
  "name_ok s \<longleftrightarrow> s \<noteq> [] \<and> plain_field s"

definition logged :: "store_run \<Rightarrow> store \<Rightarrow> store_run" where
  "logged x s =
     x\<lparr>st := s, hist := (if seq s = seq (st x) then hist x else hist x @ [store_serialize (smap s)])\<rparr>"

definition enqueue :: "(nat \<times> string) \<times> store \<Rightarrow> store" where
  "enqueue ws = (case ws of (w, s) \<Rightarrow> write_detached (Some w) s)"

inductive store_step :: "store_run \<Rightarrow> store_run \<Rightarrow> bool" where
  put: "name_ok schema \<Longrightarrow> name_ok sid \<Longrightarrow> now < U64_LIMIT \<Longrightarrow> seq (st x) + 1 < U64_LIMIT \<Longrightarrow>
    store_step x (logged x (store_put now schema sid (st x)))"
| touch: "now < U64_LIMIT \<Longrightarrow> store_step x (logged x (store_touch now schema (st x)))"
| flush_swap: "store_step x (logged x (flush_swap (st x)))"
| flush_snapshot: "seq (st x) + 1 < U64_LIMIT \<Longrightarrow>
    store_step x (logged x (flush_snapshot (st x)))"
| set_tier: "seq (st x) + 1 < U64_LIMIT \<Longrightarrow> set_tier_begin schema t (st x) = Some ws \<Longrightarrow>
    store_step x (logged x (enqueue ws))"
| adopt: "name_ok schema \<Longrightarrow> now < U64_LIMIT \<Longrightarrow> seq (st x) + 1 < U64_LIMIT \<Longrightarrow>
    adopt_begin now schema (st x) = (prev, ws) \<Longrightarrow> store_step x (logged x (enqueue ws))"
| bound: "store_step x (logged x (snd (bound_ids (st x))))"
| pool_write: "i < length (queue (st x)) \<Longrightarrow>
    store_step x (x\<lparr>st := run_queued disk_ok i (st x),
      failed := failed x \<or> (\<not> disk_ok \<and> written (st x) < fst (queue (st x) ! i))\<rparr>)"

definition store_start :: "store_run \<Rightarrow> bool" where
  "store_start x \<longleftrightarrow> (\<exists>now f. st x = store_load now f \<and> recs_ok (smap (st x))) \<and> hist x = [] \<and> \<not> failed x"

text \<open>The snapshot a generation \<open>g \<ge> 1\<close> stands for is \<open>hist ! (g - 1)\<close>.\<close>

definition gen_ok :: "string list \<Rightarrow> nat \<times> string \<Rightarrow> bool" where
  "gen_ok h w \<longleftrightarrow> 1 \<le> fst w \<and> fst w \<le> length h \<and> snd w = h ! (fst w - 1)"

definition hist_ok :: "string list \<Rightarrow> (string, rec) hashmap \<Rightarrow> bool" where
  "hist_ok h m \<longleftrightarrow> (\<forall>c \<in> set h. \<exists>m. recs_ok m \<and> c = store_serialize m)
     \<and> (h \<noteq> [] \<longrightarrow> (\<exists>m'. recs_ok m' \<and> last h = store_serialize m' \<and> bindings m' = bindings m))"

definition store_inv :: "store_run \<Rightarrow> bool" where
  "store_inv x \<longleftrightarrow>
     recs_ok (smap (st x)) \<and> seq (st x) = length (hist x) \<and> seq (st x) < U64_LIMIT
     \<and> list_all (gen_ok (hist x)) (queue (st x))
     \<and> written (st x) \<le> length (hist x)
     \<and> (0 < written (st x) \<longrightarrow> sfile (st x) = Some (hist x ! (written (st x) - 1)))
     \<and> hist_ok (hist x) (smap (st x))
     \<and> (hist x \<noteq> [] \<longrightarrow> dirty (st x) \<or> flush_owed (st x) \<or> last (hist x) = store_serialize (smap (st x)))
     \<and> (\<forall>ids. bound_cache (st x) = Some ids \<longrightarrow> ids = ids_of (smap (st x)))
     \<and> (failed x \<or> length (hist x) \<le> written (st x) \<or> length (hist x) \<in> fst ` set (queue (st x)))"

lemma store_invD:
  assumes "store_inv x"
  shows "recs_ok (smap (st x))" "seq (st x) = length (hist x)" "seq (st x) < U64_LIMIT"
    "list_all (gen_ok (hist x)) (queue (st x))" "written (st x) \<le> length (hist x)"
    "0 < written (st x) \<Longrightarrow> sfile (st x) = Some (hist x ! (written (st x) - 1))"
    "hist_ok (hist x) (smap (st x))"
    "hist x \<noteq> [] \<Longrightarrow> dirty (st x) \<or> flush_owed (st x) \<or> last (hist x) = store_serialize (smap (st x))"
    "bound_cache (st x) = Some ids \<Longrightarrow> ids = ids_of (smap (st x))"
    "failed x \<or> length (hist x) \<le> written (st x) \<or> length (hist x) \<in> fst ` set (queue (st x))"
  using assms by (simp_all add: store_inv_def)

lemma store_invI:
  assumes "recs_ok (smap (st x))" "seq (st x) = length (hist x)" "seq (st x) < U64_LIMIT"
    "list_all (gen_ok (hist x)) (queue (st x))" "written (st x) \<le> length (hist x)"
    "0 < written (st x) \<Longrightarrow> sfile (st x) = Some (hist x ! (written (st x) - 1))"
    "hist_ok (hist x) (smap (st x))"
    "hist x \<noteq> [] \<Longrightarrow> dirty (st x) \<or> flush_owed (st x) \<or> last (hist x) = store_serialize (smap (st x))"
    "\<And>ids. bound_cache (st x) = Some ids \<Longrightarrow> ids = ids_of (smap (st x))"
    "failed x \<or> length (hist x) \<le> written (st x) \<or> length (hist x) \<in> fst ` set (queue (st x))"
  shows "store_inv x"
  using assms unfolding store_inv_def by blast

lemma gen_ok_snoc: "gen_ok h w \<Longrightarrow> gen_ok (h @ [c]) w"
  by (auto simp: gen_ok_def nth_append)

lemma hist_ok_snoc: "hist_ok h m' \<Longrightarrow> recs_ok m \<Longrightarrow> hist_ok (h @ [store_serialize m]) m"
  by (auto simp: hist_ok_def)

text \<open>One lemma per kind of state change: a stamped snapshot, an activity bump, a pool write.\<close>

definition snapshotted :: "(string, rec) hashmap \<Rightarrow> string set option \<Rightarrow> bool \<Rightarrow> store \<Rightarrow> store" where
  "snapshotted m bc fo s =
     s\<lparr>smap := m, bound_cache := bc, flush_owed := fo, seq := seq s + 1,
       queue := queue s @ [(seq s + 1, store_serialize m)]\<rparr>"

lemma snapshot_shapes:
  assumes "seq s + 1 < U64_LIMIT"
  shows "(case stamp (s\<lparr>smap := m, bound_cache := bc\<rparr>) (store_serialize m) of
           (w, s') \<Rightarrow> write_detached (Some w) s') = snapshotted m bc (flush_owed s) s"
    "(case stamp (s\<lparr>flush_owed := fo\<rparr>) (store_serialize (smap s)) of
           (w, s') \<Rightarrow> write_detached (Some w) s') = snapshotted (smap s) (bound_cache s) fo s"
    "enqueue (stamp (s\<lparr>smap := m, bound_cache := bc\<rparr>) (store_serialize m)) =
       snapshotted m bc (flush_owed s) s"
    "enqueue (stamp (s\<lparr>smap := m\<rparr>) (store_serialize m)) =
       snapshotted m (bound_cache s) (flush_owed s) s"
  using assms by (simp_all add: stamp_def write_detached_def snapshotted_def enqueue_def Let_def)

lemma store_inv_snapshot:
  assumes "store_inv x" "recs_ok m" "seq (st x) + 1 < U64_LIMIT"
    and "\<And>ids. bc = Some ids \<Longrightarrow> ids = ids_of m"
  shows "store_inv (logged x (snapshotted m bc fo (st x)))"
proof -
  let ?h = "hist x" and ?c = "store_serialize m"
  have l: "logged x (snapshotted m bc fo (st x)) =
      x\<lparr>st := snapshotted m bc fo (st x), hist := ?h @ [?c]\<rparr>"
    by (simp add: logged_def snapshotted_def)
  note inv = store_invD [OF assms(1)]
  have "list_all (gen_ok (?h @ [?c])) (queue (st x))"
    using inv(4) by (auto simp: list_all_iff intro: gen_ok_snoc)
  moreover have "gen_ok (?h @ [?c]) (Suc (length ?h), ?c)" by (simp add: gen_ok_def)
  moreover have "0 < written (st x) \<Longrightarrow> sfile (st x) = Some ((?h @ [?c]) ! (written (st x) - 1))"
    using inv(5,6) by (auto simp: nth_append)
  ultimately show ?thesis
    unfolding l using inv(2,5,7) assms(2-4)
    by (intro store_invI) (simp_all add: snapshotted_def hist_ok_snoc)
qed

lemma store_inv_bump:
  assumes "store_inv x" "hm_get (smap (st x)) k = Some r" "now < U64_LIMIT"
  shows "store_inv (logged x ((st x)\<lparr>smap := hm_insert k (r\<lparr>last_active := now\<rparr>) (smap (st x)), dirty := True\<rparr>))"
proof -
  let ?m = "smap (st x)" and ?m' = "hm_insert k (r\<lparr>last_active := now\<rparr>) (smap (st x))"
  note inv = store_invD [OF assms(1)]
  have "recs_ok ?m'"
    using recs_ok_get [OF inv(1) assms(2)] assms(3)
    by (intro recs_ok_insert [OF inv(1)]) (simp add: rec_ok_def)
  moreover have "bindings ?m' = bindings ?m" by (rule bindings_touch [OF assms(2)])
  moreover have "ids_of ?m' = ids_of ?m"
    using inv(1) bindings_touch [OF assms(2)] by (intro ids_of_same_bindings) (auto simp: recs_ok_def)
  ultimately show ?thesis
    using inv(2-7,9-10) by (intro store_invI) (simp_all add: logged_def hist_ok_def)
qed

lemma store_inv_write:
  assumes "store_inv x" "i < length (queue (st x))"
  shows "store_inv (x\<lparr>st := run_queued disk_ok i (st x),
      failed := failed x \<or> (\<not> disk_ok \<and> written (st x) < fst (queue (st x) ! i))\<rparr>)"
proof -
  note inv = store_invD [OF assms(1)]
  obtain g c where gc: "queue (st x) ! i = (g, c)" by fastforce
  let ?q = "take i (queue (st x)) @ drop (Suc i) (queue (st x))"
  have "queue (st x) = take i (queue (st x)) @ (g, c) # drop (Suc i) (queue (st x))"
    using id_take_nth_drop [OF assms(2)] gc by simp
  then have set_q: "set (queue (st x)) = insert (g, c) (set ?q)"
    by (metis Un_insert_right list.simps(15) set_append)
  then have g: "1 \<le> g" "g \<le> length (hist x)" "c = hist x ! (g - 1)"
    and q: "list_all (gen_ok (hist x)) ?q"
    using inv(4) by (simp_all add: list_all_iff gen_ok_def del: set_append)
  have p: "failed x \<or> length (hist x) \<le> max g (written (st x)) \<or> length (hist x) \<in> fst ` set ?q"
    using inv(10) set_q by auto
  consider "g \<le> written (st x)" | "written (st x) < g" "disk_ok" | "written (st x) < g" "\<not> disk_ok"
    by linarith
  then show ?thesis
  proof cases
    case 1
    then show ?thesis
      using inv(1-3,5-9) q p gc assms(2)
      by (intro store_invI) (simp_all add: run_queued_def write_latest_def max_def del: set_append)
  next
    case 2
    then show ?thesis
      using inv(1-3,7-9) q p g gc assms(2)
      by (intro store_invI) (simp_all add: run_queued_def write_latest_def max_def del: set_append)
  next
    case 3
    then show ?thesis
      using inv(1-3,5-9) q gc assms(2)
      by (intro store_invI) (simp_all add: run_queued_def write_latest_def del: set_append)
  qed
qed

lemma store_inv_silent:
  assumes "store_inv x" "smap s = smap (st x)" "seq s = seq (st x)" "queue s = queue (st x)"
    "written s = written (st x)" "sfile s = sfile (st x)"
    "dirty (st x) \<or> flush_owed (st x) \<Longrightarrow> dirty s \<or> flush_owed s"
    "\<And>ids. bound_cache s = Some ids \<Longrightarrow> ids = ids_of (smap s)"
  shows "store_inv (logged x s)"
  using store_invD [OF assms(1)] assms(2-) by (intro store_invI) (auto simp: logged_def)

lemma store_inv_put:
  assumes "store_inv x" "name_ok schema" "name_ok sid" "now < U64_LIMIT" "seq (st x) + 1 < U64_LIMIT"
  shows "store_inv (logged x (store_put now schema sid (st x)))"
proof -
  let ?r = "\<lparr>sandbox_id = sid, last_active = now, tier_of = Live\<rparr>"
  have "recs_ok (hm_insert schema ?r (smap (st x)))"
    using assms(2-4) store_invD(1) [OF assms(1)]
    by (intro recs_ok_insert) (auto simp: rec_ok_def name_ok_def)
  then have "store_inv (logged x (snapshotted (hm_insert schema ?r (smap (st x))) None (flush_owed (st x)) (st x)))"
    using assms(1,5) by (intro store_inv_snapshot) auto
  then show ?thesis
    using store_inv_bump [OF assms(1) _ assms(4)] assms(5)
    by (auto simp: store_put_def Let_def snapshot_shapes split: option.splits)
qed

lemma store_inv_set_tier:
  assumes "store_inv x" "seq (st x) + 1 < U64_LIMIT" "set_tier_begin schema t (st x) = Some ws"
  shows "store_inv (logged x (enqueue ws))"
proof -
  obtain r where r: "hm_get (smap (st x)) schema = Some r"
    using assms(3) by (auto simp: set_tier_begin_def split: option.splits)
  let ?m = "hm_insert schema (r\<lparr>tier_of := t\<rparr>) (smap (st x))"
  have ok: "recs_ok (smap (st x))" by (rule store_invD(1) [OF assms(1)])
  have ok': "recs_ok ?m"
    using recs_ok_get [OF ok r] by (intro recs_ok_insert [OF ok]) (simp add: rec_ok_def)
  have "ids_of ?m = ids_of (smap (st x))"
  proof (rule set_eqI)
    fix z
    have "(\<exists>t. bindings ?m k = Some (z, t)) \<longleftrightarrow> (\<exists>t. bindings (smap (st x)) k = Some (z, t))" for k
      using r by (auto simp: bindings_def)
    then show "z \<in> ids_of ?m \<longleftrightarrow> z \<in> ids_of (smap (st x))"
      using ok ok' by (simp add: ids_of_bindings recs_ok_def)
  qed
  then have "store_inv (logged x (snapshotted ?m (bound_cache (st x)) (flush_owed (st x)) (st x)))"
    using assms(1,2) ok' store_invD(9) [OF assms(1)] by (intro store_inv_snapshot) auto
  then show ?thesis
    using assms(2,3) r by (auto simp: set_tier_begin_def Let_def snapshot_shapes)
qed

lemma store_inv_adopt:
  assumes "store_inv x" "name_ok schema" "now < U64_LIMIT" "seq (st x) + 1 < U64_LIMIT"
    "adopt_begin now schema (st x) = (prev, ws)"
  shows "store_inv (logged x (enqueue ws))"
proof -
  let ?prev = "hm_get (smap (st x)) schema"
  let ?r = "\<lparr>sandbox_id = (case ?prev of Some r \<Rightarrow> sandbox_id r | None \<Rightarrow> ADOPTED_ID_PREFIX @ schema),
      last_active = (case ?prev of Some r \<Rightarrow> last_active r | None \<Rightarrow> now), tier_of = Archived\<rparr>"
  have ok: "recs_ok (smap (st x))" by (rule store_invD(1) [OF assms(1)])
  have "plain_field ADOPTED_ID_PREFIX" by (simp add: ADOPTED_ID_PREFIX_def plain_field_def)
  then have "rec_ok schema ?r"
    using assms(2,3) recs_ok_get [OF ok, of schema]
    by (auto simp: rec_ok_def name_ok_def plain_field_append split: option.splits)
  then have "store_inv (logged x (snapshotted (hm_insert schema ?r (smap (st x))) None (flush_owed (st x)) (st x)))"
    using assms(1,4) by (intro store_inv_snapshot recs_ok_insert [OF ok]) auto
  moreover have "ws = stamp ((st x)\<lparr>smap := hm_insert schema ?r (smap (st x)), bound_cache := None\<rparr>)
      (store_serialize (hm_insert schema ?r (smap (st x))))"
    using assms(5) by (auto simp: adopt_begin_def Let_def split: prod.splits)
  ultimately show ?thesis using assms(4) by (simp add: snapshot_shapes)
qed

lemma store_inv_flush_snapshot:
  assumes "store_inv x" "seq (st x) + 1 < U64_LIMIT"
  shows "store_inv (logged x (flush_snapshot (st x)))"
  using assms store_invD(1,9) [OF assms(1)]
  by (auto simp: flush_snapshot_def snapshot_shapes intro!: store_inv_snapshot store_inv_silent)

lemma store_inv_touch:
  "store_inv x \<Longrightarrow> now < U64_LIMIT \<Longrightarrow> store_inv (logged x (store_touch now schema (st x)))"
  using store_inv_bump [of x schema _ now] store_inv_silent [of x "st x"] store_invD(9) [of x]
  by (auto simp: store_touch_def split: option.splits)

interpretation store_life: inductive_invariant store_start store_step store_inv
proof unfold_locales
  show "store_start x \<Longrightarrow> store_inv x" for x
    by (auto simp: store_start_def store_load_def hist_ok_def intro!: store_invI)
  show "store_inv y" if "store_inv x" "store_step x y" for x y
    using that(2,1)
  proof cases
    case flush_swap
    then show ?thesis
      using that(1) store_invD(9) [OF that(1)]
      by (auto simp: flush_swap_def intro!: store_inv_silent)
  next
    case bound
    then show ?thesis
      using that(1) store_invD(9) [OF that(1)]
      by (auto simp: bound_ids_def Let_def intro!: store_inv_silent split: option.splits)
  qed (auto intro: store_inv_put store_inv_set_tier store_inv_adopt store_inv_write
      store_inv_flush_snapshot store_inv_touch)
qed

section \<open>What a crash leaves\<close>

text \<open>
  A process that starts after a crash loads the file. \<open>store_sane\<close> is the part of the invariant the
  tier changes need, with room for one more generation.
\<close>

definition reloaded :: "u64 \<Rightarrow> store \<Rightarrow> string \<Rightarrow> rec option" where
  "reloaded now s = store_record (store_load now (sfile s))"

definition store_sane :: "store \<Rightarrow> bool" where
  "store_sane s \<longleftrightarrow> recs_ok (smap s) \<and> written s \<le> seq s \<and> seq s + 1 < U64_LIMIT"

lemma store_sane_reachable:
  assumes "run_of store_start store_step x" "seq (st x) + 1 < U64_LIMIT"
  shows "store_sane (st x)"
  using store_invD [OF store_life.reachable_inv [OF assms(1)]] assms(2) by (simp add: store_sane_def)

lemma set_tier_look:
  "hm_get (smap (set_tier b k t s)) = (hm_get (smap s))(k := map_option (tier_of_update (\<lambda>_. t)) (hm_get (smap s) k))"
  by (auto simp: set_tier_def set_tier_begin_def stamp_def write_latest_def Let_def fun_eq_iff split: option.splits)

lemma set_tier_file:
  assumes "store_sane s" "hm_get (smap s) k = Some r"
  shows "hm_get (smap (store_load now (sfile (set_tier True k t s)))) = hm_get (smap (set_tier True k t s))"
proof -
  let ?m = "hm_insert k (r\<lparr>tier_of := t\<rparr>) (smap s)"
  have ok: "recs_ok (smap s)" using assms(1) by (simp add: store_sane_def)
  have "recs_ok ?m" using recs_ok_get [OF ok assms(2)] by (intro recs_ok_insert [OF ok]) (simp add: rec_ok_def)
  then have "hm_get (store_parse now (store_serialize ?m)) = hm_get ?m" by (rule store_parse_serialize)
  then show ?thesis using assms
    by (simp add: set_tier_def set_tier_begin_def stamp_def Let_def write_latest_def store_load_def store_sane_def)
qed

lemma store_put_look:
  "\<exists>r. (sandbox_id r = sid \<and> tier_of r = Live) \<and> hm_get (smap (store_put now k sid s)) = (hm_get (smap s))(k \<mapsto> r)"
proof -
  have "\<exists>r. (sandbox_id r = sid \<and> tier_of r = Live) \<and> smap (store_put now k sid s) = hm_insert k r (smap s)"
  proof (cases "\<exists>r. hm_get (smap s) k = Some r \<and> sandbox_id r = sid \<and> tier_of r = Live")
    case True
    then obtain r where r: "hm_get (smap s) k = Some r" "sandbox_id r = sid" "tier_of r = Live" by blast
    then show ?thesis by (intro exI [of _ "r\<lparr>last_active := now\<rparr>"]) (simp add: store_put_def)
  next
    case False
    then have "smap (store_put now k sid s) = hm_insert k \<lparr>sandbox_id = sid, last_active = now, tier_of = Live\<rparr> (smap s)"
      by (auto simp: store_put_def stamp_def write_detached_def Let_def split: option.splits)
    then show ?thesis by (intro exI [of _ "\<lparr>sandbox_id = sid, last_active = now, tier_of = Live\<rparr>"]) simp
  qed
  then show ?thesis by (auto simp: fun_eq_iff)
qed

lemma store_put_file [simp]: "sfile (store_put now k sid s) = sfile s"
  by (simp add: store_put_def stamp_def write_detached_def Let_def split: option.splits)

lemma store_touch_file [simp]: "sfile (store_touch now k s) = sfile s"
  by (simp add: store_touch_def split: option.splits)

lemma store_touch_bindings [simp]: "bindings (smap (store_touch now k s)) = bindings (smap s)"
  by (auto simp: store_touch_def bindings_touch split: option.splits)

interpretation tier_registry: durable_registry store_sane store_record "reloaded now" set_tier
    "\<lambda>t r. r\<lparr>tier_of := t\<rparr>" "store_put now" "\<lambda>sid r. sandbox_id r = sid \<and> tier_of r = Live" for now
proof unfold_locales
  show "store_record (set_tier b k t s) = (store_record s)(k := map_option (tier_of_update (\<lambda>_. t)) (store_record s k))"
    for b k t s by (simp add: store_record_def fun_eq_iff set_tier_look)
  show "reloaded now (set_tier True k t s) = store_record (set_tier True k t s)"
    if "store_sane s" "store_record s k \<noteq> None" for s k t
    using that set_tier_file [of s k _ now t] by (auto simp: reloaded_def store_record_def fun_eq_iff)
  show "store_record s k = None \<Longrightarrow> set_tier b k t s = s" for s k b t
    by (simp add: set_tier_def set_tier_begin_def store_record_def)
  show "\<exists>r. (sandbox_id r = v \<and> tier_of r = Live) \<and> store_record (store_put now k v s) = (store_record s)(k \<mapsto> r)" for k v s
    using store_put_look [of v now k s] by (auto simp: store_record_def fun_eq_iff)
  show "reloaded now (store_put now k v s) = reloaded now s" for k v s by (simp add: reloaded_def)
qed

section \<open>Lock order\<close>

text \<open>
  The two mutexes of \<open>struct Store\<close> as the operations take them. \<open>put\<close>, on its path that changes a
  binding, takes the cache lock while it holds the map lock; \<open>bound_ids\<close>, on its path that rebuilds
  the cache, takes the map lock while it holds the cache lock. A thread is the list of lock
  operations it still has to do; \<open>holder\<close> says which thread has a lock.
\<close>

datatype store_lock = MapLock | CacheLock

datatype lock_op = Acquire store_lock | Release store_lock

definition put_lock_ops :: "lock_op list" where
  "put_lock_ops = [Acquire MapLock, Acquire CacheLock, Release CacheLock, Release MapLock]"

definition bound_ids_lock_ops :: "lock_op list" where
  "bound_ids_lock_ops = [Acquire CacheLock, Acquire MapLock, Release MapLock, Release CacheLock]"

record lock_state =
  threads :: "lock_op list list"
  holder :: "store_lock \<Rightarrow> nat option"

definition lock_init :: "lock_op list list \<Rightarrow> lock_state" where
  "lock_init ts = \<lparr>threads = ts, holder = (\<lambda>_. None)\<rparr>"

inductive lock_step :: "lock_state \<Rightarrow> lock_state \<Rightarrow> bool" where
  acquire: "i < length (threads s) \<Longrightarrow> threads s ! i = Acquire l # ops \<Longrightarrow> holder s l = None \<Longrightarrow>
    lock_step s (s\<lparr>threads := (threads s)[i := ops], holder := (holder s)(l := Some i)\<rparr>)"
| release: "i < length (threads s) \<Longrightarrow> threads s ! i = Release l # ops \<Longrightarrow> holder s l = Some i \<Longrightarrow>
    lock_step s (s\<lparr>threads := (threads s)[i := ops], holder := (holder s)(l := None)\<rparr>)"

inductive_cases lock_stepE: "lock_step s t"

definition lock_deadlocked :: "lock_state \<Rightarrow> bool" where
  "lock_deadlocked s \<longleftrightarrow> (\<exists>ops \<in> set (threads s). ops \<noteq> []) \<and> (\<forall>t. \<not> lock_step s t)"

section \<open>Properties\<close>

abbreviation store_reachable :: "store_run \<Rightarrow> bool" where
  "store_reachable \<equiv> run_of store_start store_step"

text \<open>
  C4: Writes never roll the registry file back. Under every interleaving of checkouts, tier changes,
  flushes and blocking-pool writes (in any order, any of them failing), the file holds exactly
  the snapshot of the newest generation written, that snapshot reads back as the map it was
  taken from, and the written generation only grows.
\<close>

theorem store_file_never_regresses:
  assumes "store_reachable x"
  shows "(0 < written (st x) \<longrightarrow> (\<exists>m. recs_ok m \<and> hist x ! (written (st x) - 1) = store_serialize m
      \<and> sfile (st x) = Some (store_serialize m)
      \<and> (\<forall>now. hm_get (store_parse now (store_serialize m)) = hm_get m)))
    \<and> (\<forall>y. store_step x y \<longrightarrow> written (st x) \<le> written (st y))"
proof (intro conjI allI)
  note inv = store_invD [OF store_life.reachable_inv [OF assms]]
  show "0 < written (st x) \<longrightarrow> (\<exists>m. recs_ok m \<and> hist x ! (written (st x) - 1) = store_serialize m
      \<and> sfile (st x) = Some (store_serialize m)
      \<and> (\<forall>now. hm_get (store_parse now (store_serialize m)) = hm_get m))"
  proof
    assume w: "0 < written (st x)"
    then have "hist x ! (written (st x) - 1) \<in> set (hist x)" using inv(5) by (intro nth_mem) auto
    then obtain m where "recs_ok m" "hist x ! (written (st x) - 1) = store_serialize m"
      using inv(7) unfolding hist_ok_def by blast
    then show "\<exists>m. recs_ok m \<and> hist x ! (written (st x) - 1) = store_serialize m
      \<and> sfile (st x) = Some (store_serialize m)
      \<and> (\<forall>now. hm_get (store_parse now (store_serialize m)) = hm_get m)"
      using inv(6) [OF w] store_parse_serialize [of m] by auto
  qed
  show "store_step x y \<longrightarrow> written (st x) \<le> written (st y)" for y
    by (rule impI, erule store_step.cases)
      (auto simp: logged_def store_put_def store_touch_def flush_swap_def flush_snapshot_def
        set_tier_begin_def adopt_begin_def bound_ids_def stamp_def enqueue_def write_detached_def
        run_queued_def write_latest_def Let_def split: option.splits prod.splits if_splits)
qed

definition store_example :: store_run where
  "store_example = \<lparr>st = store_load 100 None, hist = [], failed = False\<rparr>"

definition store_example_put :: store_run where
  "store_example_put = logged store_example (store_put 100 ''shop'' ''sb-1'' (st store_example))"

definition store_example_written :: store_run where
  "store_example_written = store_example_put\<lparr>st := run_queued True 0 (st store_example_put)\<rparr>"

lemma store_example_start: "store_reachable store_example"
  by (rule run_init) (auto simp: store_start_def store_example_def store_load_def)

lemma store_example_put_reachable: "store_reachable store_example_put"
  unfolding store_example_put_def
  by (rule run_step [OF store_example_start], rule store_step.put)
    (simp_all add: name_ok_def plain_field_def store_example_def store_load_def)

lemma store_example_put_eq:
  "st store_example_put =
    snapshotted [(''shop'', \<lparr>sandbox_id = ''sb-1'', last_active = 100, tier_of = Live\<rparr>)] None False
      (store_load 100 None)"
  "hist store_example_put =
    [store_serialize [(''shop'', \<lparr>sandbox_id = ''sb-1'', last_active = 100, tier_of = Live\<rparr>)]]"
  "failed store_example_put = False"
  by (simp_all add: store_example_put_def store_example_def store_put_def store_load_def logged_def
      stamp_def write_detached_def snapshotted_def hm_insert_def Let_def)

lemma store_example_written_step: "store_step store_example_put store_example_written"
proof -
  have "store_step store_example_put (store_example_put\<lparr>st := run_queued True 0 (st store_example_put),
      failed := failed store_example_put \<or> (\<not> True \<and> written (st store_example_put) < fst (queue (st store_example_put) ! 0))\<rparr>)"
    by (rule store_step.pool_write) (simp add: store_example_put_eq snapshotted_def)
  then show ?thesis by (simp add: store_example_written_def)
qed

theorem store_file_never_regresses_witness:
  "written (st store_example_put) \<le> written (st store_example_written)
   \<and> 0 < written (st store_example_written)
   \<and> (\<exists>m. sfile (st store_example_written) = Some (store_serialize m)
        \<and> (\<forall>now. hm_get (store_parse now (store_serialize m)) = hm_get m))"
proof -
  have r: "store_reachable store_example_written"
    by (rule run_step [OF store_example_put_reachable store_example_written_step])
  have w: "0 < written (st store_example_written)"
    by (simp add: store_example_written_def run_queued_def write_latest_def store_example_put_eq
        snapshotted_def store_load_def)
  show ?thesis
    using store_file_never_regresses [OF r] w store_example_written_step
      store_file_never_regresses [OF store_example_put_reachable]
    by blast
qed

text \<open>
  What was acknowledged is on disk once the writes have drained. When no write has failed and
  none is pending, a process that loads the file sees the same VM and tier for every schema as
  the running one, whatever order the pool ran the writes in; if no activity bump is waiting for
  the flush loop either, it sees the same records entirely.
\<close>

theorem store_drained_is_durable:
  assumes "store_reachable x" "\<not> failed x" "queue (st x) = []" "hist x \<noteq> []"
  shows "\<exists>s. sfile (st x) = Some s \<and> bindings (store_parse now s) = bindings (smap (st x))
    \<and> (\<not> dirty (st x) \<and> \<not> flush_owed (st x) \<longrightarrow> hm_get (store_parse now s) = hm_get (smap (st x)))"
proof -
  note inv = store_invD [OF store_life.reachable_inv [OF assms(1)]]
  have w: "written (st x) = length (hist x)" using inv(5,10) assms(2,3) by auto
  then have f: "sfile (st x) = Some (last (hist x))"
    using inv(6) assms(4) by (simp add: last_conv_nth)
  obtain m where m: "recs_ok m" "last (hist x) = store_serialize m" "bindings m = bindings (smap (st x))"
    using inv(7) assms(4) by (auto simp: hist_ok_def)
  have "bindings (store_parse now (last (hist x))) = bindings (smap (st x))"
    using store_parse_serialize [OF m(1)] m by (simp add: bindings_def fun_eq_iff)
  moreover have "hm_get (store_parse now (last (hist x))) = hm_get (smap (st x))"
    if "\<not> dirty (st x)" "\<not> flush_owed (st x)"
    using inv(8) [OF assms(4)] that store_parse_serialize [OF inv(1)] by simp
  ultimately show ?thesis using f by blast
qed

theorem store_drained_is_durable_witness:
  "\<exists>s. sfile (st store_example_written) = Some s
     \<and> bindings (store_parse 7 s) ''shop'' = Some (''sb-1'', Live)"
proof -
  have r: "store_reachable store_example_written"
    by (rule run_step [OF store_example_put_reachable store_example_written_step])
  have e: "\<not> failed store_example_written" "queue (st store_example_written) = []"
    "hist store_example_written \<noteq> []" "bindings (smap (st store_example_written)) ''shop'' = Some (''sb-1'', Live)"
    by (simp_all add: store_example_written_def run_queued_def write_latest_def store_example_put_eq
        snapshotted_def store_load_def bindings_def)
  show ?thesis using store_drained_is_durable [OF r e(1-3), of 7] e(4) by auto
qed

text \<open>
  C23: A tier change is durable when the call returns. In every reachable state, when the write
  succeeds, the file left by \<open>set_tier\<close> reads back with the schema in the new tier, its VM id and
  idle clock unchanged, and every other schema as it is in memory: a crash before the VM is
  deleted cannot resurrect the old tier.
\<close>

theorem set_tier_durable_before_kill:
  assumes "store_reachable x" "seq (st x) + 1 < U64_LIMIT" "store_record (st x) schema = Some r"
  shows "\<exists>s. sfile (set_tier True schema t (st x)) = Some s
    \<and> hm_get (store_parse now s) = (hm_get (smap (st x)))(schema \<mapsto> r\<lparr>tier_of := t\<rparr>)"
proof -
  note inv = store_invD [OF store_life.reachable_inv [OF assms(1)]]
  have r: "hm_get (smap (st x)) schema = Some r" using assms(3) by (simp add: store_record_def)
  let ?m = "hm_insert schema (r\<lparr>tier_of := t\<rparr>) (smap (st x))"
  have "recs_ok ?m"
    using recs_ok_get [OF inv(1) r] by (intro recs_ok_insert [OF inv(1)]) (simp add: rec_ok_def)
  then have "hm_get (store_parse now (store_serialize ?m)) = hm_get ?m" by (rule store_parse_serialize)
  moreover have "written (st x) < seq (st x) + 1" using inv(2,5) by simp
  ultimately show ?thesis
    using assms(2) r
    by (auto simp: set_tier_def set_tier_begin_def stamp_def Let_def write_latest_def)
qed

theorem set_tier_durable_before_kill_witness:
  "\<exists>s. sfile (set_tier True ''shop'' Frozen (st store_example_put)) = Some s
    \<and> hm_get (store_parse 9 s) ''shop'' =
        Some \<lparr>sandbox_id = ''sb-1'', last_active = 100, tier_of = Frozen\<rparr>"
  using set_tier_durable_before_kill [OF store_example_put_reachable, of "''shop''" _ Frozen 9]
  by (auto simp: store_example_put_eq snapshotted_def store_load_def store_record_def)

text \<open>
  The cached set of bound VM ids is never stale. In every reachable state \<open>bound_ids\<close> returns
  exactly the sandbox ids of the records in the map, cached or not.
\<close>

lemma bound_ids_exact:
  assumes "store_reachable x"
  shows "fst (bound_ids (st x)) = {sandbox_id r | k r. store_record (st x) k = Some r}"
proof -
  note inv = store_invD [OF store_life.reachable_inv [OF assms]]
  have "fst (bound_ids (st x)) = ids_of (smap (st x))"
    using inv(9) by (auto simp: bound_ids_def Let_def split: option.splits)
  also have "\<dots> = {sandbox_id r | k r. hm_get (smap (st x)) k = Some r}"
    using inv(1) by (force simp: set_eq_iff ids_of_bindings recs_ok_def bindings_def)
  finally show ?thesis by (simp add: store_record_def)
qed

text \<open>
  \<open>put\<close> and \<open>bound_ids\<close> can deadlock. They take the map lock and the cache lock in opposite
  orders: from a state in which both locks are free there is an interleaving after which each
  holds the lock the other waits for and no thread can ever take a step again.
\<close>

theorem store_locks_can_deadlock:
  "\<exists>s. lock_step\<^sup>*\<^sup>* (lock_init [put_lock_ops, bound_ids_lock_ops]) s \<and> lock_deadlocked s"
proof -
  let ?s0 = "lock_init [put_lock_ops, bound_ids_lock_ops]"
  let ?s1 = "?s0\<lparr>threads := (threads ?s0)[0 := tl put_lock_ops], holder := (holder ?s0)(MapLock := Some 0)\<rparr>"
  let ?s2 = "?s1\<lparr>threads := (threads ?s1)[1 := tl bound_ids_lock_ops], holder := (holder ?s1)(CacheLock := Some 1)\<rparr>"
  have "lock_step ?s0 ?s1"
    by (rule lock_step.acquire) (simp_all add: lock_init_def put_lock_ops_def)
  moreover have "lock_step ?s1 ?s2"
    by (rule lock_step.acquire) (simp_all add: lock_init_def put_lock_ops_def bound_ids_lock_ops_def)
  moreover have "lock_deadlocked ?s2"
    by (auto simp: lock_deadlocked_def lock_init_def put_lock_ops_def bound_ids_lock_ops_def
        less_Suc_eq elim!: lock_stepE)
  ultimately show ?thesis by (meson converse_rtranclp_into_rtranclp rtranclp.rtrancl_refl)
qed

end
