(* ===== verification/Session.thy ===== *)
theory Session
  imports Wire Dedicated Store
begin

text \<open>
  One client connection, from \<open>src/src/main.rs\<close>: \<open>handle_conn\<close> reads the startup message, proves the
  password the role calls for, authorises the database, checks its name, checks out the VM and splices.
  The checkout is a parameter: the entry it returns for a schema, or nothing when it fails. The credentials
  are read twice, for the challenge and for the authorisation, with the wait for the client's password in
  between: \<open>creds\<close> is the store at the first read, \<open>creds'\<close> at the second.
\<close>

definition is_valid_schema :: "string \<Rightarrow> bool" where
  "is_valid_schema s \<longleftrightarrow> s \<noteq> [] \<and> length s \<le> 63 \<and> \<not> has_control s"

datatype 'e session =
    Dropped
  | Refused string
  | Spliced 'e bytes

definition handle_conn ::
  "tls_acceptor option \<Rightarrow> credentials \<Rightarrow> credentials \<Rightarrow> string option \<Rightarrow> (string \<Rightarrow> 'e option) \<Rightarrow> conn \<Rightarrow> 'e session \<times> conn" where
  "handle_conn tls creds creds' shared checkout c =
     (case read_startup tls c of
        (Inl e, c) \<Rightarrow> (Dropped, c)
      | (Inr info, c) \<Rightarrow>
          (case (case challenge_password creds (user info) shared of
                   Some p \<Rightarrow> require_password p c
                 | None \<Rightarrow> (Inr (), c)) of
             (Inl e, c) \<Rightarrow> (Dropped, c)
           | (Inr _, c) \<Rightarrow>
               (case authorize creds' (user info) (database info) of
                  Inl reason \<Rightarrow> (Refused reason, send_fatal SQLSTATE_INSUFFICIENT_PRIVILEGE reason c)
                | Inr _ \<Rightarrow>
                    if \<not> is_valid_schema (database info) then (Dropped, c)
                    else (case checkout (database info) of
                            None \<Rightarrow> (Dropped, c)
                          | Some entry \<Rightarrow> (Spliced entry (raw info), c)))))"

text \<open>Between \<open>c\<close> and \<open>c'\<close> the client sent one PasswordMessage with exactly this password.\<close>

definition proved :: "string \<Rightarrow> conn \<Rightarrow> conn \<Rightarrow> bool" where
  "proved p c c' \<longleftrightarrow>
     (\<exists>len_buf body. inp c = CHR ''p'' # len_buf @ body @ inp c' \<and> length len_buf = 4
        \<and> i32_from_be_bytes len_buf = int (length body) + 4 \<and> strip_nul body = p)"

lemma require_password_proved: "require_password p c = (Inr u, c') \<Longrightarrow> proved p c c'"
  using require_password_Inr(1) [of p c u c'] unfolding proved_def by blast

lemma handle_conn_Spliced:
  assumes "handle_conn tls creds creds' shared checkout c = (Spliced entry bs, c')"
  obtains info c1 where "read_startup tls c = (Inr info, c1)" "bs = raw info"
    "\<forall>p. challenge_password creds (user info) shared = Some p \<longrightarrow> proved p c1 c'"
    "authorize creds' (user info) (database info) = Inr ()"
    "is_valid_schema (database info)" "checkout (database info) = Some entry"
proof -
  obtain info c1 where s: "read_startup tls c = (Inr info, c1)"
    using assms by (auto simp: handle_conn_def split: prod.splits sum.splits)
  let ?gate = "case challenge_password creds (user info) shared of
    Some p \<Rightarrow> require_password p c1 | None \<Rightarrow> (Inr (), c1)"
  obtain u c2 where g: "?gate = (Inr u, c2)"
    using assms s by (cases ?gate) (auto simp: handle_conn_def split: sum.splits)
  have a: "authorize creds' (user info) (database info) = Inr ()" "is_valid_schema (database info)"
    "checkout (database info) = Some entry" "bs = raw info" "c' = c2"
    using assms s g by (auto simp: handle_conn_def split: sum.splits if_splits option.splits)
  have "\<forall>p. challenge_password creds (user info) shared = Some p \<longrightarrow> proved p c1 c'"
    using g a(5) by (auto intro: require_password_proved)
  with s a that show thesis by blast
qed

lemma valid_schema_name_ok: "is_valid_schema s \<Longrightarrow> name_ok s"
  by (auto simp: is_valid_schema_def name_ok_def plain_field_def dest: has_control_no_tab_newline)

text \<open>
  C1: No client reaches a database it has not proved its right to. Whatever bytes a client sends, if
  its connection is spliced to a VM then that VM is the checkout of the database its startup message
  named, and the bytes replayed to the VM are that message; at the time of the authorisation every
  provisioned credential with the client's role is for that database and every credential for that
  database has its role; and the client sent the password its role had at the time of the challenge, or
  the shared password (when one is set) if the role was not provisioned then. In particular, if no
  credential changed in between, it sent the password of the database's credential, or the shared one if
  the database has none.
\<close>

theorem splice_needs_authority:
  assumes "cred_reachable creds" "cred_reachable creds'"
    and "handle_conn tls creds creds' shared checkout c = (Spliced entry bs, c')"
  shows "\<exists>info c1. read_startup tls c = (Inr info, c1) \<and> bs = raw info \<and> checkout (database info) = Some entry
    \<and> is_valid_schema (database info)
    \<and> (\<forall>k cr. hm_get (by_database creds') k = Some cr \<longrightarrow> (role cr = user info \<longleftrightarrow> k = database info))
    \<and> (\<forall>k cr. hm_get (by_database creds) k = Some cr \<longrightarrow> role cr = user info \<longrightarrow> proved (password cr) c1 c')
    \<and> (\<forall>p. (\<forall>k cr. hm_get (by_database creds) k = Some cr \<longrightarrow> role cr \<noteq> user info) \<longrightarrow> shared = Some p \<longrightarrow> proved p c1 c')
    \<and> (creds' = creds \<longrightarrow>
         (\<forall>cr. hm_get (by_database creds) (database info) = Some cr \<longrightarrow> proved (password cr) c1 c')
         \<and> (\<forall>p. hm_get (by_database creds) (database info) = None \<longrightarrow> shared = Some p \<longrightarrow> proved p c1 c'))"
proof -
  obtain info c1 where s: "read_startup tls c = (Inr info, c1)" "bs = raw info"
    and p: "\<forall>p. challenge_password creds (user info) shared = Some p \<longrightarrow> proved p c1 c'"
    and a: "authorize creds' (user info) (database info) = Inr ()"
    and v: "is_valid_schema (database info)" "checkout (database info) = Some entry"
    by (rule handle_conn_Spliced [OF assms(3)])
  have ok: "creds_ok (by_database creds)" by (rule cred_reachable_ok [OF assms(1)])
  have roles: "\<forall>k cr. hm_get (by_database creds') k = Some cr \<longrightarrow> (role cr = user info \<longleftrightarrow> k = database info)"
    using a authorize_Inr_iff [OF cred_reachable_ok [OF assms(2)]] by blast
  have own: "\<forall>k cr. hm_get (by_database creds) k = Some cr \<longrightarrow> role cr = user info \<longrightarrow> proved (password cr) c1 c'"
  proof (intro allI impI)
    fix k cr assume "hm_get (by_database creds) k = Some cr" "role cr = user info"
    then have "by_role creds (user info) = Some cr" using by_role_iff [OF ok] by blast
    then show "proved (password cr) c1 c'" using p by (simp add: challenge_password_def)
  qed
  have other: "\<forall>q. (\<forall>k cr. hm_get (by_database creds) k = Some cr \<longrightarrow> role cr \<noteq> user info) \<longrightarrow> shared = Some q \<longrightarrow> proved q c1 c'"
    using p by_role_None [OF ok, of "user info"] by (force simp: challenge_password_def)
  have "proved (password cr) c1 c'" if "creds' = creds" "hm_get (by_database creds) (database info) = Some cr" for cr
    using that roles own by blast
  moreover have "proved q c1 c'" if "creds' = creds" "hm_get (by_database creds) (database info) = None" "shared = Some q" for q
    using that roles other by (metis option.distinct(1))
  ultimately show ?thesis using s v roles own other by blast
qed

definition acme_client :: "string \<Rightarrow> conn" where
  "acme_client p = \<lparr>inp = startup_packet [(''user'', ''acme_app''), (''database'', ''acme'')]
     @ password_packet p, out = [], secure = False\<rparr>"

lemma acme_client_spliced:
  assumes "challenge_password creds ''acme_app'' shared = Some p" "p \<noteq> []" "last p \<noteq> NUL" "length p < 100"
  shows "\<exists>bs c'. handle_conn None creds acme shared (\<lambda>d. Some d) (acme_client p) = (Spliced ''acme'' bs, c')"
proof -
  let ?ps = "[(''user'', ''acme_app''), (''database'', ''acme'')]"
  let ?c = "acme_client p\<lparr>inp := password_packet p\<rparr>"
  have ok: "params_ok ?ps" by (simp add: params_ok_def encode_params_def code_def)
  have r: "read_startup None (acme_client p) =
      (Inr \<lparr>database = ''acme'', user = ''acme_app'', raw = startup_packet ?ps\<rparr>, ?c)"
    using read_startup_client [OF ok, of None "[]" "password_packet p" "acme_client p"]
    by (simp add: acme_client_def requested_database_def plain_client_def encryption_requests_def)
  have b: "by_role acme ''acme_app'' = Some acme_cred" by (simp add: by_role_def acme_eq)
  have "require_password p ?c = (Inr (), ?c\<lparr>out := out ?c @ password_challenge, inp := []\<rparr>)"
    by (subst require_password_packet [where body = p and rest = "[]"]) (use assms(2-4) in \<open>simp_all add: strip_nul_def Let_def\<close>)
  moreover have "authorize acme ''acme_app'' ''acme'' = Inr ()" by (simp add: authorize_def b)
  moreover have "is_valid_schema ''acme''" by (simp add: is_valid_schema_def code_def)
  ultimately show ?thesis using assms(1) by (simp add: handle_conn_def r)
qed

theorem splice_needs_authority_witness:
  "\<exists>info c1 c'. read_startup None (acme_client ''correct-horse'') = (Inr info, c1) \<and> is_valid_schema (database info)
     \<and> Some ''acme'' = (\<lambda>d. Some d) (database info) \<and> proved ''correct-horse'' c1 c'"
proof -
  have "challenge_password acme ''acme_app'' None = Some ''correct-horse''"
    by (simp add: challenge_password_def by_role_def acme_eq)
  then obtain bs c' where h: "handle_conn None acme acme None (\<lambda>d. Some d) (acme_client ''correct-horse'') = (Spliced ''acme'' bs, c')"
    using acme_client_spliced by fastforce
  from splice_needs_authority [OF acme_reachable acme_reachable h]
  show ?thesis by (force simp: acme_eq)
qed

text \<open>
  A database that is provisioned while a client is being asked for its password lets that client in on the
  shared password. At the challenge its role was not provisioned, so the shared password was asked for; at
  the authorisation the role has the database, whose own password the client never sent.
\<close>

theorem provisioning_during_challenge:
  "\<exists>bs c'. handle_conn None (cred_load None) acme (Some ''letmein'') (\<lambda>d. Some d) (acme_client ''letmein'') = (Spliced ''acme'' bs, c')
     \<and> challenge_password acme ''acme_app'' (Some ''letmein'') = Some ''correct-horse''
     \<and> cred_step (cred_load None) acme"
proof -
  have "challenge_password (cred_load None) ''acme_app'' (Some ''letmein'') = Some ''letmein''"
    by (simp add: challenge_password_def by_role_def cred_load_def)
  then have "\<exists>bs c'. handle_conn None (cred_load None) acme (Some ''letmein'') (\<lambda>d. Some d) (acme_client ''letmein'') = (Spliced ''acme'' bs, c')"
    by (rule acme_client_spliced) simp_all
  moreover have "challenge_password acme ''acme_app'' (Some ''letmein'') = Some ''correct-horse''"
    by (simp add: challenge_password_def by_role_def acme_eq)
  moreover have "cred_step (cred_load None) acme" unfolding acme_def by (rule cred_step.create) simp
  ultimately show ?thesis by blast
qed

end
