(* ===== verification/Reclaim.thy ===== *)
theory Reclaim
  imports Interfaces
begin

text \<open>
  \<open>src/src/reclaim.rs\<close>: disk reclaim and its exclusion with VM boots. Three parts: the decisions of
  the boot side (lock paths, the choice between per-disk lock and global gate, the bounded wait), the
  preemption signal a waiting boot sends to a running pass, and the exclusion protocol itself as a
  transition system of boots, VMs and the reclaim script. The script's side of the protocol (its
  enumeration, its snapshot of open files, its lock and live check) follows \<open>src/reclaim-disks.sh\<close>.
\<close>

section \<open>Constants and paths\<close>

definition LOCK_DIR :: string where "LOCK_DIR = ''.reclaim-locks''"
definition LOCK_MARKER :: string where "LOCK_MARKER = ''.protocol''"
definition LOCK_PROTOCOL :: string where "LOCK_PROTOCOL = ''perdisk-1''"
definition STOP_FILE :: string where "STOP_FILE = ''.reclaim-stop''"

definition path_join :: "string \<Rightarrow> string \<Rightarrow> string" where
  "path_join d f = d @ CHR ''/'' # f"

fun contains_dotdot :: "string \<Rightarrow> bool" where
  "contains_dotdot (a # b # cs) = ((a = CHR ''.'' \<and> b = CHR ''.'') \<or> contains_dotdot (b # cs))"
| "contains_dotdot _ = False"

definition lock_path :: "string option \<Rightarrow> string \<Rightarrow> string option" where
  "lock_path root sid =
     (if sid = [] \<or> CHR ''/'' \<in> set sid \<or> contains_dotdot sid then None
      else map_option (\<lambda>d. path_join d (sid @ ''.lock'')) root)"

text \<open>\<open>set_run_dir\<close> and \<open>refresh_per_disk\<close>: the latch says what the marker file says.\<close>

definition lock_root :: "string option \<Rightarrow> string option" where
  "lock_root run_dir = map_option (\<lambda>d. path_join d LOCK_DIR) run_dir"

definition refresh_per_disk :: "string option \<Rightarrow> bool" where
  "refresh_per_disk marker = (case marker of None \<Rightarrow> False | Some s \<Rightarrow> rust_trim s = LOCK_PROTOCOL)"

definition tail_start :: "string \<Rightarrow> nat \<Rightarrow> nat" where
  "tail_start s n =
     (let start = length s - n
      in start + (if start = 0 then 0 else length (takeWhile is_cont (drop start s))))"

definition tail :: "string \<Rightarrow> nat \<Rightarrow> string" where
  "tail s n = (let t = rust_trim s in drop (tail_start t n) t)"

section \<open>The boot side\<close>

datatype flock_answer = Flock_Took | Flock_Busy | Flock_Error
datatype disk_outcome = Disk_Locked | Disk_Gave_Up | Disk_Waiting | Disk_Unusable
datatype acquired = Acq_Disk string | Acq_Gate | Acq_None | Acq_Waiting

text \<open>
  The poll loop of \<open>disk_permit\<close> over the successive \<open>(elapsed, answer)\<close> pairs it sees; a finite list
  that runs out is a wait that is still going on.
\<close>

fun poll_lock :: "nat option \<Rightarrow> (nat \<times> flock_answer) list \<Rightarrow> disk_outcome" where
  "poll_lock limit [] = Disk_Waiting"
| "poll_lock limit ((elapsed, ans) # rest) =
     (if (case limit of None \<Rightarrow> False | Some l \<Rightarrow> l \<le> elapsed) then Disk_Gave_Up
      else (case ans of
              Flock_Took \<Rightarrow> Disk_Locked
            | Flock_Error \<Rightarrow> Disk_Unusable
            | Flock_Busy \<Rightarrow> poll_lock limit rest))"

definition disk_permit :: "bool \<Rightarrow> flock_answer \<Rightarrow> nat option \<Rightarrow> (nat \<times> flock_answer) list \<Rightarrow> disk_outcome" where
  "disk_permit open_ok first limit polls =
     (if \<not> open_ok then Disk_Unusable
      else (case first of
              Flock_Took \<Rightarrow> Disk_Locked
            | Flock_Error \<Rightarrow> Disk_Unusable
            | Flock_Busy \<Rightarrow> poll_lock limit polls))"

text \<open>\<open>gate\<close>: whether the read side of the boot gate is granted (within the limit, if there is one).\<close>

definition acquire_gate :: "nat option \<Rightarrow> bool \<Rightarrow> acquired" where
  "acquire_gate limit gate =
     (if gate then Acq_Gate else case limit of None \<Rightarrow> Acq_Waiting | Some _ \<Rightarrow> Acq_None)"

definition acquire ::
  "bool \<Rightarrow> string option \<Rightarrow> string \<Rightarrow> nat option \<Rightarrow> bool \<Rightarrow> flock_answer \<Rightarrow> (nat \<times> flock_answer) list \<Rightarrow> bool \<Rightarrow> acquired" where
  "acquire per_disk root sid limit open_ok first polls gate =
     (case (if per_disk then lock_path root sid else None) of
        None \<Rightarrow> acquire_gate limit gate
      | Some path \<Rightarrow>
          (case disk_permit open_ok first limit polls of
             Disk_Locked \<Rightarrow> Acq_Disk path
           | Disk_Gave_Up \<Rightarrow> Acq_None
           | Disk_Waiting \<Rightarrow> Acq_Waiting
           | Disk_Unusable \<Rightarrow> acquire_gate limit gate))"

text \<open>\<open>boot_permit\<close> falls back to the gate on a bounded result it cannot get.\<close>

definition boot_permit ::
  "bool \<Rightarrow> string option \<Rightarrow> string \<Rightarrow> bool \<Rightarrow> flock_answer \<Rightarrow> (nat \<times> flock_answer) list \<Rightarrow> bool \<Rightarrow> acquired" where
  "boot_permit per_disk root sid open_ok first polls gate =
     (case acquire per_disk root sid None open_ok first polls gate of
        Acq_None \<Rightarrow> acquire_gate None gate | a \<Rightarrow> a)"

definition boot_permit_within ::
  "bool \<Rightarrow> string option \<Rightarrow> string \<Rightarrow> nat \<Rightarrow> bool \<Rightarrow> flock_answer \<Rightarrow> (nat \<times> flock_answer) list \<Rightarrow> bool \<Rightarrow> acquired" where
  "boot_permit_within per_disk root sid limit open_ok first polls gate =
     acquire per_disk root sid (Some limit) open_ok first polls gate"

lemma poll_lock_None: "poll_lock None polls \<noteq> Disk_Gave_Up"
  by (induction "None :: nat option" polls rule: poll_lock.induct) (auto split: flock_answer.splits)

lemma poll_lock_Locked: "poll_lock limit polls = Disk_Locked \<Longrightarrow> Flock_Took \<in> snd ` set polls"
  by (induction limit polls rule: poll_lock.induct) (auto split: flock_answer.splits if_splits)

lemma poll_lock_Gave_Up:
  "poll_lock (Some l) polls = Disk_Gave_Up \<Longrightarrow> \<exists>(elapsed, a) \<in> set polls. l \<le> elapsed"
  by (induction "Some l" polls rule: poll_lock.induct) (auto split: flock_answer.splits if_splits)

lemma disk_permit_Locked:
  "disk_permit open_ok first limit polls = Disk_Locked \<Longrightarrow>
     open_ok \<and> (first = Flock_Took \<or> Flock_Took \<in> snd ` set polls)"
  by (auto simp: disk_permit_def poll_lock_Locked split: if_splits flock_answer.splits)

lemma disk_permit_None: "disk_permit open_ok first None polls \<noteq> Disk_Gave_Up"
  by (simp add: disk_permit_def poll_lock_None split: flock_answer.splits)

lemma lock_path_Some:
  "lock_path root sid = Some p \<longleftrightarrow>
     (\<exists>d. root = Some d \<and> p = d @ CHR ''/'' # sid @ ''.lock'') \<and> sid \<noteq> [] \<and> CHR ''/'' \<notin> set sid
     \<and> \<not> contains_dotdot sid"
  by (auto simp: lock_path_def path_join_def)

lemma lock_path_unique: "lock_path root sid = Some p \<Longrightarrow> {sid'. lock_path root sid' = Some p} = {sid}"
  unfolding lock_path_Some by blast

lemma disk_permit_Gave_Up:
  assumes "disk_permit open_ok first limit polls = Disk_Gave_Up"
  obtains l where "limit = Some l" "\<exists>(elapsed, a) \<in> set polls. l \<le> elapsed"
proof (cases limit)
  case None
  then show ?thesis using assms disk_permit_None by simp
next
  case (Some l)
  then have "poll_lock (Some l) polls = Disk_Gave_Up"
    using assms by (simp add: disk_permit_def split: if_splits flock_answer.splits)
  then show ?thesis using that [OF Some] by (blast dest: poll_lock_Gave_Up)
qed

text \<open>
  No boot proceeds unprotected. Whatever the latch, the lock file and the gate answer, a boot
  permit is either the disk's own lock, obtained by a successful \<open>flock\<close> on a file directly inside the
  lock directory whose name belongs to that sandbox alone, or the boot gate, which was granted; an
  unbounded wait never ends empty-handed, and a bounded one does so only after its limit.
\<close>

theorem boot_permit_protects:
  "(case acquire per_disk root sid limit open_ok first polls gate of
      Acq_Disk p \<Rightarrow> per_disk \<and> open_ok \<and> (first = Flock_Took \<or> Flock_Took \<in> snd ` set polls)
        \<and> CHR ''/'' \<notin> set sid \<and> (\<exists>d. root = Some d \<and> p = d @ CHR ''/'' # sid @ ''.lock'')
        \<and> {sid'. lock_path root sid' = Some p} = {sid}
    | Acq_Gate \<Rightarrow> gate
    | Acq_None \<Rightarrow> (\<exists>l. limit = Some l \<and> (gate = False \<or> (\<exists>(elapsed, a) \<in> set polls. l \<le> elapsed)))
    | Acq_Waiting \<Rightarrow> True)
   \<and> boot_permit per_disk root sid open_ok first polls gate \<noteq> Acq_None"
proof (cases "if per_disk then lock_path root sid else None")
  case None
  then show ?thesis
    by (simp add: boot_permit_def acquire_def acquire_gate_def split: option.splits)
next
  case (Some p)
  then have p: "per_disk" "lock_path root sid = Some p" by (simp_all split: if_splits)
  have b: "boot_permit per_disk root sid open_ok first polls gate \<noteq> Acq_None"
    using Some disk_permit_None [of open_ok first polls]
    by (simp add: boot_permit_def acquire_def acquire_gate_def split: disk_outcome.splits)
  show ?thesis
  proof (cases "disk_permit open_ok first limit polls")
    case Disk_Locked
    then show ?thesis
      using Some b p(1) p(2) [unfolded lock_path_Some] lock_path_unique [OF p(2)] disk_permit_Locked [OF Disk_Locked]
      by (simp add: acquire_def)
  next
    case Disk_Gave_Up
    then obtain l where "limit = Some l" "\<exists>(elapsed, a) \<in> set polls. l \<le> elapsed"
      by (rule disk_permit_Gave_Up)
    then show ?thesis using Some b Disk_Gave_Up by (simp add: acquire_def)
  next
    case Disk_Waiting
    then show ?thesis using Some b by (simp add: acquire_def)
  next
    case Disk_Unusable
    then show ?thesis using Some b by (simp add: acquire_def acquire_gate_def split: option.splits)
  qed
qed

section \<open>Preemption\<close>

text \<open>
  \<open>BOOTS_WAITING\<close>, the stored permit of the \<open>Notify\<close>, and the part of \<open>run_once\<close> that watches them
  while the child runs. \<open>stop_requested\<close> is whether \<open>request_stop\<close> has been called in this pass.
\<close>

record preemption =
  boots_waiting :: nat
  notify_permit :: bool
  watching :: bool
  yielding :: bool
  stop_requested :: bool

definition waiting_guard_new :: "preemption \<Rightarrow> preemption" where
  "waiting_guard_new s = s\<lparr>boots_waiting := boots_waiting s + 1, notify_permit := True\<rparr>"

definition waiting_guard_drop :: "preemption \<Rightarrow> preemption" where
  "waiting_guard_drop s = s\<lparr>boots_waiting := boots_waiting s - 1\<rparr>"

definition pass_watch :: "preemption \<Rightarrow> preemption" where
  "pass_watch s =
     (let y = 0 < boots_waiting s in s\<lparr>watching := True, yielding := y, stop_requested := y\<rparr>)"

definition pass_notified :: "preemption \<Rightarrow> preemption" where
  "pass_notified s =
     (let s = s\<lparr>notify_permit := False\<rparr>
      in if 0 < boots_waiting s then s\<lparr>yielding := True, stop_requested := True\<rparr> else s)"

definition pass_exit :: "preemption \<Rightarrow> preemption" where
  "pass_exit s = s\<lparr>watching := False\<rparr>"

inductive preempt_step :: "preemption \<Rightarrow> preemption \<Rightarrow> bool" where
  wait: "preempt_step s (waiting_guard_new s)"
| unwait: "0 < boots_waiting s \<Longrightarrow> preempt_step s (waiting_guard_drop s)"
| watch: "\<not> watching s \<Longrightarrow> preempt_step s (pass_watch s)"
| notified: "watching s \<Longrightarrow> \<not> yielding s \<Longrightarrow> notify_permit s \<Longrightarrow> preempt_step s (pass_notified s)"
| exit: "watching s \<Longrightarrow> preempt_step s (pass_exit s)"

definition preempt_start :: "preemption \<Rightarrow> bool" where
  "preempt_start s \<longleftrightarrow> boots_waiting s = 0 \<and> \<not> watching s"

definition preempt_inv :: "preemption \<Rightarrow> bool" where
  "preempt_inv s \<longleftrightarrow> (watching s \<longrightarrow> yielding s = stop_requested s
     \<and> (0 < boots_waiting s \<longrightarrow> stop_requested s \<or> notify_permit s))"

interpretation preempt_life: inductive_invariant preempt_start preempt_step preempt_inv
proof unfold_locales
  show "preempt_start s \<Longrightarrow> preempt_inv s" for s by (simp add: preempt_start_def preempt_inv_def)
  show "preempt_inv s \<Longrightarrow> preempt_step s t \<Longrightarrow> preempt_inv t" for s t
    by (erule preempt_step.cases) (auto simp: preempt_inv_def waiting_guard_new_def waiting_guard_drop_def
        pass_watch_def pass_notified_def pass_exit_def Let_def)
qed

text \<open>
  A boot that waits on a reclaim pass is never overlooked. In every reachable state in which a
  pass is running and some boot is parked, either the pass has already been asked to stop, or the step
  in which it reads the count is enabled and asks it; and that step asks only if a boot is still
  parked, so a signal that outlived its boot does not cut the pass short.
\<close>

theorem preemption_never_lost:
  assumes "run_of preempt_start preempt_step s" "watching s" "0 < boots_waiting s"
  shows "stop_requested s \<or>
    (preempt_step s (pass_notified s) \<and> stop_requested (pass_notified s)
     \<and> \<not> stop_requested (pass_notified (s\<lparr>boots_waiting := 0\<rparr>)))"
proof -
  have inv: "yielding s = stop_requested s" "stop_requested s \<or> notify_permit s"
    using preempt_life.reachable_inv [OF assms(1)] assms(2,3) by (simp_all add: preempt_inv_def)
  then have "stop_requested s \<or> preempt_step s (pass_notified s)"
    using assms(2) by (blast intro: preempt_step.notified)
  then show ?thesis using assms(3) by (auto simp: pass_notified_def)
qed

theorem preemption_never_lost_witness:
  "\<exists>s. run_of preempt_start preempt_step s \<and> watching s \<and> 0 < boots_waiting s \<and> \<not> stop_requested s
     \<and> preempt_step s (pass_notified s)"
proof -
  let ?s = "\<lambda>n p w. \<lparr>boots_waiting = n, notify_permit = p, watching = w, yielding = False, stop_requested = False\<rparr>"
  have "run_of preempt_start preempt_step (?s 0 False False)" by (rule run_init) (simp add: preempt_start_def)
  then have "run_of preempt_start preempt_step (?s 0 False True)"
    using preempt_step.watch [of "?s 0 False False"] by (rule_tac run_next) (auto simp: pass_watch_def)
  then have r: "run_of preempt_start preempt_step (?s 1 True True)"
    using preempt_step.wait [of "?s 0 False True"] by (rule_tac run_next) (auto simp: waiting_guard_new_def)
  show ?thesis using r preemption_never_lost [OF r] by (intro exI [of _ "?s 1 True True"]) simp
qed

section \<open>One reclaim run\<close>

text \<open>
  \<open>run_once\<close> over the files it shares with the script: the stop file, the marker and the latch. The
  outcome of the child is a parameter: it times out, cannot be launched, or exits after it wrote the
  marker (or did not) and printed its log.
\<close>

record reclaimer =
  running :: bool
  has_run_dir :: bool
  stop_file :: bool
  marker :: "string option"
  per_disk :: bool

datatype run_outcome = Run_Timed_Out | Run_Launch_Failed | Run_Exited "string option" string

definition trim_line :: "string \<Rightarrow> bool" where
  "trim_line l \<longleftrightarrow> starts_with ''trim '' l \<or> starts_with ''would-trim'' l"

definition trimmed_count :: "bytes \<Rightarrow> nat" where
  "trimmed_count stdout = length (filter trim_line (rust_lines (from_utf8_lossy stdout)))"

definition run_once :: "run_outcome \<Rightarrow> reclaimer \<Rightarrow> nat \<times> reclaimer" where
  "run_once out r =
     (if running r then (0, r)
      else let r1 = r\<lparr>stop_file := stop_file r \<and> \<not> has_run_dir r,
                      marker := (if has_run_dir r then None else marker r)\<rparr>
           in case out of
                Run_Timed_Out \<Rightarrow> (0, r1)
              | Run_Launch_Failed \<Rightarrow> (0, r1)
              | Run_Exited m stdout \<Rightarrow>
                  (trimmed_count stdout,
                   if has_run_dir r then r1\<lparr>marker := m, per_disk := refresh_per_disk m\<rparr> else r1))"

lemma run_once_single_flight: "running r \<Longrightarrow> run_once out r = (0, r)"
  by (simp add: run_once_def)

lemma run_once_latch:
  assumes "\<not> running r" "has_run_dir r"
  shows "per_disk (snd (run_once out r)) =
    (case out of Run_Exited m _ \<Rightarrow> refresh_per_disk m | _ \<Rightarrow> per_disk r)"
  using assms by (simp add: run_once_def Let_def split: run_outcome.splits)

section \<open>The exclusion protocol\<close>

text \<open>
  Boots, VMs and one script at a time. A boot permit is a \<open>flock\<close> on the disk (only while the latch is
  set) or the read side of the gate; a pass holds the write side from \<open>pass_begin\<close> until \<open>run_once\<close>
  returns. The script enumerates the disks, snapshots the open ones, and then works on a disk it has
  not seen open: one that honours the protocol first takes the disk's lock (skipping a disk it cannot
  lock) and then asks again, under the lock, whether the disk is open. When the child exits, the latch
  becomes what it declared. \<open>RECLAIM_TIMEOUT\<close> makes \<open>run_once\<close> return while the script's root-owned
  children go on.

  Not every boot is covered by a permit. A create holds none: the daemon clones and formats the disk,
  which is there from then on, and opens it some time later. And a permit ends with the call that holds
  it: a start whose caller goes away, or is told of an error, may have reached the daemon, which then
  goes on alone. \<open>in_flight\<close> holds the VMs the daemon is bringing up in either way.

  Ghost state: \<open>timed_out\<close>; \<open>unlocked_pass\<close>, set when a pass that does not lock starts while the latch is
  set; \<open>strays\<close>, the VMs that were in flight when the last pass enumerated the disks, or that came to be
  by the end of a permit since.
\<close>

datatype permit = Disk_Permit (permit_id: string) | is_Gate_Permit: Gate_Permit (permit_id: string)

record script =
  honours :: bool
  todo :: "string set"
  snapshot :: "string set option"
  on_disk :: "string option"
  editing :: bool

record reclaim_sys =
  latch :: bool
  permits :: "permit list"
  gate_writer :: bool
  live_vms :: "string set"
  in_flight :: "string set"
  strays :: "string set"
  disks :: "string set"
  script :: "script option"
  timed_out :: bool
  unlocked_pass :: bool

definition flock_free :: "reclaim_sys \<Rightarrow> string \<Rightarrow> bool" where
  "flock_free x sid \<longleftrightarrow> Disk_Permit sid \<notin> set (permits x)
     \<and> (case script x of None \<Rightarrow> True | Some s \<Rightarrow> \<not> (honours s \<and> on_disk s = Some sid))"

definition no_gate_readers :: "reclaim_sys \<Rightarrow> bool" where
  "no_gate_readers x \<longleftrightarrow> (\<forall>p \<in> set (permits x). \<not> is_Gate_Permit p)"

inductive reclaim_step :: "reclaim_sys \<Rightarrow> reclaim_sys \<Rightarrow> bool" where
  boot_disk: "latch x \<Longrightarrow> flock_free x sid \<Longrightarrow>
    reclaim_step x (x\<lparr>permits := Disk_Permit sid # permits x\<rparr>)"
| boot_gate: "\<not> gate_writer x \<Longrightarrow> reclaim_step x (x\<lparr>permits := Gate_Permit sid # permits x\<rparr>)"
| boot_done: "p \<in> set (permits x) \<Longrightarrow> permit_id p \<in> disks x \<Longrightarrow>
    reclaim_step x (x\<lparr>permits := remove1 p (permits x),
                     live_vms := (if started then insert (permit_id p) (live_vms x) else live_vms x)\<rparr>)"
| boot_dropped: "p \<in> set (permits x) \<Longrightarrow> reclaim_step x (x\<lparr>permits := remove1 p (permits x)\<rparr>)"
| boot_left_behind: "p \<in> set (permits x) \<Longrightarrow> permit_id p \<in> disks x \<Longrightarrow>
    reclaim_step x (x\<lparr>permits := remove1 p (permits x), in_flight := insert (permit_id p) (in_flight x),
                     strays := insert (permit_id p) (strays x)\<rparr>)"
| vm_stop: "reclaim_step x (x\<lparr>live_vms := live_vms x - {sid}\<rparr>)"
| vm_create: "sid \<notin> disks x \<Longrightarrow>
    reclaim_step x (x\<lparr>disks := insert sid (disks x), in_flight := insert sid (in_flight x)\<rparr>)"
| vm_opens: "sid \<in> in_flight x \<Longrightarrow>
    reclaim_step x (x\<lparr>in_flight := in_flight x - {sid}, live_vms := insert sid (live_vms x)\<rparr>)"
| vm_fails: "reclaim_step x (x\<lparr>in_flight := in_flight x - {sid}\<rparr>)"
| pass_begin: "script x = None \<Longrightarrow> \<not> gate_writer x \<Longrightarrow> no_gate_readers x \<Longrightarrow>
    reclaim_step x (x\<lparr>gate_writer := True,
      script := Some \<lparr>honours = h, todo = disks x, snapshot = None, on_disk = None, editing = False\<rparr>,
      strays := in_flight x,
      unlocked_pass := unlocked_pass x \<or> (latch x \<and> \<not> h)\<rparr>)"
| script_snapshot: "script x = Some s \<Longrightarrow> snapshot s = None \<Longrightarrow>
    reclaim_step x (x\<lparr>script := Some (s\<lparr>snapshot := Some (live_vms x)\<rparr>)\<rparr>)"
| script_lock: "script x = Some s \<Longrightarrow> honours s \<Longrightarrow> on_disk s = None \<Longrightarrow> snapshot s = Some seen \<Longrightarrow>
    sid \<in> todo s - seen \<Longrightarrow> flock_free x sid \<Longrightarrow>
    reclaim_step x (x\<lparr>script := Some (s\<lparr>on_disk := Some sid\<rparr>)\<rparr>)"
| script_check: "script x = Some s \<Longrightarrow> honours s \<Longrightarrow> on_disk s = Some sid \<Longrightarrow> sid \<notin> live_vms x \<Longrightarrow>
    reclaim_step x (x\<lparr>script := Some (s\<lparr>editing := True\<rparr>)\<rparr>)"
| script_take: "script x = Some s \<Longrightarrow> \<not> honours s \<Longrightarrow> on_disk s = None \<Longrightarrow> snapshot s = Some seen \<Longrightarrow>
    sid \<in> todo s - seen \<Longrightarrow>
    reclaim_step x (x\<lparr>script := Some (s\<lparr>on_disk := Some sid, editing := True\<rparr>)\<rparr>)"
| script_done: "script x = Some s \<Longrightarrow>
    reclaim_step x (x\<lparr>script := Some (s\<lparr>on_disk := None, editing := False\<rparr>)\<rparr>)"
| pass_end: "script x = Some s \<Longrightarrow> on_disk s = None \<Longrightarrow> gate_writer x \<Longrightarrow>
    reclaim_step x (x\<lparr>script := None, gate_writer := False, latch := honours s\<rparr>)"
| pass_timeout: "script x = Some s \<Longrightarrow> gate_writer x \<Longrightarrow>
    reclaim_step x (x\<lparr>gate_writer := False, timed_out := True\<rparr>)"

definition reclaim_start :: "reclaim_sys \<Rightarrow> bool" where
  "reclaim_start x \<longleftrightarrow> permits x = [] \<and> \<not> gate_writer x \<and> script x = None \<and> live_vms x \<subseteq> disks x
     \<and> in_flight x \<subseteq> disks x \<and> \<not> timed_out x \<and> \<not> unlocked_pass x"

text \<open>
  The hazard: the script works on a disk that a VM has open, that the daemon is making or about to open,
  or that a boot with a permit is about to open.
\<close>

definition disk_at_risk :: "reclaim_sys \<Rightarrow> string \<Rightarrow> bool" where
  "disk_at_risk x sid \<longleftrightarrow> (\<exists>s. script x = Some s \<and> editing s \<and> on_disk s = Some sid)
     \<and> (sid \<in> live_vms x \<or> sid \<in> in_flight x \<or> sid \<in> permit_id ` set (permits x))"

fun script_ok :: "script option \<Rightarrow> reclaim_sys \<Rightarrow> bool" where
  "script_ok None x \<longleftrightarrow> True"
| "script_ok (Some s) x \<longleftrightarrow> gate_writer x \<and> no_gate_readers x \<and> todo s \<subseteq> disks x
     \<and> todo s \<inter> in_flight x \<subseteq> strays x
     \<and> (editing s \<longrightarrow> on_disk s \<noteq> None) \<and> (\<not> honours s \<longrightarrow> \<not> latch x)
     \<and> (\<forall>seen. \<not> honours s \<longrightarrow> snapshot s = Some seen \<longrightarrow> todo s \<inter> live_vms x \<subseteq> seen \<union> strays x)
     \<and> (\<forall>sid. on_disk s = Some sid \<longrightarrow> sid \<in> todo s \<and> Disk_Permit sid \<notin> set (permits x))
     \<and> (\<forall>sid. on_disk s = Some sid \<longrightarrow> editing s \<longrightarrow> sid \<in> live_vms x \<longrightarrow> sid \<in> strays x)"

definition reclaim_inv :: "reclaim_sys \<Rightarrow> bool" where
  "reclaim_inv x \<longleftrightarrow> timed_out x \<or> unlocked_pass x
     \<or> (live_vms x \<subseteq> disks x \<and> in_flight x \<subseteq> disks x \<and> (\<not> latch x \<longrightarrow> (\<forall>p \<in> set (permits x). is_Gate_Permit p))
        \<and> script_ok (script x) x)"

lemma reclaim_inv_step: "reclaim_inv x \<Longrightarrow> reclaim_step x y \<Longrightarrow> reclaim_inv y"
proof (erule reclaim_step.cases, goal_cases)
  case (1 x sid)
  then show ?case by (cases "script x") (auto simp: reclaim_inv_def flock_free_def no_gate_readers_def)
next
  case (2 x sid)
  then show ?case by (cases "script x") (auto simp: reclaim_inv_def no_gate_readers_def)
next
  case (3 p x started)
  then show ?case
    by (cases "script x"; cases p) (auto simp: reclaim_inv_def no_gate_readers_def dest: in_set_remove1 [THEN iffD1] set_remove1_subset [THEN subsetD])
next
  case (4 p x)
  then show ?case
    by (cases "script x") (auto simp: reclaim_inv_def no_gate_readers_def dest: set_remove1_subset [THEN subsetD])
next
  case (5 p x)
  then show ?case
    by (cases "script x") (auto simp: reclaim_inv_def no_gate_readers_def dest: set_remove1_subset [THEN subsetD])
next
  case (6 x sid)
  then show ?case by (cases "script x") (auto simp: reclaim_inv_def no_gate_readers_def)
next
  case (7 sid x)
  then show ?case by (cases "script x") (auto simp: reclaim_inv_def no_gate_readers_def)
next
  case (8 sid x)
  then show ?case by (cases "script x") (auto simp: reclaim_inv_def no_gate_readers_def)
next
  case (9 x sid)
  then show ?case by (cases "script x") (auto simp: reclaim_inv_def no_gate_readers_def)
next
  case (10 x h)
  then show ?case by (auto simp: reclaim_inv_def no_gate_readers_def)
qed (auto simp: reclaim_inv_def no_gate_readers_def flock_free_def)

interpretation reclaim_life: inductive_invariant reclaim_start reclaim_step reclaim_inv
proof unfold_locales
  show "reclaim_start x \<Longrightarrow> reclaim_inv x" for x by (simp add: reclaim_start_def reclaim_inv_def)
  show "reclaim_inv x \<Longrightarrow> reclaim_step x y \<Longrightarrow> reclaim_inv y" for x y by (rule reclaim_inv_step)
qed

lemmas reclaim_next = run_next [where init = reclaim_start and step = reclaim_step]

text \<open>
  C6: Boots and reclaim work meet on a disk only through a boot that no permit covers. As long as no
  pass has been abandoned on its timeout and no pass that does not lock has started while the latch was
  set, in every interleaving of boots, stops, creates and passes of either kind of script, the disk the
  script works on is not about to be opened by a boot that holds a permit; and it is open in a VM, or
  being brought up by the daemon, only if it is a stray: a create, or a start whose caller had gone, that
  was in flight when the pass enumerated the disks, or a start whose caller went away during the pass.
\<close>

theorem reclaim_excludes_boots:
  assumes "run_of reclaim_start reclaim_step x" "\<not> timed_out x" "\<not> unlocked_pass x"
    and "script x = Some s" "editing s" "on_disk s = Some sid"
  shows "sid \<notin> permit_id ` set (permits x) \<and> (sid \<in> live_vms x \<union> in_flight x \<longrightarrow> sid \<in> strays x)"
proof -
  have ok: "script_ok (Some s) x" using reclaim_life.reachable_inv [OF assms(1)] assms(2-4)
    by (auto simp: reclaim_inv_def)
  then have "sid \<in> live_vms x \<union> in_flight x \<longrightarrow> sid \<in> strays x" using assms(5,6) by auto
  moreover have "Disk_Permit sid \<notin> set (permits x)" "\<forall>p \<in> set (permits x). \<not> is_Gate_Permit p"
    using ok assms(6) by (simp_all add: no_gate_readers_def)
  moreover have "p = Disk_Permit (permit_id p) \<or> is_Gate_Permit p" for p by (cases p) simp_all
  ultimately show ?thesis by (metis imageE)
qed

text \<open>The states of the concrete runs below: one disk \<open>d\<close>, a script in one of its stages.\<close>

definition demo_sys :: "bool \<Rightarrow> permit list \<Rightarrow> bool \<Rightarrow> script option \<Rightarrow> bool \<Rightarrow> bool \<Rightarrow> reclaim_sys" where
  "demo_sys l ps w sc t u = \<lparr>latch = l, permits = ps, gate_writer = w, live_vms = {}, in_flight = {}, strays = {},
     disks = {''d''}, script = sc, timed_out = t, unlocked_pass = u\<rparr>"

definition demo_script :: "bool \<Rightarrow> bool \<Rightarrow> bool \<Rightarrow> script" where
  "demo_script h snap busy = \<lparr>honours = h, todo = {''d''}, snapshot = (if snap then Some {} else None),
     on_disk = (if busy then Some ''d'' else None), editing = busy\<rparr>"

lemma demo_start: "run_of reclaim_start reclaim_step (demo_sys l [] False None False False)"
  by (rule run_init) (simp add: reclaim_start_def demo_sys_def)

lemma demo_begin:
  "run_of reclaim_start reclaim_step (demo_sys l [] True (Some (demo_script h True False)) False (l \<and> \<not> h))"
proof -
  have "run_of reclaim_start reclaim_step (demo_sys l [] True (Some (demo_script h False False)) False (l \<and> \<not> h))"
    using demo_start by (rule reclaim_next [OF _ reclaim_step.pass_begin [where h = h]])
      (simp_all add: demo_sys_def demo_script_def no_gate_readers_def)
  then show ?thesis
    by (rule reclaim_next [OF _ reclaim_step.script_snapshot [where s = "demo_script h False False"]])
      (simp_all add: demo_sys_def demo_script_def)
qed

lemma demo_legacy_works:
  "run_of reclaim_start reclaim_step (demo_sys l [] True (Some (demo_script False True True)) False l)"
  by (rule reclaim_next [OF demo_begin [of l False]
        reclaim_step.script_take [where s = "demo_script False True False" and sid = "''d''" and seen = "{}"]])
    (simp_all add: demo_sys_def demo_script_def)

theorem reclaim_excludes_boots_witness:
  "\<exists>x s. run_of reclaim_start reclaim_step x \<and> script x = Some s \<and> editing s \<and> on_disk s = Some ''d''
     \<and> strays x = {} \<and> ''d'' \<notin> live_vms x \<union> in_flight x \<and> \<not> disk_at_risk x ''d''"
proof -
  let ?s = "demo_script False True True"
  let ?x = "demo_sys False [] True (Some ?s) False False"
  have s: "script ?x = Some ?s" "editing ?s" "on_disk ?s = Some ''d''" "strays ?x = {}" by (simp_all add: demo_sys_def demo_script_def)
  have "''d'' \<notin> permit_id ` set (permits ?x) \<and> (''d'' \<in> live_vms ?x \<union> in_flight ?x \<longrightarrow> ''d'' \<in> strays ?x)"
    by (rule reclaim_excludes_boots [OF demo_legacy_works _ _ s(1-3)]) (simp_all add: demo_sys_def)
  then have "''d'' \<notin> live_vms ?x \<union> in_flight ?x \<and> \<not> disk_at_risk ?x ''d''" using s(4) by (auto simp: disk_at_risk_def)
  then show ?thesis using demo_legacy_works [of False] s by blast
qed

text \<open>
  A create in flight is such a stray, with per-disk locks too. The daemon has made the disk when the
  pass enumerates it; the script takes the lock, which nobody holds, finds the disk in no VM and works on
  it, and the daemon opens it.
\<close>

lemma create_in_flight_is_edited:
  "\<exists>x. run_of reclaim_start reclaim_step x \<and> latch x \<and> \<not> timed_out x \<and> \<not> unlocked_pass x \<and> permits x = []
     \<and> ''d'' \<in> live_vms x \<and> disk_at_risk x ''d''"
proof -
  let ?x = "\<lambda>w live fl st ds sc. \<lparr>latch = True, permits = [], gate_writer = w, live_vms = live, in_flight = fl, strays = st,
     disks = ds, script = sc, timed_out = False, unlocked_pass = False\<rparr>"
  let ?d = "{''d''}"
  let ?s = "\<lambda>snap od ed. \<lparr>honours = True, todo = ?d, snapshot = snap, on_disk = od, editing = ed\<rparr>"
  have "run_of reclaim_start reclaim_step (?x False {} {} {} {} None)" by (rule run_init) (simp add: reclaim_start_def)
  then have "run_of reclaim_start reclaim_step (?x False {} ?d {} ?d None)"
    by (rule reclaim_next [OF _ reclaim_step.vm_create [where sid = "''d''"]]) simp_all
  then have "run_of reclaim_start reclaim_step (?x True {} ?d ?d ?d (Some (?s None None False)))"
    by (rule reclaim_next [OF _ reclaim_step.pass_begin [where h = True]]) (simp_all add: no_gate_readers_def)
  then have "run_of reclaim_start reclaim_step (?x True {} ?d ?d ?d (Some (?s (Some {}) None False)))"
    by (rule reclaim_next [OF _ reclaim_step.script_snapshot [where s = "?s None None False"]]) simp_all
  then have "run_of reclaim_start reclaim_step (?x True {} ?d ?d ?d (Some (?s (Some {}) (Some ''d'') False)))"
    by (rule reclaim_next [OF _ reclaim_step.script_lock [where s = "?s (Some {}) None False" and sid = "''d''" and seen = "{}"]])
      (simp_all add: flock_free_def)
  then have "run_of reclaim_start reclaim_step (?x True {} ?d ?d ?d (Some (?s (Some {}) (Some ''d'') True)))"
    by (rule reclaim_next [OF _ reclaim_step.script_check [where s = "?s (Some {}) (Some ''d'') False" and sid = "''d''"]]) simp_all
  then have "run_of reclaim_start reclaim_step (?x True ?d {} ?d ?d (Some (?s (Some {}) (Some ''d'') True)))"
    by (rule reclaim_next [OF _ reclaim_step.vm_opens [where sid = "''d''"]]) simp_all
  then show ?thesis by (rule_tac exI, intro conjI, assumption) (simp_all add: disk_at_risk_def)
qed

text \<open>
  The timeout of a pass hands the gate back too early. With the global gate in force, a pass
  that overruns \<open>RECLAIM_TIMEOUT\<close> releases the gate while the script's root-owned children still work
  on a disk, and a boot of that very disk is granted a permit: the state is reachable without any
  mismatch of script and latch.
\<close>

theorem timeout_releases_gate_early:
  "\<exists>x. run_of reclaim_start reclaim_step x \<and> \<not> unlocked_pass x \<and> \<not> latch x
     \<and> Gate_Permit ''d'' \<in> set (permits x) \<and> disk_at_risk x ''d''"
proof -
  have "run_of reclaim_start reclaim_step (demo_sys False [] False (Some (demo_script False True True)) True False)"
    using demo_legacy_works [of False]
    by (rule reclaim_next [OF _ reclaim_step.pass_timeout [where s = "demo_script False True True"]])
      (simp_all add: demo_sys_def)
  then have "run_of reclaim_start reclaim_step
      (demo_sys False [Gate_Permit ''d''] False (Some (demo_script False True True)) True False)"
    by (rule reclaim_next [OF _ reclaim_step.boot_gate [where sid = "''d''"]]) (simp_all add: demo_sys_def)
  then show ?thesis
    by (rule_tac exI [of _ "demo_sys False [Gate_Permit ''d''] False (Some (demo_script False True True)) True False"])
      (simp add: demo_sys_def demo_script_def disk_at_risk_def)
qed

text \<open>
  After a rollback to a script that does not lock, the whole first pass is unprotected. While
  such a pass runs the latch still holds the previous script's answer, so a boot that arrives at any
  time during that pass takes only the per-disk lock, which this script ignores, and opens a disk the
  script is working on; no timeout is involved.
\<close>

theorem unlocked_pass_meets_boot:
  "\<exists>x y. run_of reclaim_start reclaim_step x \<and> \<not> timed_out x \<and> permits x = []
     \<and> (\<exists>s. script x = Some s \<and> editing s \<and> on_disk s = Some ''d'')
     \<and> reclaim_step x y \<and> disk_at_risk y ''d''"
proof -
  let ?s = "Some (demo_script False True True)"
  have "reclaim_step (demo_sys True [] True ?s False True) (demo_sys True [Disk_Permit ''d''] True ?s False True)"
    using reclaim_step.boot_disk [of "demo_sys True [] True ?s False True" "''d''"]
    by (simp add: demo_sys_def flock_free_def demo_script_def)
  moreover have "disk_at_risk (demo_sys True [Disk_Permit ''d''] True ?s False True) ''d''"
    by (simp add: demo_sys_def demo_script_def disk_at_risk_def)
  ultimately show ?thesis using demo_legacy_works [of True]
    by (intro exI conjI) (auto simp: demo_sys_def demo_script_def)
qed

end
