(* ===== verification/Offload.thy ===== *)
theory Offload
  imports Store
begin

text \<open>
  The offload planner of \<open>src/src/registry.rs\<close>: the per-schema failure memories (\<open>OffloadBackoff\<close>,
  \<open>BringupBreaker\<close>), the choice of the next offload job (\<open>classify_candidate\<close>, \<open>pick_offload_job\<close>) and
  the dispatchers that run jobs concurrently (\<open>spawn_offloader\<close>, \<open>offload_drain_loop\<close>). A \<open>Duration\<close>
  and an \<open>Instant\<close> are natural numbers of nanoseconds.
\<close>

definition secs :: "nat \<Rightarrow> nat" where
  "secs n = n * 1000000000"

section \<open>Failure memories\<close>

type_synonym failures = "(string, nat \<times> nat) hashmap"

abbreviation U32_MAX :: nat where "U32_MAX \<equiv> 2 ^ 32 - 1"

definition OFFLOAD_BACKOFF_BASE :: nat where "OFFLOAD_BACKOFF_BASE = secs (30 * 60)"
definition OFFLOAD_BACKOFF_CAP :: nat where "OFFLOAD_BACKOFF_CAP = secs (24 * 3600)"
definition BRINGUP_BREAKER_BASE :: nat where "BRINGUP_BREAKER_BASE = secs 60"
definition BRINGUP_BREAKER_CAP :: nat where "BRINGUP_BREAKER_CAP = secs (15 * 60)"

definition offload_backoff_delay :: "nat \<Rightarrow> nat" where
  "offload_backoff_delay failures =
     min (OFFLOAD_BACKOFF_BASE * 2 ^ (min (failures - 1) 6)) OFFLOAD_BACKOFF_CAP"

definition backoff_record_failure :: "string \<Rightarrow> nat \<Rightarrow> failures \<Rightarrow> (nat \<times> nat) \<times> failures" where
  "backoff_record_failure schema now m =
     (let n = (case hm_get m schema of None \<Rightarrow> 0 | Some (k, _) \<Rightarrow> k);
          n' = min (n + 1) U32_MAX
      in ((n', offload_backoff_delay n'), hm_insert schema (n', now) m))"

definition backoff_clear :: "string \<Rightarrow> failures \<Rightarrow> failures" where
  "backoff_clear schema m = hm_remove schema m"

definition backoff_active :: "string \<Rightarrow> nat \<Rightarrow> failures \<Rightarrow> nat option" where
  "backoff_active schema now m =
     (case hm_get m schema of
        None \<Rightarrow> None
      | Some (n, at) \<Rightarrow>
          let delay = offload_backoff_delay n; since = now - at
          in if delay < since then None else if delay - since = 0 then None else Some (delay - since))"

definition hold_for :: "nat \<Rightarrow> nat" where
  "hold_for failures = min (BRINGUP_BREAKER_BASE * 2 ^ (min (failures - 1) 10)) BRINGUP_BREAKER_CAP"

definition breaker_holding :: "string \<Rightarrow> nat \<Rightarrow> failures \<Rightarrow> (nat \<times> nat) option" where
  "breaker_holding schema now m =
     (case hm_get m schema of
        None \<Rightarrow> None
      | Some (n, at) \<Rightarrow>
          let hold = hold_for n; since = now - at
          in if since < hold then Some (n, hold - since) else None)"

text \<open>\<open>entry.0 += 1\<close> on a \<open>u32\<close>; a release build wraps.\<close>

definition breaker_record_failure :: "string \<Rightarrow> nat \<Rightarrow> failures \<Rightarrow> (nat \<times> nat) \<times> failures" where
  "breaker_record_failure schema now m =
     (let n = (case hm_get m schema of None \<Rightarrow> 0 | Some (k, _) \<Rightarrow> k);
          n' = (n + 1) mod 2 ^ 32
      in ((n', hold_for n'), hm_insert schema (n', now) m))"

definition breaker_clear :: "string \<Rightarrow> failures \<Rightarrow> failures" where
  "breaker_clear schema m = hm_remove schema m"

text \<open>Both delays double from their base and stop at their cap; the bounded exponents are enough.\<close>

lemma pow_min_cap:
  fixes b c :: nat
  assumes "c \<le> b * 2 ^ k" "1 \<le> n"
  shows "min (b * 2 ^ min (Suc n - 1) k) c = min (2 * min (b * 2 ^ min (n - 1) k) c) c"
proof (cases "n \<le> k")
  case True
  then have e: "min (Suc n - 1) k = Suc (min (n - 1) k)" using assms(2) by simp
  have "b * 2 ^ min (Suc n - 1) k = 2 * (b * 2 ^ min (n - 1) k)" unfolding e by simp
  then show ?thesis by (simp only: min_def) auto
next
  case False
  then have "min (Suc n - 1) k = k" "min (n - 1) k = k" by auto
  then show ?thesis using assms(1) by (simp add: min_def)
qed

interpretation offload_delay: capped_backoff offload_backoff_delay OFFLOAD_BACKOFF_BASE OFFLOAD_BACKOFF_CAP
proof unfold_locales
  show "offload_backoff_delay (Suc 0) = OFFLOAD_BACKOFF_BASE"
    by (simp add: offload_backoff_delay_def OFFLOAD_BACKOFF_BASE_def OFFLOAD_BACKOFF_CAP_def secs_def)
  show "1 \<le> n \<Longrightarrow> offload_backoff_delay (Suc n) = min (2 * offload_backoff_delay n) OFFLOAD_BACKOFF_CAP" for n
    unfolding offload_backoff_delay_def
    by (rule pow_min_cap) (simp_all add: OFFLOAD_BACKOFF_BASE_def OFFLOAD_BACKOFF_CAP_def secs_def)
qed (simp_all add: OFFLOAD_BACKOFF_BASE_def OFFLOAD_BACKOFF_CAP_def secs_def)

interpretation bringup_hold: capped_backoff hold_for BRINGUP_BREAKER_BASE BRINGUP_BREAKER_CAP
proof unfold_locales
  show "hold_for (Suc 0) = BRINGUP_BREAKER_BASE"
    by (simp add: hold_for_def BRINGUP_BREAKER_BASE_def BRINGUP_BREAKER_CAP_def secs_def)
  show "1 \<le> n \<Longrightarrow> hold_for (Suc n) = min (2 * hold_for n) BRINGUP_BREAKER_CAP" for n
    unfolding hold_for_def
    by (rule pow_min_cap) (simp_all add: BRINGUP_BREAKER_BASE_def BRINGUP_BREAKER_CAP_def secs_def)
qed (simp_all add: BRINGUP_BREAKER_BASE_def BRINGUP_BREAKER_CAP_def secs_def)

text \<open>A history of bring-ups, most recent last, and what it says of one schema.\<close>

datatype bringup_event = Bringup_Failed string nat | Bringup_Ok string

fun breaker_apply :: "bringup_event \<Rightarrow> failures \<Rightarrow> failures" where
  "breaker_apply (Bringup_Failed s t) m = snd (breaker_record_failure s t m)"
| "breaker_apply (Bringup_Ok s) m = breaker_clear s m"

fun streak :: "string \<Rightarrow> bringup_event \<Rightarrow> (nat \<times> nat) option \<Rightarrow> (nat \<times> nat) option" where
  "streak s (Bringup_Failed s' t) r =
     (if s' = s then Some (case r of None \<Rightarrow> 1 | Some (n, _) \<Rightarrow> n + 1, t) else r)"
| "streak s (Bringup_Ok s') r = (if s' = s then None else r)"

lemma streak_bound:
  "fold (streak s) evs r = Some (n, t) \<Longrightarrow>
     n \<le> (case r of None \<Rightarrow> 0 | Some (k, _) \<Rightarrow> k) + length evs"
proof (induction evs arbitrary: r)
  case (Cons e evs)
  then show ?case by (cases e) (fastforce split: if_splits option.splits)+
qed simp

lemma streak_pos: "fold (streak s) evs None = Some (n, t) \<Longrightarrow> 1 \<le> n"
proof (induction evs arbitrary: n t rule: rev_induct)
  case (snoc e evs)
  then show ?case by (cases e) (auto split: if_splits option.splits)
qed simp

lemma breaker_streak:
  assumes "length evs < 2 ^ 32"
  shows "hm_get (fold breaker_apply evs []) s = fold (streak s) evs None"
  using assms
proof (induction evs arbitrary: s rule: rev_induct)
  case (snoc e evs)
  then have ih: "hm_get (fold breaker_apply evs []) s = fold (streak s) evs None" for s by simp
  have "fold (streak s) evs None = Some (n, t) \<Longrightarrow> Suc n < 2 ^ 32" for n t s
    using streak_bound [of s evs None n t] snoc.prems by simp
  then show ?case using ih
    by (cases e) (auto simp: breaker_record_failure_def breaker_clear_def Let_def split: option.splits)
qed simp

text \<open>
  The bring-up breaker holds a schema exactly as long as it says. After any history of failed
  and successful bring-ups (shorter than \<open>2 ^ 32\<close>), a schema is held at \<open>now\<close> if and only if it has
  failed \<open>n \<ge> 1\<close> times since its last success and less than \<open>min (60 s * 2 ^ (n - 1)) 15 min\<close> has
  passed since the latest of those failures; the remaining time reported is the rest of that hold.
\<close>

theorem breaker_hold_schedule:
  assumes "length evs < 2 ^ 32"
  shows "breaker_holding s now (fold breaker_apply evs []) = Some (n, left) \<longleftrightarrow>
    (\<exists>t. fold (streak s) evs None = Some (n, t)
       \<and> now - t < min (secs 60 * 2 ^ (n - 1)) (secs 900)
       \<and> left = min (secs 60 * 2 ^ (n - 1)) (secs 900) - (now - t))"
proof -
  have "fold (streak s) evs None = Some (n, t) \<Longrightarrow> hold_for n = min (secs 60 * 2 ^ (n - 1)) (secs 900)" for n t
    using bringup_hold.hold_closed_form [of n] streak_pos
    by (simp add: BRINGUP_BREAKER_BASE_def BRINGUP_BREAKER_CAP_def)
  then show ?thesis
    by (auto simp: breaker_holding_def breaker_streak [OF assms] Let_def split: option.splits)
qed

theorem breaker_hold_schedule_witness:
  "breaker_holding ''s'' (secs 100) (fold breaker_apply [Bringup_Failed ''s'' 0, Bringup_Failed ''s'' (secs 60)] [])
     = Some (2, secs 80)"
proof -
  let ?evs = "[Bringup_Failed ''s'' 0, Bringup_Failed ''s'' (secs 60)]"
  have "breaker_holding ''s'' (secs 100) (fold breaker_apply ?evs []) = Some (2, secs 80) \<longleftrightarrow>
    (\<exists>t. fold (streak ''s'') ?evs None = Some (2, t)
       \<and> secs 100 - t < min (secs 60 * 2 ^ (2 - 1)) (secs 900)
       \<and> secs 80 = min (secs 60 * 2 ^ (2 - 1)) (secs 900) - (secs 100 - t))"
    by (rule breaker_hold_schedule) simp
  then show ?thesis by (simp add: secs_def)
qed

section \<open>Choosing the next offload\<close>

datatype offload_kind = Promote | Compact | ImageArchive | Archive | Freeze
datatype offload_mode = Routine | Pressure
datatype sweep_action = Skip | Refresh | Archive_Now

record offload_job =
  job_schema :: string
  job_kind :: offload_kind

record offload_policy =
  compact_after :: "u64 option"
  freeze_after :: "u64 option"
  archive_after :: "u64 option"
  image_archive :: bool
  no_boot :: bool
  mode :: offload_mode

fun kind_boots :: "offload_kind \<Rightarrow> bool" where
  "kind_boots Archive = True"
| "kind_boots Freeze = True"
| "kind_boots _ = False"

fun kind_rank :: "offload_mode \<Rightarrow> offload_kind \<Rightarrow> nat" where
  "kind_rank Routine Promote = 0"
| "kind_rank Routine Compact = 1"
| "kind_rank Routine ImageArchive = 2"
| "kind_rank Routine Archive = 3"
| "kind_rank Routine Freeze = 4"
| "kind_rank Pressure Compact = 0"
| "kind_rank Pressure ImageArchive = 1"
| "kind_rank Pressure Promote = 2"
| "kind_rank Pressure Archive = 3"
| "kind_rank Pressure Freeze = 4"

text \<open>\<open>live\<close> is a warm schema's \<open>(active sessions, idle seconds)\<close>.\<close>

definition classify_candidate :: "rec \<Rightarrow> bool \<Rightarrow> u64 \<Rightarrow> u64 \<Rightarrow> (nat \<times> u64) option \<Rightarrow> sweep_action" where
  "classify_candidate r keepalive now threshold live =
     (if offloaded r \<or> keepalive then Skip
      else if now - last_active r < threshold then Skip
      else (case live of
              Some (active, idle) \<Rightarrow> if 0 < active \<or> idle < threshold then Refresh else Archive_Now
            | None \<Rightarrow> Archive_Now))"

definition eligible :: "rec \<Rightarrow> u64 \<Rightarrow> u64 option \<Rightarrow> (nat \<times> u64) option \<Rightarrow> bool" where
  "eligible r now after live =
     (case after of None \<Rightarrow> False | Some a \<Rightarrow> classify_candidate r False now a live = Archive_Now)"

text \<open>The arm of the loop for one record: the job it offers, or whether its clock is refreshed.\<close>

definition stale_but_warm :: "offload_policy \<Rightarrow> rec \<Rightarrow> (nat \<times> u64) option \<Rightarrow> u64 \<Rightarrow> bool" where
  "stale_but_warm t r warm now \<longleftrightarrow>
     list_ex (\<lambda>a. case a of None \<Rightarrow> False | Some after \<Rightarrow> classify_candidate r False now after warm = Refresh)
       [compact_after t, archive_after t, freeze_after t]"

definition offer :: "offload_policy \<Rightarrow> rec \<Rightarrow> (nat \<times> u64) option \<Rightarrow> u64 \<Rightarrow> offload_kind option" where
  "offer t r warm now =
     (case tier_of r of
        Archived \<Rightarrow> None
      | Live \<Rightarrow>
          if warm = None \<and> eligible r now (compact_after t) None then Some Compact
          else if image_archive t \<and> mode t = Pressure \<and> warm = None
                  \<and> eligible r now (archive_after t) None then Some ImageArchive
          else if \<not> no_boot t \<and> eligible r now (archive_after t) warm then Some Archive
          else if \<not> no_boot t \<and> eligible r now (freeze_after t) warm then Some Freeze
          else None
      | _ \<Rightarrow> (case archive_after t of
                None \<Rightarrow> None
              | Some after \<Rightarrow> if after \<le> now - last_active r then Some Promote else None))"

type_synonym best_job = "(nat \<times> u64 \<times> string \<times> offload_kind) option"

definition improves :: "nat \<Rightarrow> u64 \<Rightarrow> best_job \<Rightarrow> bool" where
  "improves rank idle best =
     (case best of None \<Rightarrow> True | Some (br, bi, _, _) \<Rightarrow> rank < br \<or> (rank = br \<and> bi < idle))"

fun pick_loop ::
  "(string \<times> rec) list \<Rightarrow> (string \<Rightarrow> (nat \<times> u64) option) \<Rightarrow> offload_policy \<Rightarrow> (string \<Rightarrow> bool) \<Rightarrow> (string \<Rightarrow> bool) \<Rightarrow>
     u64 \<Rightarrow> best_job \<Rightarrow> string list \<Rightarrow> best_job \<times> string list" where
  "pick_loop [] live t keepalive backing_off now best refresh = (best, refresh)"
| "pick_loop ((schema, r) # recs) live t keepalive backing_off now best refresh =
     (if keepalive schema \<or> backing_off schema
      then pick_loop recs live t keepalive backing_off now best refresh
      else (let idle = now - last_active r in
            case offer t r (live schema) now of
              Some k \<Rightarrow>
                (let rank = kind_rank (mode t) k in
                 pick_loop recs live t keepalive backing_off now
                   (if improves rank idle best then Some (rank, idle, schema, k) else best) refresh)
            | None \<Rightarrow>
                pick_loop recs live t keepalive backing_off now best
                  (if tier_of r = Live \<and> stale_but_warm t r (live schema) now
                   then refresh @ [schema] else refresh)))"

definition pick_offload_job ::
  "(string \<times> rec) list \<Rightarrow> (string \<Rightarrow> (nat \<times> u64) option) \<Rightarrow> offload_policy \<Rightarrow> (string \<Rightarrow> bool) \<Rightarrow> (string \<Rightarrow> bool) \<Rightarrow>
     u64 \<Rightarrow> offload_job option \<times> string list" where
  "pick_offload_job records live t keepalive backing_off now =
     (case pick_loop records live t keepalive backing_off now None [] of
        (best, refresh) \<Rightarrow>
          (map_option (\<lambda>(_, _, schema, k). \<lparr>job_schema = schema, job_kind = k\<rparr>) best, refresh))"

text \<open>The candidates of a scan, with the key the scan minimises.\<close>

definition candidate ::
  "(string \<times> rec) list \<Rightarrow> (string \<Rightarrow> (nat \<times> u64) option) \<Rightarrow> offload_policy \<Rightarrow> (string \<Rightarrow> bool) \<Rightarrow> (string \<Rightarrow> bool) \<Rightarrow>
     u64 \<Rightarrow> string \<Rightarrow> rec \<Rightarrow> offload_kind \<Rightarrow> bool" where
  "candidate records live t keepalive backing_off now schema r k \<longleftrightarrow>
     (schema, r) \<in> set records \<and> \<not> keepalive schema \<and> \<not> backing_off schema
     \<and> offer t r (live schema) now = Some k"

definition beats :: "nat \<times> u64 \<Rightarrow> nat \<times> u64 \<Rightarrow> bool" where
  "beats a b \<longleftrightarrow> fst a < fst b \<or> (fst a = fst b \<and> snd b < snd a)"

lemma beats_trans: "\<not> beats a b \<Longrightarrow> \<not> beats b c \<Longrightarrow> \<not> beats a c"
  by (auto simp: beats_def)

definition best_key :: "best_job \<Rightarrow> (nat \<times> u64) option" where
  "best_key b = map_option (\<lambda>(rank, idle, _, _). (rank, idle)) b"

lemma improves_beats: "improves rank idle best \<longleftrightarrow> (case best_key best of None \<Rightarrow> True | Some b \<Rightarrow> beats (rank, idle) b)"
  by (auto simp: improves_def best_key_def beats_def split: option.splits)

text \<open>What the loop guarantees of its result, relative to the best job it started from.\<close>

definition loop_ok ::
  "(string \<times> rec) list \<Rightarrow> (string \<Rightarrow> (nat \<times> u64) option) \<Rightarrow> offload_policy \<Rightarrow> (string \<Rightarrow> bool) \<Rightarrow> (string \<Rightarrow> bool) \<Rightarrow>
     u64 \<Rightarrow> best_job \<Rightarrow> best_job \<Rightarrow> bool" where
  "loop_ok records live t keepalive backing_off now b0 b \<longleftrightarrow>
     (b = b0 \<or> (\<exists>schema r k. candidate records live t keepalive backing_off now schema r k
                  \<and> b = Some (kind_rank (mode t) k, now - last_active r, schema, k)))
     \<and> (\<forall>key. best_key b0 = Some key \<longrightarrow> (\<exists>key'. best_key b = Some key' \<and> \<not> beats key key'))
     \<and> (\<forall>schema r k. candidate records live t keepalive backing_off now schema r k \<longrightarrow>
          (\<exists>key'. best_key b = Some key' \<and> \<not> beats (kind_rank (mode t) k, now - last_active r) key'))"

lemma candidate_Cons:
  "candidate ((s, r) # recs) live t ka bo now schema r' k \<longleftrightarrow>
     (schema = s \<and> r' = r \<and> \<not> ka s \<and> \<not> bo s \<and> offer t r (live s) now = Some k)
     \<or> candidate recs live t ka bo now schema r' k"
  by (auto simp: candidate_def)

lemma beats_irrefl [simp]: "\<not> beats a a"
  by (simp add: beats_def)

lemma loop_ok_refl: "loop_ok [] live t ka bo now b b"
  by (simp add: loop_ok_def candidate_def)

lemma loop_ok_step:
  assumes ok: "loop_ok recs live t ka bo now bm b"
    and bm: "bm = b0 \<or> (\<exists>k. \<not> ka s \<and> \<not> bo s \<and> offer t r (live s) now = Some k
                          \<and> bm = Some (kind_rank (mode t) k, now - last_active r, s, k))"
    and up: "\<And>key. best_key b0 = Some key \<Longrightarrow> \<exists>key'. best_key bm = Some key' \<and> \<not> beats key key'"
    and new: "\<And>k. \<not> ka s \<Longrightarrow> \<not> bo s \<Longrightarrow> offer t r (live s) now = Some k \<Longrightarrow>
                \<exists>key'. best_key bm = Some key' \<and> \<not> beats (kind_rank (mode t) k, now - last_active r) key'"
  shows "loop_ok ((s, r) # recs) live t ka bo now b0 b"
proof -
  have chain: "\<exists>key'. best_key b = Some key' \<and> \<not> beats key key'"
    if "\<exists>key'. best_key bm = Some key' \<and> \<not> beats key key'" for key
    using that ok beats_trans unfolding loop_ok_def by meson
  have "b = b0 \<or> (\<exists>schema r' k. candidate ((s, r) # recs) live t ka bo now schema r' k
                  \<and> b = Some (kind_rank (mode t) k, now - last_active r', schema, k))"
    using ok bm unfolding loop_ok_def candidate_Cons by blast
  moreover have "\<forall>key. best_key b0 = Some key \<longrightarrow> (\<exists>key'. best_key b = Some key' \<and> \<not> beats key key')"
    using up chain by blast
  moreover have "\<forall>schema r' k. candidate ((s, r) # recs) live t ka bo now schema r' k \<longrightarrow>
      (\<exists>key'. best_key b = Some key' \<and> \<not> beats (kind_rank (mode t) k, now - last_active r') key')"
    using new chain ok unfolding loop_ok_def candidate_Cons by blast
  ultimately show ?thesis unfolding loop_ok_def by blast
qed

lemma improves_keys:
  assumes "bm = (if improves rank idle b0 then Some (rank, idle, s, k) else b0)"
  shows "\<exists>key'. best_key bm = Some key' \<and> \<not> beats (rank, idle) key'"
    and "best_key b0 = Some key \<Longrightarrow> \<exists>key'. best_key bm = Some key' \<and> \<not> beats key key'"
  using assms by (auto simp: improves_def best_key_def beats_def split: option.splits if_splits)

lemma pick_loop_ok: "loop_ok recs live t ka bo now b0 (fst (pick_loop recs live t ka bo now b0 refresh))"
proof (induction recs arbitrary: b0 refresh)
  case Nil
  then show ?case by (simp add: loop_ok_refl)
next
  case (Cons rec recs)
  obtain s r where rec: "rec = (s, r)" by (cases rec)
  show ?case
  proof (cases "ka s \<or> bo s")
    case True
    then show ?thesis unfolding rec by (intro loop_ok_step [where bm = b0]) (auto simp: Cons.IH)
  next
    case False
    show ?thesis
    proof (cases "offer t r (live s) now")
      case None
      then show ?thesis using False unfolding rec
        by (intro loop_ok_step [where bm = b0]) (auto simp: Cons.IH Let_def)
    next
      case (Some k)
      let ?bm = "if improves (kind_rank (mode t) k) (now - last_active r) b0
                 then Some (kind_rank (mode t) k, now - last_active r, s, k) else b0"
      have "fst (pick_loop ((s, r) # recs) live t ka bo now b0 refresh) =
          fst (pick_loop recs live t ka bo now ?bm refresh)"
        using False Some by (simp add: Let_def)
      then show ?thesis unfolding rec
        using False Some Cons.IH improves_keys [OF refl]
        by (intro loop_ok_step [where bm = ?bm]) auto
    qed
  qed
qed

text \<open>
  C35: The planner picks an optimal job. If any schema is a candidate (not kept alive, not backing
  off, and offering a step down the ladder under the policy), the job returned is a candidate's, no
  candidate has a kind of smaller rank in the policy's mode, and among those of the same rank none has
  been idle longer; if there is no candidate there is no job.
\<close>

theorem pick_offload_job_optimal:
  "(case fst (pick_offload_job records live t keepalive backing_off now) of
      None \<Rightarrow> \<nexists>schema r k. candidate records live t keepalive backing_off now schema r k
    | Some j \<Rightarrow> \<exists>r. candidate records live t keepalive backing_off now (job_schema j) r (job_kind j)
        \<and> (\<nexists>schema r' k. candidate records live t keepalive backing_off now schema r' k
              \<and> beats (kind_rank (mode t) k, now - last_active r')
                      (kind_rank (mode t) (job_kind j), now - last_active r)))"
proof -
  let ?b = "fst (pick_loop records live t keepalive backing_off now None [])"
  have ok: "loop_ok records live t keepalive backing_off now None ?b" by (rule pick_loop_ok)
  have job: "fst (pick_offload_job records live t keepalive backing_off now) =
      map_option (\<lambda>(_, _, schema, k). \<lparr>job_schema = schema, job_kind = k\<rparr>) ?b"
    by (simp add: pick_offload_job_def split: prod.splits)
  show ?thesis
  proof (cases ?b)
    case None
    then show ?thesis using ok by (simp add: job loop_ok_def best_key_def)
  next
    case (Some x)
    then obtain s r k where c: "candidate records live t keepalive backing_off now s r k"
      and x: "?b = Some (kind_rank (mode t) k, now - last_active r, s, k)"
      using ok unfolding loop_ok_def by auto
    have "\<not> beats (kind_rank (mode t) k', now - last_active r') (kind_rank (mode t) k, now - last_active r)"
      if "candidate records live t keepalive backing_off now s' r' k'" for s' r' k'
      using ok that unfolding loop_ok_def x best_key_def by fastforce
    then show ?thesis using c by (auto simp: job x)
  qed
qed

text \<open>
  The planner never offers to disturb a schema in use. A job is offered for a schema bound to a
  live VM only if the schema has no session: either it is not warm at all, or it is warm with no active
  session and an idle clock past the threshold that made it eligible, and then the job is a dump,
  never a compaction or an image of the disk; jobs that boot a VM are not offered while the policy
  forbids boots, images are taken only under disk pressure, and an archived schema offers nothing.
\<close>

theorem offer_spares_active:
  assumes "offer t r warm now = Some k"
  shows "tier_of r \<noteq> Archived
    \<and> (tier_of r = Live \<longrightarrow>
         (case warm of None \<Rightarrow> True
          | Some (active, idle) \<Rightarrow> active = 0 \<and> kind_boots k
              \<and> (\<exists>a \<in> {archive_after t, freeze_after t}. \<exists>after. a = Some after \<and> after \<le> idle)))
    \<and> (tier_of r \<noteq> Live \<longrightarrow> k = Promote)
    \<and> (kind_boots k \<longrightarrow> \<not> no_boot t) \<and> (k = ImageArchive \<longrightarrow> mode t = Pressure)"
  using assms
  by (auto simp: offer_def eligible_def classify_candidate_def
      split: tier.splits if_splits option.splits prod.splits)

theorem offer_spares_active_witness:
  "offer \<lparr>compact_after = None, freeze_after = None, archive_after = Some 10, image_archive = False,
          no_boot = False, mode = Routine\<rparr> \<lparr>sandbox_id = ''v'', last_active = 0, tier_of = Live\<rparr>
     (Some (0, 20)) 100 = Some Archive \<and> \<not> no_boot \<lparr>compact_after = None, freeze_after = None,
          archive_after = Some 10, image_archive = False, no_boot = False, mode = Routine\<rparr>"
proof -
  let ?t = "\<lparr>compact_after = None, freeze_after = None, archive_after = Some 10, image_archive = False,
          no_boot = False, mode = Routine\<rparr>"
  let ?r = "\<lparr>sandbox_id = ''v'', last_active = 0, tier_of = Live\<rparr>"
  have o: "offer ?t ?r (Some (0, 20)) 100 = Some Archive"
    by (simp add: offer_def eligible_def classify_candidate_def offloaded_def)
  then show ?thesis using offer_spares_active [OF o] by simp
qed

section \<open>Policies and dispatch\<close>

record tier_config =
  cfg_after :: u64
  cfg_sweep :: u64

record offload_config =
  cfg_compact :: "tier_config option"
  cfg_freeze :: "tier_config option"
  cfg_archive :: "tier_config option"
  cfg_image :: bool
  cfg_workers :: nat

definition offload_policy_of :: "offload_config \<Rightarrow> offload_policy" where
  "offload_policy_of c = \<lparr>compact_after = map_option cfg_after (cfg_compact c),
     freeze_after = map_option cfg_after (cfg_freeze c),
     archive_after = map_option cfg_after (cfg_archive c),
     image_archive = cfg_image c, no_boot = False, mode = Routine\<rparr>"

definition pressure_policy :: "offload_config \<Rightarrow> offload_policy" where
  "pressure_policy c = \<lparr>compact_after = map_option (\<lambda>_. 0) (cfg_compact c), freeze_after = None,
     archive_after = map_option (\<lambda>_. 0) (cfg_archive c), image_archive = cfg_image c,
     no_boot = False, mode = Pressure\<rparr>"

definition ttl_sweep_policy :: "u64 \<Rightarrow> offload_config \<Rightarrow> offload_policy" where
  "ttl_sweep_policy ttl c = \<lparr>compact_after = map_option (\<lambda>_. ttl) (cfg_compact c), freeze_after = None,
     archive_after = map_option (\<lambda>_. ttl) (cfg_archive c), image_archive = cfg_image c,
     no_boot = False, mode = Pressure\<rparr>"

definition OFFLOAD_IDLE_RESCAN_MIN :: nat where "OFFLOAD_IDLE_RESCAN_MIN = 5"
definition OFFLOAD_IDLE_RESCAN_MAX :: nat where "OFFLOAD_IDLE_RESCAN_MAX = 60"

definition offload_idle_rescan :: "offload_config \<Rightarrow> nat" where
  "offload_idle_rescan c =
     (let xs = List.map_filter id [map_option cfg_sweep (cfg_compact c), map_option cfg_sweep (cfg_freeze c),
                                   map_option cfg_sweep (cfg_archive c)];
          d = (if xs = [] then OFFLOAD_IDLE_RESCAN_MAX else Min (set xs))
      in min (max d OFFLOAD_IDLE_RESCAN_MIN) OFFLOAD_IDLE_RESCAN_MAX)"

text \<open>\<open>headroom\<close> is \<open>load.map(|l| l < load_max)\<close>: unknown when the load cannot be read.\<close>

definition dispatch_allowance :: "nat \<Rightarrow> nat \<Rightarrow> bool option \<Rightarrow> bool" where
  "dispatch_allowance in_flight workers headroom =
     (if workers \<le> in_flight then False else if in_flight = 0 then True else headroom = Some True)"

definition dispatch_backpressure :: "nat \<Rightarrow> bool \<Rightarrow> bool \<Rightarrow> bool" where
  "dispatch_backpressure waiting pass_running sweeping \<longleftrightarrow> 0 < waiting \<or> pass_running \<or> sweeping"

text \<open>What a scan reads besides the policy: the registry, the warm entries, claims, back-offs and clocks.\<close>

record scan =
  sc_records :: "(string \<times> rec) list"
  sc_live :: "string \<Rightarrow> (nat \<times> u64) option"
  sc_keepalive :: "string \<Rightarrow> bool"
  sc_archiving :: "string set"
  sc_backoff :: failures
  sc_at :: nat
  sc_now :: u64

definition next_offload_job :: "scan \<Rightarrow> offload_policy \<Rightarrow> string set \<Rightarrow> offload_job option \<times> string list" where
  "next_offload_job s policy in_flight =
     pick_offload_job (sc_records s) (sc_live s) policy (sc_keepalive s)
       (\<lambda>schema. schema \<in> in_flight \<or> schema \<in> sc_archiving s
                 \<or> backoff_active schema (sc_at s) (sc_backoff s) \<noteq> None) (sc_now s)"

text \<open>
  One dispatch, as the pacer and the drain loop both do it: forbid boots while a booting job is in
  flight, exclude the schemas in flight, and start the job picked, if a worker is free.
\<close>

type_synonym in_flight = "(string \<times> offload_kind) list"

definition dispatch :: "nat \<Rightarrow> scan \<Rightarrow> offload_policy \<Rightarrow> in_flight \<Rightarrow> in_flight" where
  "dispatch workers s policy jobs =
     (if workers \<le> length jobs then jobs
      else (case fst (next_offload_job s (policy\<lparr>no_boot := list_ex (\<lambda>(_, k). kind_boots k) jobs\<rparr>)
                        (fst ` set jobs)) of
              None \<Rightarrow> jobs
            | Some j \<Rightarrow> (job_schema j, job_kind j) # jobs))"

text \<open>
  One turn of the pacer on its tick: nothing while the idle hold lasts, every worker is busy, the host is
  busy or the allowance is used up; otherwise one dispatch, and a hold when there is nothing to do at all.
\<close>

record pacer =
  pc_jobs :: in_flight
  pc_hold :: "nat option"

definition pacer_tick ::
  "nat \<Rightarrow> bool option \<Rightarrow> nat \<Rightarrow> bool \<Rightarrow> bool \<Rightarrow> nat \<Rightarrow> nat \<Rightarrow> scan \<Rightarrow> offload_policy \<Rightarrow> pacer \<Rightarrow> pacer" where
  "pacer_tick workers headroom waiting pass_running sweeping idle_rescan at s policy p =
     (let jobs = pc_jobs p; jobs' = dispatch workers s policy jobs in
      if (case pc_hold p of None \<Rightarrow> False | Some t \<Rightarrow> at < t) \<or> workers \<le> length jobs
         \<or> dispatch_backpressure waiting pass_running sweeping \<or> \<not> dispatch_allowance (length jobs) workers headroom
      then p
      else if jobs' = jobs then p\<lparr>pc_hold := (if jobs = [] then Some (at + idle_rescan) else pc_hold p)\<rparr>
      else \<lparr>pc_jobs = jobs', pc_hold = None\<rparr>)"

text \<open>
  The drain loop's accounting of finished jobs and its circuit breaker. It ends when the disk is below
  the low-water mark, after too many failures in a row, or with nothing to do and nothing in flight;
  then it starts nothing more and only counts the jobs still in flight.
\<close>

datatype job_outcome = Job_Done | Job_Skipped | Job_Failed

definition SWEEP_MAX_CONSECUTIVE_FAILURES :: nat where "SWEEP_MAX_CONSECUTIVE_FAILURES = 3"

record drain =
  dr_jobs :: in_flight
  dr_archived :: nat
  dr_failures :: nat
  dr_ended :: bool

definition drain_turn :: "bool \<Rightarrow> drain \<Rightarrow> drain" where
  "drain_turn below_low d =
     (if below_low \<or> SWEEP_MAX_CONSECUTIVE_FAILURES \<le> dr_failures d then d\<lparr>dr_ended := True\<rparr> else d)"

definition drain_fill :: "nat \<Rightarrow> scan \<Rightarrow> offload_policy \<Rightarrow> drain \<Rightarrow> drain" where
  "drain_fill workers s policy d =
     (if dr_ended d then d
      else (let jobs = dispatch (max workers 1) s policy (dr_jobs d)
            in d\<lparr>dr_jobs := jobs, dr_ended := jobs = []\<rparr>))"

definition drain_finish :: "nat \<Rightarrow> job_outcome \<Rightarrow> drain \<Rightarrow> drain" where
  "drain_finish i out d =
     (let d = d\<lparr>dr_jobs := take i (dr_jobs d) @ drop (Suc i) (dr_jobs d)\<rparr>
      in case out of
           Job_Done \<Rightarrow> d\<lparr>dr_archived := dr_archived d + 1, dr_failures := (if dr_ended d then dr_failures d else 0)\<rparr>
         | Job_Skipped \<Rightarrow> d
         | Job_Failed \<Rightarrow> d\<lparr>dr_failures := (if dr_ended d then dr_failures d else dr_failures d + 1)\<rparr>)"

inductive drain_step :: "nat \<Rightarrow> drain \<Rightarrow> drain \<Rightarrow> bool" for workers where
  turn: "drain_step workers d (drain_turn below_low d)"
| fill: "dr_failures d < SWEEP_MAX_CONSECUTIVE_FAILURES \<Longrightarrow> drain_step workers d (drain_fill workers s policy d)"
| finish: "i < length (dr_jobs d) \<Longrightarrow> drain_step workers d (drain_finish i out d)"

definition drain_start :: "drain \<Rightarrow> bool" where
  "drain_start d \<longleftrightarrow> d = \<lparr>dr_jobs = [], dr_archived = 0, dr_failures = 0, dr_ended = False\<rparr>"

definition jobs_ok :: "nat \<Rightarrow> in_flight \<Rightarrow> bool" where
  "jobs_ok workers jobs \<longleftrightarrow> length jobs \<le> workers \<and> distinct (map fst jobs)
     \<and> length (filter (\<lambda>(_, k). kind_boots k) jobs) \<le> 1"

lemma pick_is_candidate:
  assumes "fst (pick_offload_job records live t ka bo now) = Some j"
  shows "\<exists>r. candidate records live t ka bo now (job_schema j) r (job_kind j)"
proof -
  have ok: "loop_ok records live t ka bo now None (fst (pick_loop records live t ka bo now None []))"
    by (rule pick_loop_ok)
  then show ?thesis using assms
    by (auto simp: loop_ok_def pick_offload_job_def split: prod.splits)
qed

lemma offer_no_boot: "offer t r warm now = Some k \<Longrightarrow> no_boot t \<Longrightarrow> \<not> kind_boots k"
  by (auto simp: offer_def split: tier.splits if_splits option.splits)

lemma jobs_ok_dispatch: "jobs_ok workers jobs \<Longrightarrow> jobs_ok workers (dispatch workers s policy jobs)"
proof -
  assume ok: "jobs_ok workers jobs"
  let ?pol = "policy\<lparr>no_boot := list_ex (\<lambda>(_, k). kind_boots k) jobs\<rparr>"
  show ?thesis
  proof (cases "workers \<le> length jobs \<or> fst (next_offload_job s ?pol (fst ` set jobs)) = None")
    case True
    then show ?thesis using ok by (auto simp: dispatch_def)
  next
    case False
    then obtain j where j: "fst (next_offload_job s ?pol (fst ` set jobs)) = Some j" by auto
    from pick_is_candidate [OF j [unfolded next_offload_job_def]]
    obtain r where new: "job_schema j \<notin> fst ` set jobs"
      and o: "offer ?pol r (sc_live s (job_schema j)) (sc_now s) = Some (job_kind j)"
      by (auto simp: candidate_def)
    have "kind_boots (job_kind j) \<Longrightarrow> filter (\<lambda>(_, k). kind_boots k) jobs = []"
      using offer_no_boot [OF o] by (auto simp: filter_empty_conv list_ex_iff)
    then show ?thesis using False j new ok by (auto simp: dispatch_def jobs_ok_def)
  qed
qed

lemma jobs_ok_remove:
  assumes "jobs_ok w jobs"
  shows "jobs_ok w (take i jobs @ drop (Suc i) jobs)"
proof -
  have l: "length (filter P (take i jobs @ drop (Suc i) jobs)) \<le> length (filter P jobs)" for P
  proof (cases "i < length jobs")
    case True
    then have "jobs = take i jobs @ jobs ! i # drop (Suc i) jobs" by (rule id_take_nth_drop)
    then have "filter P jobs = filter P (take i jobs @ jobs ! i # drop (Suc i) jobs)" by simp
    then show ?thesis by simp
  qed simp
  have "distinct (map fst (take i jobs @ drop (Suc i) jobs))"
  proof (cases "i < length jobs")
    case True
    then have "jobs = take i jobs @ jobs ! i # drop (Suc i) jobs" by (rule id_take_nth_drop)
    then have "map fst jobs = map fst (take i jobs @ jobs ! i # drop (Suc i) jobs)" by simp
    then have "distinct (map fst (take i jobs @ jobs ! i # drop (Suc i) jobs))"
      using assms by (metis jobs_ok_def)
    then show ?thesis by auto
  qed (use assms in \<open>simp add: jobs_ok_def\<close>)
  then show ?thesis using assms l [of "\<lambda>_. True"] l [of "\<lambda>(_, k). kind_boots k"]
    by (simp add: jobs_ok_def)
qed

interpretation drain_life: inductive_invariant drain_start "drain_step workers" "\<lambda>d. jobs_ok (max workers 1) (dr_jobs d)" for workers
proof unfold_locales
  show "drain_start d \<Longrightarrow> jobs_ok (max workers 1) (dr_jobs d)" for d by (simp add: drain_start_def jobs_ok_def)
  show "jobs_ok (max workers 1) (dr_jobs d) \<Longrightarrow> drain_step workers d e \<Longrightarrow> jobs_ok (max workers 1) (dr_jobs e)" for d e
    by (erule drain_step.cases)
      (simp_all add: drain_turn_def drain_fill_def drain_finish_def jobs_ok_dispatch jobs_ok_remove Let_def split: job_outcome.split)
qed

text \<open>
  Concurrent offloads stay within their bounds. In every state the drain loop can reach, whatever
  the scans see and in whatever order jobs finish, at most \<open>max workers 1\<close> jobs are in flight, no schema
  has two of them, and at most one of them boots a VM; a tick of the routine pacer keeps the same bounds.
\<close>

theorem offload_concurrency_bounded:
  assumes "run_of drain_start (drain_step workers) d"
  shows "length (dr_jobs d) \<le> max workers 1 \<and> distinct (map fst (dr_jobs d))
    \<and> length (filter (\<lambda>(_, k). kind_boots k) (dr_jobs d)) \<le> 1
    \<and> jobs_ok (max workers 1)
        (pc_jobs (pacer_tick (max workers 1) headroom waiting pr sw rescan at s policy \<lparr>pc_jobs = dr_jobs d, pc_hold = h\<rparr>))"
proof -
  have "jobs_ok (max workers 1) (dr_jobs d)" by (rule drain_life.reachable_inv [OF assms])
  then show ?thesis by (simp add: jobs_ok_dispatch pacer_tick_def Let_def) (simp add: jobs_ok_def)
qed

theorem offload_concurrency_bounded_witness:
  "\<exists>d. run_of drain_start (drain_step 2) d \<and> dr_jobs d = [(''s'', Compact)] \<and> length (dr_jobs d) \<le> 2"
proof -
  let ?s = "\<lparr>sc_records = [(''s'', (\<lparr>sandbox_id = ''v'', last_active = 0, tier_of = Live\<rparr> :: rec))], sc_live = \<lambda>_. None,
     sc_keepalive = \<lambda>_. False, sc_archiving = {}, sc_backoff = [], sc_at = 0, sc_now = 100\<rparr>"
  let ?p = "\<lparr>compact_after = Some 10, freeze_after = None, archive_after = None, image_archive = False,
          no_boot = False, mode = Routine\<rparr>"
  let ?d = "\<lparr>dr_jobs = [(''s'', Compact)], dr_archived = 0, dr_failures = 0, dr_ended = False\<rparr>"
  let ?start = "\<lparr>dr_jobs = [], dr_archived = 0, dr_failures = 0, dr_ended = False\<rparr>"
  have o: "offer ?p (\<lparr>sandbox_id = ''v'', last_active = 0, tier_of = Live\<rparr> :: rec) None 100 = Some Compact"
    by (simp add: offer_def eligible_def classify_candidate_def offloaded_def)
  have "fst (next_offload_job ?s ?p {}) = Some \<lparr>job_schema = ''s'', job_kind = Compact\<rparr>"
    by (simp add: next_offload_job_def pick_offload_job_def backoff_active_def o improves_def Let_def)
  then have eq: "drain_fill 2 ?s ?p ?start = ?d"
    by (simp add: drain_fill_def dispatch_def Let_def)
  have "run_of drain_start (drain_step 2) ?start" by (rule run_init) (simp add: drain_start_def)
  then have r: "run_of drain_start (drain_step 2) ?d"
    using drain_step.fill [of ?start 2 ?s ?p] unfolding eq by (auto simp: SWEEP_MAX_CONSECUTIVE_FAILURES_def intro: run_step)
  show ?thesis using r offload_concurrency_bounded [OF r, of None 0 False False 5 0 ?s ?p None] by auto
qed

end
