(* ===== verification/Ledger.thy ===== *)
theory Ledger
  imports Interfaces
begin

text \<open>
  \<open>src/src/pending.rs\<close>, the durable ledger of in-flight VM creates, and \<open>src/src/inventory.rs\<close>,
  the positive-only cache from VM names to sandbox ids. The ledger's state is its map and its file;
  \<open>persist\<close> is split where the code releases the map lock: the snapshot is taken while the
  write-order lock is held, and the write of that snapshot ends the critical section.
\<close>

section \<open>The ledger of in-flight creates\<close>

record ledger =
  entries :: "(string, string \<times> u64) hashmap"
  lfile :: "string option"

definition ledger_line :: "string \<Rightarrow> string \<times> u64 \<Rightarrow> string" where
  "ledger_line schema v = (case v of (sid, ts) \<Rightarrow> join_tab [schema, sid, show_nat ts])"

definition ledger_parse_line :: "string \<Rightarrow> (string \<times> (string \<times> u64)) option" where
  "ledger_parse_line line =
     (case split_on TAB line of
        schema # sid # ts # _ \<Rightarrow>
          (case rust_parse_u64 ts of None \<Rightarrow> None | Some n \<Rightarrow> Some (schema, (sid, n)))
      | _ \<Rightarrow> None)"

text \<open>\<open>init\<close>: an unreadable or missing file starts an empty ledger.\<close>

definition ledger_init :: "string option \<Rightarrow> ledger" where
  "ledger_init f =
     \<lparr>entries = (case f of None \<Rightarrow> [] | Some s \<Rightarrow> decode_lines ledger_parse_line s), lfile = f\<rparr>"

definition ledger_snapshot :: "ledger \<Rightarrow> string" where
  "ledger_snapshot l = encode_lines ledger_line (entries l)"

definition ledger_write :: "bool \<Rightarrow> string \<Rightarrow> ledger \<Rightarrow> ledger" where
  "ledger_write disk_ok snap l = (if disk_ok then l\<lparr>lfile := Some snap\<rparr> else l)"

definition ledger_persist :: "bool \<Rightarrow> ledger \<Rightarrow> ledger" where
  "ledger_persist disk_ok l = ledger_write disk_ok (ledger_snapshot l) l"

definition ledger_record_mem :: "u64 \<Rightarrow> string \<Rightarrow> string \<Rightarrow> ledger \<Rightarrow> ledger" where
  "ledger_record_mem now schema sid l = l\<lparr>entries := hm_insert schema (sid, now) (entries l)\<rparr>"

definition ledger_record :: "u64 \<Rightarrow> bool \<Rightarrow> string \<Rightarrow> string \<Rightarrow> ledger \<Rightarrow> ledger" where
  "ledger_record now disk_ok schema sid l =
     ledger_persist disk_ok (ledger_record_mem now schema sid l)"

text \<open>The removal under the lock, and whether it has to be persisted.\<close>

definition ledger_clear_mem :: "string \<Rightarrow> ledger \<Rightarrow> bool \<times> ledger" where
  "ledger_clear_mem schema l =
     (hm_get (entries l) schema \<noteq> None, l\<lparr>entries := hm_remove schema (entries l)\<rparr>)"

definition ledger_clear :: "bool \<Rightarrow> string \<Rightarrow> ledger \<Rightarrow> ledger" where
  "ledger_clear disk_ok schema l =
     (case ledger_clear_mem schema l of (removed, l') \<Rightarrow>
        if removed then ledger_persist disk_ok l' else l')"

definition ledger_get :: "ledger \<Rightarrow> string \<Rightarrow> string option" where
  "ledger_get l schema = map_option fst (hm_get (entries l) schema)"

text \<open>\<open>stale\<close>: natural subtraction is \<open>saturating_sub\<close>.\<close>

definition ledger_stale :: "u64 \<Rightarrow> u64 \<Rightarrow> ledger \<Rightarrow> (string \<times> string) list" where
  "ledger_stale now min_age l =
     (let cutoff = now - min_age
      in map (\<lambda>(schema, (sid, _)). (schema, sid)) (filter (\<lambda>(_, (_, ts)). ts \<le> cutoff) (entries l)))"

section \<open>The codec\<close>

definition entry_ok :: "string \<Rightarrow> string \<times> u64 \<Rightarrow> bool" where
  "entry_ok k v \<longleftrightarrow> plain_field k \<and> plain_field (fst v) \<and> snd v < U64_LIMIT"

lemma entry_ok_fields: "entry_ok k (sid, ts) \<Longrightarrow> \<forall>f \<in> set [k, sid, show_nat ts]. plain_field f"
  by (simp add: entry_ok_def)

interpretation ledger_codec: line_codec ledger_line ledger_parse_line entry_ok
proof unfold_locales
  fix k and v :: "string \<times> u64" assume "entry_ok k v"
  moreover obtain sid ts where v: "v = (sid, ts)" by (cases v)
  ultimately have ok: "entry_ok k (sid, ts)" by simp
  show "NEWLINE \<notin> set (ledger_line k v) \<and> CR \<notin> set (ledger_line k v)"
    unfolding ledger_line_def v prod.case by (rule plain_line) (rule entry_ok_fields [OF ok])
  have "split_on TAB (ledger_line k v) = [k, sid, show_nat ts]"
    unfolding ledger_line_def v prod.case by (rule split_plain) (simp, rule entry_ok_fields [OF ok])
  then show "ledger_parse_line (ledger_line k v) = Some (k, v)"
    using ok by (simp add: ledger_parse_line_def entry_ok_def rust_parse_u64_show_nat v)
qed

definition entries_ok :: "(string, string \<times> u64) hashmap \<Rightarrow> bool" where
  "entries_ok m \<longleftrightarrow> hm_wf m \<and> (\<forall>(k, v) \<in> set m. entry_ok k v)"

lemma entries_ok_insert: "entries_ok m \<Longrightarrow> entry_ok k v \<Longrightarrow> entries_ok (hm_insert k v m)"
  by (auto simp: entries_ok_def hm_in_set split: if_splits dest!: map_of_SomeD)

lemma entries_ok_remove: "entries_ok m \<Longrightarrow> entries_ok (hm_remove k m)"
  by (auto simp: entries_ok_def set_hm_remove)

lemma ledger_reload:
  "entries_ok (entries l) \<Longrightarrow> hm_get (entries (ledger_init (Some (ledger_snapshot l)))) = hm_get (entries l)"
  by (simp add: entries_ok_def ledger_init_def ledger_snapshot_def ledger_codec.decode_encode)

lemma ledger_stale_iff:
  "hm_wf (entries l) \<Longrightarrow> (schema, sid) \<in> set (ledger_stale now min_age l) \<longleftrightarrow>
     (\<exists>ts. hm_get (entries l) schema = Some (sid, ts) \<and> ts \<le> now - min_age)"
  by (force simp: ledger_stale_def Let_def hm_in_set [symmetric] image_iff)

lemma ledger_clear_get [simp]: "hm_get (entries (ledger_clear ok schema l)) = (hm_get (entries l))(schema := None)"
  by (auto simp: ledger_clear_def ledger_clear_mem_def ledger_persist_def ledger_write_def)

section \<open>Concurrent records and clears\<close>

text \<open>
  Any number of bring-ups run \<open>record\<close> and \<open>clear\<close> at once. Each changes the map at once and then
  owes a rewrite of the file: \<open>owed\<close> counts the ones waiting for the write-order lock, \<open>holder\<close> is the
  snapshot of the one that has it. Ghost state: \<open>lfailed\<close>, whether a write has failed since the last one
  that succeeded; \<open>on_file\<close>, the schemas whose create is in a rewrite that succeeded and that have been neither
  recorded again nor cleared since; \<open>under_way\<close>, the same for the rewrite that runs.
\<close>

record ledger_run =
  ledg :: ledger
  owed :: nat
  holder :: "string option"
  lfailed :: bool
  on_file :: "string set"
  under_way :: "string set"

definition mark_touched :: "string \<Rightarrow> ledger_run \<Rightarrow> ledger_run" where
  "mark_touched schema x = x\<lparr>on_file := on_file x - {schema}, under_way := under_way x - {schema}\<rparr>"

inductive ledger_step :: "ledger_run \<Rightarrow> ledger_run \<Rightarrow> bool" where
  rec_mem: "plain_field schema \<Longrightarrow> plain_field sid \<Longrightarrow> now < U64_LIMIT \<Longrightarrow>
    ledger_step x ((mark_touched schema x)\<lparr>ledg := ledger_record_mem now schema sid (ledg x), owed := owed x + 1\<rparr>)"
| clear_mem: "ledger_clear_mem schema (ledg x) = (removed, l') \<Longrightarrow>
    ledger_step x ((mark_touched schema x)\<lparr>ledg := l', owed := owed x + (if removed then 1 else 0)\<rparr>)"
| take_order: "holder x = None \<Longrightarrow> 0 < owed x \<Longrightarrow>
    ledger_step x (x\<lparr>owed := owed x - 1, holder := Some (ledger_snapshot (ledg x)),
                    under_way := dom (hm_get (entries (ledg x)))\<rparr>)"
| finish_write: "holder x = Some snap \<Longrightarrow>
    ledger_step x (x\<lparr>ledg := ledger_write disk_ok snap (ledg x), holder := None,
                    lfailed := \<not> disk_ok, on_file := (if disk_ok then under_way x else on_file x)\<rparr>)"

definition ledger_start :: "ledger_run \<Rightarrow> bool" where
  "ledger_start x \<longleftrightarrow> (\<exists>f. ledg x = ledger_init f) \<and> entries_ok (entries (ledg x))
     \<and> owed x = 0 \<and> holder x = None \<and> \<not> lfailed x \<and> on_file x = {}"

text \<open>What a process that starts on file \<open>f\<close> finds recorded.\<close>

abbreviation named_in :: "string option \<Rightarrow> string \<Rightarrow> (string \<times> u64) option" where
  "named_in f \<equiv> hm_get (entries (ledger_init f))"

definition file_current :: "ledger \<Rightarrow> bool" where
  "file_current l \<longleftrightarrow> hm_get (entries (ledger_init (lfile l))) = hm_get (entries l)"

definition ledger_inv :: "ledger_run \<Rightarrow> bool" where
  "ledger_inv x \<longleftrightarrow> entries_ok (entries (ledg x))
     \<and> (0 < owed x \<or> (case holder x of
           Some snap \<Rightarrow> hm_get (entries (ledger_init (Some snap))) = hm_get (entries (ledg x))
         | None \<Rightarrow> lfailed x \<or> file_current (ledg x)))
     \<and> (\<forall>s \<in> on_file x. named_in (lfile (ledg x)) s = hm_get (entries (ledg x)) s)
     \<and> (case holder x of None \<Rightarrow> True
        | Some snap \<Rightarrow> \<forall>s \<in> under_way x. named_in (Some snap) s = hm_get (entries (ledg x)) s)"

lemma ledger_inv_step: "ledger_inv x \<Longrightarrow> ledger_step x y \<Longrightarrow> ledger_inv y"
proof (erule ledger_step.cases, goal_cases)
  case (1 schema sid now x')
  then show ?case
    by (auto simp: ledger_inv_def ledger_record_mem_def entries_ok_insert entry_ok_def mark_touched_def split: option.splits)
next
  case (2 schema x' removed l')
  then have *: "removed \<longleftrightarrow> hm_get (entries (ledg x)) schema \<noteq> None"
      "l' = (ledg x)\<lparr>entries := hm_remove schema (entries (ledg x))\<rparr>"
    by (auto simp: ledger_clear_mem_def)
  have "\<not> removed \<Longrightarrow> (hm_get (entries (ledg x)))(schema := None) = hm_get (entries (ledg x))"
    using *(1) by (metis fun_upd_triv)
  then show ?case using 2 *
    by (cases removed) (auto simp: ledger_inv_def entries_ok_remove file_current_def mark_touched_def split: option.splits)
next
  case (3 x')
  then show ?case by (auto simp: ledger_inv_def ledger_reload)
next
  case (4 x' snap disk_ok)
  then show ?case by (auto simp: ledger_inv_def ledger_write_def file_current_def split: option.splits)
qed

interpretation ledger_life: inductive_invariant ledger_start ledger_step ledger_inv
proof unfold_locales
  fix x assume "ledger_start x"
  then show "ledger_inv x"
    by (auto simp: ledger_inv_def ledger_start_def file_current_def ledger_init_def)
next
  fix x y assume "ledger_inv x" "ledger_step x y"
  then show "ledger_inv y" by (rule ledger_inv_step)
qed

lemma hm_wf_ledger_init [simp]: "hm_wf (entries (ledger_init f))"
  by (cases f) (simp_all add: ledger_init_def)

text \<open>
  C24: What the ledger has written is a named leak after a crash. In every state the ledger can reach under
  concurrent \<open>record\<close> and \<open>clear\<close> calls, with any of their writes failing, let a rewrite that began after a
  create was recorded have succeeded, and let that schema have been neither recorded again nor cleared
  since. A pooler that then dies, whatever other rewrites are under way or have failed, and restarts from
  the file and asks for the entries older than \<open>min_age\<close>, gets that create if and only if its age, on a
  clock that saturates at zero, has reached \<open>min_age\<close>. When no rewrite is outstanding and the last one
  succeeded, this holds of every schema: the file has exactly the entries in memory.
\<close>

theorem ledger_names_leaks_after_crash:
  assumes "run_of ledger_start ledger_step x"
    and "schema \<in> on_file x \<or> owed x = 0 \<and> holder x = None \<and> \<not> lfailed x"
  shows "(schema, sid) \<in> set (ledger_stale now min_age (ledger_init (lfile (ledg x)))) \<longleftrightarrow>
    (\<exists>ts. hm_get (entries (ledg x)) schema = Some (sid, ts) \<and> ts \<le> now - min_age)"
  using ledger_life.reachable_inv [OF assms(1)] assms(2)
  by (auto simp: ledger_stale_iff ledger_inv_def file_current_def)

theorem ledger_names_leaks_after_crash_witness:
  "\<exists>x. run_of ledger_start ledger_step x \<and> ''s'' \<in> on_file x
     \<and> (''s'', ''v1'') \<in> set (ledger_stale 100 10 (ledger_init (lfile (ledg x))))"
proof -
  define x0 :: ledger_run where "x0 = \<lparr>ledg = ledger_init None, owed = 0, holder = None, lfailed = False, on_file = {}, under_way = {}\<rparr>"
  define x1 where "x1 = (mark_touched ''s'' x0)\<lparr>ledg := ledger_record_mem 5 ''s'' ''v1'' (ledg x0), owed := owed x0 + 1\<rparr>"
  define x2 where "x2 = x1\<lparr>owed := owed x1 - 1, holder := Some (ledger_snapshot (ledg x1)),
                    under_way := dom (hm_get (entries (ledg x1)))\<rparr>"
  define x3 where "x3 = x2\<lparr>ledg := ledger_write True (ledger_snapshot (ledg x1)) (ledg x2), holder := None,
                    lfailed := \<not> True, on_file := (if True then under_way x2 else on_file x2)\<rparr>"
  note d = x3_def x2_def x1_def x0_def mark_touched_def
  have "run_of ledger_start ledger_step x0"
    by (rule run_init) (auto simp: d ledger_start_def ledger_init_def entries_ok_def)
  moreover have "ledger_step x0 x1" unfolding x1_def by (rule rec_mem) (simp_all add: plain_field_def)
  moreover have "ledger_step x1 x2" unfolding x2_def by (rule take_order) (simp_all add: d)
  moreover have "ledger_step x2 x3" unfolding x3_def by (rule finish_write) (simp_all add: d)
  ultimately have r: "run_of ledger_start ledger_step x3" by (blast intro: run_step)
  moreover have q: "''s'' \<in> on_file x3" by (simp add: d ledger_record_mem_def)
  moreover have "hm_get (entries (ledg x3)) ''s'' = Some (''v1'', 5)"
    by (simp add: d ledger_write_def ledger_record_mem_def)
  ultimately show ?thesis
    using ledger_names_leaks_after_crash [OF r disjI1 [OF q], of "''v1''" 100 10]
    by (intro exI [of _ x3]) simp
qed

section \<open>The name cache\<close>

type_synonym inventory = "(string, string) hashmap"

definition inv_lookup :: "inventory \<Rightarrow> string \<Rightarrow> string option" where
  "inv_lookup c name = hm_get c name"

definition inv_insert :: "string \<Rightarrow> string \<Rightarrow> inventory \<Rightarrow> inventory" where
  "inv_insert name sid c = hm_insert name sid c"

definition inv_remove_id :: "string \<Rightarrow> inventory \<Rightarrow> inventory" where
  "inv_remove_id sid c = filter (\<lambda>(_, v). v \<noteq> sid) c"

text \<open>A listing is the \<open>(name, id)\<close> pairs of the daemon's \<open>SandboxInfo\<close> rows.\<close>

definition inv_absorb :: "(string \<times> string) list \<Rightarrow> inventory \<Rightarrow> inventory" where
  "inv_absorb infos c =
     fold (\<lambda>(name, sid) c. if name = [] then c else hm_insert name sid c) infos c"

datatype inv_op = Inv_Insert string string | Inv_Remove_Id string | Inv_Absorb "(string \<times> string) list"

fun inv_apply :: "inv_op \<Rightarrow> inventory \<Rightarrow> inventory" where
  "inv_apply (Inv_Insert name sid) c = inv_insert name sid c"
| "inv_apply (Inv_Remove_Id sid) c = inv_remove_id sid c"
| "inv_apply (Inv_Absorb infos) c = inv_absorb infos c"

text \<open>
  What a caller may conclude from a hit: the facts the daemon stated, most recent first, with the
  ids reported gone crossed out.
\<close>

fun inv_facts :: "inv_op \<Rightarrow> (string \<times> string) list \<Rightarrow> (string \<times> string) list" where
  "inv_facts (Inv_Insert name sid) fs = (name, sid) # fs"
| "inv_facts (Inv_Remove_Id sid) fs = filter (\<lambda>(n, v). the (map_of fs n) \<noteq> sid) fs"
| "inv_facts (Inv_Absorb infos) fs = rev (filter (\<lambda>(n, _). n \<noteq> []) infos) @ fs"

lemma map_of_filter_key: "map_of (filter (\<lambda>(k, _). P k) fs) k = (if P k then map_of fs k else None)"
  by (induction fs) auto

lemma inv_absorb_fold:
  "inv_absorb infos c = fold (\<lambda>(k, v) m. hm_insert k v m) (filter (\<lambda>(n, _). n \<noteq> []) infos) c"
  unfolding inv_absorb_def by (induction infos arbitrary: c) auto

lemma inv_absorb_wf: "hm_wf c \<Longrightarrow> hm_wf (inv_absorb infos c)"
  by (simp add: inv_absorb_fold hm_fold_insert_wf)

lemma inv_absorb_get:
  "hm_get (inv_absorb infos c) = hm_get c ++ map_of (rev (filter (\<lambda>(n, _). n \<noteq> []) infos))"
  by (simp add: inv_absorb_fold hm_fold_insert_get)

lemma inv_apply_wf: "hm_wf c \<Longrightarrow> hm_wf (inv_apply opr c)"
  by (cases opr) (auto simp: inv_insert_def inv_remove_id_def inv_absorb_wf)

lemma inv_apply_facts:
  assumes "hm_wf c" "hm_get c = map_of fs"
  shows "hm_get (inv_apply opr c) = map_of (inv_facts opr fs)"
proof (cases opr)
  case (Inv_Insert name sid)
  then show ?thesis using assms by (simp add: inv_insert_def)
next
  case (Inv_Remove_Id sid)
  then show ?thesis using assms
    by (auto simp: inv_remove_id_def hm_get_filter map_of_filter_key fun_eq_iff split: option.splits)
next
  case (Inv_Absorb infos)
  then show ?thesis using assms by (simp add: inv_absorb_get map_of_append [symmetric] del: map_of_append)
qed

text \<open>
  The name cache is the daemon's most recent statement about each name. After any sequence of
  inserts, removals by id and absorbed listings, a lookup answers with the latest fact stated for that
  name, unless that fact's id has been reported gone since; names the listings left out, and empty
  names, are never invented and never dropped.
\<close>

theorem inventory_refines_facts:
  "inv_lookup (fold inv_apply ops []) name = map_of (fold inv_facts ops []) name"
proof -
  have "hm_wf c \<and> hm_get c = map_of fs \<longrightarrow>
      hm_get (fold inv_apply ops c) = map_of (fold inv_facts ops fs)" for c fs
    by (induction ops arbitrary: c fs) (simp_all add: inv_apply_wf inv_apply_facts)
  then show ?thesis by (simp add: inv_lookup_def)
qed

end
