(* ===== verification/Spares.thy ===== *)
theory Spares
  imports Ledger "HOL-Library.Multiset"
begin

text \<open>
  \<open>src/src/spares.rs\<close>: the pool of warm spare VMs. The pool's state is the record \<open>spare_pool\<close>; the
  sandbox daemon is a parameter, a record of the answers it gives during one call. Two readings of
  the code are given: whole operations (\<open>spare_take\<close>, \<open>replenish\<close>) as functions of the pool and the
  daemon's answers, and a transition system of their critical sections, in which claims, releases and
  one replenish pass interleave at every await.
\<close>

section \<open>State\<close>

record spare_pool =
  target :: nat
  claimed :: "string set"
  ready :: "string list"
  sick_since :: "(string, nat) hashmap"
  poke :: bool

text \<open>
  The answers of the daemon: whether \<open>Sandbox::connect\<close> builds a handle, what \<open>get\<close> reports, what
  one \<open>pg_listening\<close> probe attempt gives, whether a kill is confirmed, the steps of a restart, the id
  each create yields, the listing as \<open>(id, name, running)\<close> rows, and the order in which concurrent
  probes and builds complete.
\<close>

datatype get_answer = Got_Info bool string string | Got_Not_Found | Got_Error
datatype pg_probe = Pg_Answer bool | Pg_No_Address | Pg_Error

record daemon =
  d_connect :: "string \<Rightarrow> bool"
  d_get :: "string \<Rightarrow> get_answer"
  d_pg :: "string \<Rightarrow> nat \<Rightarrow> pg_probe"
  d_kill :: "string \<Rightarrow> bool"
  d_permit :: "string \<Rightarrow> bool"
  d_start :: "string \<Rightarrow> bool"
  d_wait_ready :: "string \<Rightarrow> bool"
  d_create :: "nat \<Rightarrow> string option"
  d_list :: "(string \<times> string \<times> bool) list option"
  d_probe_order :: "(string \<times> bool) list \<Rightarrow> (string \<times> bool) list"
  d_build_order :: "string option list \<Rightarrow> string option list"

definition SPARE_PREFIX :: string where
  "SPARE_PREFIX = ''spare-pg-''"

definition MAX_SPARES :: nat where
  "MAX_SPARES = 16"

definition FRESH_PROBE_ATTEMPTS :: nat where
  "FRESH_PROBE_ATTEMPTS = 4"

definition SPARE_SICK_GRACE :: nat where
  "SPARE_SICK_GRACE = 300"

definition SPARE_MAX_CULLS_PER_PASS :: nat where
  "SPARE_MAX_CULLS_PER_PASS = 2"

definition TAKE_MAX_ATTEMPTS :: nat where
  "TAKE_MAX_ATTEMPTS = 3"

definition spare_new :: "nat \<Rightarrow> spare_pool" where
  "spare_new t = \<lparr>target = min t MAX_SPARES, claimed = {}, ready = [], sick_since = [], poke = False\<rparr>"

definition spare_depth :: "spare_pool \<Rightarrow> nat \<times> nat" where
  "spare_depth p = (length (ready p), target p)"

section \<open>Claiming and releasing\<close>

text \<open>The pop-and-claim critical section of \<open>take\<close>, with both locks held.\<close>

fun pop_free :: "string set \<Rightarrow> string set \<Rightarrow> string list \<Rightarrow> string option \<times> string list" where
  "pop_free bound clm [] = (None, [])"
| "pop_free bound clm (sid # rest) =
     (if sid \<notin> bound \<and> sid \<notin> clm then (Some sid, rest) else pop_free bound clm rest)"

definition pop_claim :: "string set \<Rightarrow> spare_pool \<Rightarrow> string option \<times> spare_pool" where
  "pop_claim bound p =
     (case pop_free bound (claimed p) (ready p) of
        (None, rest) \<Rightarrow> (None, p\<lparr>ready := rest\<rparr>)
      | (Some sid, rest) \<Rightarrow> (Some sid, p\<lparr>ready := rest, claimed := insert sid (claimed p)\<rparr>))"

definition unclaim :: "string \<Rightarrow> spare_pool \<Rightarrow> spare_pool" where
  "unclaim sid p = p\<lparr>claimed := claimed p - {sid}\<rparr>"

text \<open>\<open>take\<close> also records the name it learnt in the inventory and counts the claim as an event.\<close>

record take_state =
  tpool :: spare_pool
  tcache :: inventory
  tevents :: nat

definition hand_over :: "take_state \<Rightarrow> take_state" where
  "hand_over t = t\<lparr>tpool := (tpool t)\<lparr>poke := True\<rparr>, tevents := tevents t + 1\<rparr>"

fun take_loop :: "nat \<Rightarrow> daemon \<Rightarrow> string set \<Rightarrow> take_state \<Rightarrow> string option \<times> take_state" where
  "take_loop 0 d bound t = (None, t\<lparr>tpool := (tpool t)\<lparr>poke := True\<rparr>\<rparr>)"
| "take_loop (Suc n) d bound t =
     (case pop_claim bound (tpool t) of
        (None, p) \<Rightarrow> (None, t\<lparr>tpool := p\<lparr>poke := True\<rparr>\<rparr>)
      | (Some sid, p) \<Rightarrow>
          if \<not> d_connect d sid then take_loop n d bound (t\<lparr>tpool := unclaim sid p\<rparr>)
          else (case d_get d sid of
                  Got_Info running nm real \<Rightarrow>
                    if running
                    then (Some sid, hand_over (t\<lparr>tpool := p, tcache := inv_insert nm real (tcache t)\<rparr>))
                    else take_loop n d bound (t\<lparr>tpool := unclaim sid p\<rparr>)
                | Got_Not_Found \<Rightarrow> take_loop n d bound (t\<lparr>tpool := unclaim sid p\<rparr>)
                | Got_Error \<Rightarrow> (Some sid, hand_over (t\<lparr>tpool := p\<rparr>))))"

definition spare_take :: "daemon \<Rightarrow> string set \<Rightarrow> take_state \<Rightarrow> string option \<times> take_state" where
  "spare_take d bound t = take_loop TAKE_MAX_ATTEMPTS d bound t"

text \<open>\<open>release_failed\<close>: what happens at once, and what happens when the kill was confirmed.\<close>

definition release_begin :: "string \<Rightarrow> spare_pool \<Rightarrow> spare_pool" where
  "release_begin sid p =
     p\<lparr>ready := filter (\<lambda>r. r \<noteq> sid) (ready p), sick_since := hm_remove sid (sick_since p)\<rparr>"

definition release_killed :: "string \<Rightarrow> spare_pool \<Rightarrow> spare_pool" where
  "release_killed sid p = p\<lparr>claimed := claimed p - {sid}, poke := True\<rparr>"

definition release_failed :: "daemon \<Rightarrow> string \<Rightarrow> spare_pool \<Rightarrow> spare_pool" where
  "release_failed d sid p =
     (let p' = release_begin sid p
      in if d_connect d sid \<and> d_kill d sid then release_killed sid p' else p')"

section \<open>One replenish pass\<close>

record replenish_plan =
  plan_start :: "string list"
  plan_create :: nat
  plan_delete :: "string list"

definition plan_replenish ::
  "(string \<times> bool) list \<Rightarrow> string set \<Rightarrow> string set \<Rightarrow> nat \<Rightarrow> replenish_plan" where
  "plan_replenish spares bound clm tgt =
     (let free = (\<lambda>sid. sid \<notin> bound \<and> sid \<notin> clm);
          running = length (filter (\<lambda>(sid, up). up \<and> free sid) spares);
          stopped = map fst (filter (\<lambda>(sid, up). \<not> up \<and> free sid) spares);
          deficit = tgt - running;
          start = take deficit stopped
      in \<lparr>plan_start = start, plan_create = deficit - length start,
          plan_delete = drop deficit stopped\<rparr>)"

fun probe_ok :: "pg_probe \<Rightarrow> bool" where
  "probe_ok (Pg_Answer up) = up"
| "probe_ok Pg_No_Address = True"
| "probe_ok Pg_Error = True"

definition probe_one :: "daemon \<Rightarrow> nat \<Rightarrow> string \<Rightarrow> bool" where
  "probe_one d attempts sid \<longleftrightarrow>
     \<not> d_connect d sid \<or> list_ex (\<lambda>k. probe_ok (d_pg d sid k)) [0..<max attempts 1]"

definition probe_all :: "daemon \<Rightarrow> bool \<Rightarrow> string list \<Rightarrow> nat \<Rightarrow> string list \<times> string list" where
  "probe_all d direct_connect ids attempts =
     (if ids = [] then ([], [])
      else if \<not> direct_connect then (ids, [])
      else (let results = d_probe_order d (map (\<lambda>sid. (sid, probe_one d attempts sid)) ids)
            in (map fst (filter snd results), map fst (filter (\<lambda>r. \<not> snd r) results))))"

text \<open>
  \<open>cull_sick\<close>: the critical section that updates \<open>sick_since\<close> and picks the doomed, then the kills.
  \<open>entry(..).or_insert(now)\<close> keeps the first instant a spare was seen sick; subtraction of instants
  saturates.
\<close>

definition mark_sick :: "nat \<Rightarrow> string \<Rightarrow> (string, nat) hashmap \<Rightarrow> (string, nat) hashmap" where
  "mark_sick now sid since = (case hm_get since sid of None \<Rightarrow> hm_insert sid now since | Some _ \<Rightarrow> since)"

fun pick_doomed :: "nat \<Rightarrow> string list \<Rightarrow> (string, nat) hashmap \<Rightarrow> string list \<times> (string, nat) hashmap" where
  "pick_doomed now [] since = ([], since)"
| "pick_doomed now (sid # rest) since =
     (let since' = mark_sick now sid since;
          old = (case hm_get since' sid of Some t \<Rightarrow> SPARE_SICK_GRACE \<le> now - t | None \<Rightarrow> False)
      in case pick_doomed now rest since' of
           (ds, s) \<Rightarrow> (if old then sid # ds else ds, s))"

definition cull_mark :: "nat \<Rightarrow> string list \<Rightarrow> spare_pool \<Rightarrow> string list \<times> spare_pool" where
  "cull_mark now sick p =
     (case pick_doomed now sick (filter (\<lambda>(sid, _). sid \<in> set sick) (sick_since p)) of
        (doomed, since) \<Rightarrow> (take SPARE_MAX_CULLS_PER_PASS doomed, p\<lparr>sick_since := since\<rparr>))"

definition kill_spare :: "daemon \<Rightarrow> string \<Rightarrow> bool" where
  "kill_spare d sid \<longleftrightarrow> d_connect d sid \<and> d_kill d sid"

fun cull_kill :: "daemon \<Rightarrow> string list \<Rightarrow> spare_pool \<Rightarrow> nat \<times> spare_pool" where
  "cull_kill d [] p = (0, p)"
| "cull_kill d (sid # rest) p =
     (if kill_spare d sid
      then (case cull_kill d rest (p\<lparr>sick_since := hm_remove sid (sick_since p)\<rparr>) of (n, p') \<Rightarrow> (n + 1, p'))
      else cull_kill d rest p)"

definition cull_sick :: "daemon \<Rightarrow> nat \<Rightarrow> string list \<Rightarrow> spare_pool \<Rightarrow> nat \<times> spare_pool" where
  "cull_sick d now sick p = (case cull_mark now sick p of (doomed, p') \<Rightarrow> cull_kill d doomed p')"

fun shelve :: "string set \<Rightarrow> string set \<Rightarrow> string set \<Rightarrow> string list \<Rightarrow> string list" where
  "shelve bound clm seen [] = []"
| "shelve bound clm seen (sid # rest) =
     (if sid \<notin> bound \<and> sid \<notin> clm \<and> sid \<notin> seen
      then sid # shelve bound clm (insert sid seen) rest
      else shelve bound clm seen rest)"

definition publish :: "string list \<Rightarrow> string set \<Rightarrow> spare_pool \<Rightarrow> nat \<times> spare_pool" where
  "publish ids bound p =
     (let r = shelve bound (claimed p) {} ids in (length r, p\<lparr>ready := r\<rparr>))"

definition build_all :: "daemon \<Rightarrow> string option list \<Rightarrow> string list" where
  "build_all d builds = List.map_filter id (d_build_order d builds)"

definition restart_spare :: "daemon \<Rightarrow> string \<Rightarrow> string option" where
  "restart_spare d sid =
     (if \<not> d_connect d sid then None
      else if \<not> d_permit d sid then None
      else if \<not> d_start d sid then None
      else if d_wait_ready d sid then Some sid else None)"

definition spare_rows :: "(string \<times> string \<times> bool) list \<Rightarrow> (string \<times> bool) list" where
  "spare_rows infos =
     map (\<lambda>(sid, nm, up). (sid, up)) (filter (\<lambda>(sid, nm, up). starts_with SPARE_PREFIX nm) infos)"

definition free_running :: "(string \<times> bool) list \<Rightarrow> string set \<Rightarrow> string set \<Rightarrow> string list" where
  "free_running spares bound clm =
     map fst (filter (\<lambda>(sid, up). up \<and> sid \<notin> bound \<and> sid \<notin> clm) spares)"

text \<open>
  The pass as it runs when no claim interleaves; \<open>now\<close> is the instant \<open>cull_sick\<close> reads. The result is
  the number of sandboxes acted on and the pool.
\<close>

definition replenish :: "daemon \<Rightarrow> bool \<Rightarrow> nat \<Rightarrow> string set \<Rightarrow> spare_pool \<Rightarrow> nat \<times> spare_pool" where
  "replenish d direct_connect now bound p =
     (case d_list d of
        None \<Rightarrow> (0, p)
      | Some infos \<Rightarrow>
          let spares = spare_rows infos;
              (healthy, sick) = probe_all d direct_connect (free_running spares bound (claimed p)) 1;
              (culled, p1) = cull_sick d now sick p;
              plan_input = filter (\<lambda>(sid, _). sid \<notin> set sick) spares;
              plan = plan_replenish plan_input bound (claimed p1) (target p1);
              restarted = build_all d (map (restart_spare d) (plan_start plan));
              created = build_all d (map (d_create d) [0..<plan_create plan]);
              deleted = length (filter (kill_spare d) (plan_delete plan));
              (fresh, _) = probe_all d direct_connect (restarted @ created) FRESH_PROBE_ATTEMPTS;
              (shelved, p2) = publish (healthy @ fresh) bound p1
          in (culled + length restarted + length created + deleted, p2))"

section \<open>What the operations compute\<close>

lemma plan_replenish_split:
  "let plan = plan_replenish spares bound clm tgt;
       running = length (free_running spares bound clm)
   in plan_start plan @ plan_delete plan
        = map fst (filter (\<lambda>(sid, up). \<not> up \<and> sid \<notin> bound \<and> sid \<notin> clm) spares)
      \<and> running + length (plan_start plan) + plan_create plan = max tgt running
      \<and> (plan_create plan = 0 \<or> plan_delete plan = [])
      \<and> set (plan_start plan) \<union> set (plan_delete plan) \<subseteq> {sid. (sid, False) \<in> set spares} - bound - clm"
proof -
  let ?plan = "plan_replenish spares bound clm tgt"
  let ?stopped = "map fst (filter (\<lambda>(sid, up). \<not> up \<and> sid \<notin> bound \<and> sid \<notin> clm) spares)"
  let ?deficit = "tgt - length (free_running spares bound clm)"
  have start: "plan_start ?plan = take ?deficit ?stopped"
    and delete: "plan_delete ?plan = drop ?deficit ?stopped"
    and create: "plan_create ?plan = ?deficit - length (take ?deficit ?stopped)"
    by (simp_all add: plan_replenish_def free_running_def Let_def)
  have "set (plan_start ?plan) \<union> set (plan_delete ?plan) = set ?stopped"
    unfolding start delete by (metis append_take_drop_id set_append)
  also have "\<dots> \<subseteq> {sid. (sid, False) \<in> set spares} - bound - clm" by auto
  finally show ?thesis by (auto simp: start delete create Let_def)
qed

text \<open>
  A replenish plan is exact. The stopped free spares are split, in listing order, into those
  restarted and those deleted; running, restarted and created spares together make up the target (or
  are the running ones, when they already exceed it); nothing is deleted while something has to be
  created; and every VM the plan touches is stopped and neither bound to a schema nor claimed.
\<close>

theorem plan_replenish_exact:
  "let plan = plan_replenish spares bound clm tgt;
       running = length (free_running spares bound clm)
   in plan_start plan @ plan_delete plan
        = map fst (filter (\<lambda>(sid, up). \<not> up \<and> sid \<notin> bound \<and> sid \<notin> clm) spares)
      \<and> running + length (plan_start plan) + plan_create plan = max tgt running
      \<and> (plan_create plan = 0 \<or> plan_delete plan = [])
      \<and> set (plan_start plan) \<union> set (plan_delete plan) \<subseteq> {sid. (sid, False) \<in> set spares} - bound - clm"
  by (rule plan_replenish_split)

text \<open>A spare \<open>take\<close> may hand out: the daemon does not positively say it is stopped or gone.\<close>

definition usable :: "daemon \<Rightarrow> string \<Rightarrow> bool" where
  "usable d sid \<longleftrightarrow> d_connect d sid \<and>
     (case d_get d sid of Got_Info running _ _ \<Rightarrow> running | Got_Not_Found \<Rightarrow> False | Got_Error \<Rightarrow> True)"

lemma pop_free_filter:
  "pop_free bound clm ids =
     (case filter (\<lambda>s. s \<notin> bound \<and> s \<notin> clm) ids of
        [] \<Rightarrow> (None, [])
      | s # _ \<Rightarrow> (Some s, tl (dropWhile (\<lambda>s. \<not> (s \<notin> bound \<and> s \<notin> clm)) ids)))"
  by (induction ids) (auto split: list.splits)

lemma filter_tl_dropWhile:
  "filter P (tl (dropWhile (\<lambda>s. \<not> P s) ids)) = tl (filter P ids)"
  by (induction ids) auto

lemma pop_claim_cases:
  "pop_claim bound p =
     (case filter (\<lambda>s. s \<notin> bound \<and> s \<notin> claimed p) (ready p) of
        [] \<Rightarrow> (None, p\<lparr>ready := []\<rparr>)
      | s # _ \<Rightarrow> (Some s, p\<lparr>ready := tl (dropWhile (\<lambda>s. \<not> (s \<notin> bound \<and> s \<notin> claimed p)) (ready p)),
                          claimed := insert s (claimed p)\<rparr>))"
  by (simp add: pop_claim_def pop_free_filter split: list.splits)

lemma take_loop_spec:
  "let result = find (usable d)
         (take n (filter (\<lambda>s. s \<notin> bound \<and> s \<notin> claimed (tpool t)) (ready (tpool t))))
   in fst (take_loop n d bound t) = result
      \<and> claimed (tpool (snd (take_loop n d bound t))) = claimed (tpool t) \<union> set_option result
      \<and> poke (tpool (snd (take_loop n d bound t)))"
proof (induction n arbitrary: t)
  case 0
  then show ?case by simp
next
  case (Suc n)
  let ?free = "\<lambda>s. s \<notin> bound \<and> s \<notin> claimed (tpool t)"
  show ?case
  proof (cases "filter ?free (ready (tpool t))")
    case Nil
    then show ?thesis by (simp add: pop_claim_cases)
  next
    case (Cons s rest)
    then have s: "?free s" by (metis filter_eq_ConsD)
    let ?p = "(tpool t)\<lparr>ready := tl (dropWhile (\<lambda>s. \<not> ?free s) (ready (tpool t))),
                claimed := insert s (claimed (tpool t))\<rparr>"
    have pop: "pop_claim bound (tpool t) = (Some s, ?p)"
      using Cons by (simp add: pop_claim_cases)
    let ?t' = "t\<lparr>tpool := unclaim s ?p\<rparr>"
    have c: "claimed (tpool ?t') = claimed (tpool t)" using s by (auto simp: unclaim_def)
    have "ready (tpool ?t') = tl (dropWhile (\<lambda>s. \<not> ?free s) (ready (tpool t)))"
      by (simp add: unclaim_def)
    then have r: "filter ?free (ready (tpool ?t')) = rest"
      using Cons by (simp only: filter_tl_dropWhile list.sel)
    have retry: "\<not> usable d s \<Longrightarrow> take_loop (Suc n) d bound t = take_loop n d bound ?t'"
      by (auto simp: pop usable_def split: get_answer.splits)
    have hand: "usable d s \<Longrightarrow> fst (take_loop (Suc n) d bound t) = Some s \<and>
        claimed (tpool (snd (take_loop (Suc n) d bound t))) = insert s (claimed (tpool t)) \<and>
        poke (tpool (snd (take_loop (Suc n) d bound t)))"
      by (simp add: pop usable_def hand_over_def split: get_answer.splits)
    show ?thesis
    proof (cases "usable d s")
      case True
      with hand Cons show ?thesis by simp
    next
      case False
      then have "find (usable d) (take (Suc n) (filter ?free (ready (tpool t)))) = find (usable d) (take n rest)"
        by (simp add: Cons)
      then show ?thesis using Suc [of ?t'] unfolding c r Let_def retry [OF False] by simp
    qed
  qed
qed

text \<open>
  A claim returns exactly the first usable spare among the first three that are on the shelf
  and neither bound nor claimed, adds it and nothing else to the claimed set, and always wakes the
  replenisher. When none of the three is usable it returns none and leaves the claims as they were.
\<close>

theorem spare_take_spec:
  "let result = find (usable d)
         (take 3 (filter (\<lambda>s. s \<notin> bound \<and> s \<notin> claimed (tpool t)) (ready (tpool t))))
   in fst (spare_take d bound t) = result
      \<and> claimed (tpool (snd (spare_take d bound t))) = claimed (tpool t) \<union> set_option result
      \<and> poke (tpool (snd (spare_take d bound t)))"
  using take_loop_spec [of d TAKE_MAX_ATTEMPTS bound t]
  by (simp add: spare_take_def TAKE_MAX_ATTEMPTS_def)

section \<open>Claims, releases and a pass, interleaved\<close>

text \<open>
  Passes are serialised by the supervisor, so at most one is under way; \<open>pass\<close> is where it stands.
  \<open>confirming\<close> are the ids popped by claims that await the daemon, \<open>held\<close> the ids handed to a
  bring-up, \<open>releasing\<close> those of failed bring-ups whose kill is awaited. \<open>reg_bound\<close> are the ids bound in
  the registry; a bring-up that succeeds binds the id it holds. The daemon's part is arbitrary, except
  that the ids of one listing are distinct and that a VM it creates has an id not recorded as sick.
\<close>

datatype pass =
    Pass_Idle
  | Pass_Probing "string set" "(string \<times> bool) list" "string list"
  | Pass_Probed "string set" "(string \<times> bool) list" "string list" "string list"
  | Pass_Culling "string set" "(string \<times> bool) list" "string list" "string list" "string list"
  | Pass_Planned "string set" "string list" "string list" "string list" "string list"

record spare_sys =
  spool :: spare_pool
  confirming :: "string list"
  held :: "string list"
  releasing :: "string list"
  reg_bound :: "string set"
  pass :: pass
  clock :: nat

definition sick_ids :: "spare_pool \<Rightarrow> string set" where
  "sick_ids p = fst ` set (sick_since p)"

lemma sick_ids_simps [simp]:
  "sick_ids (p\<lparr>ready := r\<rparr>) = sick_ids p" "sick_ids (p\<lparr>claimed := c\<rparr>) = sick_ids p"
  "sick_ids (p\<lparr>poke := b\<rparr>) = sick_ids p"
  "sick_ids (p\<lparr>sick_since := hm_remove sid (sick_since p)\<rparr>) = sick_ids p - {sid}"
  "sick_ids (release_begin sid p) = sick_ids p - {sid}"
  "sick_ids (release_killed sid p) = sick_ids p" "sick_ids (unclaim sid p) = sick_ids p"
  unfolding release_begin_def release_killed_def unclaim_def
  by (auto simp: sick_ids_def set_hm_remove image_iff)

lemma release_begin_simps [simp]:
  "ready (release_begin sid p) = filter (\<lambda>r. r \<noteq> sid) (ready p)" "claimed (release_begin sid p) = claimed p"
  "sick_since (release_begin sid p) = hm_remove sid (sick_since p)"
  by (simp_all add: release_begin_def)

inductive spare_step :: "spare_sys \<Rightarrow> spare_sys \<Rightarrow> bool" where
  pop: "reg_bound x \<subseteq> b \<union> claimed (spool x) \<Longrightarrow> pop_claim b (spool x) = (r, p) \<Longrightarrow>
    spare_step x (x\<lparr>spool := p, confirming := (case r of None \<Rightarrow> [] | Some sid \<Rightarrow> [sid]) @ confirming x\<rparr>)"
| hand: "sid \<in> set (confirming x) \<Longrightarrow>
    spare_step x (x\<lparr>spool := (spool x)\<lparr>poke := True\<rparr>, confirming := remove1 sid (confirming x),
                   held := sid # held x\<rparr>)"
| reject: "sid \<in> set (confirming x) \<Longrightarrow>
    spare_step x (x\<lparr>spool := unclaim sid (spool x), confirming := remove1 sid (confirming x)\<rparr>)"
| bind: "sid \<in> set (held x) \<Longrightarrow> spare_step x (x\<lparr>reg_bound := insert sid (reg_bound x)\<rparr>)"
| fail: "sid \<in> set (held x) \<Longrightarrow> sid \<notin> reg_bound x \<Longrightarrow>
    spare_step x (x\<lparr>spool := release_begin sid (spool x), held := remove1 sid (held x),
                   releasing := sid # releasing x\<rparr>)"
| killed: "sid \<in> set (releasing x) \<Longrightarrow>
    spare_step x (x\<lparr>spool := release_killed sid (spool x), releasing := remove1 sid (releasing x)\<rparr>)"
| tick: "clock x \<le> t \<Longrightarrow> spare_step x (x\<lparr>clock := t\<rparr>)"
| list: "pass x = Pass_Idle \<Longrightarrow> distinct (map fst spares) \<Longrightarrow>
    spare_step x (x\<lparr>pass := Pass_Probing (reg_bound x) spares
                            (free_running spares (reg_bound x) (claimed (spool x)))\<rparr>)"
| probed: "pass x = Pass_Probing b spares ids \<Longrightarrow> mset (healthy @ sick) = mset ids \<Longrightarrow>
    spare_step x (x\<lparr>pass := Pass_Probed b spares healthy sick\<rparr>)"
| mark: "pass x = Pass_Probed b spares healthy sick \<Longrightarrow> cull_mark (clock x) sick (spool x) = (doomed, p) \<Longrightarrow>
    spare_step x (x\<lparr>spool := p, pass := Pass_Culling b spares healthy sick doomed\<rparr>)"
| cull: "pass x = Pass_Culling b spares healthy sick (sid # rest) \<Longrightarrow>
    spare_step x (x\<lparr>spool := (if kill_ok then (spool x)\<lparr>sick_since := hm_remove sid (sick_since (spool x))\<rparr>
                            else spool x),
                   pass := Pass_Culling b spares healthy sick rest\<rparr>)"
| plan: "pass x = Pass_Culling b spares healthy sick [] \<Longrightarrow>
    pl = plan_replenish (filter (\<lambda>(sid, _). sid \<notin> set sick) spares) b (claimed (spool x)) (target (spool x)) \<Longrightarrow>
    spare_step x (x\<lparr>pass := Pass_Planned b healthy sick (plan_start pl) (plan_delete pl)\<rparr>)"
| delete: "pass x = Pass_Planned b healthy sick start (sid # rest) \<Longrightarrow>
    spare_step x (x\<lparr>pass := Pass_Planned b healthy sick start rest\<rparr>)"
| publish: "pass x = Pass_Planned b healthy sick start [] \<Longrightarrow> set fresh \<subseteq> set start \<union> new \<Longrightarrow>
    new \<inter> sick_ids (spool x) = {} \<Longrightarrow> publish (healthy @ fresh) b (spool x) = (n, p) \<Longrightarrow>
    spare_step x (x\<lparr>spool := p, pass := Pass_Idle\<rparr>)"

definition spare_start :: "spare_sys \<Rightarrow> bool" where
  "spare_start x \<longleftrightarrow> (\<exists>t. spool x = spare_new t) \<and> confirming x = [] \<and> held x = [] \<and> releasing x = []
     \<and> pass x = Pass_Idle"

definition in_use :: "spare_sys \<Rightarrow> string list" where
  "in_use x = confirming x @ held x @ releasing x"

text \<open>What the invariant says of the pass: the spares recorded as sick before it are off the shelf.\<close>

fun pass_ok :: "pass \<Rightarrow> spare_sys \<Rightarrow> bool" where
  "pass_ok Pass_Idle x \<longleftrightarrow> sick_ids (spool x) \<inter> set (ready (spool x)) = {}"
| "pass_ok (Pass_Probing b spares ids) x \<longleftrightarrow>
     sick_ids (spool x) \<inter> set (ready (spool x)) = {} \<and> distinct ids
     \<and> set ids \<inter> sick_ids (spool x) \<inter> claimed (spool x) = {}
     \<and> reg_bound x \<subseteq> b \<union> claimed (spool x) \<and> set ids \<inter> b = {}"
| "pass_ok (Pass_Probed b spares healthy sick) x \<longleftrightarrow>
     sick_ids (spool x) \<inter> set (ready (spool x)) = {} \<and> distinct sick \<and> set healthy \<inter> set sick = {}
     \<and> set sick \<inter> sick_ids (spool x) \<inter> claimed (spool x) = {}
     \<and> reg_bound x \<subseteq> b \<union> claimed (spool x) \<and> set sick \<inter> b = {}"
| "pass_ok (Pass_Culling b spares healthy sick doomed) x \<longleftrightarrow>
     sick_ids (spool x) \<subseteq> set sick \<and> set healthy \<inter> set sick = {}
     \<and> set doomed \<inter> (claimed (spool x) \<union> set (ready (spool x)) \<union> reg_bound x) = {}
     \<and> distinct doomed \<and> length doomed \<le> 2"
| "pass_ok (Pass_Planned b healthy sick start del) x \<longleftrightarrow>
     sick_ids (spool x) \<subseteq> set sick \<and> set healthy \<inter> set sick = {} \<and> set start \<inter> set sick = {}"

definition spare_inv :: "spare_sys \<Rightarrow> bool" where
  "spare_inv x \<longleftrightarrow> distinct (ready (spool x)) \<and> set (ready (spool x)) \<inter> claimed (spool x) = {}
     \<and> distinct (in_use x) \<and> set (in_use x) \<subseteq> claimed (spool x)
     \<and> set (confirming x @ releasing x) \<inter> reg_bound x = {} \<and> hm_wf (sick_since (spool x))
     \<and> pass_ok (pass x) x"

lemma spare_invI:
  assumes "distinct (ready (spool x))" "set (ready (spool x)) \<inter> claimed (spool x) = {}"
    "distinct (in_use x)" "set (in_use x) \<subseteq> claimed (spool x)"
    "set (confirming x @ releasing x) \<inter> reg_bound x = {}" "hm_wf (sick_since (spool x))"
    "pass_ok (pass x) x"
  shows "spare_inv x"
  using assms by (simp add: spare_inv_def)

lemma spare_invD:
  assumes "spare_inv x"
  shows "distinct (ready (spool x))" "set (ready (spool x)) \<inter> claimed (spool x) = {}"
    "distinct (in_use x)" "set (in_use x) \<subseteq> claimed (spool x)"
    "set (confirming x @ releasing x) \<inter> reg_bound x = {}" "hm_wf (sick_since (spool x))"
    "pass_ok (pass x) x"
  using assms by (simp_all add: spare_inv_def)

lemma pop_free_Some:
  "pop_free b c ids = (Some s, rest) \<Longrightarrow> distinct ids \<Longrightarrow>
     s \<in> set ids \<and> s \<notin> b \<and> s \<notin> c \<and> set rest \<subseteq> set ids - {s} \<and> distinct rest"
  by (induction ids) (auto split: if_splits)

lemma pop_free_None: "pop_free b c ids = (None, rest) \<Longrightarrow> rest = []"
  by (induction ids) (auto split: if_splits)

lemma pop_claim_Some:
  assumes "pop_claim b p = (Some s, p')" "distinct (ready p)"
  shows "s \<in> set (ready p)" "s \<notin> b" "s \<notin> claimed p" "claimed p' = insert s (claimed p)"
    "set (ready p') \<subseteq> set (ready p) - {s}" "distinct (ready p')" "sick_since p' = sick_since p" "sick_ids p' = sick_ids p"
proof -
  obtain rest where pf: "pop_free b (claimed p) (ready p) = (Some s, rest)"
    and p': "p' = p\<lparr>ready := rest, claimed := insert s (claimed p)\<rparr>"
    using assms(1) by (auto simp: pop_claim_def split: prod.splits option.splits)
  note * = pop_free_Some [OF pf assms(2)]
  show "s \<in> set (ready p)" "s \<notin> b" "s \<notin> claimed p" "claimed p' = insert s (claimed p)"
    "set (ready p') \<subseteq> set (ready p) - {s}" "distinct (ready p')" "sick_since p' = sick_since p" "sick_ids p' = sick_ids p"
    using * by (simp_all add: p' sick_ids_def)
qed

lemma pop_claim_None: "pop_claim b p = (None, p') \<Longrightarrow> p' = p\<lparr>ready := []\<rparr>"
  by (auto simp: pop_claim_def dest: pop_free_None split: prod.splits option.splits)

lemma mark_sick_props:
  assumes "hm_wf since"
  shows "hm_wf (mark_sick now s since)" "fst ` set (mark_sick now s since) = insert s (fst ` set since)"
    "hm_get (mark_sick now s since) s = Some (case hm_get since s of None \<Rightarrow> now | Some t \<Rightarrow> t)"
    "s' \<noteq> s \<Longrightarrow> hm_get (mark_sick now s since) s' = hm_get since s'"
proof -
  have "fst ` set m = dom (hm_get m)" for m :: "(string, nat) hashmap" by (simp add: dom_map_of_conv_image_fst)
  then show "fst ` set (mark_sick now s since) = insert s (fst ` set since)"
    by (auto simp: mark_sick_def split: option.splits)
qed (use assms in \<open>auto simp: mark_sick_def split: option.splits\<close>)

lemma pick_doomed_props:
  assumes "hm_wf since" "pick_doomed now ids since = (ds, since')"
  shows "hm_wf since' \<and> fst ` set since' = set ids \<union> fst ` set since
    \<and> set ds \<subseteq> {s \<in> set ids. \<exists>t. hm_get since s = Some t \<and> SPARE_SICK_GRACE \<le> now - t}
    \<and> (distinct ids \<longrightarrow> distinct ds)"
  using assms
proof (induction ids arbitrary: since ds)
  case (Cons s ids)
  note m = mark_sick_props [OF Cons.prems(1), where now = now and s = s]
  obtain ds1 where p: "pick_doomed now ids (mark_sick now s since) = (ds1, since')"
    using Cons.prems(2) by (auto simp: Let_def split: prod.splits)
  have old: "SPARE_SICK_GRACE \<le> now - (case hm_get since s of None \<Rightarrow> now | Some t \<Rightarrow> t) \<longleftrightarrow>
      (\<exists>t. hm_get since s = Some t \<and> SPARE_SICK_GRACE \<le> now - t)"
    by (auto simp: SPARE_SICK_GRACE_def split: option.splits)
  have ds: "ds = (if \<exists>t. hm_get since s = Some t \<and> SPARE_SICK_GRACE \<le> now - t then s # ds1 else ds1)"
    using Cons.prems(2) p by (simp add: m(3) old split: if_splits)
  have ih: "hm_wf since' \<and> fst ` set since' = set ids \<union> fst ` set (mark_sick now s since)
    \<and> set ds1 \<subseteq> {x \<in> set ids. \<exists>t. hm_get (mark_sick now s since) x = Some t \<and> SPARE_SICK_GRACE \<le> now - t}
    \<and> (distinct ids \<longrightarrow> distinct ds1)"
    by (rule Cons.IH [OF m(1) p])
  have "\<exists>t. hm_get since x = Some t \<and> SPARE_SICK_GRACE \<le> now - t" if x: "x \<in> set ds1" for x
  proof -
    obtain t where "hm_get (mark_sick now s since) x = Some t" "SPARE_SICK_GRACE \<le> now - t"
      using ih x by blast
    then show ?thesis using m(3) m(4) [of x] old by (cases "x = s") simp_all
  qed
  then show ?case using ih m(2) by (auto simp: ds)
qed simp

lemma cull_mark_props:
  assumes "cull_mark now sick p = (doomed, p')" "hm_wf (sick_since p)"
  shows "hm_wf (sick_since p')" "sick_ids p' = set sick" "ready p' = ready p" "claimed p' = claimed p"
    "set doomed \<subseteq> set sick \<inter> sick_ids p" "length doomed \<le> 2" "distinct sick \<Longrightarrow> distinct doomed"
    "\<forall>s \<in> set doomed. \<exists>t. hm_get (sick_since p) s = Some t \<and> SPARE_SICK_GRACE \<le> now - t"
proof -
  let ?since = "filter (\<lambda>(sid, _). sid \<in> set sick) (sick_since p)"
  obtain ds since where pd: "pick_doomed now sick ?since = (ds, since)"
    and p': "p' = p\<lparr>sick_since := since\<rparr>" and doomed: "doomed = take 2 ds"
    using assms(1) unfolding cull_mark_def SPARE_MAX_CULLS_PER_PASS_def
    by (cases "pick_doomed now sick ?since") simp
  have wf: "hm_wf ?since" using assms(2) by simp
  note d = pick_doomed_props [OF wf pd]
  have get: "hm_get ?since s = Some t \<Longrightarrow> hm_get (sick_since p) s = Some t" for s t
    using assms(2) by (simp add: hm_get_filter split: option.splits if_splits)
  have sub: "set doomed \<subseteq> set ds" unfolding doomed by (rule set_take_subset)
  show "hm_wf (sick_since p')" "ready p' = ready p" "claimed p' = claimed p" "length doomed \<le> 2"
    "distinct sick \<Longrightarrow> distinct doomed"
    using d by (simp_all add: p' doomed)
  have "fst ` set ?since \<subseteq> set sick" by auto
  then show "sick_ids p' = set sick" using d by (simp add: p' sick_ids_def Un_absorb2)
  show q: "\<forall>s \<in> set doomed. \<exists>t. hm_get (sick_since p) s = Some t \<and> SPARE_SICK_GRACE \<le> now - t"
    using d sub get by blast
  show "set doomed \<subseteq> set sick \<inter> sick_ids p"
  proof
    fix s assume s: "s \<in> set doomed"
    then obtain t where "hm_get (sick_since p) s = Some t" using q by blast
    then have "s \<in> sick_ids p" unfolding sick_ids_def by (metis fst_conv image_eqI map_of_SomeD)
    moreover have "s \<in> set sick" using s sub d by blast
    ultimately show "s \<in> set sick \<inter> sick_ids p" by simp
  qed
qed

lemma shelve_props:
  "distinct (shelve b c seen ids) \<and> set (shelve b c seen ids) = set ids - b - c - seen"
  by (induction ids arbitrary: seen) auto

lemma pass_ok_poke [simp]: "pass_ok pc (x\<lparr>spool := (spool x)\<lparr>poke := b\<rparr>, confirming := c, held := h\<rparr>) = pass_ok pc x"
  by (cases pc) simp_all

text \<open>
  What a step outside the pass may do to the facts the pass relies on: claims come off the shelf,
  the shelf and the sick set only shrink, and bindings are of claimed ids.
\<close>

lemma pass_ok_client:
  assumes "pass_ok pc x" "set (ready (spool y)) \<subseteq> set (ready (spool x))"
    "sick_ids (spool y) \<subseteq> sick_ids (spool x)"
    "claimed (spool y) \<subseteq> claimed (spool x) \<union> set (ready (spool x))"
    "reg_bound y \<subseteq> reg_bound x \<union> claimed (spool x)"
    "reg_bound y \<inter> claimed (spool x) \<subseteq> claimed (spool y)"
  shows "pass_ok pc y"
proof -
  have r: "z \<in> set (ready (spool y)) \<Longrightarrow> z \<in> set (ready (spool x))"
    and s: "z \<in> sick_ids (spool y) \<Longrightarrow> z \<in> sick_ids (spool x)"
    and c: "z \<in> claimed (spool y) \<Longrightarrow> z \<in> claimed (spool x) \<or> z \<in> set (ready (spool x))"
    and g: "z \<in> reg_bound y \<Longrightarrow> z \<in> reg_bound x \<or> z \<in> claimed (spool x)"
    and k: "z \<in> reg_bound y \<Longrightarrow> z \<in> claimed (spool x) \<Longrightarrow> z \<in> claimed (spool y)" for z
    using assms(2-) by blast+
  show ?thesis
  proof (cases pc)
    case Pass_Idle
    then have "sick_ids (spool x) \<inter> set (ready (spool x)) = {}" using assms(1) by simp
    then have "sick_ids (spool y) \<inter> set (ready (spool y)) = {}" using r s by blast
    then show ?thesis using Pass_Idle by simp
  next
    case (Pass_Probing b spares ids)
    then have old: "sick_ids (spool x) \<inter> set (ready (spool x)) = {}"
        "set ids \<inter> sick_ids (spool x) \<inter> claimed (spool x) = {}" "reg_bound x \<subseteq> b \<union> claimed (spool x)"
      using assms(1) by simp_all
    have "sick_ids (spool y) \<inter> set (ready (spool y)) = {}" using old(1) r s by blast
    moreover have "set ids \<inter> sick_ids (spool y) \<inter> claimed (spool y) = {}"
      using old(1,2) s c by blast
    moreover have "reg_bound y \<subseteq> b \<union> claimed (spool y)" using old(3) g k by blast
    ultimately show ?thesis using assms(1) Pass_Probing by simp
  next
    case (Pass_Probed b spares healthy sick)
    then have old: "sick_ids (spool x) \<inter> set (ready (spool x)) = {}"
        "set sick \<inter> sick_ids (spool x) \<inter> claimed (spool x) = {}" "reg_bound x \<subseteq> b \<union> claimed (spool x)"
      using assms(1) by simp_all
    have "sick_ids (spool y) \<inter> set (ready (spool y)) = {}" using old(1) r s by blast
    moreover have "set sick \<inter> sick_ids (spool y) \<inter> claimed (spool y) = {}"
      using old(1,2) s c by blast
    moreover have "reg_bound y \<subseteq> b \<union> claimed (spool y)" using old(3) g k by blast
    ultimately show ?thesis using assms(1) Pass_Probed by simp
  next
    case (Pass_Culling b spares healthy sick doomed)
    then have "z \<in> set doomed \<Longrightarrow> z \<notin> claimed (spool x) \<and> z \<notin> set (ready (spool x)) \<and> z \<notin> reg_bound x" for z
      using assms(1) by auto
    then have "set doomed \<inter> (claimed (spool y) \<union> set (ready (spool y)) \<union> reg_bound y) = {}"
      using r c g by blast
    then show ?thesis using assms(1,3) Pass_Culling by (simp, blast)
  next
    case (Pass_Planned b healthy sick start del)
    with assms(1,3) show ?thesis by (simp, blast)
  qed
qed

lemma inv_pop:
  assumes inv: "spare_inv x" and b: "reg_bound x \<subseteq> b \<union> claimed (spool x)"
    and pop: "pop_claim b (spool x) = (r, p)"
  shows "spare_inv (x\<lparr>spool := p, confirming := (case r of None \<Rightarrow> [] | Some sid \<Rightarrow> [sid]) @ confirming x\<rparr>)"
proof (cases r)
  case None
  then have "p = (spool x)\<lparr>ready := []\<rparr>" using pop by (simp add: pop_claim_None)
  moreover have "pass_ok (pass x) (x\<lparr>spool := (spool x)\<lparr>ready := []\<rparr>\<rparr>)"
    using spare_invD(7) [OF inv] by (rule pass_ok_client) auto
  ultimately show ?thesis using None spare_invD [OF inv] by (intro spare_invI) (auto simp: in_use_def)
next
  case (Some sid)
  note d = spare_invD [OF inv]
  note p = pop_claim_Some [OF pop [unfolded Some] d(1)]
  have new: "sid \<notin> set (in_use x)" using d p by blast
  have "pass_ok (pass x) (x\<lparr>spool := p, confirming := sid # confirming x\<rparr>)"
    using p by (intro pass_ok_client [OF d(7)]) auto
  then show ?thesis using d p b new unfolding Some by (intro spare_invI) (auto simp: in_use_def)
qed

lemma inv_hand:
  assumes "spare_inv x" "sid \<in> set (confirming x)"
  shows "spare_inv (x\<lparr>spool := (spool x)\<lparr>poke := True\<rparr>, confirming := remove1 sid (confirming x), held := sid # held x\<rparr>)"
  using spare_invD [OF assms(1)] assms(2)
  by (intro spare_invI) (auto simp: in_use_def distinct_remove1 dest: notin_set_remove1 set_remove1_subset [THEN subsetD])

lemma inv_reject:
  assumes "spare_inv x" "sid \<in> set (confirming x)"
  shows "spare_inv (x\<lparr>spool := unclaim sid (spool x), confirming := remove1 sid (confirming x)\<rparr>)"
proof -
  note d = spare_invD [OF assms(1)]
  have "pass_ok (pass x) (x\<lparr>spool := unclaim sid (spool x), confirming := remove1 sid (confirming x)\<rparr>)"
    using d(5) assms(2) by (intro pass_ok_client [OF d(7)]) (auto simp: unclaim_def)
  then show ?thesis using d assms(2)
    by (intro spare_invI) (auto simp: in_use_def unclaim_def distinct_remove1 dest: set_remove1_subset [THEN subsetD])
qed

lemma inv_bind:
  assumes "spare_inv x" "sid \<in> set (held x)"
  shows "spare_inv (x\<lparr>reg_bound := insert sid (reg_bound x)\<rparr>)"
proof -
  note d = spare_invD [OF assms(1)]
  have c: "sid \<in> claimed (spool x)" using d(4) assms(2) by (auto simp: in_use_def)
  have "pass_ok (pass x) (x\<lparr>reg_bound := insert sid (reg_bound x)\<rparr>)"
    using c by (intro pass_ok_client [OF d(7)]) auto
  then show ?thesis using d assms(2) by (intro spare_invI) (auto simp: in_use_def)
qed

lemma inv_fail:
  assumes "spare_inv x" "sid \<in> set (held x)" "sid \<notin> reg_bound x"
  shows "spare_inv (x\<lparr>spool := release_begin sid (spool x), held := remove1 sid (held x), releasing := sid # releasing x\<rparr>)"
proof -
  note d = spare_invD [OF assms(1)]
  have "pass_ok (pass x) (x\<lparr>spool := release_begin sid (spool x), held := remove1 sid (held x), releasing := sid # releasing x\<rparr>)"
    by (intro pass_ok_client [OF d(7)]) auto
  then show ?thesis using d assms(2,3)
    by (intro spare_invI) (auto simp: in_use_def distinct_remove1 dest: set_remove1_subset [THEN subsetD])
qed

lemma inv_killed:
  assumes "spare_inv x" "sid \<in> set (releasing x)"
  shows "spare_inv (x\<lparr>spool := release_killed sid (spool x), releasing := remove1 sid (releasing x)\<rparr>)"
proof -
  note d = spare_invD [OF assms(1)]
  have "pass_ok (pass x) (x\<lparr>spool := release_killed sid (spool x), releasing := remove1 sid (releasing x)\<rparr>)"
    using d(5) assms(2) by (intro pass_ok_client [OF d(7)]) (auto simp: release_killed_def)
  then show ?thesis using d assms(2)
    by (intro spare_invI) (auto simp: in_use_def release_killed_def distinct_remove1 dest: set_remove1_subset [THEN subsetD])
qed

lemma spare_inv_pass:
  "spare_inv x \<Longrightarrow> pass_ok pc (x\<lparr>pass := pc\<rparr>) \<Longrightarrow> spare_inv (x\<lparr>pass := pc\<rparr>)"
  by (simp add: spare_inv_def in_use_def)

lemma inv_list:
  assumes "spare_inv x" "pass x = Pass_Idle" "distinct (map fst spares)"
  shows "spare_inv (x\<lparr>pass := Pass_Probing (reg_bound x) spares
                            (free_running spares (reg_bound x) (claimed (spool x)))\<rparr>)"
proof (rule spare_inv_pass [OF assms(1)])
  have "distinct (free_running spares (reg_bound x) (claimed (spool x)))"
    using assms(3) by (simp add: free_running_def distinct_map_filter)
  moreover have "set (free_running spares (reg_bound x) (claimed (spool x))) \<inter> (claimed (spool x) \<union> reg_bound x) = {}"
    by (auto simp: free_running_def)
  ultimately show "pass_ok (Pass_Probing (reg_bound x) spares (free_running spares (reg_bound x) (claimed (spool x))))
     (x\<lparr>pass := Pass_Probing (reg_bound x) spares (free_running spares (reg_bound x) (claimed (spool x)))\<rparr>)"
    using spare_invD(7) [OF assms(1)] assms(2) by (simp, blast)
qed

lemma inv_probed:
  assumes "spare_inv x" "pass x = Pass_Probing b spares ids" "mset (healthy @ sick) = mset ids"
  shows "spare_inv (x\<lparr>pass := Pass_Probed b spares healthy sick\<rparr>)"
proof (rule spare_inv_pass [OF assms(1)])
  have ids: "set ids = set healthy \<union> set sick" using assms(3) by (metis set_append set_mset_mset)
  have d: "distinct ids" "set ids \<inter> sick_ids (spool x) \<inter> claimed (spool x) = {}" "set ids \<inter> b = {}"
    using spare_invD(7) [OF assms(1)] assms(2) by simp_all
  have "distinct (healthy @ sick)" using assms(3) d(1) by (metis mset_eq_imp_distinct_iff)
  then show "pass_ok (Pass_Probed b spares healthy sick) (x\<lparr>pass := Pass_Probed b spares healthy sick\<rparr>)"
    using spare_invD(7) [OF assms(1)] assms(2) d ids by (simp, blast)
qed

lemma inv_mark:
  assumes "spare_inv x" "pass x = Pass_Probed b spares healthy sick"
    "cull_mark (clock x) sick (spool x) = (doomed, p)"
  shows "spare_inv (x\<lparr>spool := p, pass := Pass_Culling b spares healthy sick doomed\<rparr>)"
proof -
  note d = spare_invD [OF assms(1)]
  note m = cull_mark_props [OF assms(3) d(6)]
  have pc: "sick_ids (spool x) \<inter> set (ready (spool x)) = {}" "distinct sick" "set healthy \<inter> set sick = {}"
     "set sick \<inter> sick_ids (spool x) \<inter> claimed (spool x) = {}"
     "reg_bound x \<subseteq> b \<union> claimed (spool x)" "set sick \<inter> b = {}"
    using d(7) assms(2) by simp_all
  have "set doomed \<inter> (claimed (spool x) \<union> set (ready (spool x)) \<union> reg_bound x) = {}"
    using m(5) pc(1,4,5,6) by blast
  then show ?thesis using d m pc by (intro spare_invI) (simp_all add: in_use_def)
qed

lemma inv_cull:
  assumes "spare_inv x" "pass x = Pass_Culling b spares healthy sick (sid # rest)"
  shows "spare_inv (x\<lparr>spool := (if kill_ok then (spool x)\<lparr>sick_since := hm_remove sid (sick_since (spool x))\<rparr>
                            else spool x),
                   pass := Pass_Culling b spares healthy sick rest\<rparr>)"
proof -
  note d = spare_invD [OF assms(1)]
  show ?thesis using d assms(2) by (intro spare_invI) (auto simp: in_use_def)
qed

lemma inv_publish:
  assumes "spare_inv x" "pass x = Pass_Planned b healthy sick start []" "set fresh \<subseteq> set start \<union> new"
    "new \<inter> sick_ids (spool x) = {}" "publish (healthy @ fresh) b (spool x) = (n, p)"
  shows "spare_inv (x\<lparr>spool := p, pass := Pass_Idle\<rparr>)"
proof -
  note d = spare_invD [OF assms(1)]
  have pc: "sick_ids (spool x) \<subseteq> set sick" "set healthy \<inter> set sick = {}" "set start \<inter> set sick = {}"
    using d(7) assms(2) by simp_all
  have p: "p = (spool x)\<lparr>ready := shelve b (claimed (spool x)) {} (healthy @ fresh)\<rparr>"
    using assms(5) by (simp add: publish_def Let_def)
  note r = shelve_props [of b "claimed (spool x)" "{}" "healthy @ fresh"]
  have "sick_ids (spool x) \<inter> set (ready p) = {}"
    using r pc assms(3,4) by (simp add: p) blast
  then show ?thesis using d r by (intro spare_invI) (auto simp: in_use_def p)
qed

lemma spare_inv_step: "spare_inv x \<Longrightarrow> spare_step x y \<Longrightarrow> spare_inv y"
proof (erule spare_step.cases, goal_cases)
  case 7
  then show ?case by (auto simp: spare_inv_def in_use_def intro: pass_ok_client)
next
  case (12 x b spares healthy sick pl)
  then have pc: "sick_ids (spool x) \<subseteq> set sick" "set healthy \<inter> set sick = {}"
    using spare_invD(7) [OF 12(1)] by simp_all
  have "set (plan_start pl) \<inter> set sick = {}"
    unfolding 12(5) plan_replenish_def Let_def by (auto dest!: in_set_takeD)
  then have "spare_inv (x\<lparr>pass := Pass_Planned b healthy sick (plan_start pl) (plan_delete pl)\<rparr>)"
    using pc 12(1,2) by (intro spare_inv_pass) simp_all
  then show ?case using 12(3) 12(2) by simp
next
  case (13 x b healthy sick start sid rest)
  then have "spare_inv (x\<lparr>pass := Pass_Planned b healthy sick start rest\<rparr>)"
    using spare_invD(7) [OF 13(1)] by (intro spare_inv_pass) simp_all
  then show ?case using 13 by simp
qed (simp_all only: inv_pop inv_hand inv_reject inv_bind inv_fail inv_killed inv_list inv_probed inv_mark inv_cull inv_publish not_False_eq_True)

interpretation spare_life: inductive_invariant spare_start spare_step spare_inv
proof unfold_locales
  fix x assume "spare_start x"
  then show "spare_inv x"
    by (auto simp: spare_start_def spare_new_def sick_ids_def in_use_def intro!: spare_invI)
next
  fix x y assume "spare_inv x" "spare_step x y"
  then show "spare_inv y" by (rule spare_inv_step)
qed

lemmas spare_next = run_next [where init = spare_start and step = spare_step]

text \<open>
  C5: No VM serves two claims. In every state claims, releases and replenish passes can reach, the
  ids held by claims under confirmation, by bring-ups and by failed bring-ups being killed are
  pairwise different, all of them are claimed, none of them is on the shelf, and no id that a claim
  is confirming is bound to a schema in the registry.
\<close>

theorem spare_claims_exclusive:
  assumes "run_of spare_start spare_step x"
  shows "distinct (in_use x) \<and> set (in_use x) \<subseteq> claimed (spool x)
    \<and> set (ready (spool x)) \<inter> claimed (spool x) = {} \<and> set (confirming x) \<inter> reg_bound x = {}"
  using spare_invD [OF spare_life.reachable_inv [OF assms]] by auto

theorem spare_claims_exclusive_witness:
  "\<exists>x. run_of spare_start spare_step x \<and> in_use x = [''a''] \<and> ''a'' \<in> claimed (spool x)
     \<and> ''a'' \<notin> set (ready (spool x))"
proof -
  let ?p = "\<lambda>r c. \<lparr>target = 1, claimed = c, ready = r, sick_since = [], poke = False\<rparr>"
  let ?x = "\<lambda>p cf pc. \<lparr>spool = p, confirming = cf, held = [], releasing = [], reg_bound = {}, pass = pc, clock = 0\<rparr>"
  let ?a = "[(''a'', True)]"
  have "spare_new 1 = ?p [] {}" by (simp add: spare_new_def MAX_SPARES_def)
  then have "run_of spare_start spare_step (?x (?p [] {}) [] Pass_Idle)"
    by (intro run_init) (auto simp: spare_start_def intro: exI [of _ 1])
  then have "run_of spare_start spare_step (?x (?p [] {}) [] (Pass_Probing {} ?a [''a'']))"
    by (rule spare_next [OF _ spare_step.list [where spares = ?a]]) (simp_all add: free_running_def)
  then have "run_of spare_start spare_step (?x (?p [] {}) [] (Pass_Probed {} ?a [''a''] []))"
    by (rule spare_next [OF _ spare_step.probed [where healthy = "[''a'']" and sick = "[]"]]) simp_all
  then have "run_of spare_start spare_step (?x (?p [] {}) [] (Pass_Culling {} ?a [''a''] [] []))"
    by (rule spare_next [OF _ spare_step.mark]) (simp_all add: cull_mark_def)
  then have "run_of spare_start spare_step (?x (?p [] {}) [] (Pass_Planned {} [''a''] [] [] []))"
    by (rule spare_next [OF _ spare_step.plan [OF _ refl]]) (simp, simp add: plan_replenish_def)
  then have "run_of spare_start spare_step (?x (?p [''a''] {}) [] Pass_Idle)"
    by (rule spare_next [OF _ spare_step.publish [where fresh = "[]" and new = "{}"]]) (simp, simp, simp, simp add: publish_def, simp)
  then have r: "run_of spare_start spare_step (?x (?p [] {''a''}) [''a''] Pass_Idle)"
    by (rule spare_next [OF _ spare_step.pop [where b = "{}"]]) (simp, simp add: pop_claim_def, simp)
  show ?thesis
    using r spare_claims_exclusive [OF r]
    by (intro exI [of _ "?x (?p [] {''a''}) [''a''] Pass_Idle"]) (simp add: in_use_def)
qed

text \<open>
  The health cull never deletes a VM in use. Whatever claims land while a pass probes and
  culls, the spares it is about to delete are neither claimed nor bound to a schema nor on the shelf
  from which they could be claimed, and there are at most two of them.
\<close>

theorem cull_never_kills_in_use:
  assumes "run_of spare_start spare_step x" "pass x = Pass_Culling b spares healthy sick doomed"
  shows "set doomed \<inter> (claimed (spool x) \<union> reg_bound x \<union> set (ready (spool x)) \<union> set (in_use x)) = {}
    \<and> distinct doomed \<and> length doomed \<le> SPARE_MAX_CULLS_PER_PASS"
  using spare_invD(4,7) [OF spare_life.reachable_inv [OF assms(1)]] assms(2)
  by (auto simp: SPARE_MAX_CULLS_PER_PASS_def)

theorem cull_never_kills_in_use_witness:
  "\<exists>x b spares healthy sick. run_of spare_start spare_step x
     \<and> pass x = Pass_Culling b spares healthy sick [''a''] \<and> ''a'' \<notin> claimed (spool x) \<union> set (ready (spool x))"
proof -
  let ?p = "\<lambda>s. \<lparr>target = 1, claimed = {}, ready = [], sick_since = s, poke = False\<rparr>"
  let ?x = "\<lambda>p pc t. \<lparr>spool = p, confirming = [], held = [], releasing = [], reg_bound = {}, pass = pc, clock = t\<rparr>"
  let ?a = "[(''a'', True)]"
  have look: "run_of spare_start spare_step (?x (?p s) (Pass_Probed {} ?a [] [''a'']) t)"
    if "run_of spare_start spare_step (?x (?p s) Pass_Idle t)" for s t
  proof -
    have "run_of spare_start spare_step (?x (?p s) (Pass_Probing {} ?a [''a'']) t)"
      using that by (rule spare_next [OF _ spare_step.list [where spares = ?a]]) (simp_all add: free_running_def)
    then show ?thesis
      by (rule spare_next [OF _ spare_step.probed [where healthy = "[]" and sick = "[''a'']"]]) simp_all
  qed
  have "spare_new 1 = ?p []" by (simp add: spare_new_def MAX_SPARES_def)
  then have "run_of spare_start spare_step (?x (?p []) Pass_Idle 0)"
    by (intro run_init) (auto simp: spare_start_def intro: exI [of _ 1])
  then have "run_of spare_start spare_step (?x (?p []) (Pass_Probed {} ?a [] [''a'']) 0)" by (rule look)
  then have "run_of spare_start spare_step (?x (?p [(''a'', 0)]) (Pass_Culling {} ?a [] [''a''] []) 0)"
    by (rule spare_next [OF _ spare_step.mark])
      (simp_all add: cull_mark_def mark_sick_def hm_insert_def SPARE_SICK_GRACE_def)
  then have "run_of spare_start spare_step (?x (?p [(''a'', 0)]) (Pass_Planned {} [] [''a''] [] []) 0)"
    by (rule spare_next [OF _ spare_step.plan [OF _ refl]]) (simp, simp add: plan_replenish_def)
  then have "run_of spare_start spare_step (?x (?p [(''a'', 0)]) Pass_Idle 0)"
    by (rule spare_next [OF _ spare_step.publish [where fresh = "[]" and new = "{}"]]) (simp, simp, simp, simp add: publish_def, simp)
  then have "run_of spare_start spare_step (?x (?p [(''a'', 0)]) Pass_Idle 400)"
    by (rule spare_next [OF _ spare_step.tick [where t = 400]]) simp_all
  then have "run_of spare_start spare_step (?x (?p [(''a'', 0)]) (Pass_Probed {} ?a [] [''a'']) 400)" by (rule look)
  then have r: "run_of spare_start spare_step (?x (?p [(''a'', 0)]) (Pass_Culling {} ?a [] [''a''] [''a'']) 400)"
    by (rule spare_next [OF _ spare_step.mark])
      (simp_all add: cull_mark_def mark_sick_def SPARE_SICK_GRACE_def SPARE_MAX_CULLS_PER_PASS_def)
  show ?thesis
    using r cull_never_kills_in_use [OF r, of "{}" ?a "[]" "[''a'']" "[''a'']"]
    by (intro exI [of _ "?x (?p [(''a'', 0)]) (Pass_Culling {} ?a [] [''a''] [''a'']) 400"]) simp
qed

section \<open>A pass fills the pool\<close>

text \<open>Concurrent streams deliver every result exactly once, in some order.\<close>

definition orders_ok :: "daemon \<Rightarrow> bool" where
  "orders_ok d \<longleftrightarrow> (\<forall>xs. mset (d_probe_order d xs) = mset xs) \<and> (\<forall>xs. mset (d_build_order d xs) = mset xs)"

lemma probe_all_partition:
  assumes "orders_ok d" "probe_all d dc ids n = (healthy, sick)"
  shows "mset (healthy @ sick) = mset ids"
proof -
  let ?r = "d_probe_order d (map (\<lambda>sid. (sid, probe_one d n sid)) ids)"
  have "mset (map fst ?r) = mset ids"
    using assms(1) by (simp add: orders_ok_def image_mset.compositionality comp_def)
  moreover have "mset (map fst (filter snd ?r) @ map fst (filter (\<lambda>r. \<not> snd r) ?r)) = mset (map fst ?r)"
    by (simp add: image_mset_union [symmetric] multiset_partition [symmetric] del: image_mset_union)
  ultimately show ?thesis using assms(2) by (auto simp: probe_all_def Let_def split: if_splits)
qed

lemma probe_all_healthy:
  assumes "orders_ok d" "\<And>sid. sid \<in> set ids \<Longrightarrow> probe_one d n sid"
  obtains h where "probe_all d dc ids n = (h, [])" "mset h = mset ids"
proof -
  obtain h s where hs: "probe_all d dc ids n = (h, s)" by fastforce
  let ?r = "d_probe_order d (map (\<lambda>sid. (sid, probe_one d n sid)) ids)"
  have "set ?r = set (map (\<lambda>sid. (sid, probe_one d n sid)) ids)"
    using assms(1) by (metis orders_ok_def set_mset_mset)
  then have "filter (\<lambda>r. \<not> snd r) ?r = []" using assms(2) by (auto simp: filter_empty_conv)
  then have "s = []" using hs by (auto simp: probe_all_def Let_def split: if_splits)
  then show ?thesis using that [of h] hs probe_all_partition [OF assms(1) hs] by simp
qed

lemma set_build_all: "orders_ok d \<Longrightarrow> set (build_all d bs) = {x. Some x \<in> set bs}"
proof -
  assume "orders_ok d"
  then have "set (d_build_order d bs) = set bs" by (metis orders_ok_def set_mset_mset)
  then show ?thesis by (force simp: build_all_def List.map_filter_def)
qed

lemma cull_sick_Nil: "cull_sick d now [] p = (0, p\<lparr>sick_since := []\<rparr>)"
  by (simp add: cull_sick_def cull_mark_def)

text \<open>
  C36: A pass against a daemon that works brings the pool to its target. If the listing succeeds,
  every probe answers, every restart and create succeeds, and created VMs have new ids, then after one
  pass the shelf holds exactly the target number of spares, or all the free running ones when they were
  more; the target itself is at most sixteen for a pool built by \<open>new\<close>.
\<close>

theorem replenish_fills_pool:
  assumes d: "orders_ok d" "d_list d = Some infos" "\<And>n sid. probe_one d n sid"
      "\<And>sid. restart_spare d sid = Some sid" "\<And>k. d_create d k = Some (new k)"
    and fresh: "inj new" "range new \<inter> (fst ` set (spare_rows infos) \<union> bound \<union> claimed p) = {}"
    and ids: "distinct (map fst (spare_rows infos))"
  shows "fst (spare_depth (snd (replenish d dc now bound p)))
    = max (target p) (length (free_running (spare_rows infos) bound (claimed p)))"
proof -
  let ?rows = "spare_rows infos" and ?free = "free_running (spare_rows infos) bound (claimed p)"
  let ?plan = "plan_replenish ?rows bound (claimed p) (target p)"
  let ?created = "map new [0..<plan_create ?plan]"
  note plan = plan_replenish_split [of ?rows bound "claimed p" "target p", unfolded Let_def]
  obtain h where h: "probe_all d dc ?free 1 = (h, [])" "mset h = mset ?free"
    using d(3) by (rule_tac probe_all_healthy [OF d(1), of ?free 1 dc]) auto
  let ?restarted = "build_all d (map (restart_spare d) (plan_start ?plan))"
  let ?made = "build_all d (map (d_create d) [0..<plan_create ?plan])"
  obtain f where f: "probe_all d dc (?restarted @ ?made) FRESH_PROBE_ATTEMPTS = (f, [])"
      "mset f = mset (?restarted @ ?made)"
    using d(3) by (rule_tac probe_all_healthy [OF d(1), of "?restarted @ ?made" FRESH_PROBE_ATTEMPTS dc]) auto
  have built: "set ?restarted = set (plan_start ?plan)" "set ?made = set ?created"
    using d by (auto simp: set_build_all)
  have shelf: "ready (snd (replenish d dc now bound p)) = shelve bound (claimed p) {} (h @ f)"
    using d(2) h(1) f(1)
    by (simp add: replenish_def Let_def cull_sick_Nil publish_def split: prod.splits)
  have free: "distinct ?free" "set ?free \<inter> (bound \<union> claimed p) = {}" "set ?free \<subseteq> fst ` set ?rows"
    using ids by (auto simp: free_running_def distinct_map_filter)
  have start: "distinct (plan_start ?plan)" "set (plan_start ?plan) \<inter> (bound \<union> claimed p) = {}"
      "set (plan_start ?plan) \<subseteq> fst ` set ?rows" "set (plan_start ?plan) \<inter> set ?free = {}"
  proof -
    have "distinct (plan_start ?plan @ plan_delete ?plan)"
      using plan ids by (simp add: distinct_map_filter del: distinct_append)
    then show "distinct (plan_start ?plan)" by simp
    have sub: "s \<in> set (plan_start ?plan) \<Longrightarrow> (s, False) \<in> set ?rows \<and> s \<notin> bound \<and> s \<notin> claimed p" for s
      using plan by blast
    show "set (plan_start ?plan) \<inter> (bound \<union> claimed p) = {}" "set (plan_start ?plan) \<subseteq> fst ` set ?rows"
      using sub by (blast, force)
    have "(s, False) \<in> set ?rows \<Longrightarrow> (s, True) \<notin> set ?rows" for s
      using ids by (metis Pair_inject eq_key_imp_eq_value)
    then show "set (plan_start ?plan) \<inter> set ?free = {}" using sub by (auto simp: free_running_def)
  qed
  have created: "distinct ?created" "set ?created \<inter> (fst ` set ?rows \<union> bound \<union> claimed p) = {}"
  proof -
    show "distinct ?created" using fresh(1) by (simp add: distinct_map inj_on_def)
    have "set ?created \<subseteq> range new" by auto
    then show "set ?created \<inter> (fst ` set ?rows \<union> bound \<union> claimed p) = {}" using fresh(2) by blast
  qed
  have "set (h @ f) = set (?free @ plan_start ?plan @ ?created)"
    using h(2) f(2) built by (metis set_append set_mset_mset)
  then have "set (shelve bound (claimed p) {} (h @ f)) = set (?free @ plan_start ?plan @ ?created)"
    using shelve_props [of bound "claimed p" "{}" "h @ f"] free start created by auto
  moreover have "distinct (?free @ plan_start ?plan @ ?created)"
    using free start created by (auto simp del: set_map)
  ultimately have "length (shelve bound (claimed p) {} (h @ f)) = length (?free @ plan_start ?plan @ ?created)"
    using shelve_props [of bound "claimed p" "{}" "h @ f"] by (metis distinct_card)
  then show ?thesis using plan by (simp add: spare_depth_def shelf)
qed

definition eager_daemon :: daemon where
  "eager_daemon = \<lparr>d_connect = \<lambda>_. True, d_get = \<lambda>s. Got_Info True s s, d_pg = \<lambda>_ _. Pg_Answer True,
     d_kill = \<lambda>_. True, d_permit = \<lambda>_. True, d_start = \<lambda>_. True, d_wait_ready = \<lambda>_. True,
     d_create = \<lambda>k. Some (CHR ''n'' # replicate k CHR ''x''),
     d_list = Some [(''a'', ''spare-pg-1'', True), (''b'', ''spare-pg-2'', False)],
     d_probe_order = rev, d_build_order = rev\<rparr>"

lemma eager_daemon_simps [simp]:
  "orders_ok eager_daemon" "d_list eager_daemon = Some [(''a'', ''spare-pg-1'', True), (''b'', ''spare-pg-2'', False)]"
  "probe_one eager_daemon n sid" "restart_spare eager_daemon sid = Some sid"
  "d_create eager_daemon k = Some (CHR ''n'' # replicate k CHR ''x'')"
  by (auto simp: eager_daemon_def orders_ok_def probe_one_def list_ex_iff restart_spare_def
      intro: exI [of _ 0])

lemma spare_rows_demo:
  "spare_rows [(''a'', ''spare-pg-1'', True), (''b'', ''spare-pg-2'', False)] = [(''a'', True), (''b'', False)]"
  by (simp add: spare_rows_def starts_with_def SPARE_PREFIX_def)

theorem replenish_fills_pool_witness:
  "fst (spare_depth (snd (replenish eager_daemon True 0 {} (spare_new 4)))) = 4"
proof -
  have "inj (\<lambda>k. CHR ''n'' # replicate k CHR ''x'')" by (auto simp: inj_def replicate_eq_replicate)
  then have "fst (spare_depth (snd (replenish eager_daemon True 0 {} (spare_new 4))))
    = max (target (spare_new 4)) (length (free_running (spare_rows
        [(''a'', ''spare-pg-1'', True), (''b'', ''spare-pg-2'', False)]) {} (claimed (spare_new 4))))"
    by (intro replenish_fills_pool [where new = "\<lambda>k. CHR ''n'' # replicate k CHR ''x''"])
      (auto simp: spare_rows_demo spare_new_def)
  then show ?thesis by (simp add: spare_rows_demo spare_new_def free_running_def MAX_SPARES_def)
qed

end
