(* ===== verification/Quoting.thy ===== *)
theory Quoting
  imports Dedicated
begin

text \<open>
  The strings \<open>src/src/vm.rs\<close> builds for other interpreters: SQL identifiers and literals
  (\<open>quote_ident\<close>, \<open>role_ddl\<close>, the \<open>CREATE DATABASE\<close> of \<open>ensure_database\<close>) and POSIX shell words
  (\<open>shell_squote\<close>), with readers for the two languages that say what those interpreters see. Also the
  bounded \<open>truncate\<close>, \<open>slots_from_limits\<close> and the reader of probe replies, \<open>parse_probe\<close>.
\<close>

abbreviation DQUOTE :: char where "DQUOTE \<equiv> CHR 0x22"
abbreviation SQUOTE :: char where "SQUOTE \<equiv> CHR 0x27"
abbreviation BACKSLASH :: char where "BACKSLASH \<equiv> CHR 0x5C"

text \<open>\<open>str::replace\<close> of one character by a string.\<close>

definition replace_char :: "char \<Rightarrow> string \<Rightarrow> string \<Rightarrow> string" where
  "replace_char c r s = concat (map (\<lambda>x. if x = c then r else [x]) s)"

lemma replace_char_simps [simp]:
  "replace_char c r [] = []"
  "replace_char c r (x # xs) = (if x = c then r else [x]) @ replace_char c r xs"
  by (simp_all add: replace_char_def)

definition quote_ident :: "string \<Rightarrow> string" where
  "quote_ident s = [DQUOTE] @ replace_char DQUOTE [DQUOTE, DQUOTE] s @ [DQUOTE]"

definition shell_squote :: "string \<Rightarrow> string" where
  "shell_squote s = [SQUOTE] @ replace_char SQUOTE [SQUOTE, BACKSLASH, SQUOTE, SQUOTE] s @ [SQUOTE]"

definition sql_literal :: "string \<Rightarrow> string" where
  "sql_literal s = [SQUOTE] @ replace_char SQUOTE [SQUOTE, SQUOTE] s @ [SQUOTE]"

definition role_ddl :: "credential \<Rightarrow> bool \<Rightarrow> string" where
  "role_ddl cred exists =
     (if exists then ''ALTER'' else ''CREATE'') @ '' ROLE '' @ quote_ident (role cred)
     @ '' WITH LOGIN NOSUPERUSER NOCREATEDB NOCREATEROLE PASSWORD '' @ sql_literal (password cred)"

definition create_database_ddl :: "string \<Rightarrow> credential option \<Rightarrow> string" where
  "create_database_ddl schema owner =
     ''CREATE DATABASE '' @ quote_ident schema
     @ (case owner of None \<Rightarrow> [] | Some cred \<Rightarrow> '' OWNER '' @ quote_ident (role cred))"

section \<open>What the interpreters read\<close>

text \<open>
  A quoted SQL token (identifier or, with standard-conforming strings, literal): everything up to the
  closing quote, a doubled quote standing for one. Gives the value and the rest of the input.
\<close>

fun read_quoted :: "char \<Rightarrow> string \<Rightarrow> (string \<times> string) option" where
  "read_quoted q [] = None"
| "read_quoted q (c # cs) =
     (if c \<noteq> q then map_option (\<lambda>(v, rest). (c # v, rest)) (read_quoted q cs)
      else (case cs of
              d # ds \<Rightarrow> if d = q then map_option (\<lambda>(v, rest). (q # v, rest)) (read_quoted q ds)
                        else Some ([], cs)
            | [] \<Rightarrow> Some ([], [])))"

datatype sql_token = Sql_Word string | Sql_Ident string | Sql_Literal string | Sql_Char char

definition word_char :: "char \<Rightarrow> bool" where
  "word_char c \<longleftrightarrow> (65 \<le> code c \<and> code c \<le> 90) \<or> (97 \<le> code c \<and> code c \<le> 122) \<or> c = CHR ''_''"

lemma read_quoted_length: "read_quoted q s = Some (v, rest) \<Longrightarrow> length rest < length s"
  by (induction q s arbitrary: v rest rule: read_quoted.induct) (auto split: if_splits list.splits, fastforce)

function sql_tokens :: "string \<Rightarrow> sql_token list" where
  "sql_tokens [] = []"
| "sql_tokens (c # cs) =
     (if c = CHR '' '' then sql_tokens cs
      else if c = DQUOTE then (case read_quoted DQUOTE cs of
             None \<Rightarrow> [Sql_Char c] | Some (v, rest) \<Rightarrow> Sql_Ident v # sql_tokens rest)
      else if c = SQUOTE then (case read_quoted SQUOTE cs of
             None \<Rightarrow> [Sql_Char c] | Some (v, rest) \<Rightarrow> Sql_Literal v # sql_tokens rest)
      else if word_char c
           then Sql_Word (c # takeWhile word_char cs) # sql_tokens (dropWhile word_char cs)
      else Sql_Char c # sql_tokens cs)"
  by pat_completeness auto
termination
  by (relation "measure length")
    (auto dest: read_quoted_length intro: le_imp_less_Suc length_dropWhile_le)

declare sql_tokens.simps [simp del]

text \<open>
  One POSIX shell word: single quotes keep everything up to the next one, a backslash outside quotes
  keeps one character, and a blank, newline, semicolon, pipe, ampersand, angle bracket, parenthesis,
  dollar sign, backquote or double quote outside quotes ends the part that is plain text.
\<close>

definition shell_special :: "char \<Rightarrow> bool" where
  "shell_special c \<longleftrightarrow> c \<in> {CHR '' '', TAB, NEWLINE, CHR '';'', CHR ''|'', CHR ''&'', CHR ''<'', CHR ''>'',
     CHR ''('', CHR '')'', CHR ''$'', CHR 0x60, DQUOTE}"

fun shell_word :: "bool \<Rightarrow> string \<Rightarrow> (string \<times> string) option" where
  "shell_word True [] = None"
| "shell_word True (c # cs) =
     (if c = SQUOTE then shell_word False cs
      else map_option (\<lambda>(v, rest). (c # v, rest)) (shell_word True cs))"
| "shell_word False [] = Some ([], [])"
| "shell_word False (c # cs) =
     (if c = SQUOTE then shell_word True cs
      else if c = BACKSLASH then
        (case cs of [] \<Rightarrow> Some ([BACKSLASH], [])
         | d # ds \<Rightarrow> map_option (\<lambda>(v, rest). (d # v, rest)) (shell_word False ds))
      else if shell_special c then Some ([], c # cs)
      else map_option (\<lambda>(v, rest). (c # v, rest)) (shell_word False cs))"

section \<open>Quoting is exact\<close>

lemma read_quoted_replace:
  "rest = [] \<or> hd rest \<noteq> q \<Longrightarrow>
     read_quoted q (replace_char q [q, q] s @ q # rest) = Some (s, rest)"
  by (induction s) (auto split: list.splits)

lemma shell_word_replace:
  assumes "rest = [] \<or> shell_special (hd rest)"
  shows "shell_word True (replace_char SQUOTE [SQUOTE, BACKSLASH, SQUOTE, SQUOTE] s @ SQUOTE # rest) = Some (s, rest)"
proof (induction s)
  case Nil
  then show ?case using assms by (cases rest) (auto simp: shell_special_def)
qed (auto simp: shell_special_def)

lemma shell_word_squote:
  "rest = [] \<or> shell_special (hd rest) \<Longrightarrow> shell_word False (shell_squote s @ rest) = Some (s, rest)"
  by (simp add: shell_squote_def shell_word_replace)

lemma sql_tokens_space: "sql_tokens (CHR '' '' # cs) = sql_tokens cs"
  by (simp add: sql_tokens.simps)

lemma sql_tokens_ident:
  "rest = [] \<or> hd rest \<noteq> DQUOTE \<Longrightarrow> sql_tokens (quote_ident s @ rest) = Sql_Ident s # sql_tokens rest"
  by (simp add: quote_ident_def sql_tokens.simps(2) read_quoted_replace)

lemma sql_tokens_literal:
  "rest = [] \<or> hd rest \<noteq> SQUOTE \<Longrightarrow> sql_tokens (sql_literal s @ rest) = Sql_Literal s # sql_tokens rest"
  by (simp add: sql_literal_def sql_tokens.simps(2) read_quoted_replace)

lemma sql_tokens_word:
  assumes "w \<noteq> []" "list_all word_char w" "rest = [] \<or> \<not> word_char (hd rest)"
  shows "sql_tokens (w @ rest) = Sql_Word w # sql_tokens rest"
proof -
  obtain c cs where w: "w = c # cs" using assms(1) by (cases w) auto
  have c: "word_char c" "list_all word_char cs" using assms(2) by (simp_all add: w)
  then have "c \<noteq> CHR '' ''" "c \<noteq> DQUOTE" "c \<noteq> SQUOTE" by (auto simp: word_char_def code_def)
  moreover have "takeWhile word_char (cs @ rest) = cs" "dropWhile word_char (cs @ rest) = rest"
    using c(2) assms(3) by (cases rest; simp add: list_all_iff takeWhile_append2 dropWhile_append2)+
  ultimately show ?thesis using c(1) by (simp add: w sql_tokens.simps(2))
qed

lemma word_char_simps [simp]:
  "word_char CHR ''_''" "\<not> word_char CHR '' ''" "\<not> word_char DQUOTE" "\<not> word_char SQUOTE"
  by (simp_all add: word_char_def code_def)

lemma word_char_code: "word_char c \<longleftrightarrow> code c \<in> {65..90} \<union> {97..122} \<union> {95}"
proof -
  have "c = CHR ''_'' \<longleftrightarrow> code c = 95" using code_inject [of c "CHR ''_''"] by (simp add: code_def)
  then show ?thesis by (auto simp: word_char_def)
qed

lemma sql_tokens_keyword:
  "w \<noteq> [] \<Longrightarrow> list_all word_char w \<Longrightarrow> sql_tokens (w @ CHR '' '' # rest) = Sql_Word w # sql_tokens rest"
  by (simp add: sql_tokens_word sql_tokens_space)

lemma role_ddl_split:
  "role_ddl cred e = (if e then ''ALTER'' else ''CREATE'') @ CHR '' '' # ''ROLE'' @ CHR '' '' # quote_ident (role cred)
     @ CHR '' '' # ''WITH'' @ CHR '' '' # ''LOGIN'' @ CHR '' '' # ''NOSUPERUSER'' @ CHR '' '' # ''NOCREATEDB''
     @ CHR '' '' # ''NOCREATEROLE'' @ CHR '' '' # ''PASSWORD'' @ CHR '' '' # sql_literal (password cred) @ []"
  by (simp add: role_ddl_def)

lemma role_ddl_tokens:
  "sql_tokens (role_ddl cred e) =
     [Sql_Word (if e then ''ALTER'' else ''CREATE''), Sql_Word ''ROLE'', Sql_Ident (role cred), Sql_Word ''WITH'',
      Sql_Word ''LOGIN'', Sql_Word ''NOSUPERUSER'', Sql_Word ''NOCREATEDB'', Sql_Word ''NOCREATEROLE'',
      Sql_Word ''PASSWORD'', Sql_Literal (password cred)]"
proof -
  have k: "list_all word_char (if e then ''ALTER'' else ''CREATE'')" "list_all word_char ''ROLE''"
    "list_all word_char ''WITH''" "list_all word_char ''LOGIN''" "list_all word_char ''NOSUPERUSER''"
    "list_all word_char ''NOCREATEDB''" "list_all word_char ''NOCREATEROLE''" "list_all word_char ''PASSWORD''"
    by (simp_all add: word_char_code code_def)
  have i: "sql_tokens (quote_ident s @ CHR '' '' # rest) = Sql_Ident s # sql_tokens rest" for s rest
    by (simp add: sql_tokens_ident sql_tokens_space)
  show ?thesis unfolding role_ddl_split
    by (simp only: sql_tokens_keyword k i sql_tokens_literal sql_tokens.simps(1) simp_thms if_distrib [of "\<lambda>w. w \<noteq> []"]
        list.distinct if_cancel)
qed

lemma create_database_tokens:
  "sql_tokens (create_database_ddl schema owner) =
     [Sql_Word ''CREATE'', Sql_Word ''DATABASE'', Sql_Ident schema]
     @ (case owner of None \<Rightarrow> [] | Some cred \<Rightarrow> [Sql_Word ''OWNER'', Sql_Ident (role cred)])"
proof -
  have k: "list_all word_char ''CREATE''" "list_all word_char ''DATABASE''" "list_all word_char ''OWNER''"
    by (simp_all add: word_char_code code_def)
  have split: "create_database_ddl schema owner = ''CREATE'' @ CHR '' '' # ''DATABASE'' @ CHR '' '' # quote_ident schema
      @ (case owner of None \<Rightarrow> [] | Some cred \<Rightarrow> CHR '' '' # ''OWNER'' @ CHR '' '' # quote_ident (role cred) @ [])"
    by (simp add: create_database_ddl_def split: option.splits)
  have head: "sql_tokens (create_database_ddl schema owner) = Sql_Word ''CREATE'' # Sql_Word ''DATABASE'' #
      sql_tokens (quote_ident schema
      @ (case owner of None \<Rightarrow> [] | Some cred \<Rightarrow> CHR '' '' # ''OWNER'' @ CHR '' '' # quote_ident (role cred) @ []))"
    unfolding split by (simp only: sql_tokens_keyword k list.distinct not_False_eq_True simp_thms)
  show ?thesis
  proof (cases owner)
    case None
    then show ?thesis unfolding head by (simp add: sql_tokens_ident [of "[]", simplified] sql_tokens.simps(1))
  next
    case (Some cred)
    have "sql_tokens (''OWNER'' @ CHR '' '' # quote_ident (role cred) @ []) = [Sql_Word ''OWNER'', Sql_Ident (role cred)]"
      by (simp only: sql_tokens_keyword k list.distinct not_False_eq_True simp_thms sql_tokens_ident sql_tokens.simps(1))
    moreover have "sql_tokens (quote_ident schema @ CHR '' '' # r) = Sql_Ident schema # sql_tokens r" for r
      by (simp add: sql_tokens_ident sql_tokens_space)
    ultimately show ?thesis unfolding head by (simp only: Some option.case) simp
  qed
qed

text \<open>
  C38: No name can break out of its quotes. For every role, password, database and schema name,
  whatever characters they contain: the role statement lexes to exactly its ten tokens, with the role
  as one identifier and the password as one literal, and carries the attributes that keep the role
  unprivileged; the database statement lexes to exactly its identifiers; and a shell-quoted name
  followed by a blank is read by the shell as one word, that name, with the rest of the command intact.
\<close>

theorem quoting_confines_names:
  "sql_tokens (role_ddl cred e) =
     [Sql_Word (if e then ''ALTER'' else ''CREATE''), Sql_Word ''ROLE'', Sql_Ident (role cred), Sql_Word ''WITH'',
      Sql_Word ''LOGIN'', Sql_Word ''NOSUPERUSER'', Sql_Word ''NOCREATEDB'', Sql_Word ''NOCREATEROLE'',
      Sql_Word ''PASSWORD'', Sql_Literal (password cred)]
   \<and> sql_tokens (create_database_ddl schema owner) =
     [Sql_Word ''CREATE'', Sql_Word ''DATABASE'', Sql_Ident schema]
     @ (case owner of None \<Rightarrow> [] | Some cred \<Rightarrow> [Sql_Word ''OWNER'', Sql_Ident (role cred)])
   \<and> shell_word False (shell_squote schema @ CHR '' '' # rest) = Some (schema, CHR '' '' # rest)"
  by (intro conjI role_ddl_tokens create_database_tokens shell_word_squote) (simp add: shell_special_def)

section \<open>Bounded messages, slots and probe replies\<close>

definition is_char_boundary :: "string \<Rightarrow> nat \<Rightarrow> bool" where
  "is_char_boundary s i \<longleftrightarrow> i = length s \<or> (i < length s \<and> \<not> is_cont (s ! i))"

fun back_to_boundary :: "string \<Rightarrow> nat \<Rightarrow> nat" where
  "back_to_boundary s 0 = 0"
| "back_to_boundary s (Suc n) = (if is_char_boundary s (Suc n) then Suc n else back_to_boundary s n)"

definition ellipsis :: string where
  "ellipsis = map char_of [226, 128, 166 :: nat]"

definition truncate :: "string \<Rightarrow> nat \<Rightarrow> string" where
  "truncate s n = (if length s \<le> n then s else take (back_to_boundary s n) s @ ellipsis)"

lemma back_to_boundary_le: "back_to_boundary s n \<le> n"
  by (induction n) auto

lemma truncate_length: "length (truncate s n) \<le> n + 3"
  using back_to_boundary_le [of s n] by (simp add: truncate_def ellipsis_def)

definition POOL_MAX_SIZE :: int where "POOL_MAX_SIZE = 4"

definition slots_from_limits :: "int \<Rightarrow> int \<Rightarrow> nat" where
  "slots_from_limits mx reserved = nat (max (mx - reserved - POOL_MAX_SIZE) 1)"

lemma slots_from_limits_bound:
  "1 \<le> slots_from_limits mx reserved
   \<and> (slots_from_limits mx reserved = 1 \<or> int (slots_from_limits mx reserved) + reserved + POOL_MAX_SIZE \<le> mx)"
  by (auto simp: slots_from_limits_def max_def le_nat_iff)

definition PROBE_TAG :: string where "PROBE_TAG = ''HEYOJOB:''"

datatype job_state = Job_Running | Job_Succeeded | Job_Exit int

text \<open>\<open>rsplit_once(tag)\<close>, the part after the last occurrence, and \<open>parse::<i32>\<close>.\<close>

fun after_last :: "string \<Rightarrow> string \<Rightarrow> string option" where
  "after_last t [] = None"
| "after_last t (c # cs) =
     (case after_last t cs of
        Some r \<Rightarrow> Some r
      | None \<Rightarrow> if take (length t) (c # cs) = t then Some (drop (length t) (c # cs)) else None)"

definition rust_parse_i32 :: "string \<Rightarrow> int option" where
  "rust_parse_i32 s =
     (let (neg, ds) = (case s of [] \<Rightarrow> (False, [])
                       | c # cs \<Rightarrow> if c = CHR ''-'' then (True, cs)
                                   else if c = CHR ''+'' then (False, cs) else (False, s))
      in if ds = [] then None
         else case digits_value 0 ds of
                None \<Rightarrow> None
              | Some n \<Rightarrow> let v = (if neg then - int n else int n)
                          in if - (2 ^ 31) \<le> v \<and> v < 2 ^ 31 then Some v else None)"

definition probe_replies :: "string \<Rightarrow> string list" where
  "probe_replies stdout =
     filter (\<lambda>r. starts_with ''D'' r \<or> starts_with ''P'' r)
       (List.map_filter (\<lambda>l. after_last PROBE_TAG (rust_trim l)) (rust_lines stdout))"

definition parse_probe :: "string \<Rightarrow> job_state" where
  "parse_probe stdout =
     (let rs = probe_replies stdout
      in if rs = [] then Job_Running
         else (case last rs of
                 c # ec \<Rightarrow>
                   if c = CHR ''D''
                   then (case rust_parse_i32 (rust_trim ec) of
                           Some n \<Rightarrow> if n = 0 then Job_Succeeded else Job_Exit n
                         | None \<Rightarrow> Job_Exit (- 1))
                   else Job_Running
               | [] \<Rightarrow> Job_Running))"

text \<open>Noise never reads as success: without a framed reply the job counts as running.\<close>

lemma parse_probe_noise: "probe_replies stdout = [] \<Longrightarrow> parse_probe stdout = Job_Running"
  by (simp add: parse_probe_def)

lemma parse_probe_success:
  "parse_probe stdout = Job_Succeeded \<Longrightarrow>
     \<exists>ec. probe_replies stdout \<noteq> [] \<and> last (probe_replies stdout) = CHR ''D'' # ec
            \<and> rust_parse_i32 (rust_trim ec) = Some 0"
  by (auto simp: parse_probe_def Let_def split: if_splits list.splits option.splits)

end
