(* ===== verification/Calendar.thy ===== *)
theory Calendar
  imports Interfaces "HOL-Library.Signed_Division"
begin

text \<open>
  UTC dates. The signer (\<open>format_amz_time\<close> of \<open>src/src/s3.rs\<close>) and the event log (\<open>civil_from_unix\<close>,
  \<open>date_str\<close>, \<open>fmt_ts\<close> of \<open>src/src/events.rs\<close>) each carry their own copy of the civil-from-days
  arithmetic. Both are compared with the calendar itself: start at 1 January 1970 and go to the next
  day once per day elapsed. Rust's \<open>/\<close> on \<open>i64\<close> is \<open>sdiv\<close>; \<open>div_euclid\<close> and \<open>rem_euclid\<close> by a positive number
  are \<open>div\<close> and \<open>mod\<close>.
\<close>

section \<open>The code\<close>

text \<open>\<open>{n:0w}\<close> for a non-negative number: at least \<open>w\<close> digits.\<close>

definition pad_nat :: "nat \<Rightarrow> nat \<Rightarrow> string" where
  "pad_nat w n = replicate (w - length (show_nat n)) CHR ''0'' @ show_nat n"

definition civil_from_unix :: "u64 \<Rightarrow> int \<times> int \<times> int" where
  "civil_from_unix t =
     (let z = int (t div 86400) + 719468;
          era = z div 146097;
          doe = z mod 146097;
          yoe = (doe - doe sdiv 1460 + doe sdiv 36524 - doe sdiv 146096) sdiv 365;
          y = yoe + era * 400;
          doy = doe - (365 * yoe + yoe sdiv 4 - yoe sdiv 100);
          mp = (5 * doy + 2) sdiv 153;
          d = doy - (153 * mp + 2) sdiv 5 + 1;
          m = (if mp < 10 then mp + 3 else mp - 9)
      in (if m \<le> 2 then y + 1 else y, m, d))"

definition amz_civil :: "u64 \<Rightarrow> int \<times> int \<times> int" where
  "amz_civil secs =
     (let days = int (secs div 86400);
          z = days + 719468;
          era = (if 0 \<le> z then z else z - 146096) sdiv 146097;
          doe = z - era * 146097;
          yoe = (doe - doe sdiv 1460 + doe sdiv 36524 - doe sdiv 146096) sdiv 365;
          year = yoe + era * 400;
          doy = doe - (365 * yoe + yoe sdiv 4 - yoe sdiv 100);
          mp = (5 * doy + 2) sdiv 153;
          day = doy - (153 * mp + 2) sdiv 5 + 1;
          month = (if mp < 10 then mp + 3 else mp - 9)
      in (year + (if month \<le> 2 then 1 else 0), month, day))"

definition format_amz_time :: "u64 \<Rightarrow> string \<times> string" where
  "format_amz_time secs =
     (let rem = secs mod 86400;
          (y, m, d) = amz_civil secs;
          date = pad_nat 4 (nat y) @ pad_nat 2 (nat m) @ pad_nat 2 (nat d)
      in (date, date @ ''T'' @ pad_nat 2 (rem div 3600) @ pad_nat 2 ((rem mod 3600) div 60) @ pad_nat 2 (rem mod 60) @ ''Z''))"

definition date_str :: "u64 \<Rightarrow> string" where
  "date_str t =
     (let (y, m, d) = civil_from_unix t
      in pad_nat 4 (nat y) @ ''-'' @ pad_nat 2 (nat m) @ ''-'' @ pad_nat 2 (nat d))"

definition fmt_ts :: "u64 \<Rightarrow> string" where
  "fmt_ts t =
     (let s = t mod 86400
      in date_str t @ '' '' @ pad_nat 2 (s div 3600) @ '':'' @ pad_nat 2 ((s mod 3600) div 60) @ '':'' @ pad_nat 2 (s mod 60))"

section \<open>The calendar\<close>

definition leap :: "int \<Rightarrow> bool" where
  "leap y \<longleftrightarrow> 4 dvd y \<and> (\<not> 100 dvd y \<or> 400 dvd y)"

definition month_len :: "int \<Rightarrow> int \<Rightarrow> int" where
  "month_len y m = (if m = 2 then (if leap y then 29 else 28) else if m \<in> {4, 6, 9, 11} then 30 else 31)"

fun next_day :: "int \<times> int \<times> int \<Rightarrow> int \<times> int \<times> int" where
  "next_day (y, m, d) =
     (if d < month_len y m then (y, m, d + 1) else if m < 12 then (y, m + 1, 1) else (y + 1, 1, 1))"

definition gregorian :: "nat \<Rightarrow> int \<times> int \<times> int" where
  "gregorian days = (next_day ^^ days) (1970, 1, 1)"

section \<open>Years of an era\<close>

text \<open>Years are counted from 1 March within an era of 400; \<open>ystart\<close> is the first day of a year.\<close>

definition yoe_of :: "int \<Rightarrow> int" where
  "yoe_of doe = (doe - doe div 1460 + doe div 36524 - doe div 146096) div 365"

definition ystart :: "int \<Rightarrow> int" where
  "ystart y = 365 * y + y div 4 - y div 100"

definition yend :: "int \<Rightarrow> int" where
  "yend y = (if y = 399 then 146097 else ystart (y + 1))"

definition month_day :: "int \<Rightarrow> int \<times> int" where
  "month_day doy =
     (let mp = (5 * doy + 2) div 153
      in (if mp < 10 then mp + 3 else mp - 9, doy - (153 * mp + 2) div 5 + 1))"

definition civil_of :: "int \<Rightarrow> int \<times> int \<times> int" where
  "civil_of z =
     (let era = z div 146097; doe = z mod 146097; yoe = yoe_of doe;
          (m, d) = month_day (doe - ystart yoe)
      in (yoe + era * 400 + (if m \<le> 2 then 1 else 0), m, d))"

lemma sdiv_nonneg [simp]: "0 \<le> a \<Longrightarrow> 0 < b \<Longrightarrow> a sdiv b = a div (b :: int)"
  by (auto simp: signed_divide_int_def sgn_if zero_less_mult_iff mult_less_0_iff)

definition ygap :: "int \<Rightarrow> int" where
  "ygap n = n - n div 1460 + n div 36524 - n div 146096"

lemma div_next: "0 < k \<Longrightarrow> (n + 1) div k \<le> n div k + (1 :: int)"
  using zdiv_mono1 [of "n + 1" "n + k" k] div_add_self2 [of k n] by simp

lemma div_step_mono: "0 < k \<Longrightarrow> n div k \<le> (n + 1) div (k :: int)"
  by (rule zdiv_mono1) simp_all

lemma ygap_mono_step: "0 \<le> n \<Longrightarrow> n < 146096 \<Longrightarrow> ygap n \<le> ygap (n + 1)"
proof -
  assume n: "0 \<le> n" "n < 146096"
  have a: "(n + 1) div 1460 \<le> n div 1460 + 1" by (rule div_next) simp
  have b: "n div 36524 \<le> (n + 1) div 36524" by (rule div_step_mono) simp
  show ?thesis
  proof (cases "n + 1 = 146096")
    case True
    then have "n = 146095" by simp
    then show ?thesis by (simp add: ygap_def)
  next
    case False
    then have "n div 146096 = 0" "(n + 1) div 146096 = 0" using n by (simp_all add: div_pos_pos_trivial)
    then show ?thesis using a b unfolding ygap_def by linarith
  qed
qed

lemma ygap_mono: "m \<le> n \<Longrightarrow> 0 \<le> m \<Longrightarrow> n \<le> 146096 \<Longrightarrow> ygap m \<le> ygap n"
proof (induction n rule: int_ge_induct)
  case (step n)
  then show ?case using ygap_mono_step [of n] by simp
qed simp

text \<open>The year formula is right at the first and the last day of each of the 400 years, and monotone between.\<close>

lemma year_ends:
  "list_all (\<lambda>y. 365 * y \<le> ygap (ystart y) \<and> ygap (yend y - 1) < 365 * y + 365 \<and> ystart y < yend y
      \<and> yend y - ystart y = (if 4 dvd y + 1 \<and> (\<not> 100 dvd y + 1 \<or> 400 dvd y + 1) then 366 else 365))
     [0..399 :: int]"
  by code_simp

lemma year_facts:
  assumes "0 \<le> y" "y \<le> 399"
  shows "365 * y \<le> ygap (ystart y)" "ygap (yend y - 1) < 365 * y + 365" "ystart y < yend y"
    "yend y - ystart y = (if leap (y + 1) then 366 else 365)"
proof -
  have "y \<in> set [0..399]" using assms by simp
  with year_ends show "365 * y \<le> ygap (ystart y)" "ygap (yend y - 1) < 365 * y + 365" "ystart y < yend y"
    "yend y - ystart y = (if leap (y + 1) then 366 else 365)"
    unfolding list_all_iff leap_def by blast+
qed

lemma ystart_bounds: "0 \<le> y \<Longrightarrow> y \<le> 399 \<Longrightarrow> 0 \<le> ystart y \<and> yend y \<le> 146097"
proof -
  assume y: "0 \<le> y" "y \<le> 399"
  have "y div 100 \<le> y div 4" "(y + 1) div 4 \<le> 100" "0 \<le> (y + 1) div 100" "y div 4 \<ge> 0" using y by linarith+
  then show ?thesis using y by (auto simp: ystart_def yend_def)
qed

lemma yoe_unique:
  assumes "0 \<le> y" "y \<le> 399" "ystart y \<le> doe" "doe < yend y"
  shows "yoe_of doe = y"
proof -
  have "ygap (ystart y) \<le> ygap doe" "ygap doe \<le> ygap (yend y - 1)"
    using assms ystart_bounds [OF assms(1,2)] by (auto intro!: ygap_mono)
  then have "365 * y \<le> ygap doe" "ygap doe < 365 * y + 365" using year_facts [OF assms(1,2)] by linarith+
  then show ?thesis unfolding yoe_of_def ygap_def [symmetric] by linarith
qed

lemma yoe_exists:
  assumes "0 \<le> doe" "doe < 146097"
  shows "\<exists>y. 0 \<le> y \<and> y \<le> 399 \<and> ystart y \<le> doe \<and> doe < yend y"
proof -
  have "\<exists>y. 0 \<le> y \<and> y \<le> 399 \<and> ystart y \<le> doe \<and> doe < yend y" if "doe < yend n" "0 \<le> n" "n \<le> 399" for n
    using that(2,1,3)
  proof (induction n rule: int_ge_induct)
    case base
    then show ?case using assms(1) by (intro exI [of _ 0]) (simp add: ystart_def)
  next
    case (step n)
    show ?case
    proof (cases "ystart (n + 1) \<le> doe")
      case True
      then show ?thesis using step by (intro exI [of _ "n + 1"]) simp
    next
      case False
      then have "doe < yend n" using step.prems by (simp add: yend_def)
      then show ?thesis using step by simp
    qed
  qed
  from this [of 399] show ?thesis using assms(2) by (simp add: yend_def)
qed

text \<open>The 364 day changes inside a year counted from March that do not reach the end of February.\<close>

lemma month_day_steps:
  "list_all (\<lambda>n. case (month_day n, month_day (n + 1)) of ((m, d), (m', d')) \<Rightarrow>
       1 \<le> m \<and> m \<le> 12 \<and> 1 \<le> d
       \<and> (if m = 2 then d < 28 \<and> m' = 2 \<and> d' = d + 1
          else if d < month_len 1 m then m' = m \<and> d' = d + 1
          else d' = 1 \<and> m' = (if m = 12 then 1 else m + 1)))
     [0..363 :: int]"
  by code_simp

lemma month_day_step:
  assumes "0 \<le> n" "n < 364" "month_day n = (m, d)" "month_day (n + 1) = (m', d')"
  shows "1 \<le> m" "m \<le> 12" "m = 2 \<Longrightarrow> d < 28 \<and> m' = 2 \<and> d' = d + 1"
    "m \<noteq> 2 \<Longrightarrow> d < month_len 1 m \<Longrightarrow> m' = m \<and> d' = d + 1"
    "m \<noteq> 2 \<Longrightarrow> \<not> d < month_len 1 m \<Longrightarrow> d' = 1 \<and> m' = (if m = 12 then 1 else m + 1)"
proof -
  have "n \<in> set [0..363]" using assms(1,2) by simp
  from bspec [OF month_day_steps [unfolded list_all_iff] this]
  show "1 \<le> m" "m \<le> 12" "m = 2 \<Longrightarrow> d < 28 \<and> m' = 2 \<and> d' = d + 1"
    "m \<noteq> 2 \<Longrightarrow> d < month_len 1 m \<Longrightarrow> m' = m \<and> d' = d + 1"
    "m \<noteq> 2 \<Longrightarrow> \<not> d < month_len 1 m \<Longrightarrow> d' = 1 \<and> m' = (if m = 12 then 1 else m + 1)"
    unfolding assms(3,4) prod.case by (auto split: if_splits)
qed

lemma month_day_ends:
  "month_day 364 = (2, 28)" "month_day 365 = (2, 29)" "month_day 0 = (3, 1)"
  by (simp_all add: month_day_def)

lemma leap_era: "leap (y + e * 400) \<longleftrightarrow> leap y"
proof -
  have "4 dvd y + e * 400 \<longleftrightarrow> 4 dvd y" "100 dvd y + e * 400 \<longleftrightarrow> 100 dvd y" "400 dvd y + e * 400 \<longleftrightarrow> 400 dvd y"
    by (intro dvd_add_left_iff dvd_mult; simp)+
  then show ?thesis by (simp add: leap_def)
qed

definition civil_date :: "int \<Rightarrow> int \<Rightarrow> int \<times> int \<times> int" where
  "civil_date y doy = (case month_day doy of (m, d) \<Rightarrow> (y + (if m \<le> 2 then 1 else 0), m, d))"

lemma civil_date_split: "month_day n = (m, d) \<Longrightarrow> civil_date y n = (y + (if m \<le> 2 then 1 else 0), m, d)"
  by (simp only: civil_date_def prod.case)

lemma month_len_other: "m \<noteq> 2 \<Longrightarrow> month_len y m = month_len y' m"
  by (simp only: month_len_def if_False simp_thms)

lemma month_len_february: "28 \<le> month_len y 2"
  by (simp add: month_len_def)

lemma next_day_same: "d < month_len y m \<Longrightarrow> next_day (y, m, d) = (y, m, d + 1)"
  by (simp only: next_day.simps if_True)

lemma next_day_month: "\<not> d < month_len y m \<Longrightarrow> m \<noteq> 12 \<Longrightarrow> m < 12 \<Longrightarrow> next_day (y, m, d) = (y, m + 1, 1)"
  by (simp only: next_day.simps if_True if_False simp_thms)

lemma next_day_year: "\<not> d < month_len y 12 \<Longrightarrow> next_day (y, 12, d) = (y + 1, 1, 1)"
  by (simp only: next_day.simps if_False less_irrefl)

lemma civil_date_inside:
  assumes "0 \<le> doy" "doy < 364"
  shows "next_day (civil_date y doy) = civil_date y (doy + 1)"
proof -
  obtain m d where a: "month_day doy = (m, d)" by (rule prod.exhaust)
  obtain m' d' where b: "month_day (doy + 1) = (m', d')" by (rule prod.exhaust)
  note s = month_day_step [OF assms a b] and c = civil_date_split [OF a] civil_date_split [OF b]
  consider "m = 2" | "m \<noteq> 2" "d < month_len 1 m" | "m \<noteq> 2" "\<not> d < month_len 1 m" by blast
  then show ?thesis
  proof cases
    case 1
    then have m: "d < 28" "m' = 2" "d' = d + 1" using s(3) by blast+
    have "d < month_len (y + (if m \<le> 2 then 1 else 0)) m"
      unfolding 1 using m(1) month_len_february by (rule less_le_trans)
    from next_day_same [OF this] show ?thesis unfolding c m(2,3) 1 .
  next
    case 2
    then have m: "m' = m" "d' = d + 1" using s(4) by blast+
    have "d < month_len (y + (if m \<le> 2 then 1 else 0)) m"
      using 2(2) month_len_other [OF 2(1)] by metis
    from next_day_same [OF this] show ?thesis unfolding c m .
  next
    case 3
    then have m: "m' = (if m = 12 then 1 else m + 1)" "d' = 1" using s(5) by blast+
    have l: "\<not> d < month_len (y + (if m \<le> 2 then 1 else 0)) m"
      using 3(2) month_len_other [OF 3(1)] by metis
    show ?thesis
    proof (cases "m = 12")
      case True
      then show ?thesis using next_day_year [of d y] l unfolding c m by simp
    next
      case False
      then have "m < 12" using s(2) by linarith
      from next_day_month [OF l False this] show ?thesis
        unfolding c m using False 3(1) s(1) by (simp only: if_False) simp
    qed
  qed
qed

lemma civil_date_leap: "leap (y + 1) \<Longrightarrow> next_day (civil_date y 364) = civil_date y 365"
  by (simp add: civil_date_def month_day_ends month_len_def)

lemma civil_date_last:
  "next_day (civil_date y (if leap (y + 1) then 365 else 364)) = civil_date (y + 1) 0"
  by (simp add: civil_date_def month_day_ends month_len_def)

lemma civil_of_year:
  assumes "0 \<le> y" "y \<le> 399" "ystart y \<le> doe" "doe < yend y"
  shows "civil_of (e * 146097 + doe) = civil_date (y + e * 400) (doe - ystart y)"
proof -
  have doe: "0 \<le> doe" "doe < 146097" using ystart_bounds [OF assms(1,2)] assms(3,4) by linarith+
  then have "(e * 146097 + doe) div 146097 = e" "(e * 146097 + doe) mod 146097 = doe" by simp_all
  then show ?thesis
    using yoe_unique [OF assms] by (simp add: civil_of_def civil_date_def Let_def split: prod.split)
qed

lemma civil_of_next: "0 \<le> z \<Longrightarrow> civil_of (z + 1) = next_day (civil_of z)"
proof -
  assume "0 \<le> z"
  define e where "e = z div 146097"
  define doe where "doe = z mod 146097"
  have z: "z = e * 146097 + doe" and doe: "0 \<le> doe" "doe < 146097" by (simp_all add: e_def doe_def)
  obtain y where y: "0 \<le> y" "y \<le> 399" "ystart y \<le> doe" "doe < yend y" using yoe_exists [OF doe] by blast
  let ?Y = "y + e * 400" and ?doy = "doe - ystart y"
  have c: "civil_of z = civil_date ?Y ?doy" unfolding z by (rule civil_of_year [OF y])
  have len: "yend y - ystart y = (if leap (?Y + 1) then 366 else 365)"
    using year_facts(4) [OF y(1,2)] leap_era [of "y + 1" e] by (simp add: algebra_simps)
  show ?thesis
  proof (cases "doe + 1 < yend y")
    case True
    then have n: "civil_of (z + 1) = civil_date ?Y (?doy + 1)"
      using civil_of_year [of y "doe + 1" e] y unfolding z by (simp add: algebra_simps)
    show ?thesis
    proof (cases "?doy < 364")
      case True
      then show ?thesis using civil_date_inside [of ?doy ?Y] y(3) n c by simp
    next
      case False
      then have "?doy = 364" "leap (?Y + 1)" using \<open>doe + 1 < yend y\<close> len by (auto split: if_splits)
      then show ?thesis using civil_date_leap [of ?Y] n c by simp
    qed
  next
    case False
    then have l: "doe + 1 = yend y" using y(4) by simp
    then have "?doy = (if leap (?Y + 1) then 365 else 364)" using len by (auto split: if_splits)
    then have "next_day (civil_of z) = civil_date (?Y + 1) 0" using civil_date_last [of ?Y] c by simp
    moreover have "civil_of (z + 1) = civil_date (?Y + 1) 0"
    proof (cases "y = 399")
      case True
      then have "z + 1 = (e + 1) * 146097 + 0" using l z by (simp add: yend_def algebra_simps)
      moreover have "ystart 0 = 0" "0 < yend 0" by (simp_all add: ystart_def yend_def)
      ultimately show ?thesis using civil_of_year [of 0 0 "e + 1"] True by (simp add: algebra_simps)
    next
      case False
      then have "z + 1 = e * 146097 + ystart (y + 1)" using l z by (simp add: yend_def)
      then show ?thesis
        using civil_of_year [of "y + 1" "ystart (y + 1)" e] year_facts(3) [of "y + 1"] False y(1,2)
        by (simp add: algebra_simps)
    qed
    ultimately show ?thesis by simp
  qed
qed

lemma civil_of_gregorian: "civil_of (int n + 719468) = gregorian n"
proof (induction n)
  case 0
  show ?case by (simp add: gregorian_def civil_of_def yoe_of_def ystart_def month_day_def Let_def)
next
  case (Suc n)
  then show ?case using civil_of_next [of "int n + 719468"] by (simp add: gregorian_def algebra_simps)
qed

section \<open>The code computes the calendar\<close>

text \<open>The intermediate values of the source are never negative, so its truncating divisions are floors.\<close>

lemma doe_facts:
  assumes "0 \<le> doe" "doe < 146097"
  shows "0 \<le> doe - doe div 1460 + doe div 36524 - doe div 146096"
    and "0 \<le> yoe_of doe" and "0 \<le> doe - ystart (yoe_of doe)"
proof -
  obtain y where y: "0 \<le> y" "y \<le> 399" "ystart y \<le> doe" "doe < yend y" using yoe_exists [OF assms] by blast
  then have u: "yoe_of doe = y" by (rule yoe_unique)
  show "0 \<le> yoe_of doe" "0 \<le> doe - ystart (yoe_of doe)" using y u by simp_all
  then show "0 \<le> doe - doe div 1460 + doe div 36524 - doe div 146096"
    by (simp add: yoe_of_def pos_imp_zdiv_nonneg_iff)
qed

lemma month_day_facts: "0 \<le> doy \<Longrightarrow> (5 * doy + 2) sdiv 153 = (5 * doy + 2) div 153"
  "0 \<le> doy \<Longrightarrow> (153 * ((5 * doy + 2) div 153) + 2) sdiv 5 = (153 * ((5 * doy + 2) div 153) + 2) div (5 :: int)"
  by (simp_all add: pos_imp_zdiv_nonneg_iff add_nonneg_nonneg)

definition civil_core :: "int \<Rightarrow> int \<Rightarrow> int \<times> int \<times> int" where
  "civil_core era doe =
     (let yoe = (doe - doe sdiv 1460 + doe sdiv 36524 - doe sdiv 146096) sdiv 365;
          doy = doe - (365 * yoe + yoe sdiv 4 - yoe sdiv 100);
          mp = (5 * doy + 2) sdiv 153;
          m = (if mp < 10 then mp + 3 else mp - 9)
      in (yoe + era * 400 + (if m \<le> 2 then 1 else 0), m, doy - (153 * mp + 2) sdiv 5 + 1))"

lemma civil_core_civil_of:
  assumes "0 \<le> z"
  shows "civil_core (z div 146097) (z mod 146097) = civil_of z"
proof -
  define doe where "doe = z mod 146097"
  have doe: "0 \<le> doe" "doe < 146097" by (simp_all add: doe_def)
  note f = doe_facts [OF doe]
  have y: "(doe - doe sdiv 1460 + doe sdiv 36524 - doe sdiv 146096) sdiv 365 = yoe_of doe"
    using doe f(1) by (simp add: yoe_of_def)
  have s: "365 * yoe_of doe + yoe_of doe sdiv 4 - yoe_of doe sdiv 100 = ystart (yoe_of doe)"
    using f(2) by (simp add: ystart_def)
  show ?thesis
    unfolding civil_core_def civil_of_def doe_def [symmetric] y Let_def s month_day_facts [OF f(3)] month_day_def
    by (simp only: prod.case)
qed

lemma add_if: "(if b then y + 1 else y) = y + (if b then 1 else (0 :: int))"
  by simp

lemma civil_from_unix_core: "civil_from_unix t = civil_of (int (t div 86400) + 719468)"
proof -
  have "civil_from_unix t = civil_core ((int (t div 86400) + 719468) div 146097) ((int (t div 86400) + 719468) mod 146097)"
    unfolding civil_from_unix_def civil_core_def Let_def add_if by (rule refl)
  then show ?thesis by (simp add: civil_core_civil_of)
qed

lemma amz_civil_core: "amz_civil secs = civil_of (int (secs div 86400) + 719468)"
proof -
  let ?z = "int (secs div 86400) + 719468"
  have z: "0 \<le> ?z" by simp
  then have e: "(if 0 \<le> ?z then ?z else ?z - 146096) sdiv 146097 = ?z div 146097" by (simp only: if_True sdiv_nonneg)
  have "amz_civil secs = civil_core (?z div 146097) (?z mod 146097)"
    unfolding amz_civil_def civil_core_def Let_def e minus_div_mult_eq_mod by (rule refl)
  then show ?thesis using civil_core_civil_of [OF z] by simp
qed

text \<open>
  C40: The two copies of the date arithmetic (the S3 signer's and the event log's) compute the proleptic
  Gregorian calendar: the date of a Unix time is the date reached from 1 January 1970 by going to the next
  day once for each of the whole days elapsed, for every time and not only the ones a test samples.
\<close>

theorem civil_dates_are_gregorian:
  "civil_from_unix t = gregorian (t div 86400) \<and> amz_civil t = gregorian (t div 86400)"
  by (simp add: civil_from_unix_core amz_civil_core civil_of_gregorian)

section \<open>Dates as text\<close>

text \<open>Strings of equal length compare by their parts, and padded numbers compare as numbers.\<close>

lemma append_less_same_length:
  fixes xs ys :: string
  assumes "length xs = length ys"
  shows "xs @ u < ys @ v \<longleftrightarrow> xs < ys \<or> (xs = ys \<and> u < v)"
  using assms by (induction xs ys rule: list_induct2) auto

lemma digit_char_less: "a < 10 \<Longrightarrow> b < 10 \<Longrightarrow> digit_char a < digit_char b \<longleftrightarrow> a < b"
  by (simp add: less_char_def code_digit_char [unfolded code_def])

lemma pad_nat_Suc:
  assumes "0 < w" "n < 10 ^ Suc w"
  shows "pad_nat (Suc w) n = pad_nat w (n div 10) @ [digit_char (n mod 10)]"
proof (cases "n < 10")
  case True
  moreover obtain k where "w = Suc k" using assms(1) by (cases w) auto
  moreover have "replicate k (CHR ''0'') @ [CHR ''0''] = CHR ''0'' # replicate k (CHR ''0'')" by (simp add: replicate_append_same)
  moreover have "digit_char 0 = CHR ''0''" by code_simp
  ultimately show ?thesis by (simp add: pad_nat_def show_nat.simps [of n] show_nat.simps [of 0])
next
  case False
  then show ?thesis by (simp add: pad_nat_def show_nat.simps [of n])
qed

lemma show_nat_one: "n < 10 \<Longrightarrow> show_nat n = [digit_char n]"
  by (simp add: show_nat.simps)

lemma length_pad_nat: "0 < w \<Longrightarrow> n < 10 ^ w \<Longrightarrow> length (pad_nat w n) = w"
proof (induction w arbitrary: n rule: nat_induct_non_zero)
  case 1
  then show ?case by (simp add: pad_nat_def show_nat_one)
next
  case (Suc w)
  then have "n div 10 < 10 ^ w" by (simp add: less_mult_imp_div_less)
  with Suc show ?case by (simp add: pad_nat_Suc)
qed

lemma div_mod_less: "m div 10 < n div 10 \<or> (m div 10 = n div 10 \<and> m mod 10 < n mod 10) \<longleftrightarrow> m < (n :: nat)"
proof -
  have "m = 10 * (m div 10) + m mod 10" "n = 10 * (n div 10) + n mod 10" by simp_all
  moreover have "m mod 10 < 10" "n mod 10 < 10" by simp_all
  ultimately show ?thesis by linarith
qed

lemma pad_nat_less: "0 < w \<Longrightarrow> m < 10 ^ w \<Longrightarrow> n < 10 ^ w \<Longrightarrow> pad_nat w m < pad_nat w n \<longleftrightarrow> m < n"
proof (induction w arbitrary: m n rule: nat_induct_non_zero)
  case 1
  then show ?case by (simp add: pad_nat_def show_nat_one digit_char_less)
next
  case (Suc w)
  then have d: "m div 10 < 10 ^ w" "n div 10 < 10 ^ w" by (simp_all add: less_mult_imp_div_less)
  have "pad_nat w (m div 10) = pad_nat w (n div 10) \<longleftrightarrow> m div 10 = n div 10"
    using Suc.IH [OF d] Suc.IH [OF d(2,1)] by (metis less_irrefl linorder_neqE_nat)
  then have "pad_nat (Suc w) m < pad_nat (Suc w) n \<longleftrightarrow> m div 10 < n div 10 \<or> (m div 10 = n div 10 \<and> m mod 10 < n mod 10)"
    using Suc d by (simp add: pad_nat_Suc append_less_same_length length_pad_nat Suc.IH [OF d] digit_char_less)
  also have "\<dots> \<longleftrightarrow> m < n" by (rule div_mod_less)
  finally show ?case .
qed

text \<open>The calendar moves forward, and its months and days stay in range.\<close>

definition date_less :: "int \<times> int \<times> int \<Rightarrow> int \<times> int \<times> int \<Rightarrow> bool" where
  "date_less a b \<longleftrightarrow>
     (case (a, b) of ((y, m, d), (y', m', d')) \<Rightarrow> y < y' \<or> (y = y' \<and> (m < m' \<or> (m = m' \<and> d < d'))))"

lemma date_less_trans: "date_less a b \<Longrightarrow> date_less b c \<Longrightarrow> date_less a c"
  by (auto simp: date_less_def split: prod.splits)

lemma date_less_irrefl: "\<not> date_less a a"
  by (auto simp: date_less_def split: prod.splits)

lemma date_less_next: "date_less a (next_day a)"
  by (cases a) (auto simp: date_less_def)

lemma gregorian_Suc: "gregorian (Suc n) = next_day (gregorian n)"
  by (simp add: gregorian_def)

lemma gregorian_mono: "m < n \<Longrightarrow> date_less (gregorian m) (gregorian n)"
proof (induction n)
  case (Suc n)
  then show ?case
    using date_less_next [of "gregorian n"] date_less_trans by (cases "m = n") (auto simp: gregorian_Suc)
qed simp

lemma gregorian_less_iff: "date_less (gregorian m) (gregorian n) \<longleftrightarrow> m < n"
  by (metis date_less_irrefl date_less_trans gregorian_mono linorder_neqE_nat)

lemma gregorian_range: "case gregorian n of (y, m, d) \<Rightarrow> 1970 \<le> y \<and> 1 \<le> m \<and> m \<le> 12 \<and> 1 \<le> d \<and> d \<le> 31"
proof (induction n)
  case (Suc n)
  obtain y m d where g: "gregorian n = (y, m, d)" by (metis prod.exhaust)
  have "month_len y m \<le> 31" by (simp add: month_len_def)
  then show ?case using Suc by (auto simp: gregorian_Suc g)
qed (simp add: gregorian_def)

text \<open>Years with four digits: up to the end of 9999.\<close>

definition four_digit_year :: "u64 \<Rightarrow> bool" where
  "four_digit_year t \<longleftrightarrow> fst (civil_from_unix t) \<le> 9999"

lemma civil_from_unix_gregorian: "civil_from_unix t = gregorian (t div 86400)"
  by (simp add: civil_from_unix_core civil_of_gregorian)

lemma four_digit_year_mono: "t \<le> t' \<Longrightarrow> four_digit_year t' \<Longrightarrow> four_digit_year t"
proof -
  assume "t \<le> t'" "four_digit_year t'"
  moreover have "fst (gregorian (t div 86400)) \<le> fst (gregorian (t' div 86400))"
  proof (cases "t div 86400 = t' div 86400")
    case False
    then have "t div 86400 < t' div 86400" using \<open>t \<le> t'\<close> div_le_mono [of t t' 86400] by simp
    from gregorian_mono [OF this] show ?thesis by (auto simp: date_less_def split: prod.splits)
  qed simp
  ultimately show ?thesis by (simp add: four_digit_year_def civil_from_unix_gregorian)
qed

lemma date_str_less:
  assumes "four_digit_year t" "four_digit_year t'"
  shows "date_str t < date_str t' \<longleftrightarrow> t div 86400 < t' div 86400"
proof -
  obtain y m d where g: "gregorian (t div 86400) = (y, m, d)" by (metis prod.exhaust)
  obtain y' m' d' where g': "gregorian (t' div 86400) = (y', m', d')" by (metis prod.exhaust)
  have r: "1970 \<le> y" "y \<le> 9999" "1 \<le> m" "m \<le> 12" "1 \<le> d" "d \<le> 31"
    using gregorian_range [of "t div 86400"] g assms(1) by (auto simp: four_digit_year_def civil_from_unix_gregorian)
  have r': "1970 \<le> y'" "y' \<le> 9999" "1 \<le> m'" "m' \<le> 12" "1 \<le> d'" "d' \<le> 31"
    using gregorian_range [of "t' div 86400"] g' assms(2) by (auto simp: four_digit_year_def civil_from_unix_gregorian)
  let ?Y = "pad_nat 4 (nat y)" and ?Y' = "pad_nat 4 (nat y')" and ?M = "pad_nat 2 (nat m)" and ?M' = "pad_nat 2 (nat m')"
    and ?D = "pad_nat 2 (nat d)" and ?D' = "pad_nat 2 (nat d')"
  have n: "nat y < 10 ^ 4" "nat y' < 10 ^ 4" "nat m < 10 ^ 2" "nat m' < 10 ^ 2" "nat d < 10 ^ 2" "nat d' < 10 ^ 2"
    using r r' by (simp_all add: nat_less_iff)
  have l: "length ?Y = length ?Y'" "length ?M = length ?M'" "length ?D = length ?D'" using n by (simp_all add: length_pad_nat)
  have lt: "?Y < ?Y' \<longleftrightarrow> y < y'" "?M < ?M' \<longleftrightarrow> m < m'" "?D < ?D' \<longleftrightarrow> d < d'" "?Y' < ?Y \<longleftrightarrow> y' < y" "?M' < ?M \<longleftrightarrow> m' < m"
    using n r r' by (simp_all add: pad_nat_less nat_less_eq_zless)
  have eq: "?Y = ?Y' \<longleftrightarrow> y = y'" "?M = ?M' \<longleftrightarrow> m = m'" using lt by (metis less_irrefl linorder_less_linear)+
  have "date_str t < date_str t' \<longleftrightarrow> date_less (y, m, d) (y', m', d')"
    by (simp add: date_str_def civil_from_unix_gregorian g g' append_less_same_length l lt eq date_less_def)
  then show ?thesis using gregorian_less_iff [of "t div 86400" "t' div 86400"] g g' by simp
qed

lemma date_str_inject:
  assumes "four_digit_year t" "four_digit_year t'"
  shows "date_str t = date_str t' \<longleftrightarrow> t div 86400 = t' div 86400"
proof
  assume "date_str t = date_str t'"
  then have "\<not> t div 86400 < t' div 86400" "\<not> t' div 86400 < t div 86400"
    using date_str_less [OF assms] date_str_less [OF assms(2,1)] by simp_all
  then show "t div 86400 = t' div 86400" by linarith
qed (simp add: date_str_def civil_from_unix_gregorian)

end
