(* ===== verification/Sigv4.thy ===== *)
theory Sigv4
  imports Calendar "HOL-Library.Product_Lexorder"
begin

text \<open>
  The receiving side of an S3 request, after the documentation of AWS Signature Version 4 (authenticating
  requests with query parameters) and of S3 addressing, for reference: nothing here uses a definition of
  the signing client in \<open>src/src/s3.rs\<close>. The store takes the URL apart, decodes it, rebuilds the canonical
  request and the string to sign from what arrived, derives the key from the secret of the access key named
  in the credential, compares the signatures, checks the time window, and says which object the request is
  for. The hash, the MAC and the hexadecimal printer are parameters, as they are for the client.
\<close>

record crypto =
  sha256_of :: "bytes \<Rightarrow> bytes"
  hmac_of :: "bytes \<Rightarrow> bytes \<Rightarrow> bytes"
  hex_of :: "bytes \<Rightarrow> string"

section \<open>URLs\<close>

definition URI_UNRESERVED :: string where
  "URI_UNRESERVED = ''ABCDEFGHIJKLMNOPQRSTUVWXYZabcdefghijklmnopqrstuvwxyz0123456789-._~''"

definition HEX_DIGITS :: string where
  "HEX_DIGITS = ''0123456789ABCDEF''"

definition uri_octet :: "char \<Rightarrow> string" where
  "uri_octet b =
     (if b \<in> set URI_UNRESERVED then [b] else [CHR ''%'', HEX_DIGITS ! (code b div 16), HEX_DIGITS ! (code b mod 16)])"

definition uri_encode :: "string \<Rightarrow> string" where
  "uri_encode s = concat (map uri_octet s)"

definition uri_encode_path :: "string \<Rightarrow> string" where
  "uri_encode_path s = concat (map (\<lambda>b. if b = CHR ''/'' then ''/'' else uri_octet b) s)"

text \<open>The decoder of RFC 3986.\<close>

definition hex_value :: "char \<Rightarrow> nat" where
  "hex_value c = (if code c < 65 then code c - 48 else code c - 55)"

fun percent_decode :: "string \<Rightarrow> string" where
  "percent_decode [] = []"
| "percent_decode (c # cs) =
     (if c = CHR ''%''
      then (case cs of a # b # rest \<Rightarrow> char_of (16 * hex_value a + hex_value b) # percent_decode rest
                     | _ \<Rightarrow> c # percent_decode cs)
      else c # percent_decode cs)"

definition upto_char :: "char \<Rightarrow> string \<Rightarrow> string" where
  "upto_char c s = takeWhile (\<lambda>x. x \<noteq> c) s"

definition beyond_char :: "char \<Rightarrow> string \<Rightarrow> string" where
  "beyond_char c s = drop 1 (dropWhile (\<lambda>x. x \<noteq> c) s)"

text \<open>Host, path and query of a URL.\<close>

definition url_target :: "string \<Rightarrow> string \<times> string \<times> string" where
  "url_target url =
     (let rest = drop 3 (dropWhile (\<lambda>x. x \<noteq> CHR '':'') url);
          tail = dropWhile (\<lambda>x. x \<noteq> CHR ''/'') rest
      in (upto_char CHR ''/'' rest, upto_char CHR ''?'' tail, beyond_char CHR ''?'' tail))"

definition received_params :: "string \<Rightarrow> (string \<times> string) list" where
  "received_params query =
     map (\<lambda>p. (percent_decode (upto_char CHR ''='' p), percent_decode (beyond_char CHR ''='' p))) (split_on CHR ''&'' query)"

text \<open>
  The bucket and key a request is for. \<open>site\<close> is \<open>None\<close> for AWS, where the bucket is in the host name and the
  rest of it has the region, and the host of a store of one's own otherwise, where it is in the path.
\<close>

definition addressed :: "string option \<Rightarrow> string \<Rightarrow> string \<Rightarrow> string \<Rightarrow> (string \<times> string) option" where
  "addressed site region host path =
     (case site of
        None \<Rightarrow>
          (let suffix = ''.s3.'' @ region @ ''.amazonaws.com''; n = length host - length suffix
           in if drop n host = suffix then Some (take n host, percent_decode (drop 1 path)) else None)
      | Some h \<Rightarrow>
          if host = h then Some (percent_decode (upto_char CHR ''/'' (drop 1 path)), percent_decode (beyond_char CHR ''/'' (drop 1 path)))
          else None)"

section \<open>Times\<close>

text \<open>
  \<open>YYYYMMDD'T'HHMMSS'Z'\<close> as seconds since 1970, for a day that is not after \<open>now\<close>: the day is looked up in the
  calendar, counted on from the first of January 1970.
\<close>

definition field :: "nat \<Rightarrow> nat \<Rightarrow> string \<Rightarrow> nat option" where
  "field from n s = digits_value 0 (take n (drop from s))"

definition stamp_time :: "nat \<Rightarrow> string \<Rightarrow> nat option" where
  "stamp_time now s =
     (if length s \<noteq> 16 \<or> s ! 8 \<noteq> CHR ''T'' \<or> s ! 15 \<noteq> CHR ''Z'' then None
      else case (field 0 4 s, field 4 2 s, field 6 2 s, field 9 2 s, field 11 2 s, field 13 2 s) of
             (Some y, Some m, Some d, Some hh, Some mm, Some ss) \<Rightarrow>
               map_option (\<lambda>n. n * 86400 + hh * 3600 + mm * 60 + ss)
                 (find (\<lambda>n. gregorian n = (int y, int m, int d)) [0..<now div 86400 + 1])
           | _ \<Rightarrow> None)"

section \<open>The signature\<close>

definition lines_of :: "string list \<Rightarrow> string" where
  "lines_of ls = concat (map (\<lambda>l. l @ [NEWLINE]) (butlast ls)) @ last ls"

fun store_query :: "(string \<times> string) list \<Rightarrow> string" where
  "store_query [] = []"
| "store_query ((k, v) # ps) = uri_encode k @ ''='' @ uri_encode v @ (if ps = [] then [] else ''&'' @ store_query ps)"

definition store_canonical :: "string \<Rightarrow> string \<Rightarrow> (string \<times> string) list \<Rightarrow> string \<Rightarrow> string" where
  "store_canonical method path params host =
     lines_of [method, uri_encode_path (percent_decode path), store_query params, ''host:'' @ host, [], ''host'', ''UNSIGNED-PAYLOAD'']"

definition store_key :: "crypto \<Rightarrow> string \<Rightarrow> string \<Rightarrow> string \<Rightarrow> bytes" where
  "store_key c secret date region = foldl (hmac_of c) (''AWS4'' @ secret) [date, region, ''s3'', ''aws4_request'']"

definition store_signature :: "crypto \<Rightarrow> string \<Rightarrow> string \<Rightarrow> string \<Rightarrow> string \<Rightarrow> string \<Rightarrow> string" where
  "store_signature c secret stamp date region request =
     hex_of c (hmac_of c (store_key c secret date region)
       (lines_of [''AWS4-HMAC-SHA256'', stamp, date @ ''/'' @ region @ ''/s3/aws4_request'', hex_of c (sha256_of c request)]))"

text \<open>A request that is accepted is answered with bucket, key and the parameters that are not of the signature.\<close>

definition sigv4_accepts ::
  "crypto \<Rightarrow> (string \<Rightarrow> string option) \<Rightarrow> string option \<Rightarrow> nat \<Rightarrow> string \<Rightarrow> string
     \<Rightarrow> (string \<times> string \<times> (string \<times> string) list) option" where
  "sigv4_accepts c secrets site now method url =
     (let (host, path, query) = url_target url;
          params = received_params query;
          signed = sort_key (\<lambda>kv. (uri_encode (fst kv), uri_encode (snd kv))) (filter (\<lambda>kv. fst kv \<noteq> ''X-Amz-Signature'') params)
      in if map_of params ''X-Amz-Algorithm'' \<noteq> Some ''AWS4-HMAC-SHA256'' \<or> map_of params ''X-Amz-SignedHeaders'' \<noteq> Some ''host''
         then None
         else case (map_of params ''X-Amz-Credential'', map_of params ''X-Amz-Date'',
                    map_of params ''X-Amz-Expires'', map_of params ''X-Amz-Signature'') of
           (Some cred, Some stamp, Some expires, Some signature) \<Rightarrow>
             (case split_on CHR ''/'' cred of
                [access, date, region, service, terminator] \<Rightarrow>
                  (case (secrets access, stamp_time now stamp, digits_value 0 expires, addressed site region host path) of
                     (Some secret, Some t, Some e, Some (bucket, key)) \<Rightarrow>
                       if service = ''s3'' \<and> terminator = ''aws4_request'' \<and> date = take 8 stamp
                         \<and> t \<le> now \<and> now < t + e \<and> e \<le> 604800
                         \<and> signature = store_signature c secret stamp date region (store_canonical method path signed host)
                       then Some (bucket, key, filter (\<lambda>kv. \<not> starts_with ''X-Amz-'' (fst kv)) params)
                       else None
                   | _ \<Rightarrow> None)
              | _ \<Rightarrow> None)
         | _ \<Rightarrow> None)"

section \<open>Lemmas on reading\<close>

lemma takeWhile_until: "c \<notin> set a \<Longrightarrow> takeWhile (\<lambda>x. x \<noteq> c) (a @ c # b) = a"
  by (induction a) auto

lemma dropWhile_until: "c \<notin> set a \<Longrightarrow> dropWhile (\<lambda>x. x \<noteq> c) (a @ c # b) = c # b"
  by (induction a) auto

lemma url_target_parts:
  assumes "CHR '':'' \<notin> set scheme" "CHR ''/'' \<notin> set host" "CHR ''?'' \<notin> set u"
  shows "url_target (scheme @ ''://'' @ host @ (CHR ''/'' # u) @ ''?'' @ q) = (host, CHR ''/'' # u, q)"
proof -
  have "dropWhile (\<lambda>x. x \<noteq> CHR '':'') (scheme @ ''://'' @ host @ (CHR ''/'' # u) @ ''?'' @ q)
      = ''://'' @ host @ (CHR ''/'' # u) @ ''?'' @ q"
    using dropWhile_until [OF assms(1)] by simp
  moreover have "takeWhile (\<lambda>x. x \<noteq> CHR ''?'') (CHR ''/'' # u @ CHR ''?'' # q) = CHR ''/'' # u"
    "dropWhile (\<lambda>x. x \<noteq> CHR ''?'') (CHR ''/'' # u @ CHR ''?'' # q) = CHR ''?'' # q"
    using takeWhile_until [of "CHR ''?''" "CHR ''/'' # u" q] dropWhile_until [of "CHR ''?''" "CHR ''/'' # u" q] assms(3)
    by simp_all
  ultimately show ?thesis
    using takeWhile_until [OF assms(2)] dropWhile_until [OF assms(2)]
    by (simp add: url_target_def Let_def upto_char_def beyond_char_def)
qed

lemma digits_value_pad: "digits_value 0 (pad_nat w n) = Some n"
proof -
  have z: "digits_value 0 (replicate k (CHR ''0'')) = Some 0" for k
    by (induction k) (simp_all add: is_ascii_digit_def code_def)
  show ?thesis by (simp add: pad_nat_def digits_value_append z digits_value_show_nat)
qed

lemma find_upt:
  assumes "P n" "n < k" "\<And>m. P m \<Longrightarrow> m = n"
  shows "find P [0..<k] = Some n"
proof -
  have "\<forall>j < n. \<not> P j" using assms(3) by blast
  then show ?thesis unfolding find_Some_iff using assms(1,2) by (intro exI [of _ n]) simp
qed

lemma gregorian_inject: "gregorian m = gregorian n \<longleftrightarrow> m = n"
  by (metis date_less_irrefl gregorian_mono linorder_neqE_nat)

text \<open>The client's own stamps are read back.\<close>

lemma stamp_parts:
  assumes "length y = 4" "length m = 2" "length d = 2" "length hh = 2" "length mm = 2" "length ss = 2"
  defines "s \<equiv> (y @ m @ d) @ ''T'' @ hh @ mm @ ss @ ''Z''"
  shows "length s = 16" "s ! 8 = CHR ''T''" "s ! 15 = CHR ''Z''" "take 8 s = y @ m @ d"
    "take 4 (drop 0 s) = y" "take 2 (drop 4 s) = m" "take 2 (drop 6 s) = d" "take 2 (drop 9 s) = hh"
    "take 2 (drop 11 s) = mm" "take 2 (drop 13 s) = ss"
  using assms by (simp_all add: nth_append)

lemma stamp_time_format:
  assumes "four_digit_year secs" "secs \<le> now"
  shows "stamp_time now (snd (format_amz_time secs)) = Some secs"
    and "take 8 (snd (format_amz_time secs)) = fst (format_amz_time secs)"
proof -
  obtain y m d where g: "gregorian (secs div 86400) = (y, m, d)" by (metis prod.exhaust)
  have r: "1970 \<le> y" "y \<le> 9999" "1 \<le> m" "m \<le> 12" "1 \<le> d" "d \<le> 31"
    using gregorian_range [of "secs div 86400"] g assms(1) by (auto simp: four_digit_year_def civil_from_unix_gregorian)
  let ?r = "secs mod 86400"
  let ?Y = "pad_nat 4 (nat y)" and ?M = "pad_nat 2 (nat m)" and ?D = "pad_nat 2 (nat d)" and ?h = "pad_nat 2 (?r div 3600)"
    and ?m = "pad_nat 2 ((?r mod 3600) div 60)" and ?s = "pad_nat 2 (?r mod 60)"
  have f: "format_amz_time secs = (?Y @ ?M @ ?D, (?Y @ ?M @ ?D) @ ''T'' @ ?h @ ?m @ ?s @ ''Z'')"
    using g by (simp add: format_amz_time_def amz_civil_core civil_of_gregorian Let_def)
  have "?r div 3600 < 24" "(?r mod 3600) div 60 < 60" "?r mod 60 < 60" by (simp_all add: less_mult_imp_div_less)
  then have l: "length ?Y = 4" "length ?M = 2" "length ?D = 2" "length ?h = 2" "length ?m = 2" "length ?s = 2"
    using r by (auto intro!: length_pad_nat)
  note parts = stamp_parts [OF l]
  have d: "find (\<lambda>n. gregorian n = (int (nat y), int (nat m), int (nat d))) [0..<now div 86400 + 1] = Some (secs div 86400)"
  proof (rule find_upt)
    show "gregorian (secs div 86400) = (int (nat y), int (nat m), int (nat d))" using g r by simp
    then show "k = secs div 86400" if "gregorian k = (int (nat y), int (nat m), int (nat d))" for k
      using that gregorian_inject by metis
    show "secs div 86400 < now div 86400 + 1" using div_le_mono [OF assms(2), of 86400] by linarith
  qed
  have s: "secs div 86400 * 86400 + ?r div 3600 * 3600 + (?r mod 3600) div 60 * 60 + ?r mod 60 = secs"
  proof -
    have "?r mod 60 = (?r mod 3600) mod 60" by (simp add: mod_mod_cancel)
    then show ?thesis
      using div_mult_mod_eq [of secs 86400] div_mult_mod_eq [of ?r 3600] div_mult_mod_eq [of "?r mod 3600" 60] by linarith
  qed
  show "stamp_time now (snd (format_amz_time secs)) = Some secs"
    unfolding f snd_conv stamp_time_def field_def parts digits_value_pad
    by (simp only: simp_thms if_False option.case prod.case d option.map s)
  show "take 8 (snd (format_amz_time secs)) = fst (format_amz_time secs)" unfolding f snd_conv fst_conv by (rule parts(4))
qed

end
