(* ===== verification/S3_Sign.thy ===== *)
theory S3_Sign
  imports Sigv4
begin

text \<open>
  The S3 client of \<open>src/src/s3.rs\<close> as far as it is this program's own code: object keys, addressing,
  percent-encoding, the query-string signature, the region it learns from S3, and what each call makes of
  the answer. The hash, the MAC and the hexadecimal printer are crates outside the repository: they are the
  fields of \<open>crypto\<close> and every statement holds for all of them. An HTTP exchange is a function from the
  request to the response, \<open>None\<close> where \<open>send\<close> fails or times out.
\<close>

section \<open>Percent-encoding\<close>

definition unreserved :: "char \<Rightarrow> bool" where
  "unreserved c \<longleftrightarrow>
     65 \<le> code c \<and> code c \<le> 90 \<or> is_ascii_lowercase c \<or> is_ascii_digit c
     \<or> c = CHR ''-'' \<or> c = CHR ''_'' \<or> c = CHR ''.'' \<or> c = CHR ''~''"

definition hex_upper :: "nat \<Rightarrow> char" where
  "hex_upper n = (if n < 10 then char_of (48 + n) else char_of (55 + n))"

definition encode_byte :: "bool \<Rightarrow> char \<Rightarrow> string" where
  "encode_byte keep_slash b =
     (if unreserved b then [b]
      else if b = CHR ''/'' \<and> keep_slash then ''/''
      else [CHR ''%'', hex_upper (code b div 16), hex_upper (code b mod 16)])"

definition encode :: "string \<Rightarrow> bool \<Rightarrow> string" where
  "encode s keep_slash = concat (map (encode_byte keep_slash) s)"

definition encode_uri_path :: "string \<Rightarrow> string" where
  "encode_uri_path s = encode s True"

definition encode_uri_component :: "string \<Rightarrow> string" where
  "encode_uri_component s = encode s False"

lemma code_hex_upper: "n < 16 \<Longrightarrow> code (hex_upper n) = (if n < 10 then 48 + n else 55 + n)"
  by (simp add: hex_upper_def)

lemma hex_value_upper: "n < 16 \<Longrightarrow> hex_value (hex_upper n) = n"
  by (simp add: hex_value_def code_hex_upper)

lemma hex_pair [simp]: "char_of (16 * hex_value (hex_upper (code b div 16)) + hex_value (hex_upper (code b mod 16))) = b"
proof -
  have "code b div 16 < 16" using code_lt_256 [of b] by (simp add: less_mult_imp_div_less)
  then have "16 * hex_value (hex_upper (code b div 16)) + hex_value (hex_upper (code b mod 16)) = code b"
    by (simp add: hex_value_upper)
  then show ?thesis by (simp add: code_def)
qed

lemma unreserved_not_percent: "unreserved c \<Longrightarrow> c \<noteq> CHR ''%''"
  by (auto simp: unreserved_def is_ascii_lowercase_def is_ascii_digit_def code_def)

lemma percent_decode_byte: "percent_decode (encode_byte k b @ s) = b # percent_decode s"
  by (auto simp: encode_byte_def unreserved_not_percent)

lemma percent_decode_encode: "percent_decode (encode s k) = s"
  by (induction s) (simp_all add: encode_def percent_decode_byte)

lemma unreserved_hex: "n < 16 \<Longrightarrow> unreserved (hex_upper n)"
  by (simp add: unreserved_def is_ascii_digit_def code_hex_upper)

lemma encode_chars: "c \<in> set (encode s k) \<Longrightarrow> unreserved c \<or> c = CHR ''%'' \<or> (k \<and> c = CHR ''/'')"
proof -
  have "code b div 16 < 16" for b using code_lt_256 [of b] by (simp add: less_mult_imp_div_less)
  moreover assume "c \<in> set (encode s k)"
  ultimately show ?thesis by (auto simp: encode_def encode_byte_def unreserved_hex split: if_splits)
qed

lemma encode_unreserved: "list_all unreserved s \<Longrightarrow> encode s k = s"
  by (induction s) (simp_all add: encode_def encode_byte_def)

lemma unreserved_facts: "unreserved c \<Longrightarrow> c \<notin> set ''&=?/:%'' \<and> c \<noteq> NEWLINE"
  by (auto simp: unreserved_def is_ascii_lowercase_def is_ascii_digit_def code_def)

lemma encode_clean:
  "CHR ''&'' \<notin> set (encode s k)" "CHR ''='' \<notin> set (encode s k)" "CHR ''?'' \<notin> set (encode s k)"
  "NEWLINE \<notin> set (encode s k)"
  using encode_chars [of _ s k] unreserved_facts by fastforce+

text \<open>
  Percent-encoding loses nothing and confines its input: decoding gives the string back, for any
  bytes, and the encoded text of a query component contains only unreserved characters and percent
  signs, that of a path these and slashes; so no name or value can add a parameter, a fragment or a line.
\<close>

theorem encoding_confines_strings:
  "percent_decode (encode_uri_component s) = s \<and> percent_decode (encode_uri_path s) = s
   \<and> list_all (\<lambda>c. unreserved c \<or> c = CHR ''%'') (encode_uri_component s)
   \<and> list_all (\<lambda>c. unreserved c \<or> c = CHR ''%'' \<or> c = CHR ''/'') (encode_uri_path s)"
  using encode_chars [of _ s]
  by (auto simp: encode_uri_component_def encode_uri_path_def percent_decode_encode list_all_iff)

section \<open>Configuration and addressing\<close>

text \<open>\<open>discovered\<close> is the \<open>OnceLock\<close> all clones of a configuration share: the state of the client.\<close>

record s3_config =
  bucket :: string
  key_prefix :: string
  configured_region :: string
  discovered :: "string option"
  endpoint :: "string option"
  access_key_id :: string
  secret_access_key :: string

definition s3_region :: "s3_config \<Rightarrow> string" where
  "s3_region s = (case discovered s of Some r \<Rightarrow> r | None \<Rightarrow> configured_region s)"

definition object_key :: "s3_config \<Rightarrow> string \<Rightarrow> string" where
  "object_key s schema = key_prefix s @ schema @ ''.dump''"

definition image_object_key :: "s3_config \<Rightarrow> string \<Rightarrow> string" where
  "image_object_key s schema = key_prefix s @ schema @ ''.img.zst''"

definition aws_host :: "s3_config \<Rightarrow> string" where
  "aws_host s = bucket s @ ''.s3.'' @ s3_region s @ ''.amazonaws.com''"

definition resolve_host :: "s3_config \<Rightarrow> string option" where
  "resolve_host s = (case endpoint s of Some _ \<Rightarrow> None | None \<Rightarrow> Some (aws_host s))"

definition split_scheme_host :: "string \<Rightarrow> string \<times> string" where
  "split_scheme_host url =
     (if starts_with ''https://'' url then (''https'', drop 8 url)
      else if starts_with ''http://'' url then (''http'', drop 7 url)
      else (''https'', url))"

definition trim_end_slashes :: "string \<Rightarrow> string" where
  "trim_end_slashes s = rev (dropWhile (\<lambda>c. c = CHR ''/'') (rev s))"

definition address :: "s3_config \<Rightarrow> string \<Rightarrow> string \<times> string \<times> string" where
  "address s key =
     (case endpoint s of
        Some ep \<Rightarrow> (let (scheme, host) = split_scheme_host (trim_end_slashes ep)
                   in (scheme, host, ''/'' @ bucket s @ ''/'' @ encode_uri_path key))
      | None \<Rightarrow> (''https'', aws_host s, ''/'' @ encode_uri_path key))"

text \<open>The two objects of a schema never share a key, and different schemas never share one.\<close>

lemma object_keys_distinct:
  "object_key s x \<noteq> image_object_key s y"
  "object_key s x = object_key s y \<longleftrightarrow> x = y" "image_object_key s x = image_object_key s y \<longleftrightarrow> x = y"
proof -
  have "last (object_key s x) = CHR ''p''" "last (image_object_key s y) = CHR ''t''"
    by (simp_all add: object_key_def image_object_key_def)
  then show "object_key s x \<noteq> image_object_key s y" by auto
qed (simp_all add: object_key_def image_object_key_def)

section \<open>The query-string signature\<close>

record presign_params =
  pp_method :: string
  pp_scheme :: string
  pp_host :: string
  pp_uri :: string
  pp_region :: string
  pp_access :: string
  pp_secret :: string
  pp_secs :: u64
  pp_expires :: u64
  pp_extra :: "(string \<times> string) list"

definition signing_key :: "crypto \<Rightarrow> string \<Rightarrow> string \<Rightarrow> string \<Rightarrow> string \<Rightarrow> bytes" where
  "signing_key c secret date region service =
     (let k_date = hmac_of c (''AWS4'' @ secret) date;
          k_region = hmac_of c k_date region;
          k_service = hmac_of c k_region service
      in hmac_of c k_service ''aws4_request'')"

fun join_on :: "string \<Rightarrow> string list \<Rightarrow> string" where
  "join_on sep [] = []"
| "join_on sep [s] = s"
| "join_on sep (s # ss) = s @ sep @ join_on sep ss"

definition scope_of :: "string \<Rightarrow> string \<Rightarrow> string" where
  "scope_of date region = date @ ''/'' @ region @ ''/s3/aws4_request''"

definition query_of :: "presign_params \<Rightarrow> (string \<times> string) list" where
  "query_of p =
     (let (date, amz_date) = format_amz_time (pp_secs p)
      in sort_key fst
           ([(''X-Amz-Algorithm'', ''AWS4-HMAC-SHA256''),
             (''X-Amz-Credential'', pp_access p @ ''/'' @ scope_of date (pp_region p)),
             (''X-Amz-Date'', amz_date),
             (''X-Amz-Expires'', show_nat (pp_expires p)),
             (''X-Amz-SignedHeaders'', ''host'')] @ pp_extra p))"

definition canonical_query :: "(string \<times> string) list \<Rightarrow> string" where
  "canonical_query query = join_on ''&'' (map (\<lambda>(k, v). encode_uri_component k @ ''='' @ encode_uri_component v) query)"

definition canonical_request :: "string \<Rightarrow> string \<Rightarrow> string \<Rightarrow> string \<Rightarrow> string" where
  "canonical_request method uri query host =
     method @ [NEWLINE] @ uri @ [NEWLINE] @ query @ [NEWLINE] @ (''host:'' @ host @ [NEWLINE])
     @ [NEWLINE] @ ''host'' @ [NEWLINE] @ ''UNSIGNED-PAYLOAD''"

definition string_to_sign :: "crypto \<Rightarrow> string \<Rightarrow> string \<Rightarrow> string \<Rightarrow> string" where
  "string_to_sign c amz_date scope request =
     ''AWS4-HMAC-SHA256'' @ [NEWLINE] @ amz_date @ [NEWLINE] @ scope @ [NEWLINE] @ hex_of c (sha256_of c request)"

definition presign_core :: "crypto \<Rightarrow> presign_params \<Rightarrow> string" where
  "presign_core c p =
     (let (date, amz_date) = format_amz_time (pp_secs p);
          scope = scope_of date (pp_region p);
          query = canonical_query (query_of p);
          request = canonical_request (pp_method p) (pp_uri p) query (pp_host p);
          key = signing_key c (pp_secret p) date (pp_region p) ''s3'';
          signature = hex_of c (hmac_of c key (string_to_sign c amz_date scope request))
      in pp_scheme p @ ''://'' @ pp_host p @ pp_uri p @ ''?'' @ query @ ''&X-Amz-Signature='' @ signature)"

definition presign_with_query ::
  "crypto \<Rightarrow> s3_config \<Rightarrow> string \<Rightarrow> string \<Rightarrow> u64 \<Rightarrow> u64 \<Rightarrow> (string \<times> string) list \<Rightarrow> string" where
  "presign_with_query c s method key expires secs extra =
     (let (scheme, host, uri) = address s key
      in presign_core c
           \<lparr>pp_method = method, pp_scheme = scheme, pp_host = host, pp_uri = uri, pp_region = s3_region s,
            pp_access = access_key_id s, pp_secret = secret_access_key s, pp_secs = secs, pp_expires = expires,
            pp_extra = extra\<rparr>)"

definition presign :: "crypto \<Rightarrow> s3_config \<Rightarrow> string \<Rightarrow> string \<Rightarrow> u64 \<Rightarrow> u64 \<Rightarrow> string" where
  "presign c s method key expires secs = presign_with_query c s method key expires secs []"

section \<open>The store's side of it\<close>

text \<open>Encoder, canonical request and signature of the specification (theory \<open>Sigv4\<close>) are the client's.\<close>

lemma char_range: "n \<le> 256 \<Longrightarrow> b \<in> set (map char_of [m..<n]) \<longleftrightarrow> m \<le> code b \<and> code b < n"
  by (force simp: code_def image_iff)

lemma unreserved_listed: "b \<in> set URI_UNRESERVED \<longleftrightarrow> unreserved b"
proof -
  have l: "URI_UNRESERVED = map char_of [65..<91] @ map char_of [97..<123] @ map char_of [48..<58] @ ''-._~''" by code_simp
  show ?thesis
    unfolding l set_append Un_iff char_range [OF le_refl [THEN le_trans, of 91]]
    by (simp only: char_range unreserved_def is_ascii_lowercase_def is_ascii_digit_def list.set insert_iff empty_iff simp_thms) auto
qed

lemma hex_digits_upper: "n < 16 \<Longrightarrow> HEX_DIGITS ! n = hex_upper n"
proof -
  have "list_all (\<lambda>n. HEX_DIGITS ! n = hex_upper n) [0..<16]" by code_simp
  moreover assume "n < 16"
  ultimately show ?thesis unfolding list_all_iff by simp
qed

lemma uri_octet_encode: "uri_octet = encode_byte False"
proof
  fix b
  have "code b div 16 < 16" using code_lt_256 [of b] by (simp add: less_mult_imp_div_less)
  then show "uri_octet b = encode_byte False b" by (auto simp: uri_octet_def encode_byte_def unreserved_listed hex_digits_upper)
qed

lemma uri_encode_component: "uri_encode s = encode_uri_component s"
  by (simp add: uri_encode_def encode_uri_component_def encode_def uri_octet_encode)

lemma uri_encode_path_encode: "uri_encode_path s = encode_uri_path s"
proof -
  have "unreserved (CHR ''/'') = False" by code_simp
  then have "(if b = CHR ''/'' then ''/'' else uri_octet b) = encode_byte True b" for b
    by (simp add: uri_octet_encode encode_byte_def)
  then show ?thesis by (simp add: uri_encode_path_def encode_uri_path_def encode_def)
qed

lemma store_query_canonical: "store_query qs = canonical_query qs"
  by (induction qs rule: store_query.induct)
    (auto simp: canonical_query_def uri_encode_component neq_Nil_conv)

lemma store_canonical_request:
  "encode_uri_path (percent_decode path) = path \<Longrightarrow>
     store_canonical method path params host = canonical_request method path (canonical_query params) host"
  by (simp add: store_canonical_def lines_of_def uri_encode_path_encode store_query_canonical canonical_request_def)

lemma store_signature_client:
  "store_signature c secret stamp date region request =
     hex_of c (hmac_of c (signing_key c secret date region ''s3'') (string_to_sign c stamp (scope_of date region) request))"
  by (simp add: store_signature_def store_key_def signing_key_def string_to_sign_def scope_of_def lines_of_def)

lemma join_on_snoc: "ss \<noteq> [] \<Longrightarrow> join_on sep ss @ sep @ s = join_on sep (ss @ [s])"
  by (induction sep ss rule: join_on.induct) auto

lemma split_on_join_on: "ss \<noteq> [] \<Longrightarrow> list_all (\<lambda>s. c \<notin> set s) ss \<Longrightarrow> split_on c (join_on [c] ss) = ss"
  by (induction "[c]" ss rule: join_on.induct) (auto simp: split_on_append split_on_no_sep)

lemma received_params_query:
  assumes "qs \<noteq> []" "list_all unreserved sig"
  shows "received_params (canonical_query qs @ ''&X-Amz-Signature='' @ sig) = qs @ [(''X-Amz-Signature'', sig)]"
proof -
  let ?ps = "map (\<lambda>(k, v). encode_uri_component k @ ''='' @ encode_uri_component v) qs"
  have sig: "CHR ''&'' \<notin> set sig" using assms(2) unreserved_facts by (auto simp: list_all_iff)
  have j: "canonical_query qs @ ''&X-Amz-Signature='' @ sig = join_on ''&'' (?ps @ [''X-Amz-Signature='' @ sig])"
    using join_on_snoc [of ?ps "''&''" "''X-Amz-Signature='' @ sig"] assms(1) by (simp add: canonical_query_def)
  have "list_all (\<lambda>s. CHR ''&'' \<notin> set s) (?ps @ [''X-Amz-Signature='' @ sig])"
    using sig by (auto simp: list_all_iff encode_uri_component_def encode_clean)
  from split_on_join_on [OF _ this]
  have s: "split_on CHR ''&'' (canonical_query qs @ ''&X-Amz-Signature='' @ sig) = ?ps @ [''X-Amz-Signature='' @ sig]"
    unfolding j by simp
  let ?f = "\<lambda>p. (percent_decode (upto_char CHR ''='' p), percent_decode (beyond_char CHR ''='' p))"
  have f: "?f (encode_uri_component k @ ''='' @ encode_uri_component v) = (k, v)" for k v
    by (simp add: upto_char_def beyond_char_def takeWhile_until dropWhile_until encode_uri_component_def encode_clean
        percent_decode_encode)
  have m: "map ?f ?ps = qs" unfolding map_map by (rule map_idI) (simp only: comp_apply split_beta f prod.collapse)
  have "percent_decode sig = sig" using percent_decode_encode [of sig True] encode_unreserved [OF assms(2)] by simp
  then have "?f (''X-Amz-Signature='' @ sig) = (''X-Amz-Signature'', sig)" by (simp add: upto_char_def beyond_char_def)
  then show ?thesis unfolding received_params_def s map_append m by simp
qed

text \<open>The parameters the client adds to its multipart calls.\<close>

definition multipart_query :: "(string \<times> string) list \<Rightarrow> bool" where
  "multipart_query extra \<longleftrightarrow>
     list_all (\<lambda>(k, v). k \<in> set [''uploads'', ''partNumber'', ''uploadId'']) extra \<and> distinct (map fst extra)"

text \<open>
  The store the configuration is for: AWS, or the one at host \<open>h\<close>, for which the endpoint may name a scheme and
  end in slashes. Bucket, region and access key are as the naming rules have them: a bucket of letters,
  digits, dots and hyphens, no slash in the others.
\<close>

definition served_at :: "string \<Rightarrow> string \<Rightarrow> bool" where
  "served_at h ep \<longleftrightarrow> h \<noteq> [] \<and> CHR ''/'' \<notin> set h
     \<and> (\<exists>pre \<in> set [[], ''https://'', ''http://'']. \<exists>n. ep = pre @ h @ replicate n (CHR ''/''))"

definition configured_for :: "string option \<Rightarrow> s3_config \<Rightarrow> bool" where
  "configured_for site s \<longleftrightarrow>
     list_all unreserved (bucket s) \<and> CHR ''/'' \<notin> set (access_key_id s) \<and> CHR ''/'' \<notin> set (s3_region s)
     \<and> (case (endpoint s, site) of (None, None) \<Rightarrow> True | (Some ep, Some h) \<Rightarrow> served_at h ep | _ \<Rightarrow> False)"

lemma trim_end_slashes_served: "h \<noteq> [] \<Longrightarrow> CHR ''/'' \<notin> set h \<Longrightarrow> trim_end_slashes (pre @ h @ replicate n (CHR ''/'')) = pre @ h"
proof -
  assume h: "h \<noteq> []" "CHR ''/'' \<notin> set h"
  then have "hd (rev h) \<noteq> CHR ''/''" by (metis hd_in_set rev_is_Nil_conv set_rev)
  then have "dropWhile (\<lambda>c. c = CHR ''/'') (rev h @ rev pre) = rev h @ rev pre" using h(1) by (cases "rev h") auto
  moreover have "dropWhile (\<lambda>c. c = CHR ''/'') (replicate n (CHR ''/'') @ xs) = dropWhile (\<lambda>c. c = CHR ''/'') xs" for xs
    by (rule dropWhile_append2) simp
  ultimately show ?thesis by (simp add: trim_end_slashes_def)
qed

lemma split_scheme_host_served:
  assumes "CHR ''/'' \<notin> set h" "pre \<in> set [[], ''https://'', ''http://'']"
  shows "\<exists>scheme \<in> {''https'', ''http''}. split_scheme_host (pre @ h) = (scheme, h)"
proof -
  have "\<not> starts_with p h" if "CHR ''/'' \<in> set p" for p
  proof
    assume "starts_with p h"
    then have "p = take (length p) h" by (simp add: starts_with_def)
    then have "set p \<subseteq> set h" by (metis set_take_subset)
    then show False using that assms(1) by blast
  qed
  then have "\<not> starts_with ''https://'' h" "\<not> starts_with ''http://'' h" by simp_all
  then show ?thesis using assms(2) by (auto simp: split_scheme_host_def starts_with_def)
qed

lemma bucket_facts:
  assumes "list_all unreserved b"
  shows "CHR ''/'' \<notin> set b" "CHR ''?'' \<notin> set b" "percent_decode b = b" "encode b k = b"
  using assms unreserved_facts percent_decode_encode [of b True] encode_unreserved [OF assms]
  by (auto simp: list_all_iff)

text \<open>Where the client sends a request for a key, the store finds that key in the client's bucket.\<close>

lemma address_found:
  assumes "configured_for site s" "address s key = (scheme, host, uri)"
  shows "CHR '':'' \<notin> set scheme" "CHR ''/'' \<notin> set host" "\<exists>u. uri = CHR ''/'' # u \<and> CHR ''?'' \<notin> set u"
    "encode_uri_path (percent_decode uri) = uri" "addressed site (s3_region s) host uri = Some (bucket s, key)"
proof -
  note b = bucket_facts [where b = "bucket s"]
  have pd: "percent_decode (CHR ''/'' # encode_uri_path key) = CHR ''/'' # key"
    by (simp add: encode_uri_path_def percent_decode_encode)
  have ep: "encode_uri_path (CHR ''/'' # t) = CHR ''/'' # encode_uri_path t" for t
  proof -
    have "unreserved (CHR ''/'') = False" by code_simp
    then show ?thesis by (simp add: encode_uri_path_def encode_def encode_byte_def)
  qed
  have ca: "percent_decode (encode x k @ t) = x @ percent_decode t" for x k t
    by (induction x) (simp_all add: encode_def percent_decode_byte)
  have ea: "encode (x @ t) k = encode x k @ encode t k" for x t k by (simp add: encode_def)
  have un: "list_all unreserved (bucket s)" using assms(1) by (simp add: configured_for_def)
  have "CHR '':'' \<notin> set scheme \<and> CHR ''/'' \<notin> set host \<and> (\<exists>u. uri = CHR ''/'' # u \<and> CHR ''?'' \<notin> set u)
      \<and> encode_uri_path (percent_decode uri) = uri \<and> addressed site (s3_region s) host uri = Some (bucket s, key)"
  proof (cases "endpoint s")
    case None
    then have "site = None" using assms(1) by (auto simp: configured_for_def split: option.splits)
    moreover have "scheme = ''https''" "host = bucket s @ ''.s3.'' @ s3_region s @ ''.amazonaws.com''" "uri = CHR ''/'' # encode_uri_path key"
      using assms(2) None by (simp_all add: address_def aws_host_def)
    ultimately show ?thesis
      using assms(1) b [OF un] pd ep by (simp add: configured_for_def addressed_def encode_uri_path_def encode_clean percent_decode_encode)
  next
    case (Some e)
    then obtain h where h: "site = Some h" "served_at h e" using assms(1) by (auto simp: configured_for_def split: option.splits)
    then obtain pre n where e: "h \<noteq> []" "CHR ''/'' \<notin> set h" "pre \<in> set [[], ''https://'', ''http://'']" "e = pre @ h @ replicate n (CHR ''/'')"
      unfolding served_at_def by blast
    obtain sc where sc: "sc \<in> {''https'', ''http''}" "split_scheme_host (pre @ h) = (sc, h)"
      using split_scheme_host_served [OF e(2,3)] by blast
    have a: "scheme = sc" "host = h" "uri = CHR ''/'' # bucket s @ CHR ''/'' # encode_uri_path key"
      using assms(2) Some sc(2) trim_end_slashes_served [OF e(1,2)] by (simp_all add: address_def e(4))
    have d: "percent_decode uri = CHR ''/'' # bucket s @ CHR ''/'' # key"
      using ca [of "bucket s" True "CHR ''/'' # encode_uri_path key"] b(4) [OF un, of True] pd by (simp add: a(3))
    have "encode_uri_path (percent_decode uri) = uri"
      unfolding d ep using ea [of "bucket s" "CHR ''/'' # key" True] b(4) [OF un, of True] ep [of key]
      by (simp add: a(3) encode_uri_path_def)
    moreover have "addressed site (s3_region s) host uri = Some (bucket s, key)"
      using h(1) a takeWhile_until [OF b(1) [OF un], of "encode_uri_path key"] dropWhile_until [OF b(1) [OF un], of "encode_uri_path key"] b(3) [OF un]
      by (simp add: addressed_def upto_char_def beyond_char_def encode_uri_path_def percent_decode_encode)
    ultimately show ?thesis using sc(1) a e(2) b(2) [OF un] by (auto simp: encode_uri_path_def encode_clean)
  qed
  then show "CHR '':'' \<notin> set scheme" "CHR ''/'' \<notin> set host" "\<exists>u. uri = CHR ''/'' # u \<and> CHR ''?'' \<notin> set u"
    "encode_uri_path (percent_decode uri) = uri" "addressed site (s3_region s) host uri = Some (bucket s, key)" by blast+
qed

lemma pad_nat_digits: "c \<in> set (pad_nat w n) \<Longrightarrow> is_ascii_digit c"
  using show_nat_digits [of c n] by (auto simp: pad_nat_def is_ascii_digit_def code_def)

lemma amz_date_no_slash: "CHR ''/'' \<notin> set (fst (format_amz_time t))"
proof -
  have "CHR ''/'' \<notin> set (pad_nat w n)" for w n using pad_nat_digits [of "CHR ''/''" w n]
    by (auto simp: is_ascii_digit_def code_def)
  then show ?thesis by (simp add: format_amz_time_def Let_def split: prod.split)
qed

lemma split_credential:
  assumes "CHR ''/'' \<notin> set a" "CHR ''/'' \<notin> set d" "CHR ''/'' \<notin> set r"
  shows "split_on CHR ''/'' (a @ ''/'' @ scope_of d r) = [a, d, r, ''s3'', ''aws4_request'']"
  using assms by (simp add: scope_of_def split_on_append)

lemma map_of_only: "map_of xs k = map_of (filter (\<lambda>kv. fst kv = k) xs) k"
  by (induction xs) auto

lemma map_of_sort_key: "map_of (sort_key fst xs) k = map_of xs k"
  using map_of_only [of xs k] map_of_only [of "sort_key fst xs" k] by (simp add: sort_key_stable)

lemma list_all_sort_key: "list_all P (sort_key f xs) \<longleftrightarrow> list_all P xs"
  by (simp only: list_all_iff set_sort)

lemma multipart_query_facts:
  assumes "multipart_query extra" "kv \<in> set extra"
  shows "list_all unreserved (fst kv) \<and> fst kv \<noteq> ''X-Amz-Signature'' \<and> \<not> starts_with ''X-Amz-'' (fst kv)"
proof -
  have "fst kv \<in> set [''uploads'', ''partNumber'', ''uploadId'']"
    using assms by (auto simp: multipart_query_def list_all_iff)
  moreover have "list_all (\<lambda>k. list_all unreserved k \<and> k \<noteq> ''X-Amz-Signature'' \<and> \<not> starts_with ''X-Amz-'' k)
      [''uploads'', ''partNumber'', ''uploadId'']"
    by code_simp
  ultimately show ?thesis by (auto simp: list_all_iff)
qed

lemma amz_names_unreserved:
  "list_all (\<lambda>k. list_all unreserved k \<and> k \<noteq> ''X-Amz-Signature'')
     [''X-Amz-Algorithm'', ''X-Amz-Credential'', ''X-Amz-Date'', ''X-Amz-Expires'', ''X-Amz-SignedHeaders'']"
  by code_simp

text \<open>The signature's own parameters, and all of them in the order they are signed in.\<close>

definition amz_params :: "presign_params \<Rightarrow> (string \<times> string) list" where
  "amz_params p =
     [(''X-Amz-Algorithm'', ''AWS4-HMAC-SHA256''),
      (''X-Amz-Credential'', pp_access p @ ''/'' @ scope_of (fst (format_amz_time (pp_secs p))) (pp_region p)),
      (''X-Amz-Date'', snd (format_amz_time (pp_secs p))), (''X-Amz-Expires'', show_nat (pp_expires p)),
      (''X-Amz-SignedHeaders'', ''host'')]"

lemma query_of_amz: "query_of p = sort_key fst (amz_params p @ pp_extra p)"
  by (simp only: query_of_def amz_params_def Let_def split_beta)

lemma amz_params_facts:
  "distinct (map fst (amz_params p))" "list_all (\<lambda>kv. starts_with ''X-Amz-'' (fst kv)) (amz_params p)"
  "list_all (\<lambda>kv. list_all unreserved (fst kv) \<and> fst kv \<noteq> ''X-Amz-Signature'') (amz_params p)"
  using amz_names_unreserved by (simp_all add: amz_params_def starts_with_def)

lemma query_of_facts:
  assumes "multipart_query (pp_extra p)"
  shows "query_of p \<noteq> []" "list_all (\<lambda>kv. list_all unreserved (fst kv) \<and> fst kv \<noteq> ''X-Amz-Signature'') (query_of p)"
    "distinct (map fst (query_of p))" "filter (\<lambda>kv. \<not> starts_with ''X-Amz-'' (fst kv)) (query_of p) = sort_key fst (pp_extra p)"
proof -
  note e = multipart_query_facts [OF assms]
  show "query_of p \<noteq> []" by (simp add: query_of_amz amz_params_def)
  show "list_all (\<lambda>kv. list_all unreserved (fst kv) \<and> fst kv \<noteq> ''X-Amz-Signature'') (query_of p)"
    unfolding query_of_amz list_all_sort_key list_all_append using amz_params_facts(3) e by (simp only: list_all_iff) blast
  have "distinct (map fst (amz_params p @ pp_extra p))"
    using amz_params_facts(1,2) [of p] e assms by (fastforce simp: multipart_query_def list_all_iff)
  then show "distinct (map fst (query_of p))" by (simp only: query_of_amz distinct_map distinct_sort set_sort)
  have "filter (\<lambda>kv. \<not> starts_with ''X-Amz-'' (fst kv)) (amz_params p) = []"
    using amz_params_facts(2) by (simp add: filter_empty_conv list_all_iff)
  moreover have "filter (\<lambda>kv. \<not> starts_with ''X-Amz-'' (fst kv)) (pp_extra p) = pp_extra p"
    using e by (simp add: filter_id_conv)
  ultimately show "filter (\<lambda>kv. \<not> starts_with ''X-Amz-'' (fst kv)) (query_of p) = sort_key fst (pp_extra p)"
    by (simp only: query_of_amz filter_sort filter_append append_Nil)
qed

text \<open>Sorted by encoded name and value, the parameters stay in the client's order.\<close>

lemma query_of_resorted:
  assumes "multipart_query (pp_extra p)"
  shows "sort_key (\<lambda>kv. (uri_encode (fst kv), uri_encode (snd kv))) (query_of p) = query_of p"
proof -
  have u: "uri_encode (fst kv) = fst kv" if "kv \<in> set (query_of p)" for kv
    using query_of_facts(2) [OF assms] that
    by (simp add: list_all_iff uri_encode_component encode_uri_component_def encode_unreserved)
  have "sorted (map fst (query_of p))" unfolding query_of_amz by (rule sorted_sort_key)
  then have "sorted_wrt (\<lambda>a b. fst a < fst b) (query_of p)"
    using query_of_facts(3) [OF assms] by (simp add: strict_sorted_iff flip: sorted_wrt_map)
  then have "sorted_wrt (\<lambda>a b. (uri_encode (fst a), uri_encode (snd a)) \<le> (uri_encode (fst b), uri_encode (snd b))) (query_of p)"
    by (rule sorted_wrt_mono_rel [rotated]) (simp add: u less_eq_prod_def)
  then show ?thesis by (intro sort_key_id_if_sorted) (simp add: sorted_map)
qed

lemma map_of_query:
  assumes "multipart_query (pp_extra p)" "kv \<in> set (amz_params p)"
  shows "map_of (query_of p @ [(''X-Amz-Signature'', sig)]) (fst kv) = Some (snd kv)"
    and "map_of (query_of p @ [(''X-Amz-Signature'', sig)]) ''X-Amz-Signature'' = Some sig"
proof -
  have "kv \<in> set (query_of p)" using assms(2) by (simp only: query_of_amz set_sort set_append) blast
  then have "map_of (query_of p) (fst kv) = Some (snd kv)"
    using query_of_facts(3) [OF assms(1)] by (simp add: map_of_is_SomeI)
  then show "map_of (query_of p @ [(''X-Amz-Signature'', sig)]) (fst kv) = Some (snd kv)" by (simp only: map_of_append map_add_find_right)
  have "map_of (query_of p) ''X-Amz-Signature'' = None"
    using query_of_facts(2) [OF assms(1)] by (auto simp: map_of_eq_None_iff list_all_iff)
  then show "map_of (query_of p @ [(''X-Amz-Signature'', sig)]) ''X-Amz-Signature'' = Some sig" by (simp add: map_add_def)
qed

text \<open>
  C33: A URL the client presigns is one the store accepts, for that object and no other. The store is given by
  the specification in \<open>Sigv4\<close>, which shares no definition with the client. Let it know the client's access
  key, be the one the configuration is for, and receive the request from the second of signing until the
  URL expires, at most a week later (and before the year 10000). Then it accepts the URL for the method
  asked for, in the bucket of the configuration, for exactly the key asked for, whatever bytes that
  contains, and reads exactly the parameters of the multipart calls, for the GET, PUT, HEAD and DELETE
  URLs handed to guests and for the multipart calls.
\<close>

theorem presigned_url_verifies:
  assumes "configured_for site s" "multipart_query extra" "\<And>b. list_all unreserved (hex_of c b)"
    and "secrets (access_key_id s) = Some (secret_access_key s)"
    and "four_digit_year secs" "secs \<le> now" "now < secs + expires" "expires \<le> 604800"
  shows "sigv4_accepts c secrets site now method (presign_with_query c s method key expires secs extra)
     = Some (bucket s, key, sort_key fst extra)"
proof -
  obtain scheme host uri where a: "address s key = (scheme, host, uri)" by (metis prod.exhaust)
  note adr = address_found [OF assms(1) a]
  obtain u where u: "uri = CHR ''/'' # u" "CHR ''?'' \<notin> set u" using adr(3) by blast
  obtain d z where t: "format_amz_time secs = (d, z)" by (rule prod.exhaust)
  have st: "stamp_time now z = Some secs" "take 8 z = d" using stamp_time_format [OF assms(5,6)] t by simp_all
  define p where "p = \<lparr>pp_method = method, pp_scheme = scheme, pp_host = host, pp_uri = uri, pp_region = s3_region s,
            pp_access = access_key_id s, pp_secret = secret_access_key s, pp_secs = secs, pp_expires = expires,
            pp_extra = extra\<rparr>"
  have p: "multipart_query (pp_extra p)" "format_amz_time (pp_secs p) = (d, z)" using assms(2) t by (simp_all add: p_def)
  note q = query_of_facts [OF p(1)] query_of_resorted [OF p(1)]
  define sig where "sig = hex_of c (hmac_of c (signing_key c (secret_access_key s) d (s3_region s) ''s3'')
      (string_to_sign c z (scope_of d (s3_region s)) (canonical_request method uri (canonical_query (query_of p)) host)))"
  let ?ps = "query_of p @ [(''X-Amz-Signature'', sig)]"
  have url: "presign_with_query c s method key expires secs extra
      = scheme @ ''://'' @ host @ uri @ ''?'' @ canonical_query (query_of p) @ ''&X-Amz-Signature='' @ sig"
    by (simp add: presign_with_query_def a p_def [symmetric] presign_core_def p(2) sig_def)
      (simp add: p_def t Let_def)
  have tgt: "url_target (scheme @ ''://'' @ host @ uri @ ''?'' @ canonical_query (query_of p) @ ''&X-Amz-Signature='' @ sig)
      = (host, uri, canonical_query (query_of p) @ ''&X-Amz-Signature='' @ sig)"
    unfolding u(1) using adr(1,2) u(2) by (rule url_target_parts)
  have rp: "received_params (canonical_query (query_of p) @ ''&X-Amz-Signature='' @ sig) = ?ps"
    using q(1) assms(3) by (intro received_params_query) (simp_all add: sig_def)
  have fl: "filter (\<lambda>kv. fst kv \<noteq> ''X-Amz-Signature'') ?ps = query_of p"
    using q(2) by (simp add: filter_id_conv list_all_iff)
  have ex: "filter (\<lambda>kv. \<not> starts_with ''X-Amz-'' (fst kv)) ?ps = sort_key fst extra"
    using q(4) by (simp add: p_def starts_with_def)
  have cred: "split_on CHR ''/'' (access_key_id s @ ''/'' @ scope_of d (s3_region s))
      = [access_key_id s, d, s3_region s, ''s3'', ''aws4_request'']"
    using assms(1) amz_date_no_slash [of secs] by (intro split_credential) (simp_all add: configured_for_def t)
  note get = map_of_query(1) [OF p(1), of _ sig]
  have m: "map_of ?ps ''X-Amz-Algorithm'' = Some ''AWS4-HMAC-SHA256''" "map_of ?ps ''X-Amz-SignedHeaders'' = Some ''host''"
    "map_of ?ps ''X-Amz-Credential'' = Some (access_key_id s @ ''/'' @ scope_of d (s3_region s))"
    "map_of ?ps ''X-Amz-Date'' = Some z" "map_of ?ps ''X-Amz-Expires'' = Some (show_nat expires)" "map_of ?ps ''X-Amz-Signature'' = Some sig"
    using get [of "(''X-Amz-Algorithm'', ''AWS4-HMAC-SHA256'')"] get [of "(''X-Amz-SignedHeaders'', ''host'')"]
      get [of "(''X-Amz-Credential'', access_key_id s @ ''/'' @ scope_of d (s3_region s))"] get [of "(''X-Amz-Date'', z)"]
      get [of "(''X-Amz-Expires'', show_nat expires)"] map_of_query(2) [OF p(1), of "hd (amz_params p)"]
    by (simp_all add: amz_params_def p_def t)
  have sg: "store_signature c (secret_access_key s) z d (s3_region s) (store_canonical method uri (query_of p) host) = sig"
    by (simp only: store_signature_client store_canonical_request [OF adr(4)] sig_def)
  show ?thesis
    unfolding url sigv4_accepts_def tgt Let_def prod.case rp fl q(5) m ex
    by (simp add: cred [simplified] assms(4) st digits_value_show_nat adr(5) sg assms(6-8))
qed

definition demo_crypto :: crypto where
  "demo_crypto =
     \<lparr>sha256_of = rev, hmac_of = (\<lambda>k d. k @ d),
      hex_of = (\<lambda>bs. concat (map (\<lambda>b. [hex_upper (code b div 16), hex_upper (code b mod 16)]) bs))\<rparr>"

definition demo_s3 :: s3_config where
  "demo_s3 =
     \<lparr>bucket = ''dumps'', key_prefix = ''pool/'', configured_region = ''us-east-1'', discovered = None, endpoint = None,
      access_key_id = ''AK'', secret_access_key = ''SK''\<rparr>"

lemma demo_hex_unreserved: "list_all unreserved (hex_of demo_crypto bs)"
proof -
  have "code b div 16 < 16" for b using code_lt_256 [of b] by (simp add: less_mult_imp_div_less)
  then show ?thesis by (auto simp: demo_crypto_def list_all_iff unreserved_hex)
qed

lemma demo_four_digit: "four_digit_year 1369353600"
proof -
  have "(1369353600 :: nat) div 86400 = 15849" by simp
  then show ?thesis
    unfolding four_digit_year_def civil_from_unix_core by (simp add: civil_of_def yoe_of_def ystart_def month_day_def Let_def)
qed

theorem presigned_url_verifies_witness:
  "sigv4_accepts demo_crypto [''AK'' \<mapsto> ''SK''] None 1369353700 ''PUT''
       (presign_with_query demo_crypto demo_s3 ''PUT'' ''pool/my shop?.dump'' 600 1369353600
          [(''partNumber'', ''1''), (''uploadId'', ''a/b&c'')])
     = Some (''dumps'', ''pool/my shop?.dump'', sort_key fst [(''partNumber'', ''1''), (''uploadId'', ''a/b&c'')])
   \<and> sigv4_accepts demo_crypto [''AK'' \<mapsto> ''SK''] (Some ''minio:9000'') 1369353700 ''GET''
       (presign_with_query demo_crypto (demo_s3\<lparr>endpoint := Some ''http://minio:9000/''\<rparr>) ''GET'' ''pool/shop.dump'' 600 1369353600 [])
     = Some (''dumps'', ''pool/shop.dump'', [])"
proof -
  have m: "multipart_query [(''partNumber'', ''1''), (''uploadId'', ''a/b&c'')]" "multipart_query []"
    by (simp_all add: multipart_query_def)
  have b: "list_all unreserved ''dumps''" by code_simp
  then have a: "configured_for None demo_s3"
    by (simp add: configured_for_def demo_s3_def s3_region_def)
  have "served_at ''minio:9000'' ''http://minio:9000/''"
    by (auto simp: served_at_def intro: exI [of _ 1])
  with b have e: "configured_for (Some ''minio:9000'') (demo_s3\<lparr>endpoint := Some ''http://minio:9000/''\<rparr>)"
    by (simp add: configured_for_def demo_s3_def s3_region_def)
  show ?thesis
    using presigned_url_verifies [OF a m(1) demo_hex_unreserved _ demo_four_digit, where secrets = "[''AK'' \<mapsto> ''SK'']"]
      presigned_url_verifies [OF e m(2) demo_hex_unreserved _ demo_four_digit, where secrets = "[''AK'' \<mapsto> ''SK'']"]
    by (simp add: demo_s3_def)
qed

section \<open>Calls\<close>

record http_request =
  rq_method :: string
  rq_url :: string
  rq_body :: bytes

text \<open>A header is present only if its value is visible ASCII (\<open>to_str\<close>); names are lower case.\<close>

record http_response =
  rs_status :: nat
  rs_headers :: "string \<Rightarrow> string option"
  rs_body :: string

type_synonym http = "http_request \<Rightarrow> http_response option"

datatype s3_error =
    Transport
  | Bad_Status nat
  | Still_Redirected string string
  | No_Upload_Id
  | No_Etag
  | Not_Completed nat
  | Read_Error
  | Emptied_Out

definition is_success :: "nat \<Rightarrow> bool" where
  "is_success status \<longleftrightarrow> 200 \<le> status \<and> status < 300"

definition HEAD_PRESIGN_TTL :: u64 where
  "HEAD_PRESIGN_TTL = 60"

record object_id =
  etag :: string
  last_modified :: string
  content_length :: u64

datatype head = Found "object_id option" | Wrong_Region string

definition delete_object :: "crypto \<Rightarrow> u64 \<Rightarrow> http \<Rightarrow> s3_config \<Rightarrow> string \<Rightarrow> s3_error + unit" where
  "delete_object c now send s key =
     (case send \<lparr>rq_method = ''DELETE'', rq_url = presign c s ''DELETE'' key 60 now, rq_body = []\<rparr> of
        None \<Rightarrow> Inl Transport
      | Some r \<Rightarrow> if is_success (rs_status r) \<or> rs_status r = 404 then Inr () else Inl (Bad_Status (rs_status r)))"

definition object_of :: "http_response \<Rightarrow> object_id" where
  "object_of r =
     (let header = (\<lambda>name. case rs_headers r name of Some v \<Rightarrow> v | None \<Rightarrow> []) in
      \<lparr>etag = header ''etag'', last_modified = header ''last-modified'',
       content_length =
         (case rs_headers r ''content-length'' of
            None \<Rightarrow> 0
          | Some v \<Rightarrow> (case rust_parse_u64 (rust_trim v) of Some n \<Rightarrow> n | None \<Rightarrow> 0))\<rparr>)"

definition head_once :: "crypto \<Rightarrow> u64 \<Rightarrow> http \<Rightarrow> s3_config \<Rightarrow> string \<Rightarrow> s3_error + head" where
  "head_once c now send s key =
     (case send \<lparr>rq_method = ''HEAD'', rq_url = presign c s ''HEAD'' key HEAD_PRESIGN_TTL now, rq_body = []\<rparr> of
        None \<Rightarrow> Inl Transport
      | Some r \<Rightarrow>
          (case rs_headers r ''x-amz-bucket-region'' of
             Some actual \<Rightarrow>
               if actual \<noteq> s3_region s then Inr (Wrong_Region actual)
               else if rs_status r = 404 then Inr (Found None)
               else if \<not> is_success (rs_status r) then Inl (Bad_Status (rs_status r))
               else Inr (Found (Some (object_of r)))
           | None \<Rightarrow>
               if rs_status r = 404 then Inr (Found None)
               else if \<not> is_success (rs_status r) then Inl (Bad_Status (rs_status r))
               else Inr (Found (Some (object_of r)))))"

text \<open>\<open>OnceLock::set\<close>: the first value stays.\<close>

definition latch_region :: "string \<Rightarrow> s3_config \<Rightarrow> s3_config" where
  "latch_region actual s = (if discovered s = None then s\<lparr>discovered := Some actual\<rparr> else s)"

text \<open>
  Between the two HEADs another task may have latched a region: \<open>other\<close> is what it latched, if anything.
\<close>

definition head_object ::
  "crypto \<Rightarrow> u64 \<Rightarrow> u64 \<Rightarrow> http \<Rightarrow> http \<Rightarrow> string option \<Rightarrow> s3_config \<Rightarrow> string
     \<Rightarrow> (s3_error + object_id option) \<times> s3_config" where
  "head_object c now now' send send' other s key =
     (case head_once c now send s key of
        Inl e \<Rightarrow> (Inl e, s)
      | Inr (Found i) \<Rightarrow> (Inr i, s)
      | Inr (Wrong_Region actual) \<Rightarrow>
          (let s1 = (case other of Some r \<Rightarrow> latch_region r s | None \<Rightarrow> s);
               s2 = latch_region actual s1
           in case head_once c now' send' s2 key of
                Inl e \<Rightarrow> (Inl e, s2)
              | Inr (Found i) \<Rightarrow> (Inr i, s2)
              | Inr (Wrong_Region again) \<Rightarrow> (Inl (Still_Redirected actual again), s2)))"

definition put_object :: "crypto \<Rightarrow> u64 \<Rightarrow> http \<Rightarrow> s3_config \<Rightarrow> string \<Rightarrow> bytes \<Rightarrow> s3_error + unit" where
  "put_object c now send s key bs =
     (case send \<lparr>rq_method = ''PUT'', rq_url = presign c s ''PUT'' key 600 now, rq_body = bs\<rparr> of
        None \<Rightarrow> Inl Transport
      | Some r \<Rightarrow> if is_success (rs_status r) then Inr () else Inl (Bad_Status (rs_status r)))"

lemma head_once_found:
  assumes "head_once c now send s key = Inr (Found i)"
  shows "\<exists>r. send \<lparr>rq_method = ''HEAD'', rq_url = presign c s ''HEAD'' key HEAD_PRESIGN_TTL now, rq_body = []\<rparr> = Some r
            \<and> rs_headers r ''x-amz-bucket-region'' \<in> set [None, Some (s3_region s)]
            \<and> (case i of None \<Rightarrow> rs_status r = 404 | Some ob \<Rightarrow> is_success (rs_status r) \<and> ob = object_of r)"
  using assms by (auto simp: head_once_def split: option.splits if_splits)

lemma latch_region_keeps: "discovered s = None \<or> discovered (latch_region r s) = discovered s"
  by (simp add: latch_region_def)

lemma latch_region_twice: "discovered s = None \<or> discovered (latch_region q (latch_region r s)) = discovered s"
  by (simp add: latch_region_def)

text \<open>
  What a HEAD reports is what the store said of the bucket in its own region: an object is reported
  absent only on a 404 and present only on a success status, with that answer's length and tag, and only
  from a request signed for the region that is current afterwards and that the answer did not contradict;
  a redirect is never taken for a missing object. The region once learnt stays.
\<close>

theorem head_object_sound:
  assumes "head_object c now now' send send' other s key = (Inr i, s')"
  shows "(\<exists>r. \<exists>(t, sn) \<in> set [(now, send), (now', send')].
            sn \<lparr>rq_method = ''HEAD'', rq_url = presign c s' ''HEAD'' key HEAD_PRESIGN_TTL t, rq_body = []\<rparr> = Some r
            \<and> rs_headers r ''x-amz-bucket-region'' \<in> set [None, Some (s3_region s')]
            \<and> (case i of None \<Rightarrow> rs_status r = 404 | Some ob \<Rightarrow> is_success (rs_status r) \<and> ob = object_of r))
         \<and> (discovered s = None \<or> discovered s' = discovered s)"
proof (cases "head_once c now send s key")
  case (Inr h)
  show ?thesis
  proof (cases h)
    case (Found j)
    with Inr assms have "i = j" "s' = s" by (simp_all add: head_object_def)
    with head_once_found [of c now send s key j] Inr Found show ?thesis by (simp only: list.set) blast
  next
    case (Wrong_Region actual)
    define s2 where "s2 = latch_region actual (case other of Some r \<Rightarrow> latch_region r s | None \<Rightarrow> s)"
    from Inr Wrong_Region assms have e: "head_once c now' send' s2 key = Inr (Found i)" "s' = s2"
      by (auto simp: head_object_def Let_def s2_def split: sum.splits head.splits)
    have "discovered s = None \<or> discovered s2 = discovered s"
      using latch_region_keeps [of s actual] latch_region_twice [of s actual] by (simp add: s2_def split: option.split)
    with head_once_found [OF e(1)] e(2) show ?thesis by (simp only: list.set) blast
  qed
qed (use assms in \<open>simp add: head_object_def\<close>)

definition moved_bucket :: http where
  "moved_bucket rq =
     Some (if starts_with ''https://dumps.s3.eu-west-1.'' (rq_url rq)
           then \<lparr>rs_status = 200, rs_headers = [''content-length'' \<mapsto> ''700'', ''etag'' \<mapsto> ''e7''], rs_body = []\<rparr>
           else \<lparr>rs_status = 301, rs_headers = [''x-amz-bucket-region'' \<mapsto> ''eu-west-1''], rs_body = []\<rparr>)"

lemma presign_aws_prefix: "endpoint s = None \<Longrightarrow> \<exists>rest. presign c s m k e t = ''https://'' @ aws_host s @ ''/'' @ rest"
  unfolding presign_def presign_with_query_def address_def presign_core_def Let_def split_beta by simp

lemma demo_length: "content_length (object_of \<lparr>rs_status = 200, rs_headers = [''content-length'' \<mapsto> ''700'', ''etag'' \<mapsto> ''e7''], rs_body = []\<rparr>) = 700"
proof -
  have "rust_trim ''700'' = ''700''" by (rule rust_trim_ends) (simp_all add: is_ascii_graphic_def code_def)
  moreover have "rust_parse_u64 ''700'' = Some 700"
    by (rule rust_parse_u64_digits) (auto simp: is_ascii_digit_def code_def)
  ultimately show ?thesis by (simp add: object_of_def)
qed

theorem head_object_sound_witness:
  "\<exists>i s'. head_object demo_crypto 0 1 moved_bucket moved_bucket None demo_s3 ''pool/shop.dump'' = (Inr (Some i), s')
     \<and> s3_region s' = ''eu-west-1'' \<and> content_length i = 700 \<and> (discovered demo_s3 = None \<or> discovered s' = discovered demo_s3)"
proof -
  let ?s = "demo_s3\<lparr>discovered := Some ''eu-west-1''\<rparr>"
  have e: "endpoint demo_s3 = None" "endpoint ?s = None" by (simp_all add: demo_s3_def)
  obtain u where u: "presign demo_crypto demo_s3 ''HEAD'' ''pool/shop.dump'' HEAD_PRESIGN_TTL 0 = ''https://'' @ aws_host demo_s3 @ ''/'' @ u"
    using presign_aws_prefix [OF e(1)] by blast
  obtain v where v: "presign demo_crypto ?s ''HEAD'' ''pool/shop.dump'' HEAD_PRESIGN_TTL 1 = ''https://'' @ aws_host ?s @ ''/'' @ v"
    using presign_aws_prefix [OF e(2)] by blast
  define ob where "ob = object_of \<lparr>rs_status = 200, rs_headers = [''content-length'' \<mapsto> ''700'', ''etag'' \<mapsto> ''e7''], rs_body = []\<rparr>"
  have l: "content_length ob = 700" unfolding ob_def by (rule demo_length)
  have m: "moved_bucket \<lparr>rq_method = ''HEAD'', rq_url = ''https://'' @ aws_host demo_s3 @ ''/'' @ u, rq_body = []\<rparr>
      = Some \<lparr>rs_status = 301, rs_headers = [''x-amz-bucket-region'' \<mapsto> ''eu-west-1''], rs_body = []\<rparr>"
    by (simp add: moved_bucket_def aws_host_def demo_s3_def s3_region_def starts_with_def)
  have n: "moved_bucket \<lparr>rq_method = ''HEAD'', rq_url = ''https://'' @ aws_host ?s @ ''/'' @ v, rq_body = []\<rparr>
      = Some \<lparr>rs_status = 200, rs_headers = [''content-length'' \<mapsto> ''700'', ''etag'' \<mapsto> ''e7''], rs_body = []\<rparr>"
    by (simp add: moved_bucket_def aws_host_def demo_s3_def s3_region_def starts_with_def)
  have r: "s3_region demo_s3 = ''us-east-1''" "s3_region ?s = ''eu-west-1''" by (simp_all add: s3_region_def demo_s3_def)
  have "head_once demo_crypto 0 moved_bucket demo_s3 ''pool/shop.dump'' = Inr (Wrong_Region ''eu-west-1'')"
    unfolding head_once_def u m by (simp add: r)
  moreover have "head_once demo_crypto 1 moved_bucket ?s ''pool/shop.dump'' = Inr (Found (Some ob))"
    unfolding head_once_def v n by (simp add: r is_success_def ob_def)
  moreover have "latch_region ''eu-west-1'' demo_s3 = ?s" by (simp add: latch_region_def demo_s3_def)
  ultimately have h: "head_object demo_crypto 0 1 moved_bucket moved_bucket None demo_s3 ''pool/shop.dump'' = (Inr (Some ob), ?s)"
    by (simp add: head_object_def)
  show ?thesis
    by (rule exI [of _ ob], rule exI [of _ ?s], intro conjI, rule h, rule r(2), rule l, rule conjunct2 [OF head_object_sound [OF h]])
qed

section \<open>Multipart uploads\<close>

text \<open>\<open>str::find\<close>: the first position where the pattern starts.\<close>

fun find_sub :: "string \<Rightarrow> string \<Rightarrow> nat option" where
  "find_sub p [] = (if p = [] then Some 0 else None)"
| "find_sub p (c # cs) = (if starts_with p (c # cs) then Some 0 else map_option Suc (find_sub p cs))"

definition xml_text :: "string \<Rightarrow> string \<Rightarrow> string option" where
  "xml_text body tag =
     (let open_tag = ''<'' @ tag @ ''>''; close_tag = ''</'' @ tag @ ''>''
      in case find_sub open_tag body of
           None \<Rightarrow> None
         | Some i \<Rightarrow>
             (let rest = drop (i + length open_tag) body
              in map_option (\<lambda>j. rust_trim (take j rest)) (find_sub close_tag rest)))"

definition contains_sub :: "string \<Rightarrow> string \<Rightarrow> bool" where
  "contains_sub p s \<longleftrightarrow> find_sub p s \<noteq> None"

definition initiate_request :: "crypto \<Rightarrow> u64 \<Rightarrow> s3_config \<Rightarrow> string \<Rightarrow> http_request" where
  "initiate_request c now s key =
     \<lparr>rq_method = ''POST'', rq_url = presign_with_query c s ''POST'' key 600 now [(''uploads'', '''')], rq_body = []\<rparr>"

definition initiate_multipart :: "crypto \<Rightarrow> u64 \<Rightarrow> http \<Rightarrow> s3_config \<Rightarrow> string \<Rightarrow> s3_error + string" where
  "initiate_multipart c now send s key =
     (case send (initiate_request c now s key) of
        None \<Rightarrow> Inl Transport
      | Some r \<Rightarrow>
          if \<not> is_success (rs_status r) then Inl (Bad_Status (rs_status r))
          else (case xml_text (rs_body r) ''UploadId'' of None \<Rightarrow> Inl No_Upload_Id | Some i \<Rightarrow> Inr i))"

definition part_request :: "crypto \<Rightarrow> u64 \<Rightarrow> s3_config \<Rightarrow> string \<Rightarrow> string \<Rightarrow> nat \<Rightarrow> bytes \<Rightarrow> http_request" where
  "part_request c now s key upload_id part_number bs =
     \<lparr>rq_method = ''PUT'',
      rq_url = presign_with_query c s ''PUT'' key 3600 now [(''partNumber'', show_nat part_number), (''uploadId'', upload_id)],
      rq_body = bs\<rparr>"

definition upload_part ::
  "crypto \<Rightarrow> u64 \<Rightarrow> http \<Rightarrow> s3_config \<Rightarrow> string \<Rightarrow> string \<Rightarrow> nat \<Rightarrow> bytes \<Rightarrow> s3_error + string" where
  "upload_part c now send s key upload_id part_number bs =
     (case send (part_request c now s key upload_id part_number bs) of
        None \<Rightarrow> Inl Transport
      | Some r \<Rightarrow>
          if \<not> is_success (rs_status r) then Inl (Bad_Status (rs_status r))
          else (case rs_headers r ''etag'' of None \<Rightarrow> Inl No_Etag | Some e \<Rightarrow> Inr e))"

definition part_xml :: "nat \<times> string \<Rightarrow> string" where
  "part_xml p = ''<Part><PartNumber>'' @ show_nat (fst p) @ ''</PartNumber><ETag>'' @ snd p @ ''</ETag></Part>''"

definition complete_xml :: "(nat \<times> string) list \<Rightarrow> string" where
  "complete_xml parts = ''<CompleteMultipartUpload>'' @ concat (map part_xml parts) @ ''</CompleteMultipartUpload>''"

definition complete_request :: "crypto \<Rightarrow> u64 \<Rightarrow> s3_config \<Rightarrow> string \<Rightarrow> string \<Rightarrow> (nat \<times> string) list \<Rightarrow> http_request" where
  "complete_request c now s key upload_id parts =
     \<lparr>rq_method = ''POST'', rq_url = presign_with_query c s ''POST'' key 600 now [(''uploadId'', upload_id)],
      rq_body = complete_xml parts\<rparr>"

definition complete_multipart ::
  "crypto \<Rightarrow> u64 \<Rightarrow> http \<Rightarrow> s3_config \<Rightarrow> string \<Rightarrow> string \<Rightarrow> (nat \<times> string) list \<Rightarrow> s3_error + unit" where
  "complete_multipart c now send s key upload_id parts =
     (case send (complete_request c now s key upload_id parts) of
        None \<Rightarrow> Inl Transport
      | Some r \<Rightarrow>
          if is_success (rs_status r) \<and> contains_sub ''CompleteMultipartUploadResult'' (rs_body r) then Inr ()
          else Inl (Not_Completed (rs_status r)))"

definition abort_request :: "crypto \<Rightarrow> u64 \<Rightarrow> s3_config \<Rightarrow> string \<Rightarrow> string \<Rightarrow> http_request" where
  "abort_request c now s key upload_id =
     \<lparr>rq_method = ''DELETE'', rq_url = presign_with_query c s ''DELETE'' key 60 now [(''uploadId'', upload_id)], rq_body = []\<rparr>"

section \<open>Uploading a file\<close>

text \<open>
  \<open>upload_file\<close> of \<open>src/src/imgarchive.rs\<close>. The file is the bytes still unread; a \<open>read\<close> into a buffer with
  room for \<open>want\<close> bytes fails (\<open>None\<close>) or returns any number of bytes from one up to what fits, chosen by
  \<open>rd\<close> from the bytes left, and none only at the end. \<open>net\<close> and \<open>clock\<close> give the network and the time at the
  n-th request, so answers may change from one request to the next. The result comes with the requests
  sent, in order.
\<close>

definition SINGLE_PUT_MAX :: u64 where
  "SINGLE_PUT_MAX = 100 * 1024 * 1024"

definition PART_SIZE :: u64 where
  "PART_SIZE = 64 * 1024 * 1024"

definition read_count :: "nat \<Rightarrow> nat \<Rightarrow> nat \<Rightarrow> nat" where
  "read_count n want left = max 1 (min n (min want left))"

function fill :: "(nat \<Rightarrow> nat option) \<Rightarrow> nat \<Rightarrow> bytes \<Rightarrow> (bytes \<times> bytes) option" where
  "fill rd want rest =
     (if want = 0 \<or> rest = [] then Some ([], rest)
      else case rd (length rest) of
             None \<Rightarrow> None
           | Some n \<Rightarrow>
               (let k = read_count n want (length rest)
                in map_option (\<lambda>(got, rest'). (take k rest @ got, rest')) (fill rd (want - k) (drop k rest))))"
  by pat_completeness auto
termination
  by (relation "measure (\<lambda>(rd, want, rest). want)") (auto simp: read_count_def)

declare fill.simps [simp del]

function upload_loop ::
  "crypto \<Rightarrow> (nat \<Rightarrow> u64) \<Rightarrow> (nat \<Rightarrow> http) \<Rightarrow> (nat \<Rightarrow> nat option) \<Rightarrow> s3_config \<Rightarrow> string \<Rightarrow> string \<Rightarrow> nat
     \<Rightarrow> (nat \<times> string) list \<Rightarrow> bytes \<Rightarrow> (s3_error + (nat \<times> string) list) \<times> http_request list" where
  "upload_loop c clock net rd s key upload_id part_size parts rest =
     (case fill rd part_size rest of
        None \<Rightarrow> (Inl Read_Error, [])
      | Some (buf, rest') \<Rightarrow>
          if buf = [] then (Inr parts, [])
          else
            (let n = length parts + 1;
                 rq = part_request c (clock n) s key upload_id n buf
             in case upload_part c (clock n) (net n) s key upload_id n buf of
                  Inl e \<Rightarrow> (Inl e, [rq])
                | Inr tag \<Rightarrow>
                    if length buf < part_size then (Inr (parts @ [(n, tag)]), [rq])
                    else map_prod (\<lambda>x. x) (Cons rq)
                           (upload_loop c clock net rd s key upload_id part_size (parts @ [(n, tag)]) rest')))"
  by pat_completeness auto

lemma fill_take: "fill rd want rest = Some (got, rest') \<Longrightarrow> got = take want rest \<and> rest' = drop want rest"
proof (induction rd want rest arbitrary: got rest' rule: fill.induct)
  case (1 rd want rest)
  show ?case
  proof (cases "want = 0 \<or> rest = []")
    case True
    then show ?thesis using "1.prems" by (auto simp: fill.simps [of rd want rest])
  next
    case False
    then obtain n where n: "rd (length rest) = Some n" using "1.prems" by (auto simp: fill.simps [of rd want rest] split: option.splits)
    define k where "k = read_count n want (length rest)"
    have k: "k \<le> want" using False by (cases "length rest") (auto simp: k_def read_count_def)
    obtain g where g: "fill rd (want - k) (drop k rest) = Some (g, rest')" "got = take k rest @ g"
      using False n "1.prems" by (auto simp: fill.simps [of rd want rest] k_def Let_def)
    from "1.IH" [OF False n k_def g(1)] g(2) k show ?thesis by (metis drop_drop le_add_diff_inverse take_add add.commute)
  qed
qed

termination upload_loop
  by (relation "measure (\<lambda>(c, clock, net, rd, s, key, upload_id, part_size, parts, rest). length rest)")
    (auto dest: fill_take)

declare upload_loop.simps [simp del]

definition upload_parts ::
  "crypto \<Rightarrow> (nat \<Rightarrow> u64) \<Rightarrow> (nat \<Rightarrow> http) \<Rightarrow> (nat \<Rightarrow> nat option) \<Rightarrow> s3_config \<Rightarrow> string \<Rightarrow> string \<Rightarrow> nat
     \<Rightarrow> bytes option \<Rightarrow> (s3_error + unit) \<times> http_request list" where
  "upload_parts c clock net rd s key upload_id part_size file_bytes =
     (case file_bytes of
        None \<Rightarrow> (Inl Read_Error, [])
      | Some bs \<Rightarrow>
          (case upload_loop c clock net rd s key upload_id part_size [] bs of
             (Inl e, rqs) \<Rightarrow> (Inl e, rqs)
           | (Inr parts, rqs) \<Rightarrow>
               if parts = [] then (Inl Emptied_Out, rqs)
               else (let n = length parts + 1
                     in (complete_multipart c (clock n) (net n) s key upload_id parts,
                         rqs @ [complete_request c (clock n) s key upload_id parts]))))"

definition upload_file ::
  "crypto \<Rightarrow> (nat \<Rightarrow> u64) \<Rightarrow> (nat \<Rightarrow> http) \<Rightarrow> (nat \<Rightarrow> nat option) \<Rightarrow> s3_config \<Rightarrow> string \<Rightarrow> bytes option
     \<Rightarrow> u64 \<Rightarrow> nat \<Rightarrow> nat \<Rightarrow> (s3_error + unit) \<times> http_request list" where
  "upload_file c clock net rd s key file_bytes len part_size single_put_max =
     (if len \<le> single_put_max
      then (case file_bytes of
              None \<Rightarrow> (Inl Read_Error, [])
            | Some bs \<Rightarrow> (put_object c (clock 0) (net 0) s key bs,
                          [\<lparr>rq_method = ''PUT'', rq_url = presign c s ''PUT'' key 600 (clock 0), rq_body = bs\<rparr>]))
      else (case initiate_multipart c (clock 0) (net 0) s key of
              Inl e \<Rightarrow> (Inl e, [initiate_request c (clock 0) s key])
            | Inr upload_id \<Rightarrow>
                (let (res, rqs) = upload_parts c clock net rd s key upload_id part_size file_bytes
                 in (res, initiate_request c (clock 0) s key # rqs
                          @ (case res of Inl _ \<Rightarrow> [abort_request c (clock (length rqs + 1)) s key upload_id] | Inr _ \<Rightarrow> [])))))"

definition upload_path ::
  "crypto \<Rightarrow> (nat \<Rightarrow> u64) \<Rightarrow> (nat \<Rightarrow> http) \<Rightarrow> (nat \<Rightarrow> nat option) \<Rightarrow> s3_config \<Rightarrow> string \<Rightarrow> bytes option
     \<Rightarrow> u64 \<Rightarrow> (s3_error + unit) \<times> http_request list" where
  "upload_path c clock net rd s key file_bytes len =
     upload_file c clock net rd s key file_bytes len PART_SIZE SINGLE_PUT_MAX"

text \<open>What the loop sent and got when it succeeds: consecutive part numbers, each with its buffer and tag.\<close>

definition sent_parts ::
  "crypto \<Rightarrow> (nat \<Rightarrow> u64) \<Rightarrow> (nat \<Rightarrow> http) \<Rightarrow> s3_config \<Rightarrow> string \<Rightarrow> string \<Rightarrow> nat \<Rightarrow> bytes list \<Rightarrow> string list \<Rightarrow> bool" where
  "sent_parts c clock net s key upload_id n bufs tags \<longleftrightarrow>
     length tags = length bufs
     \<and> list_all (\<lambda>(i, b, t). upload_part c (clock i) (net i) s key upload_id i b = Inr t) (enumerate n (zip bufs tags))"

lemma upload_loop_ok:
  assumes "upload_loop c clock net rd s key upload_id part_size parts rest = (Inr parts', rqs)" "0 < part_size"
  shows "\<exists>bufs tags. concat bufs = rest \<and> sent_parts c clock net s key upload_id (Suc (length parts)) bufs tags
    \<and> list_all (\<lambda>b. length b = part_size) (butlast bufs) \<and> list_all (\<lambda>b. b \<noteq> [] \<and> length b \<le> part_size) bufs
    \<and> parts' = parts @ enumerate (Suc (length parts)) tags
    \<and> rqs = map (\<lambda>(i, b). part_request c (clock i) s key upload_id i b) (enumerate (Suc (length parts)) bufs)"
  using assms
proof (induction c clock net rd s key upload_id part_size parts rest arbitrary: parts' rqs rule: upload_loop.induct)
  case (1 c clock net rd s key upload_id part_size parts rest)
  obtain buf rest' where f: "fill rd part_size rest = Some (buf, rest')"
    using "1.prems"(1) by (subst (asm) upload_loop.simps) (auto split: option.splits)
  note b = fill_take [OF f]
  note def = upload_loop.simps [of c clock net rd s key upload_id part_size parts rest]
  let ?n = "length parts + 1"
  show ?case
  proof (cases "buf = []")
    case True
    then have "parts' = parts" "rqs = []" using "1.prems"(1) by (simp_all add: def f)
    moreover have "rest = []" using True b "1.prems"(2) by auto
    ultimately show ?thesis by (intro exI [of _ "[]"]) (simp add: sent_parts_def)
  next
    case False
    obtain tag where t: "upload_part c (clock ?n) (net ?n) s key upload_id ?n buf = Inr tag"
      using "1.prems"(1) False by (auto simp: def f Let_def split: sum.splits)
    show ?thesis
    proof (cases "length buf < part_size")
      case True
      then have "parts' = parts @ [(?n, tag)]" "rqs = [part_request c (clock ?n) s key upload_id ?n buf]"
        using "1.prems"(1) False t by (simp_all add: def f)
      moreover have "rest = buf" using b True by (auto simp: min_def split: if_splits)
      ultimately show ?thesis using False True t by (intro exI [of _ "[buf]"] exI [of _ "[tag]"]) (simp add: sent_parts_def)
    next
      case full: False
      obtain rqs' where r: "upload_loop c clock net rd s key upload_id part_size (parts @ [(?n, tag)]) rest' = (Inr parts', rqs')"
        "rqs = part_request c (clock ?n) s key upload_id ?n buf # rqs'"
        using "1.prems"(1) False full t
        by (cases "upload_loop c clock net rd s key upload_id part_size (parts @ [(?n, tag)]) rest'") (simp add: def f)
      obtain bufs tags where IH: "concat bufs = rest'" "sent_parts c clock net s key upload_id (Suc ?n) bufs tags"
        "list_all (\<lambda>b. length b = part_size) (butlast bufs)" "list_all (\<lambda>b. b \<noteq> [] \<and> length b \<le> part_size) bufs"
        "parts' = (parts @ [(?n, tag)]) @ enumerate (Suc ?n) tags"
        "rqs' = map (\<lambda>(i, b). part_request c (clock i) s key upload_id i b) (enumerate (Suc ?n) bufs)"
        using "1.IH" [OF f refl False refl refl t full r(1) "1.prems"(2)] by auto
      have "length buf = part_size" "rest = buf @ rest'" using full b by auto
      then show ?thesis
        using IH r(2) t False by (intro exI [of _ "buf # bufs"] exI [of _ "tag # tags"]) (simp add: sent_parts_def)
    qed
  qed
qed

text \<open>
  C34: A file reported uploaded was sent whole. Either one PUT carried all its bytes, or the multipart calls
  carried consecutive numbered parts whose bodies, in order, are exactly the file, each part but the last
  of the full part size, and the completion named each part with the tag the store had answered for it;
  short reads, whatever their sizes, never lose or reorder a byte.
\<close>

theorem upload_file_sends_file:
  assumes "upload_file c clock net rd s key file_bytes len part_size single_put_max = (Inr (), rqs)"
  shows "\<exists>bs. file_bytes = Some bs
    \<and> (rqs = [\<lparr>rq_method = ''PUT'', rq_url = presign c s ''PUT'' key 600 (clock 0), rq_body = bs\<rparr>]
       \<or> (\<exists>upload_id bufs tags.
            concat bufs = bs \<and> list_all (\<lambda>b. length b = part_size) (butlast bufs)
            \<and> sent_parts c clock net s key upload_id 1 bufs tags
            \<and> rqs = initiate_request c (clock 0) s key
                     # map (\<lambda>(i, b). part_request c (clock i) s key upload_id i b) (enumerate 1 bufs)
                     @ [complete_request c (clock (length bufs + 1)) s key upload_id (enumerate 1 tags)]))"
proof (cases "len \<le> single_put_max")
  case True
  then show ?thesis using assms by (auto simp: upload_file_def split: option.splits)
next
  case False
  then obtain upload_id rqs' where u: "upload_parts c clock net rd s key upload_id part_size file_bytes = (Inr (), rqs')"
    "rqs = initiate_request c (clock 0) s key # rqs'"
    using assms by (auto simp: upload_file_def split: sum.splits prod.splits)
  obtain bs parts rq where l: "file_bytes = Some bs"
    "upload_loop c clock net rd s key upload_id part_size [] bs = (Inr parts, rq)" "parts \<noteq> []"
    "rqs' = rq @ [complete_request c (clock (length parts + 1)) s key upload_id parts]"
    using u(1) by (auto simp: upload_parts_def Let_def split: option.splits prod.splits sum.splits if_splits)
  have "0 < part_size"
    using l(2,3) by (cases "part_size = 0") (auto simp: upload_loop.simps [of c clock net rd s key upload_id 0] fill.simps [of rd 0])
  from upload_loop_ok [OF l(2) this] obtain bufs tags where o: "concat bufs = bs"
    "sent_parts c clock net s key upload_id 1 bufs tags" "list_all (\<lambda>b. length b = part_size) (butlast bufs)"
    "parts = enumerate 1 tags" "rq = map (\<lambda>(i, b). part_request c (clock i) s key upload_id i b) (enumerate 1 bufs)"
    by auto
  have n: "length parts = length bufs" using o(2,4) by (simp add: sent_parts_def)
  show ?thesis
    by (rule exI [of _ bs], rule conjI [OF l(1)], rule disjI2, rule exI [of _ upload_id], rule exI [of _ bufs],
        rule exI [of _ tags]) (use o n l(4) u(2) in simp)
qed

text \<open>
  A multipart upload that was started and failed is aborted, with the last request.
\<close>

lemma upload_file_aborts:
  assumes "initiate_multipart c (clock 0) (net 0) s key = Inr upload_id" "single_put_max < len"
    and "upload_file c clock net rd s key file_bytes len part_size single_put_max = (Inl e, rqs)"
  shows "\<exists>t. last rqs = abort_request c t s key upload_id"
  using assms by (auto simp: upload_file_def split: prod.splits)

definition demo_net :: "nat \<Rightarrow> http" where
  "demo_net n rq =
     Some (if n = 0 then \<lparr>rs_status = 200, rs_headers = Map.empty, rs_body = ''<UploadId>u7</UploadId>''\<rparr>
           else if rq_method rq = ''PUT'' then \<lparr>rs_status = 200, rs_headers = [''etag'' \<mapsto> show_nat n], rs_body = []\<rparr>
           else \<lparr>rs_status = 200, rs_headers = Map.empty, rs_body = ''<CompleteMultipartUploadResult/>''\<rparr>)"

lemma demo_initiate: "initiate_multipart c t (demo_net 0) s k = Inr ''u7''"
proof -
  have "rust_trim ''u7'' = ''u7''" by (rule rust_trim_ends) (simp_all add: is_ascii_graphic_def code_def)
  then show ?thesis
    by (simp add: initiate_multipart_def demo_net_def is_success_def xml_text_def starts_with_def Let_def)
qed

lemma demo_part: "0 < n \<Longrightarrow> upload_part c t (demo_net n) s k u n bs = Inr (show_nat n)"
  by (simp add: upload_part_def part_request_def demo_net_def is_success_def)

lemma demo_complete: "0 < n \<Longrightarrow> complete_multipart c t (demo_net n) s k u ps = Inr ()"
  by (simp add: complete_multipart_def complete_request_def demo_net_def is_success_def contains_sub_def starts_with_def)

lemma fill_reads: "(\<And>n. rd n \<noteq> None) \<Longrightarrow> fill rd want rest = Some (take want rest, drop want rest)"
proof -
  assume "\<And>n. rd n \<noteq> None"
  then have "\<exists>x. fill rd want rest = Some x"
  proof (induction rd want rest rule: fill.induct)
    case (1 rd want rest)
    obtain n where n: "rd (length rest) = Some n" using "1.prems" by blast
    show ?case
    proof (cases "want = 0 \<or> rest = []")
      case False
      from "1.IH" [OF False n refl "1.prems"] show ?thesis using False n by (subst fill.simps) (auto simp: Let_def)
    qed (simp add: fill.simps)
  qed
  then show ?thesis using fill_take by (metis prod.exhaust)
qed

lemma demo_loop:
  "upload_loop c clock demo_net (\<lambda>_. Some (Suc 0)) s k u 2 [] ''abcde''
     = (Inr (enumerate 1 [''1'', ''2'', ''3'']),
        map (\<lambda>(i, b). part_request c (clock i) s k u i b) (enumerate 1 [''ab'', ''cd'', ''e'']))"
  by (subst upload_loop.simps, subst upload_loop.simps, subst upload_loop.simps)
    (simp add: fill_reads demo_part show_nat.simps digit_char_def, code_simp)

theorem upload_file_sends_file_witness:
  "\<exists>rqs bs. upload_file demo_crypto id demo_net (\<lambda>_. Some (Suc 0)) demo_s3 ''k'' (Some ''abcde'') 5 2 3 = (Inr (), rqs)
     \<and> Some ''abcde'' = Some bs
     \<and> (rqs = [\<lparr>rq_method = ''PUT'', rq_url = presign demo_crypto demo_s3 ''PUT'' ''k'' 600 (id 0), rq_body = bs\<rparr>]
       \<or> (\<exists>upload_id bufs tags.
            concat bufs = bs \<and> list_all (\<lambda>b. length b = 2) (butlast bufs)
            \<and> sent_parts demo_crypto id demo_net demo_s3 ''k'' upload_id 1 bufs tags
            \<and> rqs = initiate_request demo_crypto (id 0) demo_s3 ''k''
                     # map (\<lambda>(i, b). part_request demo_crypto (id i) demo_s3 ''k'' upload_id i b) (enumerate 1 bufs)
                     @ [complete_request demo_crypto (id (length bufs + 1)) demo_s3 ''k'' upload_id (enumerate 1 tags)]))"
proof -
  have "\<exists>rqs. upload_file demo_crypto id demo_net (\<lambda>_. Some (Suc 0)) demo_s3 ''k'' (Some ''abcde'') 5 2 3 = (Inr (), rqs)"
    by (simp add: upload_file_def demo_initiate upload_parts_def demo_loop demo_complete)
  then obtain rqs where r: "upload_file demo_crypto id demo_net (\<lambda>_. Some (Suc 0)) demo_s3 ''k'' (Some ''abcde'') 5 2 3 = (Inr (), rqs)" ..
  from upload_file_sends_file [OF r] r show ?thesis by blast
qed

end
