(* ===== verification/Bringup.thy ===== *)
theory Bringup
  imports Spares Quoting S3_Sign
begin

text \<open>
  Bring-up of a schema's VM, from \<open>src/src/vm.rs\<close>: the retry and readiness loops against the daemon,
  the resolution of a schema to a VM (\<open>resolve_sandbox\<close>), what \<open>ensure_vm\<close> does with the VM of a failed
  attempt, and the loops that decide whether a dump has become durable (\<open>await_archive\<close>,
  \<open>upload_dump_to_s3\<close>). The daemon and the object store are parameters: each function takes the answers
  it is given.
\<close>

section \<open>Retries and readiness\<close>

datatype daemon_error = Api_Error nat | Not_Found_Error | Other_Error

definition transient :: "daemon_error \<Rightarrow> bool" where
  "transient e = (case e of Api_Error status \<Rightarrow> status = 0 \<or> 500 \<le> status | _ \<Rightarrow> False)"

text \<open>The answers of the successive attempts; \<open>fuel\<close> counts the attempts left, four at first.\<close>

fun daemon_retry :: "nat \<Rightarrow> (daemon_error + 'a) list \<Rightarrow> (daemon_error + 'a) option" where
  "daemon_retry fuel [] = None"
| "daemon_retry fuel (ans # rest) =
     (case ans of
        Inr v \<Rightarrow> Some (Inr v)
      | Inl e \<Rightarrow> if 1 < fuel \<and> transient e then daemon_retry (fuel - 1) rest else Some (Inl e))"

definition with_daemon_retry :: "(daemon_error + 'a) list \<Rightarrow> (daemon_error + 'a) option" where
  "with_daemon_retry answers = daemon_retry 4 answers"

lemma daemon_retry_terminates: "fuel \<le> length answers \<Longrightarrow> 1 \<le> fuel \<Longrightarrow> daemon_retry fuel answers \<noteq> None"
  by (induction fuel answers rule: daemon_retry.induct) (auto split: sum.splits)

lemma daemon_retry_ok: "daemon_retry fuel answers = Some (Inr v) \<Longrightarrow> Inr v \<in> set (take fuel answers) \<or> fuel = 0"
proof (induction fuel answers rule: daemon_retry.induct)
  case (2 fuel ans rest)
  then show ?case by (cases fuel) (auto split: sum.splits if_splits)
qed simp

text \<open>
  \<open>wait_ready_within\<close> over the successive polls, each with the time since the start and the answer.
\<close>

datatype sandbox_status = Running | Provisioning | Failed | Unknown | Settled
datatype ready_answer = Ready_Status sandbox_status | Ready_Error daemon_error
datatype ready_result = Ready_Ok | Ready_Failed | Ready_Vanished | Ready_Timeout

fun wait_ready_within :: "nat \<Rightarrow> nat \<Rightarrow> nat option \<Rightarrow> (nat \<times> ready_answer) list \<Rightarrow> ready_result option" where
  "wait_ready_within timeout grace missing [] = None"
| "wait_ready_within timeout grace missing ((t, ans) # rest) =
     (let again = (\<lambda>m. if timeout \<le> t then Some Ready_Timeout else wait_ready_within timeout grace m rest)
      in case ans of
           Ready_Status s \<Rightarrow>
             (case s of Running \<Rightarrow> Some Ready_Ok | Failed \<Rightarrow> Some Ready_Failed
              | Settled \<Rightarrow> Some Ready_Ok | Provisioning \<Rightarrow> again None | Unknown \<Rightarrow> again None)
         | Ready_Error e \<Rightarrow>
             if e = Not_Found_Error
             then (let since = (case missing of None \<Rightarrow> t | Some m \<Rightarrow> m)
                   in if grace \<le> t - since then Some Ready_Vanished else again (Some since))
             else again None)"

text \<open>The wait ends by its deadline: a poll at or after it always gives a result.\<close>

lemma wait_ready_bounded:
  "(\<exists>(t, a) \<in> set polls. timeout \<le> t) \<Longrightarrow> wait_ready_within timeout grace missing polls \<noteq> None"
  by (induction timeout grace missing polls rule: wait_ready_within.induct)
    (auto simp: Let_def split: ready_answer.splits sandbox_status.splits)

text \<open>A VM counts as ready only on the daemon's word that it is running or settled.\<close>

lemma wait_ready_sound:
  "wait_ready_within timeout grace missing polls = Some Ready_Ok \<Longrightarrow>
     \<exists>t. (t, Ready_Status Running) \<in> set polls \<or> (t, Ready_Status Settled) \<in> set polls"
  by (induction timeout grace missing polls rule: wait_ready_within.induct)
    (fastforce simp: Let_def split: ready_answer.splits sandbox_status.splits if_splits option.splits)+

section \<open>Finding the VM\<close>

datatype provenance = Existing | Spare | Created
datatype start_answer = Start_Ok | Start_Not_Found | Start_Error
datatype up_result = Up_Ok | Up_Gone | Up_Error

text \<open>
  The daemon during one bring-up: \<open>Sandbox::connect\<close>, \<open>start\<close> and the readiness wait per id, the by-name
  query (its rows as \<open>(name, id)\<close>, or a failure after the retries), the create call, and the kill of a
  half-built VM. The pool's own daemon answers are a \<open>daemon\<close>.
\<close>

record bringup_daemon =
  b_connect :: "string \<Rightarrow> bool"
  b_start :: "string \<Rightarrow> start_answer"
  b_ready :: "string \<Rightarrow> bool"
  b_by_name :: "string \<Rightarrow> (string \<times> string) list option"
  b_create :: "string \<Rightarrow> string option"
  b_kill :: "string \<Rightarrow> bool"
  b_pool :: daemon

record bringup_state =
  bs_take :: take_state
  bs_ledger :: ledger

abbreviation bs_cache :: "bringup_state \<Rightarrow> inventory" where
  "bs_cache st \<equiv> tcache (bs_take st)"

definition set_cache :: "inventory \<Rightarrow> bringup_state \<Rightarrow> bringup_state" where
  "set_cache c st = st\<lparr>bs_take := (bs_take st)\<lparr>tcache := c\<rparr>\<rparr>"

definition bring_up_existing ::
  "bringup_daemon \<Rightarrow> string \<Rightarrow> string \<Rightarrow> bringup_state \<Rightarrow> up_result \<times> bringup_state" where
  "bring_up_existing d name sid st =
     (if \<not> b_connect d sid then (Up_Error, st)
      else (case b_start d sid of
              Start_Not_Found \<Rightarrow> (Up_Gone, st)
            | Start_Error \<Rightarrow> (Up_Error, st)
            | Start_Ok \<Rightarrow>
                if b_ready d sid then (Up_Ok, set_cache (inv_insert name sid (bs_cache st)) st)
                else (Up_Error, st)))"

definition schema_of_name :: "string \<Rightarrow> string option" where
  "schema_of_name name = (if starts_with ''pg-'' name then Some (drop 3 name) else None)"

definition on_ledger :: "(string \<Rightarrow> ledger \<Rightarrow> ledger) \<Rightarrow> string \<Rightarrow> bringup_state \<Rightarrow> bringup_state" where
  "on_ledger f name st =
     (case schema_of_name name of None \<Rightarrow> st | Some schema \<Rightarrow> st\<lparr>bs_ledger := f schema (bs_ledger st)\<rparr>)"

text \<open>\<open>create_vm_within\<close>: \<open>now\<close> and \<open>disk_ok\<close> are the ledger's clock and file.\<close>

definition create_vm ::
  "bringup_daemon \<Rightarrow> u64 \<Rightarrow> bool \<Rightarrow> string \<Rightarrow> bringup_state \<Rightarrow> string option \<times> bringup_state" where
  "create_vm d now disk_ok name st =
     (case b_create d name of
        None \<Rightarrow> (None, st)
      | Some sid \<Rightarrow>
          let st = on_ledger (\<lambda>schema. ledger_record now disk_ok schema sid) name st;
              st = set_cache (inv_insert name sid (bs_cache st)) st
          in if b_ready d sid then (Some sid, st)
             else if b_kill d sid
             then (None, on_ledger (ledger_clear disk_ok) name (set_cache (inv_remove_id sid (bs_cache st)) st))
             else (None, st))"

datatype resolve_error = Reattach_Failed | By_Name_Failed | Create_Failed

definition find_or_create ::
  "bringup_daemon \<Rightarrow> u64 \<Rightarrow> bool \<Rightarrow> string \<Rightarrow> (string set) option \<Rightarrow> bringup_state \<Rightarrow>
     (resolve_error + string \<times> provenance) \<times> bringup_state" where
  "find_or_create d now disk_ok name spares st =
     (case (case spares of None \<Rightarrow> (None, bs_take st) | Some bound \<Rightarrow> spare_take (b_pool d) bound (bs_take st)) of
        (Some sid, t) \<Rightarrow> (Inr (sid, Spare), st\<lparr>bs_take := t\<rparr>)
      | (None, t) \<Rightarrow>
          (case create_vm d now disk_ok name (st\<lparr>bs_take := t\<rparr>) of
             (Some sid, st') \<Rightarrow> (Inr (sid, Created), st')
           | (None, st') \<Rightarrow> (Inl Create_Failed, st')))"

definition resolve_by_daemon ::
  "bringup_daemon \<Rightarrow> u64 \<Rightarrow> bool \<Rightarrow> string \<Rightarrow> (string set) option \<Rightarrow> bringup_state \<Rightarrow>
     (resolve_error + string \<times> provenance) \<times> bringup_state" where
  "resolve_by_daemon d now disk_ok name spares st =
     (case b_by_name d name of
        None \<Rightarrow> (Inl By_Name_Failed, st)
      | Some rows \<Rightarrow>
          let st = set_cache (inv_absorb rows (bs_cache st)) st
          in case find (\<lambda>(n, _). n = name) rows of
               None \<Rightarrow> find_or_create d now disk_ok name spares st
             | Some (_, sid) \<Rightarrow>
                 let st = set_cache (inv_insert name sid (bs_cache st)) st
                 in case bring_up_existing d name sid st of
                      (Up_Ok, st) \<Rightarrow> (Inr (sid, Existing), st)
                    | (Up_Gone, st) \<Rightarrow>
                        find_or_create d now disk_ok name spares (set_cache (inv_remove_id sid (bs_cache st)) st)
                    | (Up_Error, st) \<Rightarrow> (Inl Reattach_Failed, st))"

definition resolve_by_name ::
  "bringup_daemon \<Rightarrow> u64 \<Rightarrow> bool \<Rightarrow> string \<Rightarrow> (string set) option \<Rightarrow> bringup_state \<Rightarrow>
     (resolve_error + string \<times> provenance) \<times> bringup_state" where
  "resolve_by_name d now disk_ok name spares st =
     (case inv_lookup (bs_cache st) name of
        None \<Rightarrow> resolve_by_daemon d now disk_ok name spares st
      | Some sid \<Rightarrow>
          (case bring_up_existing d name sid st of
             (Up_Ok, st) \<Rightarrow> (Inr (sid, Existing), st)
           | (Up_Gone, st) \<Rightarrow>
               resolve_by_daemon d now disk_ok name spares (set_cache (inv_remove_id sid (bs_cache st)) st)
           | (Up_Error, st) \<Rightarrow> (Inl Reattach_Failed, st)))"

definition resolve_sandbox ::
  "bringup_daemon \<Rightarrow> u64 \<Rightarrow> bool \<Rightarrow> string \<Rightarrow> string option \<Rightarrow> (string set) option \<Rightarrow> bringup_state \<Rightarrow>
     (resolve_error + string \<times> provenance) \<times> bringup_state" where
  "resolve_sandbox d now disk_ok name known spares st =
     (case known of
        None \<Rightarrow> resolve_by_name d now disk_ok name spares st
      | Some sid \<Rightarrow>
          (case bring_up_existing d name sid st of
             (Up_Ok, st) \<Rightarrow> (Inr (sid, Existing), st)
           | (_, st) \<Rightarrow> resolve_by_name d now disk_ok name spares st))"

text \<open>
  \<open>asked_by_name\<close> says what the by-name resolution established before a fresh VM is made: the cached id
  (if any) is gone, the daemon answered the by-name query, and the VM it named (if any) is gone.
\<close>

definition gone :: "bringup_daemon \<Rightarrow> string \<Rightarrow> bool" where
  "gone d sid \<longleftrightarrow> b_connect d sid \<and> b_start d sid = Start_Not_Found"







text \<open>A small world: one warm spare on the shelf, and a daemon with one VM of a given name.\<close>

definition demo_pool :: "string list \<Rightarrow> bringup_state" where
  "demo_pool shelf = \<lparr>bs_take = \<lparr>tpool = (spare_new 2)\<lparr>ready := shelf\<rparr>, tcache = [], tevents = 0\<rparr>,
     bs_ledger = ledger_init None\<rparr>"

definition demo_daemon :: "start_answer \<Rightarrow> (string \<times> string) list \<Rightarrow> bringup_daemon" where
  "demo_daemon old rows = \<lparr>b_connect = \<lambda>_. True, b_start = \<lambda>s. if s = ''old'' then old else Start_Ok,
     b_ready = \<lambda>_. True, b_by_name = \<lambda>_. Some rows, b_create = \<lambda>_. Some ''new'', b_kill = \<lambda>_. False,
     b_pool = eager_daemon\<rparr>"

lemma demo_take: "spare_take eager_daemon {''old''} (bs_take (demo_pool [''sp''])) =
    (Some ''sp'', hand_over (bs_take (demo_pool [''sp'']))\<lparr>
       tpool := (spare_new 2)\<lparr>ready := [], claimed := {''sp''}, poke := True\<rparr>, tcache := [(''sp'', ''sp'')]\<rparr>)"
  by (simp add: spare_take_def TAKE_MAX_ATTEMPTS_def numeral_3_eq_3 demo_pool_def pop_claim_def
      spare_new_def eager_daemon_def hand_over_def inv_insert_def hm_insert_def)

lemma demo_fresh:
  assumes "old \<noteq> Start_Ok"
  shows "fst (resolve_sandbox (demo_daemon old []) 0 True ''pg-s'' (Some ''old'') (Some {''old''}) (demo_pool [''sp'']))
    = Inr (''sp'', Spare)"
proof -
  have "demo_pool [''sp''] = set_cache (inv_absorb [] (bs_cache (demo_pool [''sp'']))) (demo_pool [''sp''])"
    by (simp add: set_cache_def inv_absorb_def demo_pool_def)
  then have "fst (resolve_by_daemon (demo_daemon old []) 0 True ''pg-s'' (Some {''old''}) (demo_pool [''sp''])) = Inr (''sp'', Spare)"
    by (simp add: resolve_by_daemon_def demo_daemon_def find_or_create_def demo_take Let_def)
  then have "fst (resolve_by_name (demo_daemon old []) 0 True ''pg-s'' (Some {''old''}) (demo_pool [''sp''])) = Inr (''sp'', Spare)"
    by (simp add: resolve_by_name_def inv_lookup_def demo_pool_def)
  then show ?thesis using assms
    by (cases old) (simp_all add: resolve_sandbox_def bring_up_existing_def demo_daemon_def)
qed


text \<open>
  A schema on a claimed spare can be rebound to an empty database. The registry binds the schema
  to a VM that still exists but whose start fails with an error (not with a 404); the VM carries its
  spare name, so the by-name query finds nothing; resolution then succeeds with another spare, whose
  cluster is empty. For a VM that carries its schema's name the same error fails the bring-up.
\<close>

theorem reattach_error_rebinds_spare:
  "fst (resolve_sandbox (demo_daemon Start_Error []) 0 True ''pg-s'' (Some ''old'') (Some {''old''}) (demo_pool [''sp'']))
     = Inr (''sp'', Spare)
   \<and> fst (resolve_sandbox (demo_daemon Start_Error [(''pg-s'', ''old'')]) 0 True ''pg-s'' (Some ''old'') (Some {''old''})
            (demo_pool [''sp''])) = Inl Reattach_Failed
   \<and> \<not> gone (demo_daemon Start_Error []) ''old''"
proof (intro conjI)
  show "fst (resolve_sandbox (demo_daemon Start_Error []) 0 True ''pg-s'' (Some ''old'') (Some {''old''}) (demo_pool [''sp'']))
     = Inr (''sp'', Spare)" by (rule demo_fresh) simp
  show "fst (resolve_sandbox (demo_daemon Start_Error [(''pg-s'', ''old'')]) 0 True ''pg-s'' (Some ''old'') (Some {''old''})
            (demo_pool [''sp''])) = Inl Reattach_Failed"
    by (simp add: resolve_sandbox_def resolve_by_name_def resolve_by_daemon_def bring_up_existing_def demo_daemon_def
        inv_lookup_def demo_pool_def Let_def)
  show "\<not> gone (demo_daemon Start_Error []) ''old''" by (simp add: gone_def demo_daemon_def)
qed

section \<open>The whole bring-up\<close>

datatype restore_source = Restore_S3 | Restore_S3_Image | Restore_Local_Image | Restore_Local

definition claim_restore_vehicle ::
  "bringup_daemon \<Rightarrow> u64 \<Rightarrow> bool \<Rightarrow> string \<Rightarrow> (string set) option \<Rightarrow> bringup_state \<Rightarrow>
     (resolve_error + string \<times> provenance) \<times> bringup_state" where
  "claim_restore_vehicle d now disk_ok schema spares st =
     find_or_create d now disk_ok (''pg-'' @ schema) spares st"

definition release_spare :: "bringup_daemon \<Rightarrow> (string set) option \<Rightarrow> string \<Rightarrow> bringup_state \<Rightarrow> bringup_state" where
  "release_spare d spares sid st =
     (case spares of
        None \<Rightarrow> st
      | Some _ \<Rightarrow> st\<lparr>bs_take := (bs_take st)\<lparr>tpool := release_failed (b_pool d) sid (tpool (bs_take st))\<rparr>\<rparr>)"

text \<open>
  What becomes of the VM of a bring-up that failed after its VM was resolved. The kill of a created VM
  is attempted either way; the ledger entry and the cache entry are dropped whether or not it succeeded.
\<close>

definition dispose_failed ::
  "bringup_daemon \<Rightarrow> bool \<Rightarrow> string \<Rightarrow> (string set) option \<Rightarrow> string \<Rightarrow> provenance \<Rightarrow> bringup_state \<Rightarrow> bringup_state" where
  "dispose_failed d disk_ok schema spares sid prov st =
     (case prov of
        Spare \<Rightarrow> release_spare d spares sid st
      | Created \<Rightarrow>
          set_cache (inv_remove_id sid (bs_cache st)) (st\<lparr>bs_ledger := ledger_clear disk_ok schema (bs_ledger st)\<rparr>)
      | Existing \<Rightarrow> st)"

text \<open>\<open>adopt_zst_image\<close>: the image decompresses to an ext4 file system, a vehicle is claimed, the disk swapped.\<close>

definition adopt_zst_image ::
  "bringup_daemon \<Rightarrow> u64 \<Rightarrow> bool \<Rightarrow> string \<Rightarrow> (string set) option \<Rightarrow> bool \<Rightarrow> (string \<Rightarrow> bool) \<Rightarrow> bringup_state \<Rightarrow>
     (resolve_error + string \<times> provenance) \<times> bringup_state" where
  "adopt_zst_image d now disk_ok schema spares image_ok swap_ok st =
     (if \<not> image_ok then (Inl Reattach_Failed, st)
      else (case claim_restore_vehicle d now disk_ok schema spares st of
              (Inl e, st) \<Rightarrow> (Inl e, st)
            | (Inr (sid, prov), st) \<Rightarrow>
                if swap_ok sid then (Inr (sid, prov), st)
                else (Inl Reattach_Failed, if prov = Spare then release_spare d spares sid st else st)))"

definition ensure_vm ::
  "bringup_daemon \<Rightarrow> u64 \<Rightarrow> bool \<Rightarrow> string \<Rightarrow> string option \<Rightarrow> restore_source option \<Rightarrow> (string set) option \<Rightarrow>
     bool \<Rightarrow> (string \<Rightarrow> bool) \<Rightarrow> (string \<Rightarrow> bool) \<Rightarrow> bringup_state \<Rightarrow> string option \<times> bringup_state" where
  "ensure_vm d now disk_ok schema known restore spares image_ok swap_ok rest_ok st =
     (let known' = (if restore \<noteq> None then None else known);
          (r, st) = (case restore of
             Some Restore_S3_Image \<Rightarrow> adopt_zst_image d now disk_ok schema spares image_ok swap_ok st
           | Some Restore_Local_Image \<Rightarrow> adopt_zst_image d now disk_ok schema spares image_ok swap_ok st
           | _ \<Rightarrow> resolve_sandbox d now disk_ok (''pg-'' @ schema) known' spares st)
      in case r of
           Inl e \<Rightarrow> (None, st)
         | Inr (sid, prov) \<Rightarrow>
             if rest_ok sid then (Some sid, st) else (None, dispose_failed d disk_ok schema spares sid prov st))"

lemma ledger_record_get [simp]:
  "hm_get (entries (ledger_record now ok schema sid l)) = (hm_get (entries l))(schema \<mapsto> (sid, now))"
  by (simp add: ledger_record_def ledger_record_mem_def ledger_persist_def ledger_write_def)

lemma schema_of_pg [simp]: "schema_of_name (''pg-'' @ schema) = Some schema"
  by (simp add: schema_of_name_def starts_with_def)

text \<open>
  A created VM whose kill fails is forgotten. When a bring-up fails after creating its VM, the
  pending ledger no longer names that schema, whether or not the kill of the VM succeeded, so the
  janitor's scan never sees the leak it is said to retry; the readiness failure inside the create keeps
  its entry when the kill fails, and names the VM.
\<close>

theorem failed_disposal_forgets_leak:
  "ledger_get (bs_ledger (dispose_failed d disk_ok schema spares sid Created st)) schema = None
   \<and> schema \<notin> fst ` set (ledger_stale now min_age (bs_ledger (dispose_failed d disk_ok schema spares sid Created st)))
   \<and> (b_create d (''pg-'' @ schema) = Some sid \<longrightarrow> \<not> b_ready d sid \<longrightarrow> \<not> b_kill d sid \<longrightarrow>
        ledger_get (bs_ledger (snd (create_vm d now disk_ok (''pg-'' @ schema) st))) schema = Some sid)"
proof (intro conjI impI)
  let ?l = "bs_ledger (dispose_failed d disk_ok schema spares sid Created st)"
  have g: "hm_get (entries ?l) schema = None" by (simp add: dispose_failed_def set_cache_def)
  then show "ledger_get ?l schema = None" by (simp add: ledger_get_def)
  have "schema \<notin> fst ` set (entries ?l)" using g by (simp add: map_of_eq_None_iff)
  then show "schema \<notin> fst ` set (ledger_stale now min_age ?l)"
    by (force simp: ledger_stale_def Let_def)
  assume "b_create d (''pg-'' @ schema) = Some sid" "\<not> b_ready d sid" "\<not> b_kill d sid"
  then show "ledger_get (bs_ledger (snd (create_vm d now disk_ok (''pg-'' @ schema) st))) schema = Some sid"
    by (simp add: create_vm_def Let_def on_ledger_def set_cache_def ledger_get_def del: append.simps)
qed

theorem failed_disposal_forgets_leak_witness:
  "ledger_get (bs_ledger (dispose_failed (demo_daemon Start_Ok []) True ''s'' None ''new'' Created (demo_pool []))) ''s'' = None
   \<and> ledger_get (bs_ledger (snd (create_vm ((demo_daemon Start_Ok [])\<lparr>b_ready := \<lambda>_. False\<rparr>) 7 True ''pg-s'' (demo_pool [])))) ''s''
       = Some ''new''"
  using failed_disposal_forgets_leak [of "demo_daemon Start_Ok []" True "''s''" None "''new''" "demo_pool []" 7 0]
    failed_disposal_forgets_leak [of "(demo_daemon Start_Ok [])\<lparr>b_ready := \<lambda>_. False\<rparr>" True "''s''" None "''new''" "demo_pool []" 7 0]
  by (simp add: demo_daemon_def)

section \<open>When a dump counts as durable\<close>

definition MIN_ARCHIVE_BYTES :: nat where "MIN_ARCHIVE_BYTES = 512"
definition ARCHIVE_MAX_PROBE_FAILURES :: nat where "ARCHIVE_MAX_PROBE_FAILURES = 3"
definition UNWITNESSED_MAX_PROBE_FAILURES :: nat where "UNWITNESSED_MAX_PROBE_FAILURES = 10"
definition ARCHIVE_CONFIRM_GRACE :: nat where "ARCHIVE_CONFIRM_GRACE = 60"
definition ARCHIVE_DEADLINE :: nat where "ARCHIVE_DEADLINE = 1800"
definition BASELINE_HEAD_ATTEMPTS :: nat where "BASELINE_HEAD_ATTEMPTS = 3"

text \<open>
  A HEAD answers with nothing at the key or with the object there, or fails (\<open>None\<close>); a guest probe
  gives a state or fails (\<open>None\<close>). One poll: the seconds since the start of the wait, and both answers.
\<close>

type_synonym head_answer = "object_id option option"
type_synonym probe = "job_state option"

fun baseline_head :: "nat \<Rightarrow> head_answer list \<Rightarrow> (object_id option) option" where
  "baseline_head 0 hs = None"
| "baseline_head (Suc n) [] = None"
| "baseline_head (Suc n) (h # hs) = (case h of Some b \<Rightarrow> Some b | None \<Rightarrow> baseline_head n hs)"

datatype wait_result = Durable nat | Too_Small | Guest_Failed int | Unconfirmed | Timed_Out | Lost_Contact

record watch =
  probe_failures :: nat
  probes_muted :: bool
  claimed_done :: "nat option"

definition watch_start :: watch where
  "watch_start = \<lparr>probe_failures = 0, probes_muted = False, claimed_done = None\<rparr>"

text \<open>The guest half of one poll, shared by both waits: a failed job ends it, everything else is remembered.\<close>

definition note_probe :: "nat \<Rightarrow> probe \<Rightarrow> watch \<Rightarrow> int + watch" where
  "note_probe t p w =
     (if probes_muted w then Inr w
      else (case p of
              Some (Job_Exit c) \<Rightarrow> Inl c
            | Some Job_Succeeded \<Rightarrow>
                Inr (w\<lparr>probe_failures := 0,
                       claimed_done := (case claimed_done w of None \<Rightarrow> Some t | x \<Rightarrow> x)\<rparr>)
            | Some Job_Running \<Rightarrow> Inr (w\<lparr>probe_failures := 0\<rparr>)
            | None \<Rightarrow>
                let n = probe_failures w + 1
                in Inr (w\<lparr>probe_failures := n, probes_muted := ARCHIVE_MAX_PROBE_FAILURES \<le> n\<rparr>)))"

definition confirm_expired :: "nat \<Rightarrow> watch \<Rightarrow> bool" where
  "confirm_expired t w \<longleftrightarrow>
     (case claimed_done w of None \<Rightarrow> False | Some a \<Rightarrow> ARCHIVE_CONFIRM_GRACE \<le> t - a)"

text \<open>\<open>landed\<close> is what the poll's authoritative signal shows: the size of a new object or upload, if any.\<close>

fun await_loop :: "(nat \<times> nat option \<times> probe) list \<Rightarrow> watch \<Rightarrow> wait_result option" where
  "await_loop [] w = None"
| "await_loop ((t, landed, p) # rest) w =
     (case landed of
        Some bytes \<Rightarrow> if bytes < MIN_ARCHIVE_BYTES then Some Too_Small else Some (Durable bytes)
      | None \<Rightarrow>
          (case note_probe t p w of
             Inl c \<Rightarrow> Some (Guest_Failed c)
           | Inr w' \<Rightarrow>
               if confirm_expired t w' then Some Unconfirmed
               else if ARCHIVE_DEADLINE \<le> t then Some Timed_Out
               else await_loop rest w'))"

definition landed_object :: "object_id option \<Rightarrow> head_answer \<Rightarrow> nat option" where
  "landed_object baseline h =
     (case h of
        Some (Some now) \<Rightarrow> if Some now \<noteq> baseline then Some (content_length now) else None
      | _ \<Rightarrow> None)"

definition await_archive :: "object_id option \<Rightarrow> (nat \<times> head_answer \<times> probe) list \<Rightarrow> wait_result option" where
  "await_archive baseline polls =
     await_loop (map (\<lambda>(t, h, p). (t, landed_object baseline h, p)) polls) watch_start"

text \<open>\<open>await_server_upload\<close>: the authoritative signal is the dump server's own completion record.\<close>

definition await_server_upload :: "(nat \<times> nat option \<times> probe) list \<Rightarrow> wait_result option" where
  "await_server_upload polls = await_loop polls watch_start"

definition upload_verified :: "object_id option \<Rightarrow> nat \<Rightarrow> head_answer \<Rightarrow> bool" where
  "upload_verified baseline len h =
     (case h of Some (Some now) \<Rightarrow> content_length now = len \<and> Some now \<noteq> baseline | _ \<Rightarrow> False)"

fun await_detached :: "nat \<Rightarrow> (nat \<times> probe) list \<Rightarrow> wait_result option" where
  "await_detached n [] = None"
| "await_detached n ((t, p) # rest) =
     (let again = (\<lambda>k. if ARCHIVE_DEADLINE \<le> t then Some Timed_Out else await_detached k rest)
      in case p of
           Some Job_Succeeded \<Rightarrow> Some (Durable 0)
         | Some (Job_Exit c) \<Rightarrow> Some (Guest_Failed c)
         | Some Job_Running \<Rightarrow> again 0
         | None \<Rightarrow> if UNWITNESSED_MAX_PROBE_FAILURES \<le> n + 1 then Some Lost_Contact else again (n + 1))"

lemma await_loop_durable:
  "await_loop polls w = Some (Durable n) \<Longrightarrow> MIN_ARCHIVE_BYTES \<le> n \<and> Some n \<in> (fst \<circ> snd) ` set polls"
proof (induction polls w rule: await_loop.induct)
  case (2 t landed p rest w)
  show ?case
  proof (cases landed)
    case None
    obtain w' where "note_probe t p w = Inr w'" "\<not> confirm_expired t w'" "\<not> ARCHIVE_DEADLINE \<le> t"
      using "2.prems" None by (auto split: sum.splits if_splits)
    then show ?thesis using 2 None by auto
  next
    case (Some b)
    then show ?thesis using "2.prems" by (auto split: if_splits)
  qed
qed simp

lemma await_loop_ends: "\<exists>(t, x) \<in> set polls. ARCHIVE_DEADLINE \<le> t \<Longrightarrow> await_loop polls w \<noteq> None"
  by (induction polls w rule: await_loop.induct) (auto split: option.splits sum.splits)

lemma landed_object_SomeD:
  "landed_object baseline h = Some n \<Longrightarrow>
     \<exists>now. h = Some (Some now) \<and> content_length now = n \<and> Some now \<noteq> baseline"
  by (auto simp: landed_object_def split: option.splits if_splits)

lemma await_archive_ends:
  "\<exists>(t, x) \<in> set polls. ARCHIVE_DEADLINE \<le> t \<Longrightarrow> await_archive baseline polls \<noteq> None"
  unfolding await_archive_def by (intro await_loop_ends) force

text \<open>
  C14: A dump is reported durable only on the object store's word. Whatever the guest claims and in
  whatever order probes and HEADs fail, \<open>await_archive\<close> succeeds only if a HEAD showed an object at the
  key that differs from the one seen before the dump and is at least 512 bytes long.
\<close>

theorem dump_durable_only_if_seen:
  assumes "await_archive baseline polls = Some (Durable n)"
  shows "512 \<le> n \<and> (\<exists>t now p. (t, Some (Some now), p) \<in> set polls \<and> content_length now = n \<and> Some now \<noteq> baseline)"
proof -
  from await_loop_durable [OF assms [unfolded await_archive_def]]
  obtain t h p where n: "512 \<le> n" and m: "(t, h, p) \<in> set polls" and l: "landed_object baseline h = Some n"
    by (force simp: MIN_ARCHIVE_BYTES_def)
  from landed_object_SomeD [OF l] m n show ?thesis by blast
qed

theorem dump_durable_only_if_seen_witness:
  "await_archive None [(10, None, Some Job_Succeeded), (20, Some (Some \<lparr>etag = ''e'', last_modified = ''m'', content_length = 600\<rparr>), None)]
     = Some (Durable 600) \<and> (512 :: nat) \<le> 600"
proof -
  let ?o = "\<lparr>etag = ''e'', last_modified = ''m'', content_length = 600\<rparr>"
  have r: "await_archive None [(10, None, Some Job_Succeeded), (20, Some (Some ?o), None)] = Some (Durable 600)"
    by (simp add: await_archive_def landed_object_def note_probe_def watch_start_def confirm_expired_def
        ARCHIVE_CONFIRM_GRACE_def ARCHIVE_DEADLINE_def MIN_ARCHIVE_BYTES_def)
  then show ?thesis
    using dump_durable_only_if_seen [of None "[(10, None, Some Job_Succeeded), (20, Some (Some ?o), None)]" 600]
    by simp
qed

end
