(* ===== verification/Tiers.thy ===== *)
theory Tiers
  imports Offload Bringup
begin

text \<open>
  Moving a schema between tiers: \<open>archive_schema\<close>, \<open>freeze_schema\<close>, \<open>compact_schema\<close> and
  \<open>archive_schema_as_image\<close> of \<open>src/src/registry.rs\<close>, the way back (\<open>checkout\<close>), and the choice of the
  S3 object a restore reads (\<open>src/src/imgarchive.rs\<close>).

  An operation is its error, if any, and the list of its effects in the order the code performs
  them, chosen from the state it starts in and the answers of the daemon, the guest and S3. A crash
  is a prefix of that list, and two operations that overlap are an interleaving of two lists. What a
  disk, a dump or an image holds is the number of the last write it contains; the registry is the
  store of \<open>src/src/store.rs\<close>, file and queued writes included.
\<close>

section \<open>Which object a restore reads\<close>

definition MIN_IMAGE_BYTES :: nat where "MIN_IMAGE_BYTES = 1024"
definition MIN_DUMP_BYTES :: nat where "MIN_DUMP_BYTES = 512"

datatype restore_kind = Dump | Image

definition choose_restore :: "nat option \<Rightarrow> nat option \<Rightarrow> restore_kind" where
  "choose_restore dump_len image_len =
     (case dump_len of
        Some d \<Rightarrow> if MIN_DUMP_BYTES \<le> d then Dump
                  else (case image_len of Some i \<Rightarrow> if MIN_IMAGE_BYTES \<le> i then Image else Dump | None \<Rightarrow> Dump)
      | None \<Rightarrow> (case image_len of Some i \<Rightarrow> if MIN_IMAGE_BYTES \<le> i then Image else Dump | None \<Rightarrow> Dump))"

text \<open>
  A HEAD fails (\<open>None\<close>), finds nothing, or finds an object of some length; \<open>len_of\<close> reads a failure as
  nothing there.
\<close>

definition len_of :: "nat option option \<Rightarrow> nat option" where
  "len_of h = (case h of Some l \<Rightarrow> l | None \<Rightarrow> None)"

definition pick_restore :: "nat option option \<Rightarrow> nat option option \<Rightarrow> restore_kind" where
  "pick_restore dump_head image_head =
     (case len_of dump_head of
        Some d \<Rightarrow> if MIN_DUMP_BYTES \<le> d then Dump else choose_restore (Some d) (len_of image_head)
      | None \<Rightarrow> choose_restore None (len_of image_head))"

lemma pick_restore_dump [simp]: "MIN_DUMP_BYTES \<le> d \<Longrightarrow> pick_restore (Some (Some d)) h = Dump"
  by (simp add: pick_restore_def len_of_def)

lemma pick_restore_image [simp]: "MIN_IMAGE_BYTES \<le> i \<Longrightarrow> pick_restore (Some None) (Some (Some i)) = Image"
  by (simp add: pick_restore_def choose_restore_def len_of_def)

section \<open>The state\<close>

record artifact =
  ver :: nat
  bytes :: nat

record world =
  reg :: store
  archiving :: "string set"
  warm :: "string \<rightharpoonup> nat"
  vms :: "string \<rightharpoonup> nat"
  dump_files :: "string \<rightharpoonup> artifact"
  image_files :: "string \<rightharpoonup> artifact"
  s3_dumps :: "string \<rightharpoonup> artifact"
  s3_images :: "string \<rightharpoonup> artifact"

text \<open>
  The effects. \<open>warm\<close> holds the live session count of each initialised cell of the entry map (a cell
  whose bring-up is still running is not in it). \<open>Set_Tier\<close> carries whether the write of the registry
  file succeeded. \<open>Serve_Write\<close> is a client of a served session committing one more write.
\<close>

datatype effect =
    Claim | Release | Evict
  | Touch nat | Put nat string | Set_Tier tier bool | Kill string
  | Dump_To_S3 string nat | Dump_To_Local string nat | Compact_Disk string nat | Archive_Disk string nat
  | Upload_Dump | Upload_Image | Torn_Dump "artifact option" | Torn_Image "artifact option"
  | Delete_S3_Dump | Remove_Dump | Remove_Image
  | Boot string | Restore string restore_source "nat \<Rightarrow> nat \<Rightarrow> nat" | Serve | Serve_Write string

definition art :: "nat \<Rightarrow> nat option \<Rightarrow> artifact option" where
  "art len v = map_option (\<lambda>n. \<lparr>ver = n, bytes = len\<rparr>) v"

definition restored :: "restore_source \<Rightarrow> string \<Rightarrow> world \<Rightarrow> artifact option" where
  "restored src x w =
     (case src of
        Restore_S3 \<Rightarrow> s3_dumps w x
      | Restore_S3_Image \<Rightarrow> s3_images w x
      | Restore_Local_Image \<Rightarrow> image_files w x
      | Restore_Local \<Rightarrow> dump_files w x)"

text \<open>
  What a restore leaves in its VM. An image replaces the disk. A dump is loaded by
  \<open>pg_restore --clean --if-exists\<close> into whatever database the VM has: into an empty one it leaves exactly
  the dump; over the database of a VM that was found by name it drops only the objects the dump holds, so
  what it leaves there, \<open>cleaned c d\<close> for a dump at write \<open>d\<close> over a database at write \<open>c\<close>, is left open.
\<close>

definition loaded :: "restore_source \<Rightarrow> (nat \<Rightarrow> nat \<Rightarrow> nat) \<Rightarrow> nat option \<Rightarrow> artifact option \<Rightarrow> nat option" where
  "loaded src cleaned db object =
     (case object of
        None \<Rightarrow> db
      | Some f \<Rightarrow>
          if src = Restore_S3_Image \<or> src = Restore_Local_Image then Some (ver f)
          else (case db of
                  None \<Rightarrow> Some (ver f)
                | Some c \<Rightarrow> Some (if c = 0 then ver f else cleaned c (ver f))))"

fun apply_effect :: "string \<Rightarrow> effect \<Rightarrow> world \<Rightarrow> world" where
  "apply_effect x Claim w = w\<lparr>archiving := insert x (archiving w)\<rparr>"
| "apply_effect x Release w = w\<lparr>archiving := archiving w - {x}\<rparr>"
| "apply_effect x Evict w = w\<lparr>warm := (warm w)(x := None)\<rparr>"
| "apply_effect x (Touch now) w = w\<lparr>reg := store_touch now x (reg w)\<rparr>"
| "apply_effect x (Put now i) w = w\<lparr>reg := store_put now x i (reg w)\<rparr>"
| "apply_effect x (Set_Tier t ok) w = w\<lparr>reg := set_tier ok x t (reg w)\<rparr>"
| "apply_effect x (Kill i) w = w\<lparr>vms := (vms w)(i := None)\<rparr>"
| "apply_effect x (Dump_To_S3 i n) w = w\<lparr>s3_dumps := (s3_dumps w)(x := art n (vms w i))\<rparr>"
| "apply_effect x (Dump_To_Local i n) w = w\<lparr>dump_files := (dump_files w)(x := art n (vms w i))\<rparr>"
| "apply_effect x (Compact_Disk i n) w = w\<lparr>image_files := (image_files w)(x := art n (vms w i))\<rparr>"
| "apply_effect x (Archive_Disk i n) w = w\<lparr>s3_images := (s3_images w)(x := art n (vms w i))\<rparr>"
| "apply_effect x Upload_Dump w = w\<lparr>s3_dumps := (s3_dumps w)(x := dump_files w x)\<rparr>"
| "apply_effect x Upload_Image w = w\<lparr>s3_images := (s3_images w)(x := image_files w x)\<rparr>"
| "apply_effect x (Torn_Dump a) w = w\<lparr>s3_dumps := (s3_dumps w)(x := a)\<rparr>"
| "apply_effect x (Torn_Image a) w = w\<lparr>s3_images := (s3_images w)(x := a)\<rparr>"
| "apply_effect x Delete_S3_Dump w = w\<lparr>s3_dumps := (s3_dumps w)(x := None)\<rparr>"
| "apply_effect x Remove_Dump w = w\<lparr>dump_files := (dump_files w)(x := None)\<rparr>"
| "apply_effect x Remove_Image w = w\<lparr>image_files := (image_files w)(x := None)\<rparr>"
| "apply_effect x (Boot i) w = (if vms w i = None then w\<lparr>vms := (vms w)(i \<mapsto> 0)\<rparr> else w)"
| "apply_effect x (Restore i src cleaned) w = w\<lparr>vms := (vms w)(i := loaded src cleaned (vms w i) (restored src x w))\<rparr>"
| "apply_effect x Serve w = w\<lparr>warm := (warm w)(x := Some (case warm w x of None \<Rightarrow> 1 | Some n \<Rightarrow> n + 1))\<rparr>"
| "apply_effect x (Serve_Write i) w = w\<lparr>vms := (vms w)(i := map_option Suc (vms w i))\<rparr>"

text \<open>The states an operation passes through, first to last: a crash leaves one of them.\<close>

fun trace :: "string \<Rightarrow> effect list \<Rightarrow> world \<Rightarrow> world list" where
  "trace x [] w = [w]"
| "trace x (e # fx) w = w # trace x fx (apply_effect x e w)"

abbreviation run_effects :: "string \<Rightarrow> effect list \<Rightarrow> world \<Rightarrow> world" where
  "run_effects x \<equiv> fold (apply_effect x)"

text \<open>
  The write a connect through record \<open>r\<close> would serve last: the bound VM's disk, or whatever a restore
  would read, with HEADs that answer. After a crash \<open>r\<close> is the record in the file (\<open>reloaded\<close>). In S3 a
  dump of at least 512 bytes counts, and an image of at least 1024 bytes where there is no such dump;
  this is stated here without the code's own choice between the two.
\<close>

definition whole :: "nat \<Rightarrow> artifact option \<Rightarrow> bool" where
  "whole n object \<longleftrightarrow> (case object of None \<Rightarrow> False | Some f \<Rightarrow> n \<le> bytes f)"

definition s3_finds :: "artifact option \<Rightarrow> artifact option \<Rightarrow> nat option" where
  "s3_finds dump img =
     (if whole 512 dump then map_option ver dump else if whole 1024 img then map_option ver img else None)"

fun tier_finds :: "world \<Rightarrow> string \<Rightarrow> tier \<Rightarrow> string \<Rightarrow> nat option" where
  "tier_finds w x Live i = vms w i"
| "tier_finds w x Frozen i = map_option ver (dump_files w x)"
| "tier_finds w x Compacted i = map_option ver (image_files w x)"
| "tier_finds w x Archived i = s3_finds (s3_dumps w x) (s3_images w x)"

definition connect_finds :: "world \<Rightarrow> string \<Rightarrow> rec option \<Rightarrow> nat option" where
  "connect_finds w x r = (case r of None \<Rightarrow> None | Some r \<Rightarrow> tier_finds w x (tier_of r) (sandbox_id r))"

section \<open>The operations\<close>

record tier_setup =
  has_archive :: bool
  has_freeze :: bool
  has_compact :: bool
  has_image :: bool

text \<open>
  What the daemon, the guest and S3 answer during one operation: the VM \<open>ensure_vm\<close> came back with,
  the size of a dump or image that completed, whether an upload was verified (or what it left at the
  key), and whether the stale dump's deletion, the registry write, the kill and the removal of a
  local file succeeded. \<open>via_server\<close>: the guest streams to the dump server, which is the default.
  \<open>cleaned\<close>: what the guest's \<open>pg_restore\<close> makes of a database that was not empty.
\<close>

datatype upload_answer = Verified | Torn "artifact option"

record tier_answers =
  now_at :: nat
  boot :: "string option"
  via_server :: bool
  dump_len :: "nat option"
  image_len :: "nat option"
  upload :: upload_answer
  delete_ok :: bool
  write_ok :: bool
  kill_ok :: bool
  remove_ok :: bool
  cleaned :: "nat \<Rightarrow> nat \<Rightarrow> nat"

datatype offload_error =
    Not_Configured | Already_Offloaded | Already_Offloading | Live_Sessions nat | Warm_VM | No_Row
  | Conflicting_VMs | No_VM_Named | Bringup_Error | Dump_Error | Disk_Error | Undersized | Unverified | Stale_Dump_Left

type_synonym outcome = "offload_error option \<times> effect list"

definition after :: "effect list \<Rightarrow> outcome \<Rightarrow> outcome" where
  "after fx r = (case r of (e, gx) \<Rightarrow> (e, fx @ gx))"

lemma snd_after: "snd (after fx r) = fx @ snd r"
  by (simp add: after_def split: prod.splits)

text \<open>\<open>ArchivingGuard\<close>: claimed unless another offload holds it, released on every exit path.\<close>

definition guarded :: "string \<Rightarrow> world \<Rightarrow> outcome \<Rightarrow> outcome" where
  "guarded x w body =
     (if x \<in> archiving w then (Some Already_Offloading, [])
      else (case body of (e, fx) \<Rightarrow> (e, Claim # fx @ [Release])))"

definition evicting :: "string \<Rightarrow> world \<Rightarrow> outcome \<Rightarrow> outcome" where
  "evicting x w body =
     (case warm w x of
        Some (Suc n) \<Rightarrow> (Some (Live_Sessions (Suc n)), [])
      | _ \<Rightarrow> after [Evict] body)"

definition when_ok :: "bool \<Rightarrow> effect \<Rightarrow> effect list" where
  "when_ok b e = (if b then [e] else [])"

definition image_archive_now :: "tier_setup \<Rightarrow> tier_answers \<Rightarrow> string \<Rightarrow> string \<Rightarrow> world \<Rightarrow> outcome" where
  "image_archive_now cfg a x sid w =
     (if \<not> has_image cfg then (Some Not_Configured, [])
      else (case vms w sid of
              None \<Rightarrow> (Some Disk_Error, [])
            | Some _ \<Rightarrow>
                (case image_len a of
                   None \<Rightarrow> (Some Disk_Error, [])
                 | Some n \<Rightarrow>
                     if n < MIN_IMAGE_BYTES then (Some Undersized, [])
                     else (case upload a of
                             Torn t \<Rightarrow> (Some Unverified, [Torn_Image t])
                           | Verified \<Rightarrow>
                               if \<not> delete_ok a then (Some Stale_Dump_Left, [Archive_Disk sid n])
                               else (None,
                                  [Archive_Disk sid n, Delete_S3_Dump]
                                  @ when_ok (store_record (reg w) x = None) (Put (now_at a) sid)
                                  @ [Set_Tier Archived (write_ok a)] @ when_ok (kill_ok a) (Kill sid))))))"

definition image_archive_fallback ::
  "tier_setup \<Rightarrow> tier_answers \<Rightarrow> string \<Rightarrow> string option \<Rightarrow> offload_error \<Rightarrow> world \<Rightarrow> outcome" where
  "image_archive_fallback cfg a x sid original w =
     (if \<not> has_image cfg then (Some original, [])
      else (case sid of
              None \<Rightarrow> (Some original, [])
            | Some i \<Rightarrow> (case image_archive_now cfg a x i w of
                            (None, fx) \<Rightarrow> (None, fx)
                          | (Some _, fx) \<Rightarrow> (Some original, fx))))"

definition archive_frozen_schema :: "tier_setup \<Rightarrow> tier_answers \<Rightarrow> string \<Rightarrow> world \<Rightarrow> outcome" where
  "archive_frozen_schema cfg a x w =
     (if \<not> has_archive cfg \<or> \<not> has_freeze cfg then (Some Not_Configured, [])
      else guarded x w
        (if map_option tier_of (store_record (reg w) x) \<noteq> Some Frozen then (Some No_Row, [])
         else (case dump_files w x of
                 None \<Rightarrow> (Some Disk_Error, [])
               | Some f \<Rightarrow>
                   if bytes f < MIN_DUMP_BYTES then (Some Undersized, [])
                   else (case upload a of
                           Torn t \<Rightarrow> (Some Unverified, [Torn_Dump t])
                         | Verified \<Rightarrow>
                             (None, [Upload_Dump, Set_Tier Archived (write_ok a)] @ when_ok (remove_ok a) Remove_Dump)))))"

definition archive_compacted_schema :: "tier_setup \<Rightarrow> tier_answers \<Rightarrow> string \<Rightarrow> world \<Rightarrow> outcome" where
  "archive_compacted_schema cfg a x w =
     (if \<not> has_archive cfg \<or> \<not> has_compact cfg then (Some Not_Configured, [])
      else guarded x w
        (case image_files w x of
           None \<Rightarrow> (Some Disk_Error, [])
         | Some f \<Rightarrow>
             if bytes f < MIN_IMAGE_BYTES then (Some Undersized, [])
             else (case upload a of
                     Torn t \<Rightarrow> (Some Unverified, [Torn_Image t])
                   | Verified \<Rightarrow>
                       if \<not> delete_ok a then (Some Stale_Dump_Left, [Upload_Image])
                       else (None, [Upload_Image, Delete_S3_Dump, Set_Tier Archived (write_ok a)]
                                   @ when_ok (remove_ok a) Remove_Image))))"

text \<open>
  \<open>dump_to_s3\<close> on its two routes: the guest uploads to a presigned URL, or streams to the dump server
  whose file is uploaded and then removed on every exit path.
\<close>

definition dump_to_s3 :: "tier_answers \<Rightarrow> string \<Rightarrow> bool \<times> effect list" where
  "dump_to_s3 a sid =
     (case dump_len a of
        None \<Rightarrow> (False, [])
      | Some n \<Rightarrow>
          if n < MIN_ARCHIVE_BYTES then (False, [if via_server a then Dump_To_Local sid n else Dump_To_S3 sid n])
          else if via_server a
          then (case upload a of
                  Verified \<Rightarrow> (True, [Dump_To_Local sid n, Upload_Dump, Remove_Dump])
                | Torn t \<Rightarrow> (False, [Dump_To_Local sid n, Torn_Dump t, Remove_Dump]))
          else (case upload a of
                  Verified \<Rightarrow> (True, [Dump_To_S3 sid n])
                | Torn t \<Rightarrow> (False, [Torn_Dump t])))"

definition archive_schema :: "tier_setup \<Rightarrow> tier_answers \<Rightarrow> string \<Rightarrow> world \<Rightarrow> outcome" where
  "archive_schema cfg a x w =
     (if \<not> has_archive cfg then (Some Not_Configured, [])
      else (case map_option tier_of (store_record (reg w) x) of
              Some Archived \<Rightarrow> (Some Already_Offloaded, [])
            | Some Frozen \<Rightarrow> archive_frozen_schema cfg a x w
            | Some Compacted \<Rightarrow> archive_compacted_schema cfg a x w
            | _ \<Rightarrow>
                guarded x w (evicting x w
                  (case boot a of
                     None \<Rightarrow> image_archive_fallback cfg a x (map_option sandbox_id (store_record (reg w) x)) Bringup_Error w
                   | Some i \<Rightarrow>
                       (case dump_to_s3 a i of
                          (False, fx) \<Rightarrow> after (Boot i # fx)
                             (image_archive_fallback cfg a x (Some i) Dump_Error (run_effects x (Boot i # fx) w))
                        | (True, fx) \<Rightarrow> (None, Boot i # fx @ [Set_Tier Archived (write_ok a)] @ when_ok (kill_ok a) (Kill i)))))))"

definition freeze_schema :: "tier_setup \<Rightarrow> tier_answers \<Rightarrow> string \<Rightarrow> world \<Rightarrow> outcome" where
  "freeze_schema cfg a x w =
     (if \<not> has_freeze cfg then (Some Not_Configured, [])
      else if (case store_record (reg w) x of Some r \<Rightarrow> offloaded r | None \<Rightarrow> False) then (Some Already_Offloaded, [])
      else guarded x w (evicting x w
        (case boot a of
           None \<Rightarrow> (Some Bringup_Error, [])
         | Some i \<Rightarrow>
             (case dump_len a of
                None \<Rightarrow> (Some Dump_Error, [Boot i])
              | Some n \<Rightarrow>
                  if n < MIN_ARCHIVE_BYTES then (Some Dump_Error, [Boot i, Dump_To_Local i n])
                  else (None, [Boot i, Dump_To_Local i n, Set_Tier Frozen (write_ok a)] @ when_ok (kill_ok a) (Kill i))))))"

definition compact_schema :: "tier_setup \<Rightarrow> tier_answers \<Rightarrow> string \<Rightarrow> world \<Rightarrow> outcome" where
  "compact_schema cfg a x w =
     (if \<not> has_compact cfg then (Some Not_Configured, [])
      else if (case store_record (reg w) x of Some r \<Rightarrow> offloaded r | None \<Rightarrow> False) then (Some Already_Offloaded, [])
      else guarded x w
        (case warm w x of
           Some _ \<Rightarrow> (Some Warm_VM, [])
         | None \<Rightarrow> after [Evict]
             (case store_record (reg w) x of
                None \<Rightarrow> (Some No_Row, [])
              | Some r \<Rightarrow>
                  (case (vms w (sandbox_id r), image_len a) of
                     (Some _, Some n) \<Rightarrow>
                       if n < MIN_IMAGE_BYTES then (Some Undersized, [])
                       else (None, [Compact_Disk (sandbox_id r) n, Set_Tier Compacted (write_ok a)]
                                   @ when_ok (kill_ok a) (Kill (sandbox_id r)))
                   | _ \<Rightarrow> (Some Disk_Error, [])))))"

definition resolve_image_target :: "string option \<Rightarrow> string option \<Rightarrow> offload_error + string \<times> bool" where
  "resolve_image_target recorded viewed =
     (case (recorded, viewed) of
        (Some r, Some v) \<Rightarrow> if r \<noteq> v then Inl Conflicting_VMs else Inr (r, False)
      | (Some r, None) \<Rightarrow> Inr (r, False)
      | (None, Some v) \<Rightarrow> Inr (v, True)
      | (None, None) \<Rightarrow> Inl No_VM_Named)"

definition archive_schema_as_image :: "tier_setup \<Rightarrow> tier_answers \<Rightarrow> string \<Rightarrow> string option \<Rightarrow> world \<Rightarrow> outcome" where
  "archive_schema_as_image cfg a x viewed w =
     (if \<not> has_archive cfg \<or> \<not> has_image cfg then (Some Not_Configured, [])
      else if (case store_record (reg w) x of Some r \<Rightarrow> offloaded r | None \<Rightarrow> False) then (Some Already_Offloaded, [])
      else (case resolve_image_target (map_option sandbox_id (store_record (reg w) x)) viewed of
              Inl e \<Rightarrow> (Some e, [])
            | Inr (sid, adopting) \<Rightarrow>
                guarded x w (evicting x w (image_archive_now cfg a x sid w))))"

definition run_offload_job :: "tier_setup \<Rightarrow> tier_answers \<Rightarrow> offload_kind \<Rightarrow> string \<Rightarrow> world \<Rightarrow> outcome" where
  "run_offload_job cfg a k x w =
     (case k of
        Promote \<Rightarrow> archive_schema cfg a x w
      | Archive \<Rightarrow> archive_schema cfg a x w
      | Compact \<Rightarrow> compact_schema cfg a x w
      | ImageArchive \<Rightarrow> archive_schema_as_image cfg a x None w
      | Freeze \<Rightarrow> freeze_schema cfg a x w)"

text \<open>
  The cold path of \<open>checkout\<close>, once it has found no offload in flight and no warm entry. \<open>heads\<close> are the
  answers to the two HEADs, \<open>tripped\<close> the circuit breaker's verdict, \<open>boot\<close> what \<open>ensure_vm\<close> came back with.
\<close>

datatype checkout_error = Waits_For_Offload | Held_Off | Tier_Not_Configured | Bringup_Failed_Error

definition restore_plan ::
  "tier_setup \<Rightarrow> nat option option \<times> nat option option \<Rightarrow> rec option \<Rightarrow> checkout_error + restore_source option" where
  "restore_plan cfg heads r =
     (case map_option tier_of r of
        Some Archived \<Rightarrow>
          if has_archive cfg
          then Inr (Some (case pick_restore (fst heads) (snd heads) of Dump \<Rightarrow> Restore_S3 | Image \<Rightarrow> Restore_S3_Image))
          else Inl Tier_Not_Configured
      | Some Frozen \<Rightarrow> if has_freeze cfg then Inr (Some Restore_Local) else Inl Tier_Not_Configured
      | Some Compacted \<Rightarrow> if has_compact cfg then Inr (Some Restore_Local_Image) else Inl Tier_Not_Configured
      | _ \<Rightarrow> Inr None)"

definition thawed_file :: "bool \<Rightarrow> restore_source option \<Rightarrow> effect list" where
  "thawed_file ok src =
     (case src of
        Some Restore_Local \<Rightarrow> when_ok ok Remove_Dump
      | Some Restore_Local_Image \<Rightarrow> when_ok ok Remove_Image
      | _ \<Rightarrow> [])"

definition checkout_cold ::
  "tier_setup \<Rightarrow> tier_answers \<Rightarrow> nat option option \<times> nat option option \<Rightarrow> bool \<Rightarrow> string \<Rightarrow> world \<Rightarrow>
     (checkout_error + string) \<times> effect list" where
  "checkout_cold cfg a heads tripped x w =
     (if x \<in> archiving w then (Inl Waits_For_Offload, [Touch (now_at a)])
      else if tripped then (Inl Held_Off, [Touch (now_at a)])
      else (case restore_plan cfg heads (store_record (reg w) x) of
              Inl e \<Rightarrow> (Inl e, [Touch (now_at a)])
            | Inr src \<Rightarrow>
                (case boot a of
                   None \<Rightarrow> (Inl Bringup_Failed_Error, [Touch (now_at a)])
                 | Some i \<Rightarrow>
                     (Inr i, [Touch (now_at a), (case src of None \<Rightarrow> Boot i | Some s \<Rightarrow> Restore i s (cleaned a)), Put (now_at a) i]
                             @ thawed_file (remove_ok a) src @ [Serve]))))"

section \<open>Crashes\<close>

text \<open>
  \<open>serves v x w\<close>: a connect finds write \<open>v\<close> as its latest, both through the running process's record
  and through the record a process started after a crash would load.
\<close>

definition serves :: "nat \<Rightarrow> nat \<Rightarrow> string \<Rightarrow> world \<Rightarrow> bool" where
  "serves now v x w \<longleftrightarrow>
     connect_finds w x (store_record (reg w) x) = Some v \<and> connect_finds w x (reloaded now (reg w) x) = Some v"

text \<open>\<open>keeps t i e\<close>: effect \<open>e\<close> leaves the registry alone and whatever a connect reads in tier \<open>t\<close> on VM \<open>i\<close>.\<close>

fun keeps :: "tier \<Rightarrow> string \<Rightarrow> effect \<Rightarrow> bool" where
  "keeps t i Claim = True"
| "keeps t i Release = True"
| "keeps t i Evict = True"
| "keeps t i Serve = True"
| "keeps t i (Touch _) = False"
| "keeps t i (Put _ _) = False"
| "keeps t i (Set_Tier _ _) = False"
| "keeps t i (Kill j) = (t \<noteq> Live \<or> i \<noteq> j)"
| "keeps t i (Restore j _ _) = (t \<noteq> Live \<or> i \<noteq> j)"
| "keeps t i (Serve_Write j) = (t \<noteq> Live \<or> i \<noteq> j)"
| "keeps t i (Boot j) = True"
| "keeps t i (Dump_To_S3 _ _) = (t \<noteq> Archived)"
| "keeps t i (Archive_Disk _ _) = (t \<noteq> Archived)"
| "keeps t i Upload_Dump = (t \<noteq> Archived)"
| "keeps t i Upload_Image = (t \<noteq> Archived)"
| "keeps t i (Torn_Dump _) = (t \<noteq> Archived)"
| "keeps t i (Torn_Image _) = (t \<noteq> Archived)"
| "keeps t i Delete_S3_Dump = (t \<noteq> Archived)"
| "keeps t i (Dump_To_Local _ _) = (t \<noteq> Frozen)"
| "keeps t i Remove_Dump = (t \<noteq> Frozen)"
| "keeps t i (Compact_Disk _ _) = (t \<noteq> Compacted)"
| "keeps t i Remove_Image = (t \<noteq> Compacted)"

lemma keeps_reg: "keeps t i e \<Longrightarrow> reg (apply_effect x e w) = reg w"
  by (cases e) auto

lemma keeps_finds: "keeps t i e \<Longrightarrow> tier_finds w x t i = Some v \<Longrightarrow> tier_finds (apply_effect x e w) x t i = Some v"
  by (cases e; cases t) auto

lemma trace_append: "set (trace x (fx @ gx) w) = set (trace x fx w) \<union> set (trace x gx (run_effects x fx w))"
proof (induction fx arbitrary: w)
  case Nil
  then show ?case by (cases gx) auto
qed auto

text \<open>Both records name the same tier and VM: nothing the listed effects do is visible to a connect.\<close>

definition names :: "rec option \<Rightarrow> tier \<Rightarrow> string \<Rightarrow> bool" where
  "names r t i \<longleftrightarrow> map_option (\<lambda>r. (tier_of r, sandbox_id r)) r = Some (t, i)"

definition settled :: "nat \<Rightarrow> string \<Rightarrow> tier \<Rightarrow> string \<Rightarrow> nat \<Rightarrow> world \<Rightarrow> bool" where
  "settled now x t i v w \<longleftrightarrow>
     names (store_record (reg w) x) t i \<and> names (reloaded now (reg w) x) t i \<and> tier_finds w x t i = Some v"

lemma names_finds: "names r t i \<Longrightarrow> connect_finds w x r = tier_finds w x t i"
  by (auto simp: names_def connect_finds_def)

lemma settled_serves: "settled now x t i v w \<Longrightarrow> serves now v x w"
  by (auto simp: settled_def serves_def dest!: names_finds [where w = w and x = x])

lemma settled_step: "settled now x t i v w \<Longrightarrow> keeps t i e \<Longrightarrow> settled now x t i v (apply_effect x e w)"
  by (simp add: settled_def keeps_reg keeps_finds)

lemma settled_run: "settled now x t i v w \<Longrightarrow> list_all (keeps t i) fx \<Longrightarrow> settled now x t i v (run_effects x fx w)"
  by (induction fx arbitrary: w) (simp_all add: settled_step)

lemma settled_trace:
  "settled now x t i v w \<Longrightarrow> list_all (keeps t i) fx \<Longrightarrow> w' \<in> set (trace x fx w) \<Longrightarrow> serves now v x w'"
  by (induction fx arbitrary: w) (auto intro: settled_serves dest: settled_step)

lemma settled_flip:
  assumes "settled now x t i v w" "store_sane (reg w)" "tier_finds w x t' i = Some v"
  shows "settled now x t' i v (apply_effect x (Set_Tier t' True) w)"
proof -
  obtain r where r: "store_record (reg w) x = Some r" "sandbox_id r = i"
    using assms(1) by (auto simp: settled_def names_def)
  have "tier_finds (apply_effect x (Set_Tier t' True) w) x t' i = Some v"
    using assms(3) by (cases t') simp_all
  then show ?thesis
    using tier_registry.change_survives [OF assms(2) r(1), of t' now] r(2) by (simp add: settled_def names_def)
qed

text \<open>The shape of every successful offload: prepare, flip the tier durably, clean up.\<close>

lemma flip_crash_safe:
  assumes "settled now x t i v w" "store_sane (reg w)" "list_all (keeps t i) pre" "list_all (keeps t' i) post"
    and "tier_finds (run_effects x pre w) x t' i = Some v"
    and "w' \<in> set (trace x (pre @ Set_Tier t' True # post) w)"
  shows "serves now v x w'"
proof -
  let ?w = "run_effects x pre w"
  have sane: "store_sane (reg ?w)"
    using assms(2,3) by (induction pre arbitrary: w) (auto simp: keeps_reg)
  have flip: "settled now x t' i v (apply_effect x (Set_Tier t' True) ?w)"
    by (rule settled_flip [OF settled_run [OF assms(1,3)] sane assms(5)])
  have "w' \<in> set (trace x pre w) \<or> w' = ?w \<or> w' \<in> set (trace x post (apply_effect x (Set_Tier t' True) ?w))"
    using assms(6) by (auto simp: trace_append)
  then show ?thesis
    using settled_trace [OF assms(1,3)] settled_serves [OF settled_run [OF assms(1,3)]] settled_trace [OF flip assms(4)]
    by blast
qed

text \<open>Every list of effects an offload can perform has one of two shapes: no tier change, or exactly one.\<close>

definition orderly :: "string \<Rightarrow> nat \<Rightarrow> world \<Rightarrow> tier \<Rightarrow> string \<Rightarrow> effect list \<Rightarrow> bool" where
  "orderly x v w t i fx \<longleftrightarrow> list_all (keeps t i) fx
     \<or> (\<exists>t' pre post. fx = pre @ Set_Tier t' True # post \<and> list_all (keeps t i) pre \<and> list_all (keeps t' i) post
          \<and> tier_finds (run_effects x pre w) x t' i = Some v)"

lemma orderly_keep: "list_all (keeps t i) fx \<Longrightarrow> orderly x v w t i fx"
  by (simp add: orderly_def)

lemma orderly_flip:
  "fx = pre @ Set_Tier t' True # post \<Longrightarrow> list_all (keeps t i) pre \<Longrightarrow> list_all (keeps t' i) post \<Longrightarrow>
     tier_finds (run_effects x pre w) x t' i = Some v \<Longrightarrow> orderly x v w t i fx"
  by (auto simp: orderly_def)

lemma orderly_safe:
  "orderly x v w t i fx \<Longrightarrow> settled now x t i v w \<Longrightarrow> store_sane (reg w) \<Longrightarrow> w' \<in> set (trace x fx w) \<Longrightarrow> serves now v x w'"
  unfolding orderly_def using settled_trace flip_crash_safe by metis

lemma orderly_guarded:
  assumes "x \<notin> archiving w \<Longrightarrow> orderly x v w t i (Claim # snd body @ [Release])"
  shows "orderly x v w t i (snd (guarded x w body))"
  using assms by (auto simp: guarded_def orderly_keep split: prod.splits)

lemma orderly_evicting:
  assumes "orderly x v w t i (Claim # Evict # snd body @ [Release])"
  shows "orderly x v w t i (Claim # snd (evicting x w body) @ [Release])"
  using assms by (auto simp: evicting_def after_def orderly_keep split: prod.splits option.splits nat.splits)

lemma s3_finds_dump [simp]: "MIN_DUMP_BYTES \<le> bytes d \<Longrightarrow> s3_finds (Some d) img = Some (ver d)"
  by (simp add: s3_finds_def whole_def MIN_DUMP_BYTES_def)

lemma s3_finds_image [simp]: "MIN_IMAGE_BYTES \<le> bytes d \<Longrightarrow> s3_finds None (Some d) = Some (ver d)"
  by (simp add: s3_finds_def whole_def MIN_IMAGE_BYTES_def)

text \<open>
  With HEADs that tell what is there, the code's choice is the object a connect is to read; where neither
  object is whole it picks the dump, whose restore then fails.
\<close>

lemma pick_restore_truthful:
  "pick_restore (Some (map_option bytes dump)) (Some (map_option bytes img)) =
     (if \<not> whole 512 dump \<and> whole 1024 img then Image else Dump)"
  by (cases dump; cases img)
    (simp_all add: pick_restore_def choose_restore_def len_of_def whole_def MIN_DUMP_BYTES_def MIN_IMAGE_BYTES_def)

declare list_all_append [simp]

lemma keeps_when_ok [simp]: "list_all P (when_ok b e) \<longleftrightarrow> (b \<longrightarrow> P e)"
  by (simp add: when_ok_def)

lemma orderly_frozen:
  assumes "write_ok a" "tier_finds w x Frozen i = Some v"
  shows "orderly x v w Frozen i (snd (archive_frozen_schema cfg a x w))"
proof -
  obtain f where f: "dump_files w x = Some f" "ver f = v" using assms(2) by auto
  have "orderly x v w Frozen i (Claim # ([Upload_Dump, Set_Tier Archived True] @ when_ok (remove_ok a) Remove_Dump) @ [Release])"
    if "MIN_DUMP_BYTES \<le> bytes f"
    by (rule orderly_flip [where pre = "[Claim, Upload_Dump]" and t' = Archived]) (simp, use f that in simp_all)
  then show ?thesis
    using f assms(1)
    by (auto simp: archive_frozen_schema_def orderly_keep intro!: orderly_guarded split: upload_answer.splits)
qed

lemma orderly_compacted:
  assumes "write_ok a" "tier_finds w x Compacted i = Some v"
  shows "orderly x v w Compacted i (snd (archive_compacted_schema cfg a x w))"
proof -
  obtain f where f: "image_files w x = Some f" "ver f = v" using assms(2) by auto
  have "orderly x v w Compacted i
      (Claim # ([Upload_Image, Delete_S3_Dump, Set_Tier Archived True] @ when_ok (remove_ok a) Remove_Image) @ [Release])"
    if "MIN_IMAGE_BYTES \<le> bytes f"
    by (rule orderly_flip [where pre = "[Claim, Upload_Image, Delete_S3_Dump]" and t' = Archived]) (simp, use f that in simp_all)
  then show ?thesis
    using f assms(1)
    by (auto simp: archive_compacted_schema_def orderly_keep intro!: orderly_guarded split: upload_answer.splits)
qed

text \<open>The image archive, performed after effects \<open>fx\<close> that leave the bound VM's disk alone.\<close>

lemma orderly_image:
  assumes "write_ok a" "store_record (reg w') x \<noteq> None"
    and "list_all (keeps Live i) fx" "vms (run_effects x fx w) i = Some v"
  shows "orderly x v w Live i (fx @ snd (image_archive_now cfg a x i w') @ [Release])"
proof -
  let ?pre = "\<lambda>n. fx @ [Archive_Disk i n, Delete_S3_Dump]"
  have "orderly x v w Live i (fx @ ([Archive_Disk i n, Delete_S3_Dump] @ [Set_Tier Archived True] @ when_ok (kill_ok a) (Kill i)) @ [Release])"
    if "MIN_IMAGE_BYTES \<le> n" for n
    by (rule orderly_flip [where pre = "?pre n" and t' = Archived])
      (simp, use assms(3,4) that in \<open>simp_all add: art_def\<close>)
  then show ?thesis
    using assms(1-3)
    by (auto simp: image_archive_now_def when_ok_def orderly_keep split: option.splits upload_answer.splits)
qed

lemma orderly_fallback:
  assumes "write_ok a" "store_record (reg w') x \<noteq> None"
    and "list_all (keeps Live i) fx" "vms (run_effects x fx w) i = Some v"
  shows "orderly x v w Live i (fx @ snd (image_archive_fallback cfg a x (Some i) e w') @ [Release])"
  using orderly_image [OF assms, of cfg] assms(3)
  by (auto simp: image_archive_fallback_def orderly_keep split: prod.splits option.splits)

lemma dump_to_s3_keeps: "list_all (keeps Live i) (snd (dump_to_s3 a j))"
  by (auto simp: dump_to_s3_def split: option.splits upload_answer.splits)

lemma dump_to_s3_lands:
  "dump_to_s3 a i = (True, fx) \<Longrightarrow> vms w i = Some v \<Longrightarrow>
     \<exists>n. MIN_DUMP_BYTES \<le> n \<and> s3_dumps (run_effects x fx w) x = Some \<lparr>ver = v, bytes = n\<rparr>"
  by (auto simp: dump_to_s3_def art_def MIN_DUMP_BYTES_def MIN_ARCHIVE_BYTES_def
      split: option.splits if_splits upload_answer.splits)

lemma keeps_run_reg: "list_all (keeps t i) fx \<Longrightarrow> reg (run_effects x fx w) = reg w"
  by (induction fx arbitrary: w) (auto dest: keeps_reg)

lemma keeps_run_vm: "list_all (keeps Live i) fx \<Longrightarrow> vms w i = Some v \<Longrightarrow> vms (run_effects x fx w) i = Some v"
proof (induction fx arbitrary: w)
  case (Cons e fx)
  then have "vms (apply_effect x e w) i = Some v" using keeps_finds [of Live i e w x v] by simp
  with Cons show ?case by simp
qed simp

lemma orderly_archive_live:
  assumes "write_ok a" "names (store_record (reg w) x) Live i" "vms w i = Some v"
    and "\<And>j. boot a = Some j \<Longrightarrow> j = i"
  shows "orderly x v w Live i (snd (archive_schema cfg a x w))"
proof -
  have rec: "store_record (reg w) x \<noteq> None" "map_option sandbox_id (store_record (reg w) x) = Some i"
    "map_option tier_of (store_record (reg w) x) = Some Live"
    using assms(2) by (auto simp: names_def)
  have "orderly x v w Live i
      (Claim # Evict # snd (image_archive_fallback cfg a x (Some i) Bringup_Error w) @ [Release])"
    using orderly_fallback [where fx = "[Claim, Evict]" and w = w and w' = w, OF assms(1) rec(1)] assms(3) by simp
  moreover have "orderly x v w Live i (Claim # Evict # snd (after (Boot i # fx)
        (image_archive_fallback cfg a x (Some i) Dump_Error (run_effects x (Boot i # fx) w))) @ [Release])"
    if "dump_to_s3 a i = (False, fx)" for fx
  proof -
    have k: "list_all (keeps Live i) (Boot i # fx)" using dump_to_s3_keeps [of i a i] that by simp
    have "vms (run_effects x (Claim # Evict # Boot i # fx) w) i = Some v"
      using k assms(3) by (intro keeps_run_vm) simp_all
    then have "orderly x v w Live i ((Claim # Evict # Boot i # fx)
        @ snd (image_archive_fallback cfg a x (Some i) Dump_Error (run_effects x (Boot i # fx) w)) @ [Release])"
      using k rec(1) assms(1) keeps_run_reg [OF k, of x w] by (intro orderly_fallback) simp_all
    then show ?thesis by (simp add: snd_after)
  qed
  moreover have "orderly x v w Live i
      (Claim # Evict # (Boot i # fx @ [Set_Tier Archived True] @ when_ok (kill_ok a) (Kill i)) @ [Release])"
    if "dump_to_s3 a i = (True, fx)" for fx
  proof (rule orderly_flip [where pre = "Claim # Evict # Boot i # fx" and t' = Archived])
    show "list_all (keeps Live i) (Claim # Evict # Boot i # fx)" using dump_to_s3_keeps [of i a i] that by simp
    have "vms (run_effects x [Claim, Evict, Boot i] w) i = Some v" using assms(3) by simp
    from dump_to_s3_lands [OF that this, of x]
    show "tier_finds (run_effects x (Claim # Evict # Boot i # fx) w) x Archived i = Some v" by auto
  qed (simp, simp)
  ultimately show ?thesis
    using rec assms(1,4)
    by (auto simp: archive_schema_def orderly_keep intro!: orderly_guarded orderly_evicting split: option.splits prod.splits bool.splits)
qed

lemma orderly_freeze:
  assumes "write_ok a" "vms w i = Some v" "\<And>j. boot a = Some j \<Longrightarrow> j = i"
  shows "orderly x v w Live i (snd (freeze_schema cfg a x w))"
proof -
  have "orderly x v w Live i (Claim # Evict # ([Boot i, Dump_To_Local i n, Set_Tier Frozen True] @ when_ok (kill_ok a) (Kill i)) @ [Release])" for n
    by (rule orderly_flip [where pre = "[Claim, Evict, Boot i, Dump_To_Local i n]" and t' = Frozen])
      (simp, use assms(2) in \<open>simp_all add: art_def\<close>)
  then show ?thesis
    using assms(1,3)
    by (auto simp: freeze_schema_def orderly_keep intro!: orderly_guarded orderly_evicting split: option.splits)
qed

lemma orderly_compact:
  assumes "write_ok a" "vms w i = Some v" "names (store_record (reg w) x) Live i"
  shows "orderly x v w Live i (snd (compact_schema cfg a x w))"
proof -
  obtain r where r: "store_record (reg w) x = Some r" "sandbox_id r = i" using assms(3) by (auto simp: names_def)
  have "orderly x v w Live i (Claim # (Evict # [Compact_Disk i n, Set_Tier Compacted True] @ when_ok (kill_ok a) (Kill i)) @ [Release])" for n
    by (rule orderly_flip [where pre = "[Claim, Evict, Compact_Disk i n]" and t' = Compacted])
      (simp, use assms(2) in \<open>simp_all add: art_def\<close>)
  then show ?thesis
    using assms(1,2) r
    by (auto simp: compact_schema_def after_def orderly_keep intro!: orderly_guarded split: option.splits)
qed

lemma orderly_as_image:
  assumes "write_ok a" "vms w i = Some v" "names (store_record (reg w) x) Live i"
  shows "orderly x v w Live i (snd (archive_schema_as_image cfg a x viewed w))"
proof -
  obtain r where r: "store_record (reg w) x = Some r" "sandbox_id r = i" using assms(3) by (auto simp: names_def)
  have "orderly x v w Live i (Claim # Evict # snd (image_archive_now cfg a x i w) @ [Release])"
    using orderly_image [where fx = "[Claim, Evict]" and w = w and w' = w, OF assms(1)] r assms(2) by simp
  then show ?thesis
    using r
    by (auto simp: archive_schema_as_image_def resolve_image_target_def orderly_keep
        intro!: orderly_guarded orderly_evicting split: option.splits)
qed

section \<open>Properties\<close>

text \<open>
  C2: Moving a schema between tiers never puts its data out of reach, wherever the process dies.
  Take a schema whose record, in memory and in the file, leads a connect to write \<open>v\<close>, and any offload
  job (archive, promote, freeze, compact, image archive) under any answers of daemon, guest and S3 in
  which registry writes succeed and the VM brought up for the dump is the bound one. In every state
  the job passes through, a connect through the running process and a connect after a crash both
  find \<open>v\<close>: the new copy is complete before the tier changes, and the change is on disk before the old
  copy goes.
\<close>

theorem offload_crash_safe:
  assumes "settled now x t i v w" "store_sane (reg w)" "write_ok a" "t = Live \<longrightarrow> boot a \<in> {None, Some i}"
  shows "\<forall>w' \<in> set (trace x (snd (run_offload_job cfg a k x w)) w). serves now v x w'"
proof -
  have n: "names (store_record (reg w) x) t i" and f: "tier_finds w x t i = Some v"
    using assms(1) by (simp_all add: settled_def)
  obtain r where r: "store_record (reg w) x = Some r" "tier_of r = t" using n by (auto simp: names_def)
  have "orderly x v w t i (snd (run_offload_job cfg a k x w))"
  proof (cases t)
    case Live
    then have b: "boot a = Some j \<Longrightarrow> j = i" for j using assms(4) by auto
    note l = n [unfolded Live] and d = f [unfolded Live tier_finds.simps]
    show ?thesis
      using orderly_archive_live [OF assms(3) l d b] orderly_freeze [OF assms(3) d b]
        orderly_compact [OF assms(3) d l] orderly_as_image [OF assms(3) d l] Live
      by (cases k) (simp_all add: run_offload_job_def)
  next
    case Frozen
    with r orderly_frozen [OF assms(3), of w x i v cfg] f show ?thesis
      by (cases k) (simp_all add: run_offload_job_def archive_schema_def freeze_schema_def compact_schema_def
          archive_schema_as_image_def offloaded_def orderly_keep)
  next
    case Compacted
    with r orderly_compacted [OF assms(3), of w x i v cfg] f show ?thesis
      by (cases k) (simp_all add: run_offload_job_def archive_schema_def freeze_schema_def compact_schema_def
          archive_schema_as_image_def offloaded_def orderly_keep)
  next
    case Archived
    with r show ?thesis
      by (cases k) (simp_all add: run_offload_job_def archive_schema_def freeze_schema_def compact_schema_def
          archive_schema_as_image_def offloaded_def orderly_keep)
  qed
  then show ?thesis using orderly_safe assms(1,2) by blast
qed

definition demo_world :: "tier \<Rightarrow> world" where
  "demo_world t =
     (let m = [(''shop'', \<lparr>sandbox_id = ''sb-1'', last_active = 5, tier_of = t\<rparr>)]
      in \<lparr>reg = \<lparr>smap = m, seq = 0, written = 0, dirty = False, bound_cache = None, sfile = Some (store_serialize m),
                 queue = [], flush_owed = False\<rparr>,
          archiving = {}, warm = Map.empty, vms = [''sb-1'' \<mapsto> 7], dump_files = [''shop'' \<mapsto> \<lparr>ver = 7, bytes = 600\<rparr>],
          image_files = Map.empty, s3_dumps = Map.empty, s3_images = Map.empty\<rparr>)"

definition demo_answers :: tier_answers where
  "demo_answers = \<lparr>now_at = 9, boot = Some ''sb-1'', via_server = False, dump_len = Some 600, image_len = Some 2000,
     upload = Verified, delete_ok = True, write_ok = True, kill_ok = True, remove_ok = True, cleaned = max\<rparr>"

definition demo_config :: tier_setup where
  "demo_config = \<lparr>has_archive = True, has_freeze = True, has_compact = True, has_image = True\<rparr>"

lemmas demo_defs = demo_world_def demo_answers_def demo_config_def Let_def

lemma demo_recs: "recs_ok [(''shop'', \<lparr>sandbox_id = ''sb-1'', last_active = 5, tier_of = t\<rparr>)]"
  by (simp add: recs_ok_def hm_wf_def rec_ok_def plain_field_def)

lemma demo_sane: "store_sane (reg (demo_world t))"
  by (simp add: demo_world_def Let_def store_sane_def demo_recs)

lemma demo_reloaded: "reloaded now (reg (demo_world t)) = store_record (reg (demo_world t))"
  using store_parse_serialize [OF demo_recs, of now t]
  by (auto simp: demo_world_def Let_def reloaded_def store_load_def store_record_def fun_eq_iff)

lemma demo_settled: "t = Live \<or> t = Frozen \<Longrightarrow> settled now ''shop'' t ''sb-1'' 7 (demo_world t)"
  by (auto simp: settled_def demo_reloaded names_def) (simp_all add: demo_world_def store_record_def Let_def)

theorem offload_crash_safe_witness:
  "list_all (serves 3 7 ''shop'')
     (trace ''shop'' (snd (run_offload_job demo_config demo_answers Freeze ''shop'' (demo_world Live))) (demo_world Live))"
  using offload_crash_safe [OF demo_settled demo_sane, where t = Live and now = 3 and a = demo_answers and cfg = demo_config and k = Freeze]
  by (simp add: list_all_iff) (simp add: demo_answers_def)

text \<open>A VM that was just created or claimed from the spares: its database holds no write.\<close>

definition fresh_vm :: "world \<Rightarrow> string \<Rightarrow> bool" where
  "fresh_vm w i \<longleftrightarrow> vms w i = None \<or> vms w i = Some 0"

text \<open>
  C3: A connect to a cold schema serves its latest write. When no offload is in flight, the breaker
  is closed, the tiers are configured, the HEADs answer truthfully and \<open>ensure_vm\<close> comes
  back with a VM (the bound one for a live schema, one with an empty database where a dump is to be
  restored), \<open>checkout\<close> succeeds with that VM, whose database then holds exactly the write the record led
  to (on its own disk, in the S3 dump if that is whole and else in the S3 image, or in the local dump or
  image), and the schema is recorded live on it.
\<close>

theorem checkout_serves_latest:
  assumes "names (store_record (reg w) x) t i" "tier_finds w x t i = Some v" "x \<notin> archiving w"
    and "has_archive cfg" "has_freeze cfg" "has_compact cfg"
    and "heads = (Some (map_option bytes (s3_dumps w x)), Some (map_option bytes (s3_images w x)))"
    and "boot a = Some j" "t = Live \<longrightarrow> j = i"
    and "t = Frozen \<or> t = Archived \<and> whole 512 (s3_dumps w x) \<longrightarrow> fresh_vm w j"
  shows "\<exists>fx. checkout_cold cfg a heads False x w = (Inr j, fx)
    \<and> vms (run_effects x fx w) j = Some v
    \<and> names (store_record (reg (run_effects x fx w)) x) Live j"
proof -
  obtain r where r: "store_record (reg w) x = Some r" "tier_of r = t"
    using assms(1) by (auto simp: names_def)
  obtain src where src: "restore_plan cfg heads (Some r) = Inr src"
    and v: "vms (apply_effect x (case src of None \<Rightarrow> Boot j | Some s \<Rightarrow> Restore j s (cleaned a)) (apply_effect x (Touch n) w)) j = Some v" for n
    using assms(2,4-7,9,10) r(2)
    by (cases t) (auto simp: restore_plan_def restored_def s3_finds_def pick_restore_truthful loaded_def fresh_vm_def
        split: if_splits)
  let ?w = "apply_effect x (case src of None \<Rightarrow> Boot j | Some s \<Rightarrow> Restore j s (cleaned a)) (apply_effect x (Touch (now_at a)) w)"
  let ?fx = "[Touch (now_at a), (case src of None \<Rightarrow> Boot j | Some s \<Rightarrow> Restore j s (cleaned a)), Put (now_at a) j]
      @ thawed_file (remove_ok a) src @ [Serve]"
  have tail: "vms (run_effects x (thawed_file b src @ [Serve]) u) = vms u"
    "reg (run_effects x (thawed_file b src @ [Serve]) u) = reg u" for b u
    by (auto simp: thawed_file_def when_ok_def split: option.splits restore_source.splits)
  obtain r' where "sandbox_id r' = j" "tier_of r' = Live"
    "store_record (store_put (now_at a) x j (reg ?w)) = (store_record (reg ?w))(x \<mapsto> r')"
    using tier_registry.bind_look [of j "now_at a" x "reg ?w"] by auto
  then have "names (store_record (reg (run_effects x ?fx w)) x) Live j"
    using tail(2) [of "remove_ok a"] by (simp add: names_def)
  moreover have "vms (run_effects x ?fx w) j = Some v" using v [of "now_at a"] tail(1) [of "remove_ok a"] by simp
  moreover have "checkout_cold cfg a heads False x w = (Inr j, ?fx)"
    using assms(3,8) r(1) src by (simp add: checkout_cold_def)
  ultimately show ?thesis by blast
qed

theorem checkout_serves_latest_witness:
  "\<exists>fx. checkout_cold demo_config (demo_answers\<lparr>boot := Some ''sb-2''\<rparr>) (Some None, Some None) False ''shop'' (demo_world Frozen)
          = (Inr ''sb-2'', fx)
    \<and> vms (run_effects ''shop'' fx (demo_world Frozen)) ''sb-2'' = Some 7
    \<and> names (store_record (reg (run_effects ''shop'' fx (demo_world Frozen))) ''shop'') Live ''sb-2''"
  by (rule checkout_serves_latest [where t = Frozen and i = "''sb-1''"])
    (simp_all add: demo_defs names_def store_record_def fresh_vm_def)

text \<open>
  A checkout and an archive of the same schema can overlap, and then an acknowledged write is
  lost. The checkout looks at the \<open>archiving\<close> set once, before its bring-up, and the archive sees no
  session, because the cell of a running bring-up is not initialised yet. There is an interleaving of
  the two, each taking exactly the steps it takes alone from the same state and both succeeding, in
  which a client commits a write on the VM it was handed, and at the end no VM, file or S3 object
  holds that write.
\<close>

theorem overlapping_archive_loses_write:
  "\<exists>w x i v cx ax fx.
     settled 0 x Live i v w
     \<and> checkout_cold demo_config demo_answers (Some None, Some None) False x w = (Inr i, cx)
     \<and> archive_schema demo_config demo_answers x w = (None, ax)
     \<and> fx \<in> shuffles (cx @ [Serve_Write i]) ax
     \<and> (\<exists>w' \<in> set (trace x fx w). vms w' i = Some (v + 1))
     \<and> (\<forall>t j. tier_finds (run_effects x fx w) x t j \<noteq> Some (v + 1))"
proof -
  let ?w = "demo_world Live" and ?x = "''shop''" and ?i = "''sb-1''"
  let ?cx = "[Touch 9, Boot ?i, Put 9 ?i, Serve]"
  let ?ax = "[Claim, Evict, Boot ?i, Dump_To_S3 ?i 600, Set_Tier Archived True, Kill ?i, Release]"
  let ?fx = "[Touch 9, Boot ?i, Claim, Evict, Boot ?i, Dump_To_S3 ?i 600, Put 9 ?i, Serve, Serve_Write ?i,
    Set_Tier Archived True, Kill ?i, Release]"
  have "checkout_cold demo_config demo_answers (Some None, Some None) False ?x ?w = (Inr ?i, ?cx)"
    by (simp add: checkout_cold_def demo_defs restore_plan_def store_record_def thawed_file_def)
  moreover have "archive_schema demo_config demo_answers ?x ?w = (None, ?ax)"
    by (simp add: archive_schema_def demo_defs store_record_def guarded_def evicting_def dump_to_s3_def after_def
        when_ok_def MIN_ARCHIVE_BYTES_def)
  moreover have "?fx \<in> shuffles (?cx @ [Serve_Write ?i]) ?ax"
    unfolding append.simps
    by ((rule Cons_in_shuffles_leftI)+, (rule Cons_in_shuffles_rightI)+, (rule Cons_in_shuffles_leftI)+, simp)
  moreover have "\<exists>w' \<in> set (trace ?x ?fx ?w). vms w' ?i = Some (7 + 1)" by (simp add: demo_world_def Let_def art_def)
  moreover have "tier_finds (run_effects ?x ?fx ?w) ?x t j \<noteq> Some (7 + 1)" for t j
    by (cases t) (simp_all add: demo_world_def Let_def art_def s3_finds_def whole_def)
  ultimately show ?thesis using demo_settled [of Live 0] by blast
qed

section \<open>Where the order of writes is not kept\<close>

text \<open>
  A thaw deletes the local dump after \<open>put\<close>, whose write is only queued: until that write lands the file
  still says frozen, and a process that starts then finds no dump to restore.
\<close>

lemma thaw_deletes_dump_before_row_is_durable:
  assumes "names (store_record (reg w) x) Frozen i" "names (reloaded now (reg w) x) Frozen i"
    and "checkout_cold cfg a heads False x w = (Inr j, fx)" "remove_ok a"
  shows "connect_finds (run_effects x fx w) x (reloaded now (reg (run_effects x fx w)) x) = None"
proof -
  obtain r where r: "store_record (reg w) x = Some r" "tier_of r = Frozen" using assms(1) by (auto simp: names_def)
  have fx: "fx = [Touch (now_at a), Restore j Restore_Local (cleaned a), Put (now_at a) j, Remove_Dump, Serve]"
    using assms(3,4) r
    by (auto simp: checkout_cold_def restore_plan_def thawed_file_def when_ok_def split: if_splits option.splits)
  have "reloaded now (reg (run_effects x fx w)) = reloaded now (reg w)" by (simp add: fx reloaded_def)
  then show ?thesis using names_finds [OF assms(2), of "run_effects x fx w" x] by (simp add: fx)
qed

text \<open>
  \<open>set_tier\<close> reports nothing when its write fails, and the kill follows all the same: the file still binds
  the schema live to a VM that is gone.
\<close>

lemma unwritten_tier_still_kills:
  "connect_finds w' ''shop'' (reloaded 3 (reg w') ''shop'') = None"
  if "w' = run_effects ''shop'' (snd (freeze_schema demo_config (demo_answers\<lparr>write_ok := False\<rparr>) ''shop'' (demo_world Live))) (demo_world Live)"
proof -
  let ?w = "demo_world Live"
  have fx: "snd (freeze_schema demo_config (demo_answers\<lparr>write_ok := False\<rparr>) ''shop'' ?w) =
      [Claim, Evict, Boot ''sb-1'', Dump_To_Local ''sb-1'' 600, Set_Tier Frozen False, Kill ''sb-1'', Release]"
    by (simp add: freeze_schema_def demo_defs store_record_def offloaded_def guarded_def evicting_def after_def
        when_ok_def MIN_ARCHIVE_BYTES_def)
  have "sfile (set_tier False ''shop'' Frozen (reg ?w)) = sfile (reg ?w)"
    by (simp add: set_tier_def set_tier_begin_def stamp_def write_latest_def Let_def split: option.splits)
  moreover have "vms ?w ''sb-1'' = Some 7" by (simp add: demo_world_def Let_def)
  ultimately have "reloaded 3 (reg w') = reloaded 3 (reg ?w)" by (simp add: that fx reloaded_def)
  then have "names (reloaded 3 (reg w') ''shop'') Live ''sb-1''"
    by (simp add: demo_reloaded) (simp add: names_def demo_world_def Let_def store_record_def)
  from names_finds [OF this, of w' "''shop''"] show ?thesis by (simp add: that fx)
qed

text \<open>
  \<open>archive_schema\<close> of a schema with no row (a VM the registry does not know) dumps it, changes no tier, and
  kills the VM: no record leads to the dump. \<open>image_archive_now\<close> creates the row first.
\<close>

lemma rowless_archive_is_unreachable:
  assumes "store_record (reg w) x = None" "archive_schema cfg a x w = (None, fx)" "boot a = Some i"
    "dump_to_s3 a i = (True, gx)"
  shows "store_record (reg (run_effects x fx w)) x = None \<and> (kill_ok a \<longrightarrow> vms (run_effects x fx w) i = None)"
proof -
  have fx: "fx = Claim # (Evict # Boot i # gx @ [Set_Tier Archived (write_ok a)] @ when_ok (kill_ok a) (Kill i)) @ [Release]"
    using assms by (auto simp: archive_schema_def guarded_def evicting_def after_def split: if_splits option.splits nat.splits)
  have k: "list_all (keeps Live i) (Claim # Evict # Boot i # gx)" using dump_to_s3_keeps [of i a i] assms(4) by simp
  have "reg (run_effects x (Claim # Evict # Boot i # gx) w) = reg w" by (rule keeps_run_reg [OF k])
  then show ?thesis
    using tier_registry.change_missing [OF assms(1)] assms(1) by (simp add: fx when_ok_def)
qed

text \<open>A HEAD of the dump key that fails lets an old image at the image key win over the newer dump.\<close>

lemma failed_head_restores_old_image:
  assumes "tier_finds w x Archived i = Some v" "s3_dumps w x = Some d" "512 \<le> bytes d"
    and "s3_images w x = Some im" "1024 \<le> bytes im" "names r Archived i" "has_archive cfg"
  shows "v = ver d \<and> restore_plan cfg (None, Some (Some (bytes im))) r = Inr (Some Restore_S3_Image)
    \<and> restored Restore_S3_Image x w = Some im"
  using assms by (auto simp: names_def restore_plan_def pick_restore_def len_of_def choose_restore_def MIN_IMAGE_BYTES_def
      MIN_DUMP_BYTES_def restored_def s3_finds_def whole_def)

text \<open>
  A dump restored into a VM that was found by name and still holds a database may leave more there than
  the dump: a connect to an archived schema then serves what \<open>pg_restore\<close> made of the two.
\<close>

lemma restore_over_leftovers:
  assumes "names (store_record (reg w) x) Archived i" "x \<notin> archiving w" "has_archive cfg" "boot a = Some j"
    and "s3_dumps w x = Some d" "512 \<le> bytes d" "vms w j = Some (Suc c)"
  shows "\<exists>fx. checkout_cold cfg a (Some (Some (bytes d)), h) False x w = (Inr j, fx)
    \<and> vms (run_effects x fx w) j = Some (cleaned a (Suc c) (ver d))"
  using assms
  by (auto simp: names_def checkout_cold_def restore_plan_def MIN_DUMP_BYTES_def thawed_file_def loaded_def restored_def)

end
