(* ===== verification/Images.thy ===== *)
theory Images
  imports S3_Sign Tiers
begin

text \<open>
  Disk images (\<open>src/src/imgarchive.rs\<close>): waiting for a stopped VM to let go of its disk, compressing the
  disk into a verified local image, uploading an image and verifying it, downloading one. The external
  tools are a parameter: \<open>zstd\<close> (whether the run succeeded and what it left in its output file), \<open>unzstd\<close>
  (what a compressed stream decompresses to, \<open>None\<close> if it is damaged) and \<open>e2fsck\<close> (the disk afterwards).
\<close>

section \<open>Waiting for the disk\<close>

definition DISK_RELEASE_TIMEOUT :: nat where
  "DISK_RELEASE_TIMEOUT = 60"

text \<open>
  \<open>held t\<close>: some process holds the disk open at second \<open>t\<close>. The loop returns the second at which it
  ended and whether it saw the disk free.
\<close>

function wait_released_loop :: "(nat \<Rightarrow> bool) \<Rightarrow> nat \<Rightarrow> nat \<Rightarrow> bool \<times> nat" where
  "wait_released_loop held_at deadline now =
     (if \<not> held_at now \<and> \<not> held_at (now + 2) then (True, now + 2)
      else (let now' = (if held_at now then now else now + 2)
            in if deadline \<le> now' then (False, now') else wait_released_loop held_at deadline (now' + 3)))"
  by pat_completeness auto
termination
  by (relation "measure (\<lambda>(held_at, deadline, now). deadline - now)") (auto split: if_splits)

declare wait_released_loop.simps [simp del]

definition wait_disk_released :: "(nat \<Rightarrow> bool) \<Rightarrow> nat \<Rightarrow> bool \<times> nat" where
  "wait_disk_released held_at start = wait_released_loop held_at (start + DISK_RELEASE_TIMEOUT) start"

lemma wait_released_loop_bound: "now \<le> deadline + 4 \<Longrightarrow> snd (wait_released_loop held_at deadline now) \<le> deadline + 6"
proof (induction held_at deadline now rule: wait_released_loop.induct)
  case (1 held_at deadline now)
  then show ?case by (subst wait_released_loop.simps) (auto simp: Let_def not_le split: if_splits)
qed

lemma wait_released_loop_true:
  "wait_released_loop held_at deadline now = (True, t) \<Longrightarrow> now + 2 \<le> t \<and> \<not> held_at (t - 2) \<and> \<not> held_at t"
proof (induction held_at deadline now rule: wait_released_loop.induct)
  case (1 held_at deadline now)
  show ?case
  proof (cases "\<not> held_at now \<and> \<not> held_at (now + 2)")
    case True
    then show ?thesis using "1.prems" by (auto simp: wait_released_loop.simps [of held_at deadline now])
  next
    case False
    define n where "n = (if held_at now then now else now + 2)"
    have n: "\<not> deadline \<le> n" "wait_released_loop held_at deadline (n + 3) = (True, t)" "now \<le> n"
      using "1.prems" False by (auto simp: wait_released_loop.simps [of held_at deadline now] n_def Let_def split: if_splits)
    from "1.IH" [OF False n_def n(1,2)] n(3) show ?thesis by auto
  qed
qed

lemma wait_released_loop_false:
  "wait_released_loop held_at deadline now = (False, t) \<Longrightarrow> deadline \<le> t"
proof (induction held_at deadline now rule: wait_released_loop.induct)
  case (1 held_at deadline now)
  have h: "\<not> (\<not> held_at now \<and> \<not> held_at (now + 2))"
    using "1.prems" by (auto simp: wait_released_loop.simps [of held_at deadline now] split: if_splits)
  define n where "n = (if held_at now then now else now + 2)"
  have w: "wait_released_loop held_at deadline now = (if deadline \<le> n then (False, n) else wait_released_loop held_at deadline (n + 3))"
    unfolding wait_released_loop.simps [of held_at deadline now] Let_def n_def [symmetric] if_not_P [OF h] by (rule refl)
  show ?case using "1.IH" [OF h n_def] "1.prems" w by (cases "deadline \<le> n") simp_all
qed

text \<open>
  The wait for a stopped VM's disk always ends, within 66 seconds of its start. It reports the disk free
  only after two scans two seconds apart found no process holding it, and reports it held only once its
  sixty seconds are over.
\<close>

theorem wait_disk_released_ends:
  "\<exists>free t. wait_disk_released held_at start = (free, t) \<and> t \<le> start + 66
     \<and> (if free then start + 2 \<le> t \<and> held_at (t - 2) = False \<and> held_at t = False else start + 60 \<le> t)"
proof -
  obtain free t where w: "wait_released_loop held_at (start + 60) start = (free, t)" by (rule prod.exhaust)
  have "t \<le> start + 66" using wait_released_loop_bound [of start "start + 60" held_at] w by simp
  moreover have "if free then start + 2 \<le> t \<and> held_at (t - 2) = False \<and> held_at t = False else start + 60 \<le> t"
  proof (cases free)
    case True
    then show ?thesis using wait_released_loop_true [of held_at "start + 60" start t] w by simp
  next
    case False
    then show ?thesis using wait_released_loop_false [of held_at "start + 60" start t] w by simp
  qed
  ultimately show ?thesis using w by (simp add: wait_disk_released_def DISK_RELEASE_TIMEOUT_def)
qed

section \<open>Compacting a disk\<close>

record image_tools =
  run_zstd :: "bytes \<Rightarrow> bool \<times> bytes"
  unzstd :: "bytes \<Rightarrow> bytes option"
  run_fsck :: "bytes \<Rightarrow> bytes"

definition EXT4_MAGIC_OFFSET :: nat where
  "EXT4_MAGIC_OFFSET = 1080"

definition EXT4_MAGIC :: bytes where
  "EXT4_MAGIC = [CHR 0x53, CHR 0xEF]"

text \<open>\<open>read_exact\<close> of two bytes at the offset: fails on a shorter file.\<close>

definition check_ext4_magic :: "bytes \<Rightarrow> bool" where
  "check_ext4_magic raw = (take 2 (drop EXT4_MAGIC_OFFSET raw) = EXT4_MAGIC)"

text \<open>
  \<open>zstd -dc\<close> stopped after the first 1082 bytes. A damaged stream yields whatever came out before the
  damage; the check runs after \<open>zstd -t\<close> accepted the whole stream.
\<close>

definition check_compressed_ext4_magic :: "image_tools \<Rightarrow> bytes \<Rightarrow> bool" where
  "check_compressed_ext4_magic tk zst =
     (case unzstd tk zst of
        None \<Rightarrow> False
      | Some raw \<Rightarrow>
          (let hd_bytes = take (EXT4_MAGIC_OFFSET + 2) raw
           in length hd_bytes = EXT4_MAGIC_OFFSET + 2 \<and> drop EXT4_MAGIC_OFFSET hd_bytes = EXT4_MAGIC))"

lemma compressed_magic: "check_compressed_ext4_magic tk zst \<longleftrightarrow> (\<exists>raw. unzstd tk zst = Some raw \<and> check_ext4_magic raw)"
proof -
  have "(length (take 1082 raw) = 1082 \<and> drop 1080 (take 1082 raw) = EXT4_MAGIC) \<longleftrightarrow> take 2 (drop 1080 raw) = EXT4_MAGIC" for raw
  proof -
    have d: "drop 1080 (take 1082 raw) = take 2 (drop 1080 raw)" by (simp add: drop_take)
    have "1082 \<le> length raw" if "take 2 (drop 1080 raw) = EXT4_MAGIC"
      using arg_cong [OF that, of length] by (simp add: EXT4_MAGIC_def min_def split: if_splits)
    then show ?thesis unfolding d by auto
  qed
  then show ?thesis
    by (auto simp: check_compressed_ext4_magic_def check_ext4_magic_def EXT4_MAGIC_OFFSET_def Let_def split: option.splits)
qed

text \<open>
  The compaction, with every state of the files on the way. \<open>rename_ok\<close> is whether the final rename
  succeeds. Only the two files named are touched.
\<close>

type_synonym files = "string \<Rightarrow> bytes option"

datatype image_error = No_Disk | Disk_Held | No_Room | Tool_Failed | Not_An_Image | Rename_Failed

definition compact_via_tmp ::
  "image_tools \<Rightarrow> bool \<Rightarrow> string \<Rightarrow> string \<Rightarrow> string \<Rightarrow> files \<Rightarrow> (image_error + u64) \<times> files list" where
  "compact_via_tmp tk rename_ok disk tmp dest fs =
     (case fs disk of
        None \<Rightarrow> (Inl Tool_Failed, [])
      | Some d \<Rightarrow>
          (let (ok, out) = run_zstd tk d; fs1 = fs(tmp \<mapsto> out)
           in if \<not> ok then (Inl Tool_Failed, [fs1])
              else if length out < MIN_IMAGE_BYTES then (Inl Not_An_Image, [fs1])
              else if unzstd tk out = None then (Inl Tool_Failed, [fs1])
              else if \<not> check_compressed_ext4_magic tk out then (Inl Not_An_Image, [fs1])
              else if \<not> rename_ok then (Inl Rename_Failed, [fs1])
              else (Inr (length out), [fs1, (fs1(dest \<mapsto> out))(tmp := None)])))"

text \<open>
  \<open>compact_disk\<close>. \<open>blocks\<close> is the disk's allocated size after the trim, \<open>free\<close> what \<open>df\<close> reports (\<open>None\<close> when it
  cannot be read, and then the check is skipped), \<open>rm_ok\<close> whether removing a failed attempt's
  temporary file works.
\<close>

definition compact_disk ::
  "image_tools \<Rightarrow> bool \<Rightarrow> bool \<Rightarrow> (nat \<Rightarrow> bool) \<Rightarrow> nat \<Rightarrow> u64 \<Rightarrow> u64 option \<Rightarrow> string \<Rightarrow> string \<Rightarrow> string \<Rightarrow> files
     \<Rightarrow> (image_error + u64) \<times> files list" where
  "compact_disk tk rename_ok rm_ok held_at start blocks free disk tmp dest fs =
     (case fs disk of
        None \<Rightarrow> (Inl No_Disk, [fs])
      | Some d \<Rightarrow>
          if \<not> fst (wait_disk_released held_at start) then (Inl Disk_Held, [fs])
          else
            (let fs1 = fs(disk \<mapsto> run_fsck tk d)
             in if (case free of Some f \<Rightarrow> f < blocks + blocks div 10 | None \<Rightarrow> False) then (Inl No_Room, [fs, fs1])
                else
                  (let (res, trail) = compact_via_tmp tk rename_ok disk tmp dest fs1;
                       fs2 = (if trail = [] then fs1 else last trail)
                   in (res, [fs, fs1] @ trail
                        @ (case res of Inl _ \<Rightarrow> (if rm_ok then [fs2(tmp := None)] else []) | Inr _ \<Rightarrow> [])))))"

text \<open>A file that decompresses to an ext4 file system and is long enough to be one.\<close>

definition verified_image :: "image_tools \<Rightarrow> bytes option \<Rightarrow> bool" where
  "verified_image tk f \<longleftrightarrow>
     (case f of None \<Rightarrow> False
      | Some z \<Rightarrow> MIN_IMAGE_BYTES \<le> length z \<and> (case unzstd tk z of None \<Rightarrow> False | Some raw \<Rightarrow> check_ext4_magic raw))"

lemma compact_via_tmp_states:
  assumes "disk \<noteq> tmp" "disk \<noteq> dest" "tmp \<noteq> dest" "fs' \<in> set (snd (compact_via_tmp tk r disk tmp dest fs))"
  shows "fs' disk = fs disk \<and> (fs' dest = fs dest \<or> verified_image tk (fs' dest))"
  using assms
  by (auto simp: compact_via_tmp_def verified_image_def compressed_magic Let_def split: option.splits prod.splits if_splits)

lemma compact_via_tmp_ok:
  assumes "compact_via_tmp tk r disk tmp dest fs = (Inr n, trail)" "tmp \<noteq> dest"
  shows "\<exists>d z. fs disk = Some d \<and> run_zstd tk d = (True, z) \<and> last trail dest = Some z \<and> length z = n
    \<and> verified_image tk (Some z) \<and> trail \<noteq> [] \<and> last trail tmp = None"
  using assms
  by (auto simp: compact_via_tmp_def verified_image_def compressed_magic Let_def split: option.splits prod.splits if_splits)

lemma compact_disk_ok:
  assumes "disk \<noteq> tmp" "disk \<noteq> dest" "tmp \<noteq> dest"
    and "compact_disk tk rename_ok rm_ok held_at start blocks free disk tmp dest fs = (Inr n, trail)"
  shows "\<exists>d z. fs disk = Some d \<and> run_zstd tk (run_fsck tk d) = (True, z) \<and> last trail dest = Some z \<and> length z = n
    \<and> verified_image tk (Some z) \<and> last trail tmp = None"
proof -
  obtain d t where run: "fs disk = Some d"
    "compact_via_tmp tk rename_ok disk tmp dest (fs(disk \<mapsto> run_fsck tk d)) = (Inr n, t)"
    "trail = [fs, fs(disk \<mapsto> run_fsck tk d)] @ t"
    using assms(4) by (auto simp: compact_disk_def Let_def split: option.splits if_splits prod.splits)
  from compact_via_tmp_ok [OF run(2) assms(3)] run(1,3) show ?thesis by auto
qed

text \<open>
  C16: Compacting a disk never leaves a bad image at its final path. In every state the files pass through,
  also where any tool fails, the disk fills up or the process dies, the final path holds what it held
  before or an image of at least a kilobyte that decompresses to an ext4 file system; and success is
  reported only when the final path holds the compressor's output for the disk as the file-system check
  left it. A failure leaves the final path as it was. The temporary file is gone at the end if it was not
  there before and, after a failure, its removal worked.
\<close>

theorem compact_image_is_verified:
  assumes "disk \<noteq> tmp" "disk \<noteq> dest" "tmp \<noteq> dest"
    and "compact_disk tk rename_ok rm_ok held_at start blocks free disk tmp dest fs = (res, trail)"
  shows "list_all (\<lambda>fs'. fs' dest = fs dest \<or> verified_image tk (fs' dest)) trail
     \<and> (case res of
          Inl _ \<Rightarrow> last trail dest = fs dest
        | Inr n \<Rightarrow> \<exists>d z. fs disk = Some d \<and> run_zstd tk (run_fsck tk d) = (True, z) \<and> last trail dest = Some z \<and> length z = n
            \<and> verified_image tk (Some z))
     \<and> (fs tmp = None \<and> (rm_ok \<or> (\<exists>n. res = Inr n)) \<longrightarrow> last trail tmp = None)"
proof -
  consider (early) "trail = [fs] \<or> (\<exists>d. trail = [fs, fs(disk \<mapsto> d)])" "\<exists>e. res = Inl e"
    | (run) d t where "fs disk = Some d" "compact_via_tmp tk rename_ok disk tmp dest (fs(disk \<mapsto> run_fsck tk d)) = (res, t)"
      "trail = [fs, fs(disk \<mapsto> run_fsck tk d)] @ t
         @ (case res of Inl _ \<Rightarrow> (if rm_ok then [(if t = [] then fs(disk \<mapsto> run_fsck tk d) else last t)(tmp := None)] else []) | Inr _ \<Rightarrow> [])"
    using assms(4) by (auto simp: compact_disk_def Let_def split: option.splits if_splits prod.splits)
  then show ?thesis
  proof cases
    case early
    then show ?thesis using assms(1,2) by auto
  next
    case run
    let ?fs1 = "fs(disk \<mapsto> run_fsck tk d)"
    have d: "?fs1 dest = fs dest" using assms(2) by simp
    have t: "list_all (\<lambda>fs'. fs' dest = fs dest \<or> verified_image tk (fs' dest)) t"
      using compact_via_tmp_states [OF assms(1-3), where fs = ?fs1 and tk = tk and r = rename_ok] run(2) d
      unfolding list_all_iff by fastforce
    show ?thesis
    proof (cases res)
      case (Inl e)
      have "list_all (\<lambda>fs'. fs' dest = fs dest) t"
        using run(2) Inl assms(1-3)
        by (auto simp: compact_via_tmp_def Let_def split: option.splits prod.splits if_splits)
      then have "(if t = [] then ?fs1 else last t) dest = fs dest" using d by (auto simp: list_all_iff)
      then show ?thesis using run(3) Inl t d assms(3) by (auto simp: list_all_iff)
    next
      case (Inr n)
      from compact_disk_ok [OF assms(1-3) assms(4) [unfolded Inr]] show ?thesis
        using run(3) Inr t d by auto
    qed
  qed
qed

text \<open>A removal that does not work leaves the temporary file, and the failure is reported just the same.\<close>

lemma failed_removal_leaves_tmp:
  assumes "disk \<noteq> tmp" "fs disk = Some d" "fst (wait_disk_released held_at start)" "free = None"
    and "run_zstd tk (run_fsck tk d) = (False, out)"
  shows "\<exists>trail. compact_disk tk rename_ok False held_at start blocks free disk tmp dest fs = (Inl Tool_Failed, trail)
    \<and> last trail tmp = Some out"
  using assms by (simp add: compact_disk_def compact_via_tmp_def Let_def)

definition demo_tools :: image_tools where
  "demo_tools = \<lparr>run_zstd = (\<lambda>d. (True, CHR ''z'' # d)), unzstd = (\<lambda>z. Some (drop 1 z)), run_fsck = (\<lambda>d. d)\<rparr>"

definition demo_disk :: bytes where
  "demo_disk = replicate 1080 NUL @ EXT4_MAGIC"

lemma demo_tools_simps [simp]:
  "run_zstd demo_tools d = (True, CHR ''z'' # d)" "unzstd demo_tools (c # d) = Some d" "run_fsck demo_tools d = d"
  by (simp_all add: demo_tools_def)

lemma demo_disk_magic [simp]: "check_ext4_magic demo_disk"
  by (simp add: check_ext4_magic_def demo_disk_def EXT4_MAGIC_OFFSET_def EXT4_MAGIC_def)

lemma demo_disk_length [simp]: "length demo_disk = 1082"
  by (simp add: demo_disk_def EXT4_MAGIC_def)

lemma demo_compacts:
  "fst (compact_disk demo_tools True True (\<lambda>t. t < 5) 0 4096 None ''disk'' ''tmp'' ''out'' [''disk'' \<mapsto> demo_disk]) = Inr 1083"
proof -
  have "fst (wait_disk_released (\<lambda>t. t < 5) 0)"
    by (simp add: wait_disk_released_def DISK_RELEASE_TIMEOUT_def wait_released_loop.simps)
  moreover have "check_compressed_ext4_magic demo_tools (CHR ''z'' # demo_disk)" by (simp add: compressed_magic)
  ultimately show ?thesis by (simp add: compact_disk_def compact_via_tmp_def MIN_IMAGE_BYTES_def Let_def)
qed

theorem compact_image_is_verified_witness:
  "list_all (\<lambda>fs'. fs' ''out'' = None \<or> verified_image demo_tools (fs' ''out''))
     (snd (compact_disk demo_tools True True (\<lambda>t. t < 5) 0 4096 None ''disk'' ''tmp'' ''out'' [''disk'' \<mapsto> demo_disk]))
   \<and> fst (compact_disk demo_tools True True (\<lambda>t. t < 5) 0 4096 None ''disk'' ''tmp'' ''out'' [''disk'' \<mapsto> demo_disk]) = Inr 1083"
proof -
  have "list_all (\<lambda>fs'. fs' ''out'' = [''disk'' \<mapsto> demo_disk] ''out'' \<or> verified_image demo_tools (fs' ''out''))
     (snd (compact_disk demo_tools True True (\<lambda>t. t < 5) 0 4096 None ''disk'' ''tmp'' ''out'' [''disk'' \<mapsto> demo_disk]))"
    by (rule conjunct1 [OF compact_image_is_verified [OF _ _ _ prod.collapse [symmetric]]]) simp_all
  then show ?thesis using demo_compacts by simp
qed

section \<open>Uploading and verifying an image\<close>

record head_env =
  he_first :: u64
  he_second :: u64
  he_send :: http
  he_resend :: http
  he_other :: "string option"

definition head_with :: "crypto \<Rightarrow> head_env \<Rightarrow> s3_config \<Rightarrow> string \<Rightarrow> (s3_error + object_id option) \<times> s3_config" where
  "head_with c e s key = head_object c (he_first e) (he_second e) (he_send e) (he_resend e) (he_other e) s key"

record upload_env =
  ue_baseline :: head_env
  ue_clock :: "nat \<Rightarrow> u64"
  ue_net :: "nat \<Rightarrow> http"
  ue_read :: "nat \<Rightarrow> nat option"
  ue_verify :: head_env
  ue_del_now :: u64
  ue_del :: http

datatype archive_error = S3_Failed s3_error | Unverified | Image_Failed image_error

text \<open>
  The upload both callers share: a baseline HEAD, the upload, a HEAD that must show a new object of
  exactly the file's length, and the deletion of the older dump that would shadow the image.
\<close>

definition verified_upload ::
  "crypto \<Rightarrow> upload_env \<Rightarrow> string \<Rightarrow> bytes option \<Rightarrow> u64 \<Rightarrow> s3_config \<Rightarrow> (archive_error + u64) \<times> s3_config" where
  "verified_upload c e schema file_bytes len s =
     (case head_with c (ue_baseline e) s (image_object_key s schema) of
        (Inl err, s1) \<Rightarrow> (Inl (S3_Failed err), s1)
      | (Inr baseline, s1) \<Rightarrow>
          (case upload_path c (ue_clock e) (ue_net e) (ue_read e) s1 (image_object_key s schema) file_bytes len of
             (Inl err, _) \<Rightarrow> (Inl (S3_Failed err), s1)
           | (Inr _, _) \<Rightarrow>
               (case head_with c (ue_verify e) s1 (image_object_key s schema) of
                  (Inl err, s2) \<Rightarrow> (Inl (S3_Failed err), s2)
                | (Inr None, s2) \<Rightarrow> (Inl Unverified, s2)
                | (Inr (Some i), s2) \<Rightarrow>
                    if content_length i = len \<and> Some i \<noteq> baseline
                    then (case delete_object c (ue_del_now e) (ue_del e) s2 (object_key s schema) of
                            Inl err \<Rightarrow> (Inl (S3_Failed err), s2)
                          | Inr _ \<Rightarrow> (Inr len, s2))
                    else (Inl Unverified, s2))))"

definition promote_compact ::
  "crypto \<Rightarrow> upload_env \<Rightarrow> string \<Rightarrow> bytes option \<Rightarrow> s3_config \<Rightarrow> (archive_error + u64) \<times> s3_config" where
  "promote_compact c e schema file_bytes s =
     (case file_bytes of
        None \<Rightarrow> (Inl (Image_Failed Tool_Failed), s)
      | Some z \<Rightarrow>
          if length z < MIN_IMAGE_BYTES then (Inl (Image_Failed Not_An_Image), s)
          else verified_upload c e schema file_bytes (length z) s)"

definition archive_via_spool ::
  "image_tools \<Rightarrow> crypto \<Rightarrow> upload_env \<Rightarrow> string \<Rightarrow> bytes \<Rightarrow> s3_config \<Rightarrow> (archive_error + u64) \<times> s3_config" where
  "archive_via_spool tk c e schema disk_bytes s =
     (let (ok, out) = run_zstd tk disk_bytes
      in if \<not> ok then (Inl (Image_Failed Tool_Failed), s)
         else if length out < MIN_IMAGE_BYTES then (Inl (Image_Failed Not_An_Image), s)
         else if unzstd tk out = None then (Inl (Image_Failed Tool_Failed), s)
         else if \<not> check_compressed_ext4_magic tk out then (Inl (Image_Failed Not_An_Image), s)
         else verified_upload c e schema (Some out) (length out) s)"

text \<open>\<open>archive_disk\<close>: the same checks around the spool file as for a compaction; the spool file goes either way.\<close>

definition archive_disk ::
  "image_tools \<Rightarrow> crypto \<Rightarrow> upload_env \<Rightarrow> (nat \<Rightarrow> bool) \<Rightarrow> nat \<Rightarrow> u64 \<Rightarrow> u64 option \<Rightarrow> string \<Rightarrow> bytes option \<Rightarrow> s3_config
     \<Rightarrow> (archive_error + u64) \<times> s3_config" where
  "archive_disk tk c e held_at start blocks free schema disk_bytes s =
     (case disk_bytes of
        None \<Rightarrow> (Inl (Image_Failed No_Disk), s)
      | Some d \<Rightarrow>
          if \<not> fst (wait_disk_released held_at start) then (Inl (Image_Failed Disk_Held), s)
          else if (case free of Some f \<Rightarrow> f < blocks + blocks div 10 | None \<Rightarrow> False) then (Inl (Image_Failed No_Room), s)
          else archive_via_spool tk c e schema (run_fsck tk d) s)"

lemma head_with_sound:
  "head_with c e s key = (Inr i, s') \<Longrightarrow>
     \<exists>r t sn. sn \<lparr>rq_method = ''HEAD'', rq_url = presign c s' ''HEAD'' key HEAD_PRESIGN_TTL t, rq_body = []\<rparr> = Some r
       \<and> (sn = he_send e \<or> sn = he_resend e)
       \<and> (case i of None \<Rightarrow> rs_status r = 404 | Some ob \<Rightarrow> is_success (rs_status r) \<and> ob = object_of r)"
  by (auto simp: head_with_def head_object_def Let_def dest!: head_once_found split: sum.splits head.splits)

lemma verified_upload_ok:
  assumes "verified_upload c e schema file_bytes len s = (Inr n, s')"
  shows "\<exists>s1 rqs baseline i.
     upload_path c (ue_clock e) (ue_net e) (ue_read e) s1 (image_object_key s schema) file_bytes len = (Inr (), rqs)
     \<and> head_with c (ue_baseline e) s (image_object_key s schema) = (Inr baseline, s1)
     \<and> head_with c (ue_verify e) s1 (image_object_key s schema) = (Inr (Some i), s')
     \<and> content_length i = len \<and> n = len \<and> Some i \<noteq> baseline
     \<and> delete_object c (ue_del_now e) (ue_del e) s' (object_key s schema) = Inr ()"
  using assms
  by (auto simp: verified_upload_def split: prod.splits sum.splits option.splits if_splits)

text \<open>
  C15: A disk is reported archived as an image only when everything the tier change relies on was seen: the
  bytes handed to the upload are the compressor's output for the disk and decompress to an ext4 file
  system, the upload succeeded, a HEAD of the image's key then showed an object of exactly that many bytes
  that the HEAD before the upload had not shown, and the store confirmed that the schema's older dump is
  gone. The size reported is the size of what was uploaded.
\<close>

theorem archived_image_was_seen:
  assumes "archive_disk tk c e held_at start blocks free schema disk_bytes s = (Inr n, s')"
  shows "\<exists>d z s1 rqs baseline i.
     disk_bytes = Some d \<and> run_zstd tk (run_fsck tk d) = (True, z) \<and> length z = n \<and> verified_image tk (Some z)
     \<and> upload_path c (ue_clock e) (ue_net e) (ue_read e) s1 (image_object_key s schema) (Some z) n = (Inr (), rqs)
     \<and> head_with c (ue_baseline e) s (image_object_key s schema) = (Inr baseline, s1)
     \<and> head_with c (ue_verify e) s1 (image_object_key s schema) = (Inr (Some i), s') \<and> content_length i = n \<and> Some i \<noteq> baseline
     \<and> delete_object c (ue_del_now e) (ue_del e) s' (object_key s schema) = Inr ()"
proof -
  obtain d z where d: "disk_bytes = Some d" "run_zstd tk (run_fsck tk d) = (True, z)" "verified_image tk (Some z)"
    and v: "verified_upload c e schema (Some z) (length z) s = (Inr n, s')"
    using assms
    by (auto simp: archive_disk_def archive_via_spool_def verified_image_def compressed_magic not_less
        split: option.splits if_splits prod.splits)
  from verified_upload_ok [OF v] d show ?thesis by blast
qed

definition answer :: "nat \<Rightarrow> (string \<Rightarrow> string option) \<Rightarrow> http" where
  "answer status hs rq = Some \<lparr>rs_status = status, rs_headers = hs, rs_body = []\<rparr>"

definition demo_head :: "nat \<Rightarrow> (string \<Rightarrow> string option) \<Rightarrow> head_env" where
  "demo_head status hs =
     \<lparr>he_first = 0, he_second = 0, he_send = answer status hs, he_resend = answer status hs, he_other = None\<rparr>"

definition demo_upload :: upload_env where
  "demo_upload =
     \<lparr>ue_baseline = demo_head 404 Map.empty, ue_clock = id, ue_net = (\<lambda>_. answer 200 Map.empty), ue_read = Some,
      ue_verify = demo_head 200 [''content-length'' \<mapsto> ''1083''], ue_del_now = 5, ue_del = answer 204 Map.empty\<rparr>"

lemma demo_archive:
  "archive_disk demo_tools demo_crypto demo_upload (\<lambda>_. False) 0 4096 (Some 1000000) ''shop'' (Some demo_disk) demo_s3
     = (Inr 1083, demo_s3)"
proof -
  have t: "run_zstd demo_tools d = (True, CHR ''z'' # d)" "unzstd demo_tools (CHR ''z'' # d) = Some d" "run_fsck demo_tools d = d" for d
    by (simp_all add: demo_tools_def)
  have m: "check_compressed_ext4_magic demo_tools (CHR ''z'' # demo_disk)" "length demo_disk = 1082"
    by (simp_all add: compressed_magic t check_ext4_magic_def demo_disk_def EXT4_MAGIC_OFFSET_def EXT4_MAGIC_def)
  have "rust_trim ''1083'' = ''1083''" by (rule rust_trim_ends) (simp_all add: is_ascii_graphic_def code_def)
  moreover have "rust_parse_u64 ''1083'' = Some 1083"
    by (rule rust_parse_u64_digits) (auto simp: is_ascii_digit_def code_def)
  ultimately have l: "content_length (object_of \<lparr>rs_status = 200, rs_headers = [''content-length'' \<mapsto> ''1083''], rs_body = []\<rparr>) = 1083"
    by (simp add: object_of_def)
  have h: "head_with demo_crypto (demo_head 404 Map.empty) demo_s3 k = (Inr None, demo_s3)"
    "head_with demo_crypto (demo_head 200 [''content-length'' \<mapsto> ''1083'']) demo_s3 k
       = (Inr (Some (object_of \<lparr>rs_status = 200, rs_headers = [''content-length'' \<mapsto> ''1083''], rs_body = []\<rparr>)), demo_s3)" for k
    by (simp_all add: head_with_def demo_head_def head_object_def head_once_def answer_def is_success_def)
  have u: "upload_path demo_crypto id (\<lambda>_. answer 200 Map.empty) Some demo_s3 k (Some z) 1083
      = (Inr (), [\<lparr>rq_method = ''PUT'', rq_url = presign demo_crypto demo_s3 ''PUT'' k 600 0, rq_body = z\<rparr>])" for k z
    by (simp add: upload_path_def upload_file_def SINGLE_PUT_MAX_def put_object_def answer_def is_success_def)
  have "verified_upload demo_crypto demo_upload ''shop'' (Some (CHR ''z'' # demo_disk)) 1083 demo_s3 = (Inr 1083, demo_s3)"
    by (simp add: verified_upload_def demo_upload_def h u l delete_object_def answer_def is_success_def)
  moreover have "fst (wait_disk_released (\<lambda>_. False) 0)"
    by (simp add: wait_disk_released_def DISK_RELEASE_TIMEOUT_def wait_released_loop.simps)
  ultimately show ?thesis using m by (simp add: archive_disk_def archive_via_spool_def t MIN_IMAGE_BYTES_def)
qed

theorem archived_image_was_seen_witness:
  "\<exists>d z s1 rqs baseline i.
     Some demo_disk = Some d \<and> run_zstd demo_tools (run_fsck demo_tools d) = (True, z) \<and> length z = 1083
     \<and> verified_image demo_tools (Some z)
     \<and> upload_path demo_crypto (ue_clock demo_upload) (ue_net demo_upload) (ue_read demo_upload) s1
         (image_object_key demo_s3 ''shop'') (Some z) 1083 = (Inr (), rqs)
     \<and> head_with demo_crypto (ue_baseline demo_upload) demo_s3 (image_object_key demo_s3 ''shop'') = (Inr baseline, s1)
     \<and> head_with demo_crypto (ue_verify demo_upload) s1 (image_object_key demo_s3 ''shop'') = (Inr (Some i), demo_s3)
     \<and> content_length i = 1083 \<and> Some i \<noteq> baseline
     \<and> delete_object demo_crypto (ue_del_now demo_upload) (ue_del demo_upload) demo_s3 (object_key demo_s3 ''shop'') = Inr ()"
  by (rule archived_image_was_seen [OF demo_archive])

section \<open>Downloading an image\<close>

text \<open>
  \<open>download\<close>: \<open>body\<close> lists the chunks that arrive, \<open>None\<close> where the connection breaks; a chunk that arrived is
  in the file even if the transfer then fails. \<open>disk_ok\<close> bounds what can be written.
\<close>

fun download_chunks :: "nat \<Rightarrow> bytes option list \<Rightarrow> bytes \<Rightarrow> bool \<times> bytes" where
  "download_chunks room [] got = (True, got)"
| "download_chunks room (None # cs) got = (False, got)"
| "download_chunks room (Some b # cs) got =
     (if room < length b then (False, got @ take room b) else download_chunks (room - length b) cs (got @ b))"

definition download :: "nat \<Rightarrow> nat \<Rightarrow> bytes option list \<Rightarrow> nat \<Rightarrow> string \<Rightarrow> files \<Rightarrow> bool \<times> files" where
  "download status room body expect_len dest fs =
     (if \<not> is_success status then (False, fs)
      else (let (ok, got) = download_chunks room body []
            in (ok \<and> length got = expect_len, fs(dest \<mapsto> got))))"

lemma download_chunks_ok:
  "download_chunks room cs got = (True, out) \<Longrightarrow> list_all (\<lambda>x. x \<noteq> None) cs \<and> out = got @ concat (map the cs)"
  by (induction room cs got rule: download_chunks.induct) (auto split: if_splits)

lemma download_complete:
  "download status room body expect_len dest fs = (True, fs') \<Longrightarrow>
     list_all (\<lambda>x. x \<noteq> None) body \<and> fs' dest = Some (concat (map the body)) \<and> length (concat (map the body)) = expect_len"
  by (auto simp: download_def Let_def dest!: download_chunks_ok split: if_splits prod.splits)

end
