(* ===== verification/Thaw.thy ===== *)
theory Thaw
  imports Images
begin

text \<open>
  Restoring a schema from a disk image, \<open>materialize_from_image\<close>, \<open>materialize_from_local_image\<close>,
  \<open>adopt_zst_image\<close> and \<open>swap_and_boot\<close> of \<open>src/src/imgarchive.rs\<close>: the image is decompressed and checked,
  a VM is claimed as its vehicle, stopped, its disk overwritten in place, and booted on the data. The
  external commands, the daemon and \<open>df\<close> are a record of the answers they give during one restore.
\<close>

section \<open>The vehicle\<close>

datatype power = Up | Down | Destroyed

datatype thaw_error = No_Run_Dir | No_Archive | Not_Image_Sized | Scratch_Failed | No_Space | Download_Failed
  | Decompress_Failed | Not_Ext4 | No_Vehicle | Stop_Failed | Still_Held | Copy_Failed | Boot_Failed | S3_Error s3_error

text \<open>
  \<open>zstd_exit\<close> and \<open>cp_exit\<close> say whether the command exits with success in time; \<open>zstd_left\<close> and \<open>cp_left\<close> are
  what it leaves in its output file when it does not. \<open>raw_blocks\<close> is the allocated size of the raw image.
\<close>

record thaw_env =
  run_dir_set :: bool
  scratch_dir_ok :: bool
  scratch_free :: "u64 option"
  zstd_exit :: bool
  zstd_left :: "bytes option"
  vehicle :: "string option"
  stop_ok :: bool
  held_at :: "nat \<Rightarrow> bool"
  wait_start :: nat
  raw_blocks :: u64
  vm_free :: "u64 option"
  cp_exit :: bool
  cp_left :: "bytes option"
  start_ok :: bool
  ready_ok :: bool
  destroy_ok :: bool

text \<open>The files of the host and, once a vehicle is claimed, its power state.\<close>

record thaw_state =
  tfs :: files
  tvm :: "power option"

definition data_disk :: "string \<Rightarrow> string \<Rightarrow> string" where
  "data_disk run_dir sid = run_dir @ ''/'' @ sid @ ''/data.ext4''"

definition room_short :: "u64 option \<Rightarrow> u64 \<Rightarrow> bool" where
  "room_short free need = (case free of None \<Rightarrow> False | Some f \<Rightarrow> f < need)"

section \<open>The operations\<close>

definition swap_and_boot :: "thaw_env \<Rightarrow> string \<Rightarrow> string \<Rightarrow> thaw_state \<Rightarrow> (thaw_error + unit) \<times> thaw_state" where
  "swap_and_boot e disk raw t =
     (if \<not> stop_ok e then (Inl Stop_Failed, t)
      else let t1 = t\<lparr>tvm := Some Down\<rparr>
           in if \<not> fst (wait_disk_released (held_at e) (wait_start e)) then (Inl Still_Held, t1)
              else if room_short (vm_free e) (raw_blocks e + raw_blocks e div 10) then (Inl No_Space, t1)
              else if \<not> cp_exit e then (Inl Copy_Failed, t1\<lparr>tfs := (tfs t1)(disk := cp_left e)\<rparr>)
              else let t2 = t1\<lparr>tfs := (tfs t1)(disk := tfs t1 raw)\<rparr>
                   in if \<not> start_ok e then (Inl Boot_Failed, t2)
                      else if \<not> ready_ok e then (Inl Boot_Failed, t2\<lparr>tvm := Some Up\<rparr>)
                      else (Inr (), t2\<lparr>tvm := Some Up\<rparr>))"

text \<open>The half-adopted VM of a failed swap is destroyed, disk and all, if the daemon confirms the kill.\<close>

definition destroy_vehicle :: "thaw_env \<Rightarrow> string \<Rightarrow> thaw_state \<Rightarrow> thaw_state" where
  "destroy_vehicle e disk t =
     (if destroy_ok e then t\<lparr>tfs := (tfs t)(disk := None), tvm := Some Destroyed\<rparr> else t)"

definition adopt_image ::
  "image_tools \<Rightarrow> thaw_env \<Rightarrow> string \<Rightarrow> string \<Rightarrow> string \<Rightarrow> thaw_state \<Rightarrow> (thaw_error + string) \<times> thaw_state" where
  "adopt_image tk e run_dir zst raw t =
     (case (if zstd_exit e then Option.bind (tfs t zst) (unzstd tk) else None) of
        None \<Rightarrow> (Inl Decompress_Failed, t\<lparr>tfs := (tfs t)(raw := zstd_left e)\<rparr>)
      | Some img \<Rightarrow>
          let t1 = t\<lparr>tfs := (tfs t)(raw \<mapsto> img)\<rparr>
          in if \<not> check_ext4_magic img then (Inl Not_Ext4, t1)
             else (case vehicle e of
                     None \<Rightarrow> (Inl No_Vehicle, t1)
                   | Some sid \<Rightarrow>
                       (case swap_and_boot e (data_disk run_dir sid) raw (t1\<lparr>tvm := Some Up\<rparr>) of
                          (Inl err, t2) \<Rightarrow> (Inl err, destroy_vehicle e (data_disk run_dir sid) t2)
                        | (Inr _, t2) \<Rightarrow> (Inr sid, t2))))"

text \<open>Removing the scratch files is best effort; \<open>rm path\<close> says whether it works.\<close>

definition drop_scratch :: "(string \<Rightarrow> bool) \<Rightarrow> string \<Rightarrow> thaw_state \<Rightarrow> thaw_state" where
  "drop_scratch rm path t = (if rm path then t\<lparr>tfs := (tfs t)(path := None)\<rparr> else t)"

definition restore_scratch :: "string \<Rightarrow> string \<Rightarrow> string \<Rightarrow> string" where
  "restore_scratch run_dir schema suffix = run_dir @ ''/.pg-vm-pool-restore/'' @ schema @ suffix"

definition materialize_from_local_image ::
  "image_tools \<Rightarrow> thaw_env \<Rightarrow> (string \<Rightarrow> bool) \<Rightarrow> string \<Rightarrow> string \<Rightarrow> string \<Rightarrow> thaw_state \<Rightarrow> (thaw_error + string) \<times> thaw_state" where
  "materialize_from_local_image tk e rm run_dir schema src t =
     (if \<not> run_dir_set e then (Inl No_Run_Dir, t)
      else case tfs t src of
             None \<Rightarrow> (Inl No_Archive, t)
           | Some z \<Rightarrow>
               if length z < MIN_IMAGE_BYTES then (Inl Not_Image_Sized, t)
               else if \<not> scratch_dir_ok e then (Inl Scratch_Failed, t)
               else if room_short (scratch_free e) (length z * 2) then (Inl No_Space, t)
               else let raw = restore_scratch run_dir schema ''.ext4''
                    in case adopt_image tk e run_dir src raw t of (res, t') \<Rightarrow> (res, drop_scratch rm raw t'))"


section \<open>What a restore leaves\<close>

text \<open>The disks of sandboxes and the scratch files are different paths.\<close>

lemma data_disk_not_scratch:
  assumes "starts_with ''sb-'' sid"
  shows "data_disk run_dir sid \<noteq> restore_scratch run_dir schema suffix"
  using assms by (cases sid) (auto simp: data_disk_def restore_scratch_def starts_with_def)

lemma scratch_paths_differ: "restore_scratch run_dir schema ''.img.zst'' \<noteq> restore_scratch run_dir schema ''.ext4''"
  by (simp add: restore_scratch_def)

lemma swap_and_boot_cases:
  assumes "swap_and_boot e disk raw t = (res, t')"
  shows "(\<forall>p. p \<noteq> disk \<longrightarrow> tfs t' p = tfs t p)
       \<and> (res = Inr () \<longrightarrow> tfs t' disk = tfs t raw \<and> tvm t' = Some Up
            \<and> fst (wait_disk_released (held_at e) (wait_start e)))"
  using assms by (auto simp: swap_and_boot_def Let_def split: if_splits)

lemma adopt_image_other_files:
  assumes "adopt_image tk e run_dir zst raw t = (res, t')" "p \<noteq> raw" "\<forall>sid. vehicle e = Some sid \<longrightarrow> p \<noteq> data_disk run_dir sid"
  shows "tfs t' p = tfs t p"
  using assms
  by (auto simp: adopt_image_def Let_def destroy_vehicle_def split: option.splits if_splits prod.splits sum.splits
      dest!: swap_and_boot_cases)

lemma adopt_image_ok:
  assumes "adopt_image tk e run_dir zst raw t = (Inr sid, t')" "raw \<noteq> data_disk run_dir sid"
  shows "vehicle e = Some sid \<and> tvm t' = Some Up
       \<and> (\<exists>z img. tfs t zst = Some z \<and> unzstd tk z = Some img \<and> check_ext4_magic img \<and> tfs t' (data_disk run_dir sid) = Some img)"
proof -
  obtain z img t2 where i: "tfs t zst = Some z" "unzstd tk z = Some img" "check_ext4_magic img" "vehicle e = Some sid"
    "swap_and_boot e (data_disk run_dir sid) raw (t\<lparr>tfs := (tfs t)(raw \<mapsto> img), tvm := Some Up\<rparr>) = (Inr (), t')"
    using assms(1)
    by (auto simp: adopt_image_def Let_def bind_eq_Some_conv split: option.splits if_splits prod.splits sum.splits)
  with swap_and_boot_cases [OF i(5)] show ?thesis by auto
qed

text \<open>The paths a restore of \<open>schema\<close> into its vehicle may write.\<close>

definition restore_writes :: "thaw_env \<Rightarrow> string \<Rightarrow> string \<Rightarrow> string \<Rightarrow> bool" where
  "restore_writes e run_dir schema p \<longleftrightarrow>
     p = restore_scratch run_dir schema ''.ext4'' \<or> p = restore_scratch run_dir schema ''.img.zst''
     \<or> (\<exists>sid. vehicle e = Some sid \<and> p = data_disk run_dir sid)"

lemma local_image_frame:
  assumes "materialize_from_local_image tk e rm run_dir schema src t = (res, t')" "\<not> restore_writes e run_dir schema p"
  shows "tfs t' p = tfs t p"
  using assms
  by (auto simp: materialize_from_local_image_def Let_def drop_scratch_def restore_writes_def
      split: option.splits if_splits prod.splits dest!: adopt_image_other_files [of _ _ _ _ _ _ _ _ p])



lemma local_image_ok:
  assumes "materialize_from_local_image tk e rm run_dir schema src t = (Inr sid, t')"
    and "restore_scratch run_dir schema ''.ext4'' \<noteq> data_disk run_dir sid"
  shows "vehicle e = Some sid \<and> tvm t' = Some Up
       \<and> (\<exists>z img. tfs t src = Some z \<and> MIN_IMAGE_BYTES \<le> length z \<and> unzstd tk z = Some img \<and> check_ext4_magic img
            \<and> tfs t' (data_disk run_dir sid) = Some img)"
proof -
  let ?raw = "restore_scratch run_dir schema ''.ext4''"
  obtain z t1 where z: "tfs t src = Some z" "MIN_IMAGE_BYTES \<le> length z"
    and a: "adopt_image tk e run_dir src ?raw t = (Inr sid, t1)" "t' = drop_scratch rm ?raw t1"
    using assms(1) by (auto simp: materialize_from_local_image_def Let_def split: option.splits if_splits prod.splits)
  from adopt_image_ok [OF a(1) assms(2)] z a(2) assms(2) show ?thesis by (auto simp: drop_scratch_def)
qed

text \<open>
  C17: A compacted schema comes back as it went. Let the compaction of a disk have succeeded, and let a
  later restore from the image at its final path succeed, whatever tools and daemon did in between and
  however they failed before. If decompression inverts compression, the vehicle runs on exactly the
  bytes the disk held after its file-system check, those bytes are an ext4 file system, and the image is
  still at its path, so that nothing is lost before the caller deletes it.
\<close>

theorem compact_thaw_roundtrip:
  assumes lossless: "\<forall>d z. run_zstd tk d = (True, z) \<longrightarrow> unzstd tk z = Some d"
    and compacted: "disk \<noteq> tmp" "disk \<noteq> dest" "tmp \<noteq> dest" "fs disk = Some d"
      "compact_disk tk rename_ok rm_ok polls t0 blocks free disk tmp dest fs = (Inr n, trail)"
    and kept: "tfs t dest = last trail dest"
    and thawed: "materialize_from_local_image tk e rm run_dir schema dest t = (Inr sid, t')"
    and apart: "starts_with ''sb-'' sid" "\<not> restore_writes e run_dir schema dest"
  shows "tfs t' (data_disk run_dir sid) = Some (run_fsck tk d) \<and> check_ext4_magic (run_fsck tk d)
       \<and> tvm t' = Some Up \<and> tfs t' dest = last trail dest"
proof -
  obtain z where z: "run_zstd tk (run_fsck tk d) = (True, z)" "last trail dest = Some z"
    using compact_disk_ok [OF compacted(1-3,5)] compacted(4) by auto
  then have u: "unzstd tk z = Some (run_fsck tk d)" using lossless by blast
  obtain img where "tvm t' = Some Up" "unzstd tk z = Some img" "check_ext4_magic img" "tfs t' (data_disk run_dir sid) = Some img"
    using local_image_ok [OF thawed data_disk_not_scratch [OF apart(1), symmetric]] kept z(2) by auto
  with u local_image_frame [OF thawed apart(2)] kept show ?thesis by simp
qed


text \<open>A restore where all goes well.\<close>

definition calm :: thaw_env where
  "calm = \<lparr>run_dir_set = True, scratch_dir_ok = True, scratch_free = None, zstd_exit = True, zstd_left = None,
     vehicle = Some ''sb-5'', stop_ok = True, held_at = (\<lambda>_. False), wait_start = 0, raw_blocks = 0, vm_free = None,
     cp_exit = True, cp_left = None, start_ok = True, ready_ok = True, destroy_ok = True\<rparr>"

lemma calm_swap: "swap_and_boot calm disk raw t = (Inr (), t\<lparr>tvm := Some Up, tfs := (tfs t)(disk := tfs t raw)\<rparr>)"
proof -
  have "fst (wait_disk_released (\<lambda>_. False) 0)"
    by (simp add: wait_disk_released_def DISK_RELEASE_TIMEOUT_def wait_released_loop.simps)
  then show ?thesis by (simp add: swap_and_boot_def calm_def room_short_def Let_def)
qed

lemma calm_adopt:
  "tfs t zst = Some (c # demo_disk) \<Longrightarrow> \<exists>t'. adopt_image demo_tools calm rd zst raw t = (Inr ''sb-5'', t')"
  using calm_swap by (auto simp: adopt_image_def Let_def) (simp_all add: calm_def)

theorem compact_thaw_roundtrip_witness:
  "\<exists>t'. materialize_from_local_image demo_tools calm (\<lambda>_. True) ''/run'' ''shop'' ''out''
      \<lparr>tfs = last (snd (compact_disk demo_tools True True (\<lambda>t. t < 5) 0 4096 None ''disk'' ''tmp'' ''out'' [''disk'' \<mapsto> demo_disk])),
       tvm = None\<rparr> = (Inr ''sb-5'', t')
     \<and> tfs t' (data_disk ''/run'' ''sb-5'') = Some demo_disk"
proof -
  obtain trail where c: "compact_disk demo_tools True True (\<lambda>t. t < 5) 0 4096 None ''disk'' ''tmp'' ''out'' [''disk'' \<mapsto> demo_disk] = (Inr 1083, trail)"
    using demo_compacts by (metis prod.collapse)
  let ?t = "\<lparr>tfs = last trail, tvm = None\<rparr>"
  have "last trail ''out'' = Some (CHR ''z'' # demo_disk)"
    using compact_disk_ok [OF _ _ _ c] by auto
  then have "\<exists>t'. materialize_from_local_image demo_tools calm (\<lambda>_. True) ''/run'' ''shop'' ''out'' ?t = (Inr ''sb-5'', t')"
    using calm_adopt [of ?t "''out''" "CHR ''z''" "''/run''" "restore_scratch ''/run'' ''shop'' ''.ext4''"]
    by (auto simp: materialize_from_local_image_def Let_def MIN_IMAGE_BYTES_def) (simp_all add: calm_def room_short_def)
  then obtain t' where m: "materialize_from_local_image demo_tools calm (\<lambda>_. True) ''/run'' ''shop'' ''out'' ?t = (Inr ''sb-5'', t')" by blast
  have "tfs t' (data_disk ''/run'' ''sb-5'') = Some (run_fsck demo_tools demo_disk)"
    by (rule conjunct1 [OF compact_thaw_roundtrip [OF _ _ _ _ _ c _ m]])
      (simp_all add: starts_with_def restore_writes_def restore_scratch_def data_disk_def calm_def)
  with m c show ?thesis by simp
qed


end
