(* ===== verification/Dump_Server.thy ===== *)
theory Dump_Server
  imports Interfaces
begin

text \<open>
  The dump server (\<open>src/src/dumpsrv.rs\<close>): capability tokens and the upload, commit, abort and download
  handlers over a directory of dump files. An upload is not atomic: it opens a temporary file, writes it
  chunk by chunk and only then finishes, and other requests run in between, so each of these is a step.
  Files are inodes with contents, because a writer keeps its inode when the path is renamed or removed
  under it; an open that finds the path truncates the inode it finds.
\<close>

section \<open>State\<close>

datatype mode = Put | Get

definition TOKEN_TTL :: nat where
  "TOKEN_TTL = 3600"

definition MAX_DUMP_BYTES :: u64 where
  "MAX_DUMP_BYTES = 5 * 1024 * 1024 * 1024"

record grant =
  g_schema :: string
  g_mode :: mode
  g_issued :: nat
  g_completed :: "u64 option"
  g_pending :: "u64 option"

text \<open>An upload in progress: its token, schema, open inode, framing, and the bytes read from the request.\<close>

record upload =
  up_token :: string
  up_schema :: string
  up_ino :: nat
  up_known :: bool
  up_body :: bytes

record dump_server =
  grants :: "(string, grant) hashmap"
  inodes :: "nat \<Rightarrow> bytes"
  next_ino :: nat
  tmp_of :: "string \<Rightarrow> nat option"
  dump_of :: "string \<Rightarrow> nat option"
  uploads :: "nat \<Rightarrow> upload option"

text \<open>The two paths of a schema; \<open>with_extension\<close> replaces what follows the last dot.\<close>

definition dump_path :: "string \<Rightarrow> string \<Rightarrow> string" where
  "dump_path dir schema = dir @ ''/'' @ schema @ ''.dump''"

definition tmp_path :: "string \<Rightarrow> string \<Rightarrow> string" where
  "tmp_path dir schema =
     (let p = rev (dump_path dir schema) in rev (dropWhile (\<lambda>c. c \<noteq> CHR ''.'') p) @ ''dump.tmp'')"

text \<open>Different schemas and different roles never share a path, so the state may index files by schema.\<close>

lemma dump_paths_disjoint:
  "dump_path dir x = dump_path dir y \<longleftrightarrow> x = y" "tmp_path dir x = tmp_path dir y \<longleftrightarrow> x = y"
  "tmp_path dir x \<noteq> dump_path dir y"
proof -
  have t: "tmp_path dir x = dump_path dir x @ ''.tmp''" for x by (simp add: tmp_path_def dump_path_def)
  show "dump_path dir x = dump_path dir y \<longleftrightarrow> x = y" by (simp add: dump_path_def)
  then show "tmp_path dir x = tmp_path dir y \<longleftrightarrow> x = y" by (simp add: t)
  have "rev (tmp_path dir x) ! 1 = CHR ''m''" "rev (tmp_path dir x) ! 2 = CHR ''t''" "rev (dump_path dir y) ! 2 = CHR ''u''"
    by (simp_all add: t dump_path_def)
  then show "tmp_path dir x \<noteq> dump_path dir y" by auto
qed

section \<open>Operations\<close>

definition grant_live :: "nat \<Rightarrow> grant \<Rightarrow> bool" where
  "grant_live now g \<longleftrightarrow> now - g_issued g < TOKEN_TTL"

definition path_safe :: "string \<Rightarrow> bool" where
  "path_safe schema \<longleftrightarrow> CHR ''/'' \<notin> set schema \<and> CHR 0x5C \<notin> set schema \<and> schema \<noteq> []"

text \<open>\<open>random_token\<close>: the sixteen bytes read from the kernel in hexadecimal.\<close>

definition hex_lower :: "nat \<Rightarrow> char" where
  "hex_lower n = (if n < 10 then char_of (48 + n) else char_of (87 + n))"

definition random_token :: "bytes \<Rightarrow> string" where
  "random_token buf = concat (map (\<lambda>b. [hex_lower (code b div 16), hex_lower (code b mod 16)]) buf)"

text \<open>\<open>issue\<close>: \<open>token\<close> is what the random source gave (\<open>None\<close> if it failed), \<open>rm_ok\<close> whether a removal works.\<close>

definition expired_tmp :: "nat \<Rightarrow> dump_server \<Rightarrow> string list" where
  "expired_tmp now st = map (\<lambda>kv. g_schema (snd kv)) (filter (\<lambda>kv. \<not> grant_live now (snd kv) \<and> g_pending (snd kv) \<noteq> None) (grants st))"

definition issue :: "nat \<Rightarrow> string option \<Rightarrow> (string \<Rightarrow> bool) \<Rightarrow> string \<Rightarrow> mode \<Rightarrow> dump_server \<Rightarrow> string option \<times> dump_server" where
  "issue now token rm_ok schema md st =
     (if \<not> path_safe schema then (None, st)
      else case token of
             None \<Rightarrow> (None, st)
           | Some t \<Rightarrow>
               (let live = filter (\<lambda>kv. grant_live now (snd kv)) (grants st);
                    gone = filter rm_ok (expired_tmp now st)
                in (Some t,
                    st\<lparr>grants := hm_insert t \<lparr>g_schema = schema, g_mode = md, g_issued = now, g_completed = None, g_pending = None\<rparr> live,
                       tmp_of := (\<lambda>s. if s \<in> set gone then None else tmp_of st s)\<rparr>)))"

definition upload_completed :: "string \<Rightarrow> dump_server \<Rightarrow> u64 option" where
  "upload_completed token st = (case hm_get (grants st) token of None \<Rightarrow> None | Some g \<Rightarrow> g_completed g)"

definition authorize_token :: "nat \<Rightarrow> string \<Rightarrow> mode \<Rightarrow> dump_server \<Rightarrow> string option" where
  "authorize_token now token md st =
     (case hm_get (grants st) token of
        None \<Rightarrow> None
      | Some g \<Rightarrow> if g_mode g = md \<and> grant_live now g then Some (g_schema g) else None)"

text \<open>The start of \<open>handle_put\<close>: \<open>File::create\<close> truncates what is at the temporary path or makes a new inode.\<close>

definition put_begin :: "nat \<Rightarrow> bool \<Rightarrow> nat \<Rightarrow> string \<Rightarrow> bool \<Rightarrow> dump_server \<Rightarrow> nat \<times> dump_server" where
  "put_begin now open_ok u token known st =
     (case authorize_token now token Put st of
        None \<Rightarrow> (403, st)
      | Some s \<Rightarrow>
          if \<not> open_ok then (500, st\<lparr>tmp_of := (tmp_of st)(s := None)\<rparr>)
          else
            (let i = (case tmp_of st s of Some i \<Rightarrow> i | None \<Rightarrow> next_ino st)
             in (100, st\<lparr>inodes := (inodes st)(i := []),
                        next_ino := (case tmp_of st s of Some _ \<Rightarrow> next_ino st | None \<Rightarrow> Suc (next_ino st)),
                        tmp_of := (tmp_of st)(s \<mapsto> i),
                        uploads := (uploads st)(u \<mapsto> \<lparr>up_token = token, up_schema = s, up_ino = i, up_known = known, up_body = []\<rparr>)\<rparr>)))"

definition put_fail :: "nat \<Rightarrow> upload \<Rightarrow> dump_server \<Rightarrow> nat \<times> dump_server" where
  "put_fail u p st = (500, st\<lparr>tmp_of := (tmp_of st)(up_schema p := None), uploads := (uploads st)(u := None)\<rparr>)"

text \<open>A write at the writer's own offset; a file someone truncated meanwhile is filled with zero bytes up to it.\<close>

definition write_at :: "nat \<Rightarrow> bytes \<Rightarrow> bytes \<Rightarrow> bytes" where
  "write_at off b c = take off c @ replicate (off - length c) NUL @ b @ drop (off + length b) c"

text \<open>One turn of the body loop: \<open>None\<close> is a broken connection or a body shorter or longer than declared.\<close>

definition put_chunk :: "nat \<Rightarrow> bytes option \<Rightarrow> bool \<Rightarrow> dump_server \<Rightarrow> nat \<times> dump_server" where
  "put_chunk u chunk write_ok st =
     (case uploads st u of
        None \<Rightarrow> (0, st)
      | Some p \<Rightarrow>
          (case chunk of
             None \<Rightarrow> put_fail u p st
           | Some b \<Rightarrow>
               if MAX_DUMP_BYTES < length (up_body p) + length b \<or> \<not> write_ok then put_fail u p st
               else (100, st\<lparr>inodes := (inodes st)(up_ino p := write_at (length (up_body p)) b (inodes st (up_ino p))),
                            uploads := (uploads st)(u \<mapsto> p\<lparr>up_body := up_body p @ b\<rparr>)\<rparr>)))"

definition set_grant :: "string \<Rightarrow> (grant \<Rightarrow> grant) \<Rightarrow> dump_server \<Rightarrow> dump_server" where
  "set_grant token f st =
     (case hm_get (grants st) token of None \<Rightarrow> st | Some g \<Rightarrow> st\<lparr>grants := hm_insert token (f g) (grants st)\<rparr>)"

definition rename_tmp :: "string \<Rightarrow> dump_server \<Rightarrow> dump_server option" where
  "rename_tmp s st =
     (case tmp_of st s of
        None \<Rightarrow> None
      | Some i \<Rightarrow> Some (st\<lparr>dump_of := (dump_of st)(s \<mapsto> i), tmp_of := (tmp_of st)(s := None)\<rparr>))"

text \<open>The end of the body: sync, and for a body of declared length the rename.\<close>

definition put_end :: "nat \<Rightarrow> bool \<Rightarrow> dump_server \<Rightarrow> nat \<times> dump_server" where
  "put_end u io_ok st =
     (case uploads st u of
        None \<Rightarrow> (0, st)
      | Some p \<Rightarrow>
          (let n = length (up_body p); done_st = st\<lparr>uploads := (uploads st)(u := None)\<rparr>
           in if \<not> io_ok then put_fail u p st
              else if up_known p
              then (case rename_tmp (up_schema p) done_st of
                      None \<Rightarrow> put_fail u p st
                    | Some st' \<Rightarrow> (200, set_grant (up_token p) (\<lambda>g. g\<lparr>g_completed := Some n\<rparr>) st'))
              else (200, set_grant (up_token p) (\<lambda>g. g\<lparr>g_pending := Some n\<rparr>) done_st)))"

definition handle_commit :: "nat \<Rightarrow> bool \<Rightarrow> string \<Rightarrow> dump_server \<Rightarrow> nat \<times> dump_server" where
  "handle_commit now io_ok token st =
     (case authorize_token now token Put st of
        None \<Rightarrow> (403, st)
      | Some s \<Rightarrow>
          (case hm_get (grants st) token of
             None \<Rightarrow> (409, st)
           | Some g \<Rightarrow>
               (case g_pending g of
                  None \<Rightarrow> (409, st)
                | Some n \<Rightarrow>
                    (case (if io_ok then rename_tmp s st else None) of
                       None \<Rightarrow> (500, st)
                     | Some st' \<Rightarrow> (200, set_grant token (\<lambda>g. g\<lparr>g_pending := None, g_completed := Some n\<rparr>) st')))))"

definition handle_abort :: "nat \<Rightarrow> string \<Rightarrow> dump_server \<Rightarrow> nat \<times> dump_server" where
  "handle_abort now token st =
     (case authorize_token now token Put st of
        None \<Rightarrow> (403, st)
      | Some s \<Rightarrow>
          (let st' = set_grant token (\<lambda>g. g\<lparr>g_pending := None\<rparr>) st
           in (200, st'\<lparr>tmp_of := (tmp_of st')(s := None)\<rparr>)))"

definition handle_get :: "nat \<Rightarrow> string \<Rightarrow> dump_server \<Rightarrow> nat \<times> bytes" where
  "handle_get now token st =
     (case authorize_token now token Get st of
        None \<Rightarrow> (403, [])
      | Some s \<Rightarrow> (case dump_of st s of None \<Rightarrow> (404, []) | Some i \<Rightarrow> (200, inodes st i)))"


section \<open>Orderly use\<close>

text \<open>
  How the freeze and archive jobs are meant to use the server: one job per schema at a time, whose guest
  sends its requests one after the other. \<open>ended\<close> records the last streamed body received in full on each
  token; \<open>published\<close> collects the bodies that may appear as a schema's dump: one of declared length that
  ended, and a streamed one that ended on the very token that then committed it.
\<close>

definition idle :: "string \<Rightarrow> dump_server \<Rightarrow> bool" where
  "idle s st \<longleftrightarrow> (\<forall>u p. uploads st u = Some p \<longrightarrow> up_schema p \<noteq> s)"

definition exclusive :: "nat \<Rightarrow> string \<Rightarrow> dump_server \<Rightarrow> bool" where
  "exclusive now s st \<longleftrightarrow>
     idle s st \<and> (\<forall>t g. hm_get (grants st) t = Some g \<longrightarrow> g_schema g = s \<longrightarrow> g_mode g = Put \<longrightarrow> \<not> grant_live now g)"

definition fresh_token :: "string \<Rightarrow> dump_server \<Rightarrow> bool" where
  "fresh_token t st \<longleftrightarrow> hm_get (grants st) t = None \<and> (\<forall>u p. uploads st u = Some p \<longrightarrow> up_token p \<noteq> t)"

record audit =
  srv :: dump_server
  ended :: "string \<Rightarrow> bytes option"
  published :: "(string \<times> bytes) set"

definition token_idle :: "string \<Rightarrow> dump_server \<Rightarrow> bool" where
  "token_idle t st \<longleftrightarrow> (\<forall>g. hm_get (grants st) t = Some g \<longrightarrow> idle (g_schema g) st)"

inductive orderly_step :: "audit \<Rightarrow> audit \<Rightarrow> bool" where
  o_issue: "fresh_token t (srv a) \<Longrightarrow> md = Get \<or> exclusive now s (srv a) \<Longrightarrow>
     orderly_step a (a\<lparr>srv := snd (issue now (Some t) rm_ok s md (srv a))\<rparr>)"
| o_begin: "uploads (srv a) u = None \<Longrightarrow> token_idle t (srv a) \<Longrightarrow>
     orderly_step a (a\<lparr>srv := snd (put_begin now open_ok u t known (srv a))\<rparr>)"
| o_chunk: "orderly_step a (a\<lparr>srv := snd (put_chunk u chunk write_ok (srv a))\<rparr>)"
| o_end: "uploads (srv a) u = Some p \<Longrightarrow> put_end u io_ok (srv a) = (code', st') \<Longrightarrow>
     orderly_step a
       (a\<lparr>srv := st',
          ended := (if code' = 200 \<and> \<not> up_known p then (ended a)(up_token p \<mapsto> up_body p) else ended a),
          published := (if code' = 200 \<and> up_known p then insert (up_schema p, up_body p) (published a) else published a)\<rparr>)"
| o_commit: "token_idle t (srv a) \<Longrightarrow> handle_commit now io_ok t (srv a) = (code', st') \<Longrightarrow>
     orderly_step a
       (a\<lparr>srv := st',
          published := {(g_schema g, b) | g b. hm_get (grants (srv a)) t = Some g \<and> ended a t = Some b} \<union> published a\<rparr>)"
| o_abort: "token_idle t (srv a) \<Longrightarrow> orderly_step a (a\<lparr>srv := snd (handle_abort now t (srv a))\<rparr>)"

definition dump_init :: "audit \<Rightarrow> bool" where
  "dump_init a \<longleftrightarrow>
     grants (srv a) = [] \<and> uploads (srv a) = Map.empty \<and> tmp_of (srv a) = Map.empty \<and> dump_of (srv a) = Map.empty"

section \<open>The invariant\<close>

definition files_inv :: "dump_server \<Rightarrow> bool" where
  "files_inv st \<longleftrightarrow>
     (\<forall>s i. tmp_of st s = Some i \<longrightarrow> i < next_ino st)
     \<and> (\<forall>s i. dump_of st s = Some i \<longrightarrow> i < next_ino st)
     \<and> (\<forall>s s' i. tmp_of st s = Some i \<longrightarrow> tmp_of st s' = Some i \<longrightarrow> s = s')
     \<and> (\<forall>s s' i. tmp_of st s = Some i \<longrightarrow> dump_of st s' \<noteq> Some i)"

definition upload_ok :: "dump_server \<Rightarrow> upload \<Rightarrow> bool" where
  "upload_ok st p \<longleftrightarrow>
     up_ino p < next_ino st \<and> inodes st (up_ino p) = up_body p
     \<and> (tmp_of st (up_schema p) = None \<or> tmp_of st (up_schema p) = Some (up_ino p))
     \<and> (\<forall>s. dump_of st s \<noteq> Some (up_ino p)) \<and> (\<forall>s. tmp_of st s = Some (up_ino p) \<longrightarrow> s = up_schema p)"

definition token_ok :: "dump_server \<Rightarrow> upload \<Rightarrow> bool" where
  "token_ok st p \<longleftrightarrow>
     (\<forall>t g. hm_get (grants st) t = Some g \<longrightarrow> g_mode g = Put \<longrightarrow> g_schema g = up_schema p \<longrightarrow> t = up_token p)
     \<and> (\<forall>g. hm_get (grants st) (up_token p) = Some g \<longrightarrow> g_mode g = Put \<and> g_schema g = up_schema p)"

definition uploads_inv :: "dump_server \<Rightarrow> bool" where
  "uploads_inv st \<longleftrightarrow> (\<forall>u p. uploads st u = Some p \<longrightarrow> upload_ok st p \<and> token_ok st p)"

definition apart_inv :: "dump_server \<Rightarrow> bool" where
  "apart_inv st \<longleftrightarrow>
     (\<forall>u p v q. uploads st u = Some p \<longrightarrow> uploads st v = Some q \<longrightarrow> up_schema q = up_schema p \<or> up_ino q = up_ino p \<longrightarrow> v = u)"

definition one_put :: "dump_server \<Rightarrow> bool" where
  "one_put st \<longleftrightarrow>
     hm_wf (grants st)
     \<and> (\<forall>t g t' g'. hm_get (grants st) t = Some g \<longrightarrow> hm_get (grants st) t' = Some g' \<longrightarrow>
          g_mode g = Put \<longrightarrow> g_mode g' = Put \<longrightarrow> g_schema g = g_schema g' \<longrightarrow> t = t')"

definition pending_ok :: "audit \<Rightarrow> string \<Rightarrow> grant \<Rightarrow> bool" where
  "pending_ok a t g \<longleftrightarrow>
     (\<forall>n. g_pending g = Some n \<longrightarrow>
        g_mode g = Put
        \<and> (\<forall>i. idle (g_schema g) (srv a) \<longrightarrow> tmp_of (srv a) (g_schema g) = Some i \<longrightarrow>
             ended a t = Some (inodes (srv a) i) \<and> length (inodes (srv a) i) = n))"

definition pending_inv :: "audit \<Rightarrow> bool" where
  "pending_inv a \<longleftrightarrow> (\<forall>t g. hm_get (grants (srv a)) t = Some g \<longrightarrow> pending_ok a t g)"

definition dumps_inv :: "audit \<Rightarrow> bool" where
  "dumps_inv a \<longleftrightarrow> (\<forall>s i. dump_of (srv a) s = Some i \<longrightarrow> (s, inodes (srv a) i) \<in> published a)"

definition dump_inv :: "audit \<Rightarrow> bool" where
  "dump_inv a \<longleftrightarrow>
     files_inv (srv a) \<and> uploads_inv (srv a) \<and> apart_inv (srv a) \<and> one_put (srv a) \<and> pending_inv a \<and> dumps_inv a"

lemma dump_invD:
  assumes "dump_inv a"
  shows "files_inv (srv a)" "uploads_inv (srv a)" "apart_inv (srv a)" "one_put (srv a)" "pending_inv a" "dumps_inv a"
  using assms by (simp_all add: dump_inv_def)

lemma uploads_invD: "uploads_inv st \<Longrightarrow> uploads st u = Some p \<Longrightarrow> upload_ok st p" "uploads_inv st \<Longrightarrow> uploads st u = Some p \<Longrightarrow> token_ok st p"
  by (simp_all add: uploads_inv_def)

lemma files_invD:
  assumes "files_inv st"
  shows "tmp_of st s = Some i \<Longrightarrow> i < next_ino st" "dump_of st s = Some i \<Longrightarrow> i < next_ino st"
    "tmp_of st s = Some i \<Longrightarrow> tmp_of st s' = Some i \<Longrightarrow> s = s'" "tmp_of st s = Some i \<Longrightarrow> dump_of st s' \<noteq> Some i"
  using assms unfolding files_inv_def by blast+

lemma pending_ok_frame:
  assumes "pending_ok a t g"
    and "\<And>i. idle (g_schema g) st' \<Longrightarrow> tmp_of st' (g_schema g) = Some i \<Longrightarrow>
          idle (g_schema g) (srv a) \<and> tmp_of (srv a) (g_schema g) = Some i \<and> inodes st' i = inodes (srv a) i"
  shows "pending_ok (a\<lparr>srv := st'\<rparr>) t g"
  using assms unfolding pending_ok_def by (metis audit.select_convs(1) audit.select_convs(2) audit.surjective audit.update_convs(1))

text \<open>Forgetting temporary files or uploads keeps the statements about them.\<close>

lemma files_inv_fewer:
  assumes "files_inv st" "\<And>s i. tmp_of st' s = Some i \<Longrightarrow> tmp_of st s = Some i" "dump_of st' = dump_of st" "next_ino st' = next_ino st"
  shows "files_inv st'"
  using assms(1) unfolding files_inv_def assms(3,4) by (blast dest: assms(2))

lemma apart_inv_fewer:
  assumes "apart_inv st" "\<And>u p. uploads st' u = Some p \<Longrightarrow> uploads st u = Some p"
  shows "apart_inv st'"
  using assms(1) unfolding apart_inv_def by (blast dest: assms(2))

lemma upload_ok_fewer:
  assumes "upload_ok st p" "\<And>s i. tmp_of st' s = Some i \<Longrightarrow> tmp_of st s = Some i" "dump_of st' = dump_of st" "next_ino st' = next_ino st"
    and "inodes st' = inodes st"
  shows "upload_ok st' p"
  using assms(1) unfolding upload_ok_def assms(3-5) by (metis assms(2) not_None_eq option.inject)

lemma token_ok_same: "grants st' = grants st \<Longrightarrow> token_ok st' p = token_ok st p"
  by (simp add: token_ok_def)

lemma write_at_end [simp]: "write_at (length c) b c = c @ b"
  by (simp add: write_at_def)

lemma idleD: "idle s st \<Longrightarrow> uploads st u = Some p \<Longrightarrow> up_schema p \<noteq> s"
  by (auto simp: idle_def)

lemma set_grant_simps [simp]:
  "inodes (set_grant t f st) = inodes st" "next_ino (set_grant t f st) = next_ino st" "tmp_of (set_grant t f st) = tmp_of st"
  "dump_of (set_grant t f st) = dump_of st" "uploads (set_grant t f st) = uploads st"
  "hm_get (grants (set_grant t f st)) = (hm_get (grants st))(t := map_option f (hm_get (grants st) t))"
  by (auto simp: set_grant_def split: option.splits)

lemma set_grant_wf [simp]: "hm_wf (grants st) \<Longrightarrow> hm_wf (grants (set_grant t f st))"
  by (auto simp: set_grant_def split: option.splits)

lemma issue_fields:
  assumes "hm_wf (grants st)" "path_safe s"
  shows "inodes (snd (issue now (Some t) rm_ok s md st)) = inodes st"
    "next_ino (snd (issue now (Some t) rm_ok s md st)) = next_ino st"
    "dump_of (snd (issue now (Some t) rm_ok s md st)) = dump_of st"
    "uploads (snd (issue now (Some t) rm_ok s md st)) = uploads st"
    "\<exists>gone. tmp_of (snd (issue now (Some t) rm_ok s md st)) = (\<lambda>x. if x \<in> gone then None else tmp_of st x)"
    "hm_wf (grants (snd (issue now (Some t) rm_ok s md st)))"
    "hm_get (grants (snd (issue now (Some t) rm_ok s md st))) t'
       = (if t' = t then Some \<lparr>g_schema = s, g_mode = md, g_issued = now, g_completed = None, g_pending = None\<rparr>
          else case hm_get (grants st) t' of None \<Rightarrow> None | Some g \<Rightarrow> if grant_live now g then Some g else None)"
proof -
  show "\<exists>gone. tmp_of (snd (issue now (Some t) rm_ok s md st)) = (\<lambda>x. if x \<in> gone then None else tmp_of st x)"
    using assms by (intro exI [of _ "{x. x \<in> set (expired_tmp now st) \<and> rm_ok x}"]) (simp add: issue_def Let_def)
qed (use assms in \<open>simp_all add: issue_def Let_def hm_get_filter split: option.split\<close>)

lemma issue_unsafe: "\<not> path_safe s \<Longrightarrow> snd (issue now (Some t) rm_ok s md st) = st"
  by (simp add: issue_def)

lemma issue_inv:
  assumes "dump_inv a" "fresh_token t (srv a)" "md = Get \<or> exclusive now s (srv a)"
  shows "dump_inv (a\<lparr>srv := snd (issue now (Some t) rm_ok s md (srv a))\<rparr>)"
proof (cases "path_safe s")
  case False
  then show ?thesis using assms by (simp add: issue_unsafe)
next
  case True
  define st' where "st' = snd (issue now (Some t) rm_ok s md (srv a))"
  have wf: "hm_wf (grants (srv a))" using assms(1) by (simp add: dump_inv_def one_put_def)
  note f = issue_fields [OF wf True, where now = now and t = t and rm_ok = rm_ok and md = md, folded st'_def]
  obtain gone where gone: "tmp_of st' = (\<lambda>x. if x \<in> gone then None else tmp_of (srv a) x)" using f(5) by blast
  have g: "(t' = t \<and> g = \<lparr>g_schema = s, g_mode = md, g_issued = now, g_completed = None, g_pending = None\<rparr>)
      \<or> (t' \<noteq> t \<and> hm_get (grants (srv a)) t' = Some g \<and> grant_live now g)" if "hm_get (grants st') t' = Some g" for t' g
    using that by (auto simp: f(7) split: if_splits option.splits)
  note i = dump_invD [OF assms(1)]
  have n: "up_token p \<noteq> t" "md = Get \<or> up_schema p \<noteq> s" if "uploads (srv a) u = Some p" for u p
    using that assms(2,3) by (auto simp: fresh_token_def exclusive_def idle_def)
  have x: "md = Get \<or> \<not> (hm_get (grants (srv a)) t' = Some g \<and> g_mode g = Put \<and> g_schema g = s \<and> grant_live now g)" for t' g
    using assms(3) by (auto simp: exclusive_def)
  have few: "tmp_of st' y = Some j \<Longrightarrow> tmp_of (srv a) y = Some j" for y j by (simp add: gone split: if_splits)
  have "files_inv st'" by (rule files_inv_fewer [OF i(1) few]) (simp_all add: f)
  moreover have "uploads_inv st'" unfolding uploads_inv_def
  proof (intro allI impI conjI)
    fix u p assume "uploads st' u = Some p"
    then have u: "uploads (srv a) u = Some p" by (simp add: f)
    show "upload_ok st' p" by (rule upload_ok_fewer [OF uploads_invD(1) [OF i(2) u] few]) (simp_all add: f)
    show "token_ok st' p" using uploads_invD(2) [OF i(2) u] n [OF u] by (auto simp: token_ok_def dest!: g)
  qed
  moreover have "apart_inv st'" by (rule apart_inv_fewer [OF i(3)]) (simp add: f)
  moreover have "one_put st'" using i(4) x f(6) unfolding one_put_def by (fastforce dest!: g)
  moreover have "pending_inv (a\<lparr>srv := st'\<rparr>)"
    unfolding pending_inv_def
  proof (intro allI impI)
    fix t' g' assume "hm_get (grants (srv (a\<lparr>srv := st'\<rparr>))) t' = Some g'"
    then have "g_pending g' = None \<or> pending_ok a t' g'" using g [of t' g'] i(5) by (auto simp: pending_inv_def)
    moreover have "pending_ok (a\<lparr>srv := st'\<rparr>) t' g'" if "pending_ok a t' g'"
      by (rule pending_ok_frame [OF that]) (simp add: idle_def f gone split: if_splits)
    ultimately show "pending_ok (a\<lparr>srv := st'\<rparr>) t' g'" by (auto simp: pending_ok_def)
  qed
  moreover have "dumps_inv (a\<lparr>srv := st'\<rparr>)" using i(6) by (simp add: dumps_inv_def f)
  ultimately show ?thesis by (simp add: dump_inv_def st'_def)
qed

lemma authorize_tokenD:
  "authorize_token now t md st = Some s \<Longrightarrow> \<exists>g. hm_get (grants st) t = Some g \<and> g_mode g = md \<and> g_schema g = s"
  by (auto simp: authorize_token_def split: option.splits if_splits)

lemma drop_tmp_inv:
  assumes "dump_inv a"
  shows "dump_inv (a\<lparr>srv := (srv a)\<lparr>tmp_of := (tmp_of (srv a))(s := None)\<rparr>\<rparr>)"
proof -
  note i = dump_invD [OF assms]
  let ?st = "(srv a)\<lparr>tmp_of := (tmp_of (srv a))(s := None)\<rparr>"
  have few: "tmp_of ?st x = Some j \<Longrightarrow> tmp_of (srv a) x = Some j" for x j by (simp split: if_splits)
  have "files_inv ?st" by (rule files_inv_fewer [OF i(1) few]) simp_all
  moreover have "upload_ok ?st p" if "upload_ok (srv a) p" for p by (rule upload_ok_fewer [OF that few]) simp_all
  then have "uploads_inv ?st" using i(2) token_ok_same [of ?st "srv a"] by (simp add: uploads_inv_def)
  moreover have "pending_ok (a\<lparr>srv := ?st\<rparr>) t g" if "pending_ok a t g" for t g
    by (rule pending_ok_frame [OF that]) (simp add: idle_def split: if_splits)
  then have "pending_inv (a\<lparr>srv := ?st\<rparr>)" using i(5) by (simp add: pending_inv_def)
  ultimately show ?thesis using i(3,4,6) by (simp add: dump_inv_def apart_inv_def one_put_def dumps_inv_def)
qed

lemma idle_remove:
  assumes "uploads st u = Some p" "x \<noteq> up_schema p"
  shows "idle x (st\<lparr>uploads := (uploads st)(u := None)\<rparr>) = idle x st"
proof
  assume r: "idle x (st\<lparr>uploads := (uploads st)(u := None)\<rparr>)"
  show "idle x st" unfolding idle_def
  proof (intro allI impI)
    fix v q assume "uploads st v = Some q"
    then show "up_schema q \<noteq> x" using idleD [OF r, of v q] assms by (cases "v = u") auto
  qed
next
  assume "idle x st"
  then show "idle x (st\<lparr>uploads := (uploads st)(u := None)\<rparr>)" by (simp add: idle_def)
qed

text \<open>Ending an upload whose temporary file is gone: nothing else changes.\<close>

lemma end_upload_inv:
  assumes "dump_inv a" "uploads (srv a) u = Some p" "tmp_of (srv a) (up_schema p) = None"
  shows "dump_inv (a\<lparr>srv := (srv a)\<lparr>uploads := (uploads (srv a))(u := None)\<rparr>\<rparr>)"
proof -
  note i = dump_invD [OF assms(1)]
  let ?st = "(srv a)\<lparr>uploads := (uploads (srv a))(u := None)\<rparr>"
  have few: "uploads ?st v = Some q \<Longrightarrow> uploads (srv a) v = Some q" for v q by (simp split: if_splits)
  have ok: "upload_ok ?st q = upload_ok (srv a) q" "token_ok ?st q = token_ok (srv a) q" for q
    by (simp_all add: upload_ok_def token_ok_def)
  have "uploads_inv ?st" unfolding uploads_inv_def ok using uploads_invD [OF i(2) few] by blast
  moreover have "apart_inv ?st" by (rule apart_inv_fewer [OF i(3) few])
  moreover have "pending_ok (a\<lparr>srv := ?st\<rparr>) t g" if "pending_ok a t g" for t g
  proof (rule pending_ok_frame [OF that])
    fix k assume h: "idle (g_schema g) ?st" "tmp_of ?st (g_schema g) = Some k"
    then have "g_schema g \<noteq> up_schema p" using assms(3) by auto
    then show "idle (g_schema g) (srv a) \<and> tmp_of (srv a) (g_schema g) = Some k \<and> inodes ?st k = inodes (srv a) k"
      using h idle_remove [OF assms(2)] by simp
  qed
  then have "pending_inv (a\<lparr>srv := ?st\<rparr>)" using i(5) by (simp add: pending_inv_def)
  ultimately show ?thesis using i(1,4,6) by (simp add: dump_inv_def files_inv_def one_put_def dumps_inv_def)
qed

lemma put_fail_inv:
  assumes "dump_inv a" "uploads (srv a) u = Some p"
  shows "dump_inv (a\<lparr>srv := snd (put_fail u p (srv a))\<rparr>)"
  using end_upload_inv [OF drop_tmp_inv [OF assms(1), of "up_schema p"], of u p] assms(2)
  by (simp add: put_fail_def)

lemma files_inv_open:
  assumes "files_inv st" "j < nx" "next_ino st \<le> nx" "\<And>x. tmp_of st x = Some j \<Longrightarrow> x = s" "\<And>x. dump_of st x \<noteq> Some j"
    and st': "tmp_of st' = (tmp_of st)(s \<mapsto> j)" "dump_of st' = dump_of st" "next_ino st' = nx"
  shows "files_inv st'"
proof -
  have t: "x = s \<and> k = j \<or> x \<noteq> s \<and> tmp_of st x = Some k" if "tmp_of st' x = Some k" for x k
    using that unfolding st'(1) by (cases "x = s") simp_all
  have new: "x \<noteq> s \<Longrightarrow> tmp_of st x \<noteq> Some j" for x using assms(4) by blast
  show ?thesis
    unfolding files_inv_def st'(2,3)
  proof (intro conjI allI impI)
    fix x k assume "tmp_of st' x = Some k"
    from t [OF this] show "k < nx" using files_invD(1) [OF assms(1), of x k] assms(2,3) by linarith
  next
    fix x k assume "dump_of st x = Some k"
    from files_invD(2) [OF assms(1) this] show "k < nx" using assms(3) by linarith
  next
    fix x y k assume "tmp_of st' x = Some k" "tmp_of st' y = Some k"
    from t [OF this(1)] t [OF this(2)] show "x = y" using files_invD(3) [OF assms(1)] new by blast
  next
    fix x y k assume "tmp_of st' x = Some k"
    from t [OF this] show "dump_of st y \<noteq> Some k" using files_invD(4) [OF assms(1)] assms(5) by blast
  qed
qed

text \<open>The inode an upload opens: the one at the temporary path, else a new one.\<close>

lemma tmp_slot:
  fixes s :: string
  assumes "files_inv st"
  defines "j \<equiv> case tmp_of st s of Some i \<Rightarrow> i | None \<Rightarrow> next_ino st"
    and "nx \<equiv> case tmp_of st s of Some _ \<Rightarrow> next_ino st | None \<Rightarrow> Suc (next_ino st)"
  shows "j < nx" "next_ino st \<le> nx" "tmp_of st x = Some j \<Longrightarrow> x = s" "dump_of st x \<noteq> Some j"
proof -
  show "j < nx" "next_ino st \<le> nx" using files_invD(1) [OF assms(1), of s]
    by (cases "tmp_of st s"; simp add: j_def nx_def)+
  show "x = s" if "tmp_of st x = Some j"
  proof (cases "tmp_of st s")
    case None
    then show ?thesis using files_invD(1) [OF assms(1) that] by (simp add: j_def)
  next
    case (Some i)
    then show ?thesis using files_invD(3) [OF assms(1) that, of s] by (simp add: j_def)
  qed
  show "dump_of st x \<noteq> Some j"
  proof (cases "tmp_of st s")
    case None
    then show ?thesis using files_invD(2) [OF assms(1), of x j] by (auto simp: j_def)
  next
    case (Some i)
    then show ?thesis using files_invD(4) [OF assms(1) Some, of x] by (simp add: j_def)
  qed
qed

lemma upload_ok_open:
  assumes "upload_ok st q" "up_ino q \<noteq> j" "up_schema q \<noteq> s" "next_ino st \<le> nx"
    and "inodes st' = (inodes st)(j := [])" "tmp_of st' = (tmp_of st)(s \<mapsto> j)" "dump_of st' = dump_of st" "next_ino st' = nx"
  shows "upload_ok st' q"
proof -
  note q = assms(1) [unfolded upload_ok_def]
  have "x = up_schema q" if "tmp_of st' x = Some (up_ino q)" for x
  proof -
    have "x \<noteq> s" using that assms(2,6) by auto
    then have "tmp_of st x = Some (up_ino q)" using that assms(6) by simp
    then show ?thesis using q by blast
  qed
  then show ?thesis using q assms(2-4) unfolding upload_ok_def assms(5,7,8) by (simp add: assms(6))
qed

lemma put_begin_inv:
  assumes "dump_inv a" "uploads (srv a) u = None" "token_idle t (srv a)"
  shows "dump_inv (a\<lparr>srv := snd (put_begin now open_ok u t known (srv a))\<rparr>)"
proof (cases "authorize_token now t Put (srv a)")
  case None
  then show ?thesis using assms(1) by (simp add: put_begin_def)
next
  case (Some s)
  then obtain g where g: "hm_get (grants (srv a)) t = Some g" "g_mode g = Put" "g_schema g = s"
    using authorize_tokenD by blast
  then have idl: "idle s (srv a)" using assms(3) by (auto simp: token_idle_def)
  note i = dump_invD [OF assms(1)]
  show ?thesis
  proof (cases open_ok)
    case False
    then show ?thesis using Some drop_tmp_inv [OF assms(1)] by (simp add: put_begin_def)
  next
    case True
    define j where "j = (case tmp_of (srv a) s of Some i \<Rightarrow> i | None \<Rightarrow> next_ino (srv a))"
    define nx where "nx = (case tmp_of (srv a) s of Some _ \<Rightarrow> next_ino (srv a) | None \<Rightarrow> Suc (next_ino (srv a)))"
    define p where "p = \<lparr>up_token = t, up_schema = s, up_ino = j, up_known = known, up_body = []\<rparr>"
    let ?st = "(srv a)\<lparr>inodes := (inodes (srv a))(j := []), next_ino := nx, tmp_of := (tmp_of (srv a))(s \<mapsto> j),
        uploads := (uploads (srv a))(u \<mapsto> p)\<rparr>"
    have st: "snd (put_begin now open_ok u t known (srv a)) = ?st"
      using Some True by (simp add: put_begin_def j_def nx_def p_def Let_def)
    note j = tmp_slot(1,2) [OF i(1), of s, folded j_def nx_def]
      and jt = tmp_slot(3) [OF i(1), of _ s, folded j_def] and jd = tmp_slot(4) [OF i(1), of _ s, folded j_def]
    have ju: "up_ino q \<noteq> j" if "uploads (srv a) v = Some q" for v q
    proof -
      have "upload_ok (srv a) q" by (rule uploads_invD(1) [OF i(2) that])
      moreover have "up_schema q \<noteq> s" by (rule idleD [OF idl that])
      ultimately show ?thesis by (auto simp: j_def upload_ok_def split: option.splits)
    qed
    have "files_inv ?st" by (rule files_inv_open [OF i(1) j jt jd]) simp_all
    moreover have "uploads_inv ?st" unfolding uploads_inv_def
    proof (intro allI impI)
      fix v q assume v: "uploads ?st v = Some q"
      show "upload_ok ?st q \<and> token_ok ?st q"
      proof (cases "v = u")
        case True
        then have "q = p" using v by simp
        moreover have "upload_ok ?st p" using j jd by (simp add: upload_ok_def p_def) (blast dest: jt)
        moreover have "token_ok ?st p" using i(4) g unfolding token_ok_def one_put_def p_def by simp
        ultimately show ?thesis by simp
      next
        case False
        then have o: "uploads (srv a) v = Some q" using v by simp
        have "up_schema q \<noteq> s" by (rule idleD [OF idl o])
        then have "upload_ok ?st q" by (intro upload_ok_open [OF uploads_invD(1) [OF i(2) o] ju [OF o] _ j(2)]) simp_all
        moreover have "token_ok ?st q = token_ok (srv a) q" by (rule token_ok_same) simp
        ultimately show ?thesis using uploads_invD(2) [OF i(2) o] by blast
      qed
    qed
    moreover have "apart_inv ?st" unfolding apart_inv_def
    proof (intro allI impI)
      fix v q w r assume vw: "uploads ?st v = Some q" "uploads ?st w = Some r" "up_schema r = up_schema q \<or> up_ino r = up_ino q"
      have pd: "up_schema p = s" "up_ino p = j" by (simp_all add: p_def)
      consider "v = u" "w = u" | "v = u" "uploads (srv a) w = Some r" "w \<noteq> u" | "w = u" "uploads (srv a) v = Some q" "v \<noteq> u"
        | "uploads (srv a) w = Some r" "uploads (srv a) v = Some q" using vw by (auto split: if_splits)
      then show "w = v"
      proof cases
        case 2
        then show ?thesis using vw idleD [OF idl 2(2)] ju [OF 2(2)] pd by auto
      next
        case 3
        then show ?thesis using vw idleD [OF idl 3(2)] ju [OF 3(2)] pd by auto
      next
        case 4
        then show ?thesis using vw(3) i(3) unfolding apart_inv_def by blast
      qed simp
    qed
    moreover have "pending_ok (a\<lparr>srv := ?st\<rparr>) t' g'" if "pending_ok a t' g'" for t' g'
    proof (rule pending_ok_frame [OF that])
      fix k assume h: "idle (g_schema g') ?st" "tmp_of ?st (g_schema g') = Some k"
      have "g_schema g' \<noteq> s" using idleD [OF h(1), of u p] by (simp add: p_def)
      moreover have "idle (g_schema g') (srv a)"
        unfolding idle_def
      proof (intro allI impI)
        fix v q assume "uploads (srv a) v = Some q"
        then show "up_schema q \<noteq> g_schema g'" using idleD [OF h(1), of v q] assms(2) by (cases "v = u") auto
      qed
      ultimately show "idle (g_schema g') (srv a) \<and> tmp_of (srv a) (g_schema g') = Some k \<and> inodes ?st k = inodes (srv a) k"
        using h(2) jt [of "g_schema g'"] by (cases "k = j") simp_all
    qed
    then have "pending_inv (a\<lparr>srv := ?st\<rparr>)" using i(5) by (simp add: pending_inv_def)
    moreover have "one_put ?st" using i(4) by (simp add: one_put_def)
    moreover have "dumps_inv (a\<lparr>srv := ?st\<rparr>)" unfolding dumps_inv_def
    proof (intro allI impI)
      fix x k assume "dump_of (srv (a\<lparr>srv := ?st\<rparr>)) x = Some k"
      then have "dump_of (srv a) x = Some k" "k \<noteq> j" using jd [of x] by auto
      then show "(x, inodes (srv (a\<lparr>srv := ?st\<rparr>)) k) \<in> published (a\<lparr>srv := ?st\<rparr>)" using i(6) by (simp add: dumps_inv_def)
    qed
    ultimately show ?thesis unfolding st by (simp add: dump_inv_def)
  qed
qed

lemma put_chunk_inv:
  assumes "dump_inv a"
  shows "dump_inv (a\<lparr>srv := snd (put_chunk u chunk write_ok (srv a))\<rparr>)"
proof (cases "uploads (srv a) u")
  case None
  then show ?thesis using assms by (simp add: put_chunk_def)
next
  case (Some p)
  note i = dump_invD [OF assms]
  note ok = uploads_invD [OF i(2) Some]
  have body: "inodes (srv a) (up_ino p) = up_body p" using ok(1) by (simp add: upload_ok_def)
  define big where "big b = (MAX_DUMP_BYTES < length (up_body p) + length b \<or> \<not> write_ok)" for b :: bytes
  have w: "put_chunk u chunk write_ok (srv a) =
      (case chunk of None \<Rightarrow> put_fail u p (srv a)
       | Some b \<Rightarrow> if big b then put_fail u p (srv a)
           else (100, (srv a)\<lparr>inodes := (inodes (srv a))(up_ino p := up_body p @ b),
                             uploads := (uploads (srv a))(u \<mapsto> p\<lparr>up_body := up_body p @ b\<rparr>)\<rparr>))"
    unfolding put_chunk_def Some option.case body write_at_end big_def by (rule refl)
  consider "snd (put_chunk u chunk write_ok (srv a)) = snd (put_fail u p (srv a))"
    | b where "snd (put_chunk u chunk write_ok (srv a))
        = (srv a)\<lparr>inodes := (inodes (srv a))(up_ino p := up_body p @ b), uploads := (uploads (srv a))(u \<mapsto> p\<lparr>up_body := up_body p @ b\<rparr>)\<rparr>"
  proof (cases chunk)
    case None
    then show thesis using that(1) w by simp
  next
    case (Some b)
    then show thesis using that(1) that(2) [of b] w by (cases "big b") simp_all
  qed
  then show ?thesis
  proof cases
    case 1
    then show ?thesis using put_fail_inv [OF assms Some] by simp
  next
    case 2
    define p' where "p' = p\<lparr>up_body := up_body p @ b\<rparr>"
    let ?st = "(srv a)\<lparr>inodes := (inodes (srv a))(up_ino p := up_body p @ b), uploads := (uploads (srv a))(u \<mapsto> p')\<rparr>"
    have p': "up_schema p' = up_schema p" "up_ino p' = up_ino p" "up_token p' = up_token p" "up_body p' = up_body p @ b"
      by (simp_all add: p'_def)
    have old: "\<exists>q'. uploads (srv a) v = Some q' \<and> up_schema q = up_schema q' \<and> up_ino q = up_ino q' \<and> up_token q = up_token q'"
      if "uploads ?st v = Some q" for v q using that Some p' by (cases "v = u") simp_all
    have "files_inv ?st" by (rule files_inv_fewer [OF i(1)]) simp_all
    moreover have "uploads_inv ?st" unfolding uploads_inv_def
    proof (intro allI impI)
      fix v q assume v: "uploads ?st v = Some q"
      show "upload_ok ?st q \<and> token_ok ?st q"
      proof (cases "v = u")
        case True
        then have q: "q = p'" using v by simp
        have "upload_ok ?st p'" using ok(1) p' unfolding upload_ok_def by simp
        moreover have "token_ok ?st p' = token_ok (srv a) p'" by (rule token_ok_same) simp
        moreover have "token_ok (srv a) p'" using ok(2) unfolding token_ok_def p' .
        ultimately show ?thesis unfolding q by blast
      next
        case False
        then have o: "uploads (srv a) v = Some q" using v by simp
        have "up_ino q \<noteq> up_ino p" using i(3) o Some False unfolding apart_inv_def by blast
        then have "upload_ok ?st q" using uploads_invD(1) [OF i(2) o] unfolding upload_ok_def by simp
        moreover have "token_ok ?st q = token_ok (srv a) q" by (rule token_ok_same) simp
        ultimately show ?thesis using uploads_invD(2) [OF i(2) o] by blast
      qed
    qed
    moreover have "apart_inv ?st" unfolding apart_inv_def
    proof (intro allI impI)
      fix v q w r assume "uploads ?st v = Some q" "uploads ?st w = Some r" and e: "up_schema r = up_schema q \<or> up_ino r = up_ino q"
      then obtain q' r' where "uploads (srv a) v = Some q'" "uploads (srv a) w = Some r'" "up_schema r' = up_schema q' \<or> up_ino r' = up_ino q'"
        using old [of v q] old [of w r] by auto
      then show "w = v" using i(3) unfolding apart_inv_def by blast
    qed
    moreover have "pending_ok (a\<lparr>srv := ?st\<rparr>) t g" if "pending_ok a t g" for t g
    proof (rule pending_ok_frame [OF that])
      fix k assume h: "idle (g_schema g) ?st" "tmp_of ?st (g_schema g) = Some k"
      have "up_schema p \<noteq> g_schema g" using idleD [OF h(1), of u p'] p' by simp
      then have "k \<noteq> up_ino p" using ok(1) h(2) by (auto simp: upload_ok_def)
      moreover have "idle (g_schema g) (srv a)" unfolding idle_def
      proof (intro allI impI)
        fix v q assume "uploads (srv a) v = Some q"
        then show "up_schema q \<noteq> g_schema g"
          using idleD [OF h(1), of v q] \<open>up_schema p \<noteq> g_schema g\<close> Some by (cases "v = u") simp_all
      qed
      ultimately show "idle (g_schema g) (srv a) \<and> tmp_of (srv a) (g_schema g) = Some k \<and> inodes ?st k = inodes (srv a) k"
        using h(2) by simp
    qed
    then have "pending_inv (a\<lparr>srv := ?st\<rparr>)" using i(5) by (simp add: pending_inv_def)
    moreover have "one_put ?st" using i(4) by (simp add: one_put_def)
    moreover have "dumps_inv (a\<lparr>srv := ?st\<rparr>)" unfolding dumps_inv_def
    proof (intro allI impI)
      fix x k assume "dump_of (srv (a\<lparr>srv := ?st\<rparr>)) x = Some k"
      then have "dump_of (srv a) x = Some k" "k \<noteq> up_ino p" using ok(1) by (auto simp: upload_ok_def)
      then show "(x, inodes (srv (a\<lparr>srv := ?st\<rparr>)) k) \<in> published (a\<lparr>srv := ?st\<rparr>)" using i(6) by (simp add: dumps_inv_def)
    qed
    ultimately show ?thesis unfolding 2 p'_def [symmetric] by (simp add: dump_inv_def)
  qed
qed

text \<open>A grant that keeps its schema and purpose may change otherwise.\<close>

lemma set_grant_inv:
  assumes "dump_inv a" "\<And>g. g_schema (f g) = g_schema g" "\<And>g. g_mode (f g) = g_mode g"
    and "\<And>g. pending_ok a t g \<Longrightarrow> pending_ok a t (f g)"
  shows "dump_inv (a\<lparr>srv := set_grant t f (srv a)\<rparr>)"
proof -
  note i = dump_invD [OF assms(1)]
  let ?st = "set_grant t f (srv a)"
  have g: "\<exists>g'. hm_get (grants (srv a)) x = Some g' \<and> g_schema g = g_schema g' \<and> g_mode g = g_mode g' \<and> (g = g' \<or> x = t \<and> g = f g')"
    if "hm_get (grants ?st) x = Some g" for x g using that assms(2,3) by (auto split: if_splits)
  have "files_inv ?st" by (rule files_inv_fewer [OF i(1)]) simp_all
  moreover have "token_ok ?st p" if "token_ok (srv a) p" for p using that g unfolding token_ok_def by metis
  then have "uploads_inv ?st" using i(2) by (simp add: uploads_inv_def upload_ok_def)
  moreover have "apart_inv ?st" by (rule apart_inv_fewer [OF i(3)]) simp
  moreover have "one_put ?st" using i(4) g unfolding one_put_def by (metis set_grant_wf)
  moreover have "pending_ok (a\<lparr>srv := ?st\<rparr>) x g" if "pending_ok a x g" for x g
    by (rule pending_ok_frame [OF that]) (simp add: idle_def)
  then have "pending_inv (a\<lparr>srv := ?st\<rparr>)" using i(5) assms(4) g unfolding pending_inv_def by (metis audit.select_convs(1) audit.surjective audit.update_convs(1))
  moreover have "dumps_inv (a\<lparr>srv := ?st\<rparr>)" using i(6) by (simp add: dumps_inv_def)
  ultimately show ?thesis by (simp add: dump_inv_def)
qed

text \<open>Renaming a schema's temporary file into place while no other upload of the schema goes on.\<close>

lemma publish_inv:
  assumes "dump_inv a" "tmp_of (srv a) s = Some i" "(s, inodes (srv a) i) \<in> P" "published a \<subseteq> P"
    and U: "\<And>v q. U v = Some q \<Longrightarrow> uploads (srv a) v = Some q \<and> up_schema q \<noteq> s"
    and rest: "\<And>v q. uploads (srv a) v = Some q \<Longrightarrow> up_schema q \<noteq> s \<Longrightarrow> U v = Some q"
  shows "dump_inv (a\<lparr>srv := (srv a)\<lparr>dump_of := (dump_of (srv a))(s \<mapsto> i), tmp_of := (tmp_of (srv a))(s := None), uploads := U\<rparr>,
                     published := P\<rparr>)"
proof -
  note I = dump_invD [OF assms(1)]
  let ?st = "(srv a)\<lparr>dump_of := (dump_of (srv a))(s \<mapsto> i), tmp_of := (tmp_of (srv a))(s := None), uploads := U\<rparr>"
  let ?a = "a\<lparr>srv := ?st, published := P\<rparr>"
  have t: "x \<noteq> s \<and> tmp_of (srv a) x = Some k" if "tmp_of ?st x = Some k" for x k using that by (cases "x = s") simp_all
  have d: "x = s \<and> k = i \<or> dump_of (srv a) x = Some k" if "dump_of ?st x = Some k" for x k using that by (cases "x = s") simp_all
  have "files_inv ?st" unfolding files_inv_def
  proof (intro conjI allI impI)
    fix x k assume "tmp_of ?st x = Some k"
    from files_invD(1) [OF I(1) conjunct2 [OF t [OF this]]] show "k < next_ino ?st" by simp
  next
    fix x k assume "dump_of ?st x = Some k"
    from d [OF this] show "k < next_ino ?st" using files_invD(1) [OF I(1) assms(2)] files_invD(2) [OF I(1), of x k] by auto
  next
    fix x y k assume "tmp_of ?st x = Some k" "tmp_of ?st y = Some k"
    then show "x = y" using t files_invD(3) [OF I(1)] by blast
  next
    fix x y k assume "tmp_of ?st x = Some k"
    then have x: "x \<noteq> s" "tmp_of (srv a) x = Some k" using t by blast+
    then show "dump_of ?st y \<noteq> Some k" using d [of y k] files_invD(3) [OF I(1) x(2), of s] files_invD(4) [OF I(1) x(2), of y] assms(2) by blast
  qed
  moreover have "uploads_inv ?st" unfolding uploads_inv_def
  proof (intro allI impI)
    fix v q assume "uploads ?st v = Some q"
    then have o: "uploads (srv a) v = Some q" "up_schema q \<noteq> s" using U by simp_all
    note ok = uploads_invD [OF I(2) o(1)]
    have "up_ino q \<noteq> i" using ok(1) o(2) assms(2) unfolding upload_ok_def by blast
    then have "upload_ok ?st q" using ok(1) o(2) unfolding upload_ok_def by simp
    moreover have "token_ok ?st q = token_ok (srv a) q" by (rule token_ok_same) simp
    ultimately show "upload_ok ?st q \<and> token_ok ?st q" using ok(2) by blast
  qed
  moreover have "apart_inv ?st" by (rule apart_inv_fewer [OF I(3)]) (use U in simp)
  moreover have "one_put ?st" using I(4) by (simp add: one_put_def)
  moreover have "pending_ok ?a t' g" if p: "pending_ok a t' g" for t' g
  proof -
    have "pending_ok (a\<lparr>srv := ?st\<rparr>) t' g"
    proof (rule pending_ok_frame [OF p])
      fix k assume h: "idle (g_schema g) ?st" "tmp_of ?st (g_schema g) = Some k"
      then have x: "g_schema g \<noteq> s" "tmp_of (srv a) (g_schema g) = Some k" using t by blast+
      have "idle (g_schema g) (srv a)" unfolding idle_def
      proof (intro allI impI)
        fix v q assume v: "uploads (srv a) v = Some q"
        show "up_schema q \<noteq> g_schema g"
          using idleD [OF h(1), of v q] rest [OF v] x(1) by (cases "up_schema q = s") simp_all
      qed
      then show "idle (g_schema g) (srv a) \<and> tmp_of (srv a) (g_schema g) = Some k \<and> inodes ?st k = inodes (srv a) k" using x by simp
    qed
    then show ?thesis by (simp add: pending_ok_def)
  qed
  then have "pending_inv ?a" using I(5) by (simp add: pending_inv_def)
  moreover have "dumps_inv ?a" unfolding dumps_inv_def
  proof (intro allI impI)
    fix x k assume "dump_of (srv ?a) x = Some k"
    then have "x = s \<and> k = i \<or> dump_of (srv a) x = Some k" using d [of x k] by simp
    then have "(x, inodes (srv a) k) \<in> P" using assms(3,4) I(6) unfolding dumps_inv_def by blast
    then show "(x, inodes (srv ?a) k) \<in> published ?a" by simp
  qed
  ultimately show ?thesis by (simp add: dump_inv_def)
qed

lemma pending_same: "pending_ok a t g \<Longrightarrow> pending_ok a t (g\<lparr>g_completed := c\<rparr>)"
  by (simp add: pending_ok_def)

lemma pending_none: "pending_ok a t (g\<lparr>g_pending := None, g_completed := c\<rparr>)" "pending_ok a t (g\<lparr>g_pending := None\<rparr>)"
  by (simp_all add: pending_ok_def)

lemma set_grant_published_inv:
  assumes "dump_inv (a\<lparr>srv := st, published := P\<rparr>)" "\<And>g. g_schema (f g) = g_schema g" "\<And>g. g_mode (f g) = g_mode g"
    and "\<And>a g. pending_ok a t g \<Longrightarrow> pending_ok a t (f g)"
  shows "dump_inv (a\<lparr>srv := set_grant t f st, published := P\<rparr>)"
proof -
  have "a\<lparr>srv := st, published := P, srv := y\<rparr> = a\<lparr>srv := y, published := P\<rparr>" for y by simp
  moreover have "srv (a\<lparr>srv := st, published := P\<rparr>) = st" by simp
  ultimately show ?thesis using set_grant_inv [OF assms] by (simp only:)
qed

lemma commit_outcome:
  assumes "handle_commit now io_ok t st = (c, st')"
  shows "st' = st \<or> (\<exists>g n i. hm_get (grants st) t = Some g \<and> g_pending g = Some n \<and> g_mode g = Put
      \<and> tmp_of st (g_schema g) = Some i
      \<and> st' = set_grant t (\<lambda>g. g\<lparr>g_pending := None, g_completed := Some n\<rparr>)
         (st\<lparr>dump_of := (dump_of st)(g_schema g \<mapsto> i), tmp_of := (tmp_of st)(g_schema g := None)\<rparr>))"
proof (cases "authorize_token now t Put st")
  case None
  then show ?thesis using assms by (simp add: handle_commit_def)
next
  case (Some s)
  then obtain g where g: "hm_get (grants st) t = Some g" "g_mode g = Put" "g_schema g = s" using authorize_tokenD by blast
  show ?thesis
  proof (cases "g_pending g")
    case None
    then show ?thesis using assms Some g by (simp add: handle_commit_def)
  next
    case (Some n)
    then show ?thesis
      using assms \<open>authorize_token now t Put st = Some s\<close> g
      by (cases "tmp_of st s"; cases io_ok) (simp_all add: handle_commit_def rename_tmp_def)
  qed
qed

lemma commit_inv:
  assumes "dump_inv a" "token_idle t (srv a)" "handle_commit now io_ok t (srv a) = (c, st')"
  shows "dump_inv (a\<lparr>srv := st',
           published := {(g_schema g, b) | g b. hm_get (grants (srv a)) t = Some g \<and> ended a t = Some b} \<union> published a\<rparr>)"
proof -
  note I = dump_invD [OF assms(1)]
  let ?P = "{(g_schema g, b) | g b. hm_get (grants (srv a)) t = Some g \<and> ended a t = Some b} \<union> published a"
  have mono: "dump_inv (a\<lparr>published := ?P\<rparr>)"
    using I by (auto simp: dump_inv_def pending_inv_def pending_ok_def dumps_inv_def)
  have same_or: "st' = srv a \<or> (\<exists>g n i. hm_get (grants (srv a)) t = Some g \<and> g_pending g = Some n \<and> g_mode g = Put
      \<and> tmp_of (srv a) (g_schema g) = Some i
      \<and> st' = set_grant t (\<lambda>g. g\<lparr>g_pending := None, g_completed := Some n\<rparr>)
         ((srv a)\<lparr>dump_of := (dump_of (srv a))(g_schema g \<mapsto> i), tmp_of := (tmp_of (srv a))(g_schema g := None)\<rparr>))"
    by (rule commit_outcome [OF assms(3)])
  consider (same) "st' = srv a"
    | (renamed) g n i where "hm_get (grants (srv a)) t = Some g" "g_pending g = Some n" "g_mode g = Put" "tmp_of (srv a) (g_schema g) = Some i"
      "st' = set_grant t (\<lambda>g. g\<lparr>g_pending := None, g_completed := Some n\<rparr>)
         ((srv a)\<lparr>dump_of := (dump_of (srv a))(g_schema g \<mapsto> i), tmp_of := (tmp_of (srv a))(g_schema g := None)\<rparr>)"
    using same_or by blast
  then show ?thesis
  proof cases
    case same
    then show ?thesis using mono by simp
  next
    case renamed
    have idl: "idle (g_schema g) (srv a)" using assms(2) renamed(1) by (simp add: token_idle_def)
    have e: "ended a t = Some (inodes (srv a) i)"
      using I(5) renamed idl unfolding pending_inv_def pending_ok_def by blast
    let ?st = "(srv a)\<lparr>dump_of := (dump_of (srv a))(g_schema g \<mapsto> i), tmp_of := (tmp_of (srv a))(g_schema g := None), uploads := uploads (srv a)\<rparr>"
    have "dump_inv (a\<lparr>srv := ?st, published := ?P\<rparr>)"
      by (rule publish_inv [OF assms(1) renamed(4)]) (use e renamed(1) idl in \<open>auto simp: idle_def\<close>)
    then have "dump_inv (a\<lparr>srv := set_grant t (\<lambda>g. g\<lparr>g_pending := None, g_completed := Some n\<rparr>) ?st, published := ?P\<rparr>)"
      by (rule set_grant_published_inv) (simp_all add: pending_none)
    moreover have "?st = (srv a)\<lparr>dump_of := (dump_of (srv a))(g_schema g \<mapsto> i), tmp_of := (tmp_of (srv a))(g_schema g := None)\<rparr>" by simp
    ultimately show ?thesis unfolding renamed(5) by (simp only:)
  qed
qed

lemma abort_inv:
  assumes "dump_inv a"
  shows "dump_inv (a\<lparr>srv := snd (handle_abort now t (srv a))\<rparr>)"
proof (cases "authorize_token now t Put (srv a)")
  case None
  then show ?thesis using assms by (simp add: handle_abort_def)
next
  case (Some s)
  have "dump_inv (a\<lparr>srv := set_grant t (\<lambda>g. g\<lparr>g_pending := None\<rparr>) (srv a)\<rparr>)"
    by (rule set_grant_inv [OF assms]) (simp_all add: pending_none)
  from drop_tmp_inv [OF this, of s] show ?thesis using Some by (simp add: handle_abort_def Let_def)
qed

text \<open>The end of a streamed body: the bytes wait in the temporary file for this token's verdict.\<close>

lemma stream_end_inv:
  assumes "dump_inv a" "uploads (srv a) u = Some p"
  shows "dump_inv (a\<lparr>srv := set_grant (up_token p) (\<lambda>g. g\<lparr>g_pending := Some (length (up_body p))\<rparr>)
                              ((srv a)\<lparr>uploads := (uploads (srv a))(u := None)\<rparr>),
                     ended := (ended a)(up_token p \<mapsto> up_body p)\<rparr>)"
proof -
  note I = dump_invD [OF assms(1)]
  note ok = uploads_invD [OF I(2) assms(2)]
  define f where "f g = g\<lparr>g_pending := Some (length (up_body p))\<rparr>" for g :: grant
  define st where "st = set_grant (up_token p) f ((srv a)\<lparr>uploads := (uploads (srv a))(u := None)\<rparr>)"
  have fld: "inodes st = inodes (srv a)" "next_ino st = next_ino (srv a)" "tmp_of st = tmp_of (srv a)" "dump_of st = dump_of (srv a)"
    "uploads st = (uploads (srv a))(u := None)" "hm_get (grants st) = (hm_get (grants (srv a)))(up_token p := map_option f (hm_get (grants (srv a)) (up_token p)))"
    by (simp_all add: st_def)
  have g: "\<exists>g'. hm_get (grants (srv a)) x = Some g' \<and> g_schema h = g_schema g' \<and> g_mode h = g_mode g'
      \<and> (x \<noteq> up_token p \<and> h = g' \<or> x = up_token p \<and> h = f g')"
    if "hm_get (grants st) x = Some h" for x h using that unfolding fld(6) by (cases "x = up_token p") (auto simp: f_def)
  have few: "uploads st v = Some q \<Longrightarrow> uploads (srv a) v = Some q" for v q by (simp add: fld split: if_splits)
  have "files_inv st" by (rule files_inv_fewer [OF I(1)]) (simp_all add: fld)
  moreover have tk: "token_ok st q" if "token_ok (srv a) q" for q using that g unfolding token_ok_def by metis
  have "upload_ok st q = upload_ok (srv a) q" for q by (simp add: upload_ok_def fld)
  then have "uploads_inv st" unfolding uploads_inv_def using uploads_invD [OF I(2) few] tk by blast
  moreover have "apart_inv st" by (rule apart_inv_fewer [OF I(3) few])
  moreover have "hm_wf (grants st)" using I(4) by (simp add: st_def one_put_def)
  then have "one_put st" using I(4) g unfolding one_put_def by metis
  moreover have "pending_inv (a\<lparr>srv := st, ended := (ended a)(up_token p \<mapsto> up_body p)\<rparr>)" unfolding pending_inv_def
  proof (intro allI impI)
    fix x h assume "hm_get (grants (srv (a\<lparr>srv := st, ended := (ended a)(up_token p \<mapsto> up_body p)\<rparr>))) x = Some h"
    then have "hm_get (grants st) x = Some h" by simp
    from g [OF this] obtain g' where g': "hm_get (grants (srv a)) x = Some g'" "g_schema h = g_schema g'" "g_mode h = g_mode g'"
      "x \<noteq> up_token p \<and> h = g' \<or> x = up_token p \<and> h = f g'" by blast
    show "pending_ok (a\<lparr>srv := st, ended := (ended a)(up_token p \<mapsto> up_body p)\<rparr>) x h"
    proof (cases "x = up_token p")
      case True
      then have h: "h = f g'" "g_mode g' = Put" "g_schema g' = up_schema p" using g' ok(2) unfolding token_ok_def by blast+
      have "inodes (srv a) k = up_body p" if "tmp_of (srv a) (up_schema p) = Some k" for k
        using ok(1) that unfolding upload_ok_def by auto
      then show ?thesis using h True by (simp add: pending_ok_def f_def fld)
    next
      case False
      then have h: "h = g'" using g'(4) by blast
      have po: "pending_ok a x h" using I(5) g'(1) h by (simp add: pending_inv_def)
      have "pending_ok (a\<lparr>srv := st\<rparr>) x h"
      proof (cases "g_schema h = up_schema p")
        case True
        then have "g_mode h \<noteq> Put" using ok(2) g'(1) h False unfolding token_ok_def by blast
        then show ?thesis using po by (simp add: pending_ok_def)
      next
        case False
        show ?thesis
        proof (rule pending_ok_frame [OF po])
          fix k assume hk: "idle (g_schema h) st" "tmp_of st (g_schema h) = Some k"
          have "idle (g_schema h) ((srv a)\<lparr>uploads := (uploads (srv a))(u := None)\<rparr>)" using hk(1) by (simp add: idle_def fld)
          then show "idle (g_schema h) (srv a) \<and> tmp_of (srv a) (g_schema h) = Some k \<and> inodes st k = inodes (srv a) k"
            using idle_remove [OF assms(2) False] hk(2) by (simp add: fld)
        qed
      qed
      then show ?thesis using False by (simp add: pending_ok_def)
    qed
  qed
  moreover have "dumps_inv (a\<lparr>srv := st, ended := (ended a)(up_token p \<mapsto> up_body p)\<rparr>)" using I(6) by (simp add: dumps_inv_def fld)
  ultimately show ?thesis unfolding st_def f_def by (simp add: dump_inv_def)
qed

lemma put_end_inv:
  assumes "dump_inv a" "uploads (srv a) u = Some p" "put_end u io_ok (srv a) = (c, st')"
  shows "dump_inv (a\<lparr>srv := st',
          ended := (if c = 200 \<and> \<not> up_known p then (ended a)(up_token p \<mapsto> up_body p) else ended a),
          published := (if c = 200 \<and> up_known p then insert (up_schema p, up_body p) (published a) else published a)\<rparr>)"
proof -
  note I = dump_invD [OF assms(1)]
  note ok = uploads_invD [OF I(2) assms(2)]
  have fail: ?thesis if "(c, st') = put_fail u p (srv a)"
    using that put_fail_inv [OF assms(1,2)] by (simp add: put_fail_def)
  show ?thesis
  proof (cases "io_ok")
    case False
    then show ?thesis using fail assms(2,3) by (simp add: put_end_def Let_def)
  next
    case True
    show ?thesis
    proof (cases "up_known p")
      case False
      then show ?thesis
        using stream_end_inv [OF assms(1,2)] assms(2,3) True by (auto simp: put_end_def Let_def)
    next
      case known: True
      show ?thesis
      proof (cases "tmp_of (srv a) (up_schema p)")
        case None
        then show ?thesis using fail assms(2,3) True known by (simp add: put_end_def Let_def rename_tmp_def)
      next
        case (Some i)
        then have i: "i = up_ino p" "inodes (srv a) i = up_body p" using ok(1) unfolding upload_ok_def by auto
        let ?P = "insert (up_schema p, up_body p) (published a)"
        let ?f = "\<lambda>g. g\<lparr>g_completed := Some (length (up_body p))\<rparr>"
        let ?st = "(srv a)\<lparr>dump_of := (dump_of (srv a))(up_schema p \<mapsto> i), tmp_of := (tmp_of (srv a))(up_schema p := None),
            uploads := (uploads (srv a))(u := None)\<rparr>"
        have o: "?st = (srv a)\<lparr>uploads := (uploads (srv a))(u := None), dump_of := (dump_of (srv a))(up_schema p \<mapsto> i),
            tmp_of := (tmp_of (srv a))(up_schema p := None)\<rparr>" by simp
        have st': "c = 200" "st' = set_grant (up_token p) ?f ?st"
          unfolding o using assms(2,3) True known Some by (auto simp: put_end_def Let_def rename_tmp_def)
        have "dump_inv (a\<lparr>srv := ?st, published := ?P\<rparr>)"
        proof (rule publish_inv [OF assms(1) Some])
          show "(up_schema p, inodes (srv a) i) \<in> ?P" "published a \<subseteq> ?P" using i by auto
        next
          fix v q assume "((uploads (srv a))(u := None)) v = Some q"
          then have v: "v \<noteq> u" "uploads (srv a) v = Some q" by (simp_all split: if_splits)
          then show "uploads (srv a) v = Some q \<and> up_schema q \<noteq> up_schema p"
            using I(3) assms(2) unfolding apart_inv_def by blast
        next
          fix v q assume "uploads (srv a) v = Some q" "up_schema q \<noteq> up_schema p"
          then show "((uploads (srv a))(u := None)) v = Some q" using assms(2) by (cases "v = u") simp_all
        qed
        then have "dump_inv (a\<lparr>srv := set_grant (up_token p) ?f ?st, published := ?P\<rparr>)"
          by (rule set_grant_published_inv) (simp_all add: pending_same)
        then show ?thesis using known st' by simp
      qed
    qed
  qed
qed

lemma orderly_step_inv: "dump_inv a \<Longrightarrow> orderly_step a a' \<Longrightarrow> dump_inv a'"
  by (erule orderly_step.cases)
    (simp_all only: issue_inv put_begin_inv put_chunk_inv put_end_inv commit_inv abort_inv)

lemma dump_init_inv: "dump_init a \<Longrightarrow> dump_inv a"
  by (simp add: dump_init_def dump_inv_def files_inv_def uploads_inv_def apart_inv_def one_put_def pending_inv_def dumps_inv_def)

interpretation dump_runs: inductive_invariant dump_init orderly_step dump_inv
  by unfold_locales (auto intro: dump_init_inv orderly_step_inv)

text \<open>
  C12: Used by one job per schema at a time, its requests one after the other and no token to upload issued
  while an earlier one for the schema is unexpired (a retry within the hour does not keep to that:
  \<open>late_commit_publishes_partial_upload\<close>), the dump server never shows a half-written dump: whatever
  uploads fail, are aborted, restarted or expire, the file at a schema's dump path, and so what a download returns, is the whole body of a PUT of
  declared length for that schema or of a streamed PUT that ended and was committed with its own token.
\<close>

theorem dumps_are_whole:
  assumes "run_of dump_init orderly_step a" "handle_get now token (srv a) = (200, b)"
  shows "\<exists>s. authorize_token now token Get (srv a) = Some s \<and> (s, b) \<in> published a"
proof -
  have "dumps_inv a" using dump_runs.reachable_inv [OF assms(1)] by (simp add: dump_inv_def)
  then show ?thesis using assms(2) by (auto simp: handle_get_def dumps_inv_def split: option.splits)
qed

definition empty_server :: dump_server where
  "empty_server =
     \<lparr>grants = [], inodes = (\<lambda>_. []), next_ino = 0, tmp_of = Map.empty, dump_of = Map.empty, uploads = Map.empty\<rparr>"

theorem dumps_are_whole_witness:
  "\<exists>a s. run_of dump_init orderly_step a \<and> handle_get 9 ''g'' (srv a) = (200, ''PGDMP'')
     \<and> authorize_token 9 ''g'' Get (srv a) = Some s \<and> (s, ''PGDMP'') \<in> published a"
proof -
  define a0 where "a0 = \<lparr>srv = empty_server, ended = Map.empty, published = {}\<rparr>"
  define st1 where "st1 = snd (issue 0 (Some ''p'') (\<lambda>_. True) ''shop'' Put empty_server)"
  define st2 where "st2 = snd (put_begin 1 True 0 ''p'' False st1)"
  define st3 where "st3 = snd (put_chunk 0 (Some ''PGDMP'') True st2)"
  define st4 where "st4 = snd (put_end 0 True st3)"
  define st5 where "st5 = snd (handle_commit 2 True ''p'' st4)"
  define st6 where "st6 = snd (issue 3 (Some ''g'') (\<lambda>_. True) ''shop'' Get st5)"
  let ?g = "\<lparr>g_schema = ''shop'', g_mode = Put, g_issued = 0, g_completed = None, g_pending = None\<rparr>"
  let ?p = "\<lparr>up_token = ''p'', up_schema = ''shop'', up_ino = 0, up_known = False, up_body = []\<rparr>"
  have e1: "st1 = empty_server\<lparr>grants := [(''p'', ?g)]\<rparr>"
    by (simp add: st1_def issue_def path_safe_def expired_tmp_def empty_server_def hm_insert_def Let_def)
  have e2: "st2 = st1\<lparr>inodes := (\<lambda>_. []), next_ino := 1, tmp_of := [''shop'' \<mapsto> 0], uploads := [0 \<mapsto> ?p]\<rparr>"
    by (simp add: st2_def e1 put_begin_def authorize_token_def grant_live_def TOKEN_TTL_def empty_server_def fun_eq_iff)
  have e3: "st3 = st2\<lparr>inodes := (\<lambda>_. [])(0 := ''PGDMP''), uploads := [0 \<mapsto> ?p\<lparr>up_body := ''PGDMP''\<rparr>]\<rparr>"
    by (simp add: st3_def e2 put_chunk_def MAX_DUMP_BYTES_def write_at_def)
  have e4: "st4 = st3\<lparr>uploads := Map.empty, grants := [(''p'', ?g\<lparr>g_pending := Some 5\<rparr>)]\<rparr>"
    by (simp add: st4_def e3 e2 e1 put_end_def set_grant_def hm_insert_def Let_def)
  have e5: "st5 = st4\<lparr>dump_of := [''shop'' \<mapsto> 0], tmp_of := Map.empty, grants := [(''p'', ?g\<lparr>g_completed := Some 5\<rparr>)]\<rparr>"
    by (simp add: st5_def e4 e3 e2 e1 handle_commit_def authorize_token_def grant_live_def TOKEN_TTL_def rename_tmp_def set_grant_def hm_insert_def
        empty_server_def)
  have e6: "hm_get (grants st6) ''g'' = Some \<lparr>g_schema = ''shop'', g_mode = Get, g_issued = 3, g_completed = None, g_pending = None\<rparr>"
    "dump_of st6 = [''shop'' \<mapsto> 0]" "inodes st6 0 = ''PGDMP''"
    by (simp_all add: st6_def issue_def path_safe_def Let_def) (simp_all add: e5 e4 e3 e2 e1 empty_server_def)
  have "run_of dump_init orderly_step a0" by (rule run_init) (simp add: dump_init_def a0_def empty_server_def)
  moreover have "orderly_step a0 (a0\<lparr>srv := st1\<rparr>)"
    using o_issue [of "''p''" a0 Put 0 "''shop''" "\<lambda>_. True"]
    by (simp add: a0_def st1_def fresh_token_def exclusive_def idle_def empty_server_def)
  ultimately have r: "run_of dump_init orderly_step (a0\<lparr>srv := st1\<rparr>)" by (rule run_step)
  have "orderly_step (a0\<lparr>srv := st1\<rparr>) (a0\<lparr>srv := st2\<rparr>)"
    using o_begin [of "a0\<lparr>srv := st1\<rparr>" 0 "''p''" 1 True False] by (simp add: st2_def token_idle_def idle_def) (simp add: e1 empty_server_def)
  with r have r: "run_of dump_init orderly_step (a0\<lparr>srv := st2\<rparr>)" by (rule run_step)
  have "orderly_step (a0\<lparr>srv := st2\<rparr>) (a0\<lparr>srv := st3\<rparr>)"
    using o_chunk [of "a0\<lparr>srv := st2\<rparr>" 0 "Some ''PGDMP''" True] by (simp add: st3_def)
  with r have r: "run_of dump_init orderly_step (a0\<lparr>srv := st3\<rparr>)" by (rule run_step)
  have "put_end 0 True st3 = (200, st4)" by (simp add: st4_def e3 put_end_def Let_def)
  then have "orderly_step (a0\<lparr>srv := st3\<rparr>) (a0\<lparr>srv := st4, ended := [''p'' \<mapsto> ''PGDMP'']\<rparr>)"
    using o_end [of "a0\<lparr>srv := st3\<rparr>" 0 "?p\<lparr>up_body := ''PGDMP''\<rparr>" True 200 st4] by (simp add: e3) (simp add: a0_def)
  with r have r: "run_of dump_init orderly_step (a0\<lparr>srv := st4, ended := [''p'' \<mapsto> ''PGDMP'']\<rparr>)" by (rule run_step)
  have "handle_commit 2 True ''p'' st4 = (200, st5)"
    by (simp add: st5_def e4 e3 e2 e1 handle_commit_def authorize_token_def grant_live_def TOKEN_TTL_def rename_tmp_def)
  moreover have "{(g_schema g, b) |g b. hm_get (grants st4) ''p'' = Some g \<and> [''p'' \<mapsto> ''PGDMP''] ''p'' = Some b} \<union> published a0 = {(''shop'', ''PGDMP'')}"
    by (auto simp: a0_def e4)
  moreover have "token_idle ''p'' st4" by (simp add: token_idle_def idle_def e4)
  ultimately have "orderly_step (a0\<lparr>srv := st4, ended := [''p'' \<mapsto> ''PGDMP'']\<rparr>)
      (a0\<lparr>srv := st5, ended := [''p'' \<mapsto> ''PGDMP''], published := {(''shop'', ''PGDMP'')}\<rparr>)"
    using o_commit [of "''p''" "a0\<lparr>srv := st4, ended := [''p'' \<mapsto> ''PGDMP'']\<rparr>" 2 True 200 st5] by (simp add: a0_def)
  with r have r: "run_of dump_init orderly_step (a0\<lparr>srv := st5, ended := [''p'' \<mapsto> ''PGDMP''], published := {(''shop'', ''PGDMP'')}\<rparr>)"
    by (rule run_step)
  have "fresh_token ''g'' st5" by (simp add: fresh_token_def e5 e4)
  then have "orderly_step (a0\<lparr>srv := st5, ended := [''p'' \<mapsto> ''PGDMP''], published := {(''shop'', ''PGDMP'')}\<rparr>)
      (a0\<lparr>srv := st6, ended := [''p'' \<mapsto> ''PGDMP''], published := {(''shop'', ''PGDMP'')}\<rparr>)"
    using o_issue [of "''g''" "a0\<lparr>srv := st5, ended := [''p'' \<mapsto> ''PGDMP''], published := {(''shop'', ''PGDMP'')}\<rparr>" Get 3 "''shop''" "\<lambda>_. True"]
    by (simp add: st6_def a0_def)
  with r have r: "run_of dump_init orderly_step (a0\<lparr>srv := st6, ended := [''p'' \<mapsto> ''PGDMP''], published := {(''shop'', ''PGDMP'')}\<rparr>)"
    by (rule run_step)
  have h: "handle_get 9 ''g'' st6 = (200, ''PGDMP'')"
    using e6 by (simp add: handle_get_def authorize_token_def grant_live_def TOKEN_TTL_def)
  have "\<exists>s. authorize_token 9 ''g'' Get (srv (a0\<lparr>srv := st6, ended := [''p'' \<mapsto> ''PGDMP''], published := {(''shop'', ''PGDMP'')}\<rparr>)) = Some s
      \<and> (s, ''PGDMP'') \<in> published (a0\<lparr>srv := st6, ended := [''p'' \<mapsto> ''PGDMP''], published := {(''shop'', ''PGDMP'')}\<rparr>)"
    by (rule dumps_are_whole [OF r]) (simp add: h)
  then show ?thesis using r h by force
qed

text \<open>
  A first job streams its dump and its commit is late; the job is given up and retried, and the retry's
  upload has begun when the first job's commit arrives.
\<close>

definition retried_upload :: dump_server where
  "retried_upload =
     (let st1 = snd (issue 0 (Some ''p1'') (\<lambda>_. True) ''shop'' Put empty_server);
          st2 = snd (put_begin 1 True 0 ''p1'' False st1);
          st3 = snd (put_chunk 0 (Some ''PGDMP-first'') True st2);
          st4 = snd (put_end 0 True st3);
          st5 = snd (issue 600 (Some ''p2'') (\<lambda>_. True) ''shop'' Put st4);
          st6 = snd (put_begin 601 True 1 ''p2'' False st5)
      in snd (put_chunk 1 (Some ''PG'') True st6))"

text \<open>
  The temporary file belongs to the schema, not to the token, so outside orderly use a late commit
  publishes another upload's bytes: with a retry's upload in progress, the first job's commit answers
  200, records the first upload's eleven bytes as completed, and puts the two bytes received so far of the
  second one at the dump path, where a download returns them as the dump.
\<close>

theorem late_commit_publishes_partial_upload:
  "\<exists>st. handle_commit 602 True ''p1'' retried_upload = (200, st)
     \<and> upload_completed ''p1'' st = Some 11
     \<and> uploads st 1 \<noteq> None
     \<and> handle_get 603 ''g'' (snd (issue 603 (Some ''g'') (\<lambda>_. True) ''shop'' Get st)) = (200, ''PG'')"
proof -
  let ?g = "\<lambda>t n. \<lparr>g_schema = ''shop'', g_mode = Put, g_issued = t, g_completed = None, g_pending = n\<rparr>"
  let ?p = "\<lambda>b. \<lparr>up_token = ''p2'', up_schema = ''shop'', up_ino = 0, up_known = False, up_body = b\<rparr>"
  define st where "st = \<lparr>grants = [(''p1'', ?g 0 (Some 11)), (''p2'', ?g 600 None)], inodes = (\<lambda>_. [])(0 := ''PG''), next_ino = 1,
      tmp_of = [''shop'' \<mapsto> 0], dump_of = Map.empty, uploads = [1 \<mapsto> ?p ''PG'']\<rparr>"
  define st1 where "st1 = snd (issue 0 (Some ''p1'') (\<lambda>_. True) ''shop'' Put empty_server)"
  define st3 where "st3 = snd (put_chunk 0 (Some ''PGDMP-first'') True (snd (put_begin 1 True 0 ''p1'' False st1)))"
  define st4 where "st4 = snd (put_end 0 True st3)"
  define st5 where "st5 = snd (issue 600 (Some ''p2'') (\<lambda>_. True) ''shop'' Put st4)"
  have e1: "st1 = empty_server\<lparr>grants := [(''p1'', ?g 0 None)]\<rparr>"
    by (simp add: st1_def issue_def path_safe_def expired_tmp_def empty_server_def hm_insert_def Let_def)
  have e3: "st3 = st1\<lparr>inodes := (\<lambda>_. [])(0 := ''PGDMP-first''), next_ino := 1, tmp_of := [''shop'' \<mapsto> 0],
      uploads := [0 \<mapsto> \<lparr>up_token = ''p1'', up_schema = ''shop'', up_ino = 0, up_known = False, up_body = ''PGDMP-first''\<rparr>]\<rparr>"
    by (simp add: st3_def e1 put_begin_def authorize_token_def grant_live_def TOKEN_TTL_def put_chunk_def MAX_DUMP_BYTES_def write_at_def
        empty_server_def Let_def)
  have e4: "st4 = st3\<lparr>uploads := Map.empty, grants := [(''p1'', ?g 0 (Some 11))]\<rparr>"
    by (simp add: st4_def e3 e1 put_end_def set_grant_def hm_insert_def Let_def)
  have "expired_tmp 600 st4 = []" by (simp add: expired_tmp_def e4 grant_live_def TOKEN_TTL_def)
  then have e5: "st5 = st4\<lparr>grants := [(''p1'', ?g 0 (Some 11)), (''p2'', ?g 600 None)]\<rparr>"
    by (simp add: st5_def issue_def path_safe_def Let_def) (simp add: e4 grant_live_def TOKEN_TTL_def hm_insert_def)
  have r: "retried_upload = st"
    unfolding retried_upload_def Let_def st1_def [symmetric] st3_def [symmetric] st4_def [symmetric] st5_def [symmetric]
    by (simp add: e5 e4 e3 e1 put_begin_def authorize_token_def grant_live_def TOKEN_TTL_def put_chunk_def MAX_DUMP_BYTES_def write_at_def
        empty_server_def st_def Let_def)
  have "handle_commit 602 True ''p1'' st =
      (200, st\<lparr>dump_of := [''shop'' \<mapsto> 0], tmp_of := Map.empty,
               grants := [(''p1'', (?g 0 None)\<lparr>g_completed := Some 11\<rparr>), (''p2'', ?g 600 None)]\<rparr>)"
    by (simp add: handle_commit_def st_def authorize_token_def grant_live_def TOKEN_TTL_def rename_tmp_def set_grant_def hm_insert_def)
  then show ?thesis
    by (simp add: r upload_completed_def handle_get_def authorize_token_def grant_live_def TOKEN_TTL_def issue_def path_safe_def Let_def
        expired_tmp_def hm_insert_def) (simp add: st_def)
qed

end
