(* ===== verification/Events.thy ===== *)
theory Events
  imports Calendar "HOL-Library.Multiset"
begin

text \<open>
  Event counters and the journal (\<open>src/src/events.rs\<close>) and the live-VM history (\<open>src/src/dashboard/history.rs\<close>):
  bounded buffers in memory, one file per UTC day behind them, the reload of those files at start and the
  deletion of old ones. The directory is a map from file names to contents.
\<close>

section \<open>Tokens\<close>

datatype event = RestoreS3 | RestoreLocal | VmCreated | OffloadDone | VmDeleted | SpareClaimed

fun event_as_str :: "event \<Rightarrow> string" where
  "event_as_str RestoreS3 = ''restore_s3''"
| "event_as_str RestoreLocal = ''restore_local''"
| "event_as_str VmCreated = ''vm_created''"
| "event_as_str OffloadDone = ''offload_done''"
| "event_as_str VmDeleted = ''vm_deleted''"
| "event_as_str SpareClaimed = ''spare_claimed''"

definition event_parse :: "string \<Rightarrow> event option" where
  "event_parse s =
     (if s = ''restore_s3'' then Some RestoreS3
      else if s = ''restore_local'' then Some RestoreLocal
      else if s = ''vm_created'' then Some VmCreated
      else if s = ''offload_done'' then Some OffloadDone
      else if s = ''vm_deleted'' then Some VmDeleted
      else if s = ''spare_claimed'' then Some SpareClaimed
      else None)"

datatype level = Info | Error

fun level_as_str :: "level \<Rightarrow> string" where
  "level_as_str Info = ''info''"
| "level_as_str Error = ''error''"

definition level_parse :: "string \<Rightarrow> level option" where
  "level_parse s = (if s = ''info'' then Some Info else if s = ''error'' then Some Error else None)"

lemma event_parse_as_str [simp]: "event_parse (event_as_str e) = Some e"
  by (cases e) (simp_all add: event_parse_def)

lemma level_parse_as_str [simp]: "level_parse (level_as_str l) = Some l"
  by (cases l) (simp_all add: level_parse_def)

section \<open>Buffers\<close>

definition RETAIN_HOURS :: u64 where "RETAIN_HOURS = 25"
definition JOURNAL_CAPACITY :: nat where "JOURNAL_CAPACITY = 1000"
definition EVENT_CAPACITY :: nat where "EVENT_CAPACITY = 10000"
definition RETAIN_DAYS :: u64 where "RETAIN_DAYS = 14"

record journal_entry =
  j_t :: u64
  j_level :: level
  j_kind :: string
  j_msg :: string

text \<open>\<open>while q.len() >= cap { q.pop_front() }; q.push_back(x)\<close>\<close>

fun pop_while_full :: "nat \<Rightarrow> 'a list \<Rightarrow> 'a list" where
  "pop_while_full cap [] = []"
| "pop_while_full cap (x # xs) = (if cap \<le> length (x # xs) then pop_while_full cap xs else x # xs)"

definition push_bounded :: "nat \<Rightarrow> 'a \<Rightarrow> 'a list \<Rightarrow> 'a list" where
  "push_bounded cap x q = pop_while_full cap q @ [x]"

definition push_journal_mem :: "journal_entry \<Rightarrow> journal_entry list \<Rightarrow> journal_entry list" where
  "push_journal_mem e j = push_bounded JOURNAL_CAPACITY e j"

definition push_mem :: "u64 \<times> event \<Rightarrow> (u64 \<times> event) list \<Rightarrow> (u64 \<times> event) list" where
  "push_mem entry log =
     (let cutoff = fst entry - RETAIN_HOURS * 3600
      in push_bounded EVENT_CAPACITY entry (dropWhile (\<lambda>p. fst p < cutoff) log))"

definition history_push :: "nat \<Rightarrow> u64 \<times> nat \<Rightarrow> (u64 \<times> nat) list \<Rightarrow> (u64 \<times> nat) list" where
  "history_push capacity s q = push_bounded (max capacity 1) s q"

lemma pop_while_full_suffix: "pop_while_full cap q = drop (length q - (cap - 1)) q"
proof (induction cap q rule: pop_while_full.induct)
  case (2 cap x xs)
  show ?case
  proof (cases "cap \<le> length (x # xs)")
    case True
    then have "length (x # xs) - (cap - 1) = Suc (length xs - (cap - 1))" by (simp add: Suc_diff_le)
    then show ?thesis using 2 True by simp
  qed simp
qed simp

lemma push_bounded_last: "0 < cap \<Longrightarrow> push_bounded cap x q = drop (length (q @ [x]) - cap) (q @ [x])"
  by (simp add: push_bounded_def pop_while_full_suffix)

lemma push_bounded_keep: "length q < cap \<Longrightarrow> push_bounded cap x q = q @ [x]"
  by (simp add: push_bounded_def pop_while_full_suffix)

lemma push_bounded_length: "0 < cap \<Longrightarrow> length (push_bounded cap x q) \<le> cap"
  by (simp add: push_bounded_last)

section \<open>Hourly counts\<close>

definition count_in :: "(u64 \<times> event) list \<Rightarrow> event \<Rightarrow> u64 \<Rightarrow> nat" where
  "count_in log e h = length (filter (\<lambda>p. snd p = e \<and> h \<le> fst p \<and> fst p < h + 3600) log)"

fun bump :: "event \<Rightarrow> u64 \<Rightarrow> (u64 \<times> event) \<Rightarrow> (u64 \<times> nat) list \<Rightarrow> (u64 \<times> nat) list" where
  "bump e start (t, e') out =
     (if e' \<noteq> e \<or> t < start then out
      else (let i = (t - start) div 3600
            in if i < length out then out[i := (fst (out ! i), snd (out ! i) + 1)] else out))"

definition chart_start :: "nat \<Rightarrow> u64 \<Rightarrow> u64" where
  "chart_start buckets now = now div 3600 * 3600 - (buckets - 1) * 3600"

definition hourly_counts_at :: "event \<Rightarrow> nat \<Rightarrow> u64 \<Rightarrow> (u64 \<times> event) list \<Rightarrow> (u64 \<times> nat) list" where
  "hourly_counts_at e buckets now log =
     (let start = chart_start buckets now
      in fold (bump e start) log (map (\<lambda>i. (start + i * 3600, 0)) [0..<buckets]))"

text \<open>The chart is what it says: each bucket holds the number of such events within its clock hour.\<close>

lemma bucket_iff:
  assumes "start \<le> t"
  shows "(t - start) div 3600 = i \<longleftrightarrow> start + i * 3600 \<le> t \<and> t < start + i * 3600 + (3600 :: nat)"
proof -
  have "(t - start) div 3600 = i \<longleftrightarrow> i \<le> (t - start) div 3600 \<and> (t - start) div 3600 < Suc i" by linarith
  also have "\<dots> \<longleftrightarrow> i * 3600 \<le> t - start \<and> t - start < Suc i * 3600"
    by (simp only: less_eq_div_iff_mult_less_eq div_less_iff_less_mult zero_less_numeral)
  finally show ?thesis using assms by (simp add: le_diff_conv2 less_diff_conv2 algebra_simps)
qed

lemma bump_counts:
  "fold (bump e start) log (map (\<lambda>i. (start + i * 3600, c i)) [0..<n])
     = map (\<lambda>i. (start + i * 3600, c i + count_in log e (start + i * 3600))) [0..<n]"
proof (induction log arbitrary: c)
  case Nil
  then show ?case by (simp add: count_in_def)
next
  case (Cons p log)
  obtain t e' where p: "p = (t, e')" by (rule prod.exhaust)
  define c' where "c' i = c i + count_in [p] e (start + i * 3600)" for i
  have "bump e start p (map (\<lambda>i. (start + i * 3600, c i)) [0..<n]) = map (\<lambda>i. (start + i * 3600, c' i)) [0..<n]"
  proof (cases "e' \<noteq> e \<or> t < start")
    case True
    then show ?thesis by (auto simp: p c'_def count_in_def)
  next
    case False
    define k where "k = (t - start) div 3600"
    have k: "i = k \<longleftrightarrow> start + i * 3600 \<le> t \<and> t < start + i * 3600 + 3600" for i
      using bucket_iff [of start t i] False unfolding k_def by auto
    have c': "c' i = (if i = k then c i + 1 else c i)" for i
      using False k [of i] by (simp add: c'_def count_in_def p)
    show ?thesis
    proof (rule nth_equalityI)
      fix i assume "i < length (bump e start p (map (\<lambda>i. (start + i * 3600, c i)) [0..<n]))"
      then have "i < n" by (simp add: p Let_def split: if_splits)
      then show "bump e start p (map (\<lambda>i. (start + i * 3600, c i)) [0..<n]) ! i = map (\<lambda>i. (start + i * 3600, c' i)) [0..<n] ! i"
        using False by (simp add: p k_def [symmetric] c' nth_list_update)
    qed (simp add: p Let_def)
  qed
  then show ?case
    by (simp add: Cons.IH c'_def count_in_def p)
qed

lemma hourly_counts_correct:
  "hourly_counts_at e buckets now log =
     map (\<lambda>i. (chart_start buckets now + i * 3600, count_in log e (chart_start buckets now + i * 3600))) [0..<buckets]"
  using bump_counts [of e "chart_start buckets now" log "\<lambda>_. 0" buckets] by (simp add: hourly_counts_at_def Let_def)

section \<open>Daily files\<close>

type_synonym dir_files = "string \<Rightarrow> string option"

definition partition_name :: "u64 \<Rightarrow> string" where
  "partition_name t = ''events-'' @ date_str t @ ''.tsv''"

definition journal_name :: "u64 \<Rightarrow> string" where
  "journal_name t = ''journal-'' @ date_str t @ ''.tsv''"

definition append_file :: "string \<Rightarrow> string \<Rightarrow> dir_files \<Rightarrow> dir_files" where
  "append_file name line fs = fs(name \<mapsto> (case fs name of None \<Rightarrow> line | Some c \<Rightarrow> c @ line))"

definition event_line :: "u64 \<times> event \<Rightarrow> string" where
  "event_line p = show_nat (fst p) @ TAB # event_as_str (snd p)"

definition append_partition :: "u64 \<Rightarrow> event \<Rightarrow> dir_files \<Rightarrow> dir_files" where
  "append_partition t e fs = append_file (partition_name t) (event_line (t, e) @ [NEWLINE]) fs"

definition sanitize :: "string \<Rightarrow> string" where
  "sanitize msg = map (\<lambda>c. if c = TAB \<or> c = NEWLINE \<or> c = CR then CHR '' '' else c) msg"

definition journal_line :: "journal_entry \<Rightarrow> string" where
  "journal_line e = join_tab [show_nat (j_t e), level_as_str (j_level e), j_kind e, j_msg e]"

definition append_journal :: "journal_entry \<Rightarrow> dir_files \<Rightarrow> dir_files" where
  "append_journal e fs = append_file (journal_name (j_t e)) (journal_line e @ [NEWLINE]) fs"

definition strip_prefix :: "string \<Rightarrow> string \<Rightarrow> string option" where
  "strip_prefix p s = (if starts_with p s then Some (drop (length p) s) else None)"

definition strip_suffix :: "string \<Rightarrow> string \<Rightarrow> string option" where
  "strip_suffix p s = map_option rev (strip_prefix (rev p) (rev s))"

definition partition_date :: "string \<Rightarrow> string option" where
  "partition_date name =
     (case strip_suffix ''.tsv'' name of
        None \<Rightarrow> None
      | Some n \<Rightarrow> (case strip_prefix ''events-'' n of Some d \<Rightarrow> Some d | None \<Rightarrow> strip_prefix ''journal-'' n))"

text \<open>\<open>rm_ok name\<close>: whether removing that file works.\<close>

definition prune_partitions :: "u64 \<Rightarrow> (string \<Rightarrow> bool) \<Rightarrow> dir_files \<Rightarrow> dir_files" where
  "prune_partitions now rm_ok fs =
     (let cutoff = date_str (now - RETAIN_DAYS * 86400)
      in (\<lambda>name. case partition_date name of
                   None \<Rightarrow> fs name
                 | Some date \<Rightarrow> if date < cutoff \<and> rm_ok name then None else fs name))"

definition split_once :: "char \<Rightarrow> string \<Rightarrow> (string \<times> string) option" where
  "split_once c s =
     (if c \<in> set s then Some (takeWhile (\<lambda>x. x \<noteq> c) s, drop 1 (dropWhile (\<lambda>x. x \<noteq> c) s)) else None)"

definition parse_event_line :: "string \<Rightarrow> (u64 \<times> event) option" where
  "parse_event_line line =
     (case split_once TAB line of
        None \<Rightarrow> None
      | Some (ts, kind) \<Rightarrow>
          (case (rust_parse_u64 (rust_trim ts), event_parse (rust_trim kind)) of
             (Some t, Some e) \<Rightarrow> Some (t, e)
           | _ \<Rightarrow> None))"

text \<open>\<open>splitn(4, '\\t')\<close>: at most three splits, the rest stays whole.\<close>

fun splitn :: "nat \<Rightarrow> char \<Rightarrow> string \<Rightarrow> string list" where
  "splitn 0 c s = []"
| "splitn (Suc 0) c s = [s]"
| "splitn (Suc (Suc n)) c s = (case split_once c s of None \<Rightarrow> [s] | Some (a, b) \<Rightarrow> a # splitn (Suc n) c b)"

definition parse_journal_line :: "string \<Rightarrow> journal_entry option" where
  "parse_journal_line line =
     (case splitn 4 TAB line of
        [ts, lv, kind, msg] \<Rightarrow>
          (case (rust_parse_u64 (rust_trim ts), level_parse lv) of
             (Some t, Some l) \<Rightarrow> Some \<lparr>j_t = t, j_level = l, j_kind = kind, j_msg = msg\<rparr>
           | _ \<Rightarrow> None)
      | _ \<Rightarrow> None)"

definition day_entries :: "u64 \<Rightarrow> u64 \<Rightarrow> dir_files \<Rightarrow> (u64 \<times> event) list" where
  "day_entries now day_t fs =
     (case fs (partition_name day_t) of
        None \<Rightarrow> []
      | Some contents \<Rightarrow>
          filter (\<lambda>p. now - RETAIN_HOURS * 3600 \<le> fst p \<and> fst p \<le> now + 3600)
            (List.map_filter parse_event_line (rust_lines contents)))"

definition load_window :: "u64 \<Rightarrow> dir_files \<Rightarrow> (u64 \<times> event) list" where
  "load_window now fs = sort_key fst (day_entries now (now - 86400) fs @ day_entries now now fs)"

definition journal_entries :: "u64 \<Rightarrow> dir_files \<Rightarrow> journal_entry list" where
  "journal_entries day_t fs =
     (case fs (journal_name day_t) of None \<Rightarrow> [] | Some c \<Rightarrow> List.map_filter parse_journal_line (rust_lines c))"

definition load_journal_window :: "u64 \<Rightarrow> dir_files \<Rightarrow> journal_entry list" where
  "load_journal_window now fs =
     (let out = sort_key j_t (journal_entries (now - 86400) fs @ journal_entries now fs)
      in drop (length out - JOURNAL_CAPACITY) out)"

section \<open>Recording and starting\<close>

record metrics =
  m_log :: "(u64 \<times> event) list"
  m_journal :: "journal_entry list"
  m_files :: dir_files
  m_dir :: bool
  m_last_day :: u64

definition record_at :: "bool \<Rightarrow> (string \<Rightarrow> bool) \<Rightarrow> event \<Rightarrow> u64 \<Rightarrow> metrics \<Rightarrow> metrics" where
  "record_at write_ok rm_ok e t st =
     (let st1 = st\<lparr>m_log := push_mem (t, e) (m_log st)\<rparr>
      in if \<not> m_dir st then st1
         else
           (let day = t div 86400;
                fs = (if m_last_day st \<noteq> day then prune_partitions t rm_ok (m_files st) else m_files st)
            in st1\<lparr>m_last_day := day, m_files := (if write_ok then append_partition t e fs else fs)\<rparr>))"

definition journal_at :: "bool \<Rightarrow> level \<Rightarrow> string \<Rightarrow> string \<Rightarrow> u64 \<Rightarrow> metrics \<Rightarrow> metrics" where
  "journal_at write_ok l kind msg t st =
     (let entry = \<lparr>j_t = t, j_level = l, j_kind = kind, j_msg = sanitize msg\<rparr>;
          st1 = st\<lparr>m_journal := push_journal_mem entry (m_journal st)\<rparr>
      in if m_dir st \<and> write_ok then st1\<lparr>m_files := append_journal entry (m_files st1)\<rparr> else st1)"

definition journal_recent :: "nat \<Rightarrow> metrics \<Rightarrow> journal_entry list" where
  "journal_recent limit st = take limit (rev (m_journal st))"

definition events_init :: "bool \<Rightarrow> (string \<Rightarrow> bool) \<Rightarrow> u64 \<Rightarrow> metrics \<Rightarrow> metrics" where
  "events_init dir_ok rm_ok now st =
     (if \<not> dir_ok then st
      else st\<lparr>m_log := fold push_mem (load_window now (m_files st)) (m_log st),
              m_journal := fold push_journal_mem (load_journal_window now (m_files st)) (m_journal st),
              m_files := prune_partitions now rm_ok (m_files st), m_dir := True\<rparr>)"

text \<open>A process starts with empty buffers and the files of the directory.\<close>

definition fresh_process :: "dir_files \<Rightarrow> metrics" where
  "fresh_process fs = \<lparr>m_log = [], m_journal = [], m_files = fs, m_dir = False, m_last_day = 0\<rparr>"

section \<open>The files read back\<close>

lemma graphic_digit: "is_ascii_digit c \<Longrightarrow> is_ascii_graphic c"
  by (simp add: is_ascii_digit_def is_ascii_graphic_def)

lemma trim_show_nat [simp]: "rust_trim (show_nat n) = show_nat n"
  by (rule rust_trim_ends) (auto intro!: graphic_digit show_nat_digits [of _ n] hd_in_set last_in_set)

lemma event_as_str_graphic: "c \<in> set (event_as_str e) \<Longrightarrow> is_ascii_graphic c"
  by (cases e) (auto simp: is_ascii_graphic_def code_def)

lemma event_as_str_not_Nil [simp]: "event_as_str e \<noteq> []"
  by (cases e) simp_all

lemma trim_event [simp]: "rust_trim (event_as_str e) = event_as_str e"
  by (rule rust_trim_ends) (auto intro!: event_as_str_graphic [of _ e] hd_in_set last_in_set)

lemma split_once_at: "c \<notin> set a \<Longrightarrow> split_once c (a @ c # b) = Some (a, b)"
proof -
  assume "c \<notin> set a"
  then have "takeWhile (\<lambda>x. x \<noteq> c) (a @ c # b) = a" "dropWhile (\<lambda>x. x \<noteq> c) (a @ c # b) = c # b"
    by (induction a) auto
  then show ?thesis by (simp add: split_once_def)
qed

lemma plain_show_nat: "TAB \<notin> set (show_nat n)" "NEWLINE \<notin> set (show_nat n)" "CR \<notin> set (show_nat n)"
  using plain_field_show_nat [of n] by (simp_all add: plain_field_def)

lemma plain_event: "TAB \<notin> set (event_as_str e)" "NEWLINE \<notin> set (event_as_str e)" "CR \<notin> set (event_as_str e)"
  by (cases e; simp)+

lemma parse_event_line_line: "fst p < U64_LIMIT \<Longrightarrow> parse_event_line (event_line p) = Some p"
  by (simp add: parse_event_line_def event_line_def split_once_at plain_show_nat rust_parse_u64_show_nat)

definition event_lines :: "(u64 \<times> event) list \<Rightarrow> string" where
  "event_lines evs = concat (map (\<lambda>p. event_line p @ [NEWLINE]) evs)"

lemma event_lines_read:
  assumes "\<forall>p \<in> set evs. fst p < U64_LIMIT"
  shows "List.map_filter parse_event_line (rust_lines (event_lines evs)) = evs"
proof -
  have "rust_lines (concat (map (\<lambda>l. l @ [NEWLINE]) (map event_line evs))) = map event_line evs"
    by (rule rust_lines_concat) (auto simp: event_line_def plain_show_nat plain_event)
  then have "rust_lines (event_lines evs) = map event_line evs" by (simp add: event_lines_def comp_def)
  moreover have "List.map_filter parse_event_line (map event_line evs) = evs"
    using assms by (induction evs) (simp_all add: List.map_filter_simps parse_event_line_line)
  ultimately show ?thesis by simp
qed

lemma partition_date_names [simp]:
  "partition_date (partition_name t) = Some (date_str t)" "partition_date (journal_name t) = Some (date_str t)"
  by (simp_all add: partition_date_def partition_name_def journal_name_def strip_suffix_def strip_prefix_def starts_with_def)

lemma partition_name_inject:
  "four_digit_year t \<Longrightarrow> four_digit_year t' \<Longrightarrow> partition_name t = partition_name t' \<longleftrightarrow> t div 86400 = t' div 86400"
  by (simp add: partition_name_def date_str_inject)

text \<open>
  Pruning deletes exactly the daily files that are more than fourteen days old. A file of the day of
  \<open>t\<close>, of counters or of the journal, is gone afterwards if and only if fifteen or more days separate it
  from today, so that comparing the names as text is comparing the days; files of other names are never
  touched. The years are those of four digits.
\<close>

theorem prune_partitions_exact:
  assumes "four_digit_year now" "four_digit_year t"
  shows "prune_partitions now (\<lambda>_. True) fs (partition_name t) = (if t div 86400 + 14 < now div 86400 then None else fs (partition_name t))
    \<and> prune_partitions now (\<lambda>_. True) fs (journal_name t) = (if t div 86400 + 14 < now div 86400 then None else fs (journal_name t))
    \<and> (partition_date name \<noteq> None \<or> prune_partitions now (\<lambda>_. True) fs name = fs name)"
proof -
  have "four_digit_year (now - 1209600)" by (rule four_digit_year_mono [OF _ assms(1)]) simp
  moreover have "(now - 1209600) div 86400 = now div 86400 - 14"
    using div_mult_self1 [of 86400 "now - 1209600" 14] by (cases "1209600 \<le> now") (simp_all add: div_less_iff_less_mult le_div_geq)
  ultimately have "date_str t < date_str (now - 1209600) \<longleftrightarrow> t div 86400 + 14 < now div 86400"
    using date_str_less [OF assms(2)] by (simp add: less_diff_conv)
  then show ?thesis by (cases "partition_date name") (simp_all add: prune_partitions_def RETAIN_DAYS_def)
qed

lemma demo_year: "four_digit_year 1700000000"
proof -
  have "(1700000000 :: nat) div 86400 = 19675" by simp
  then show ?thesis
    unfolding four_digit_year_def civil_from_unix_core by (simp add: civil_of_def yoe_of_def ystart_def month_day_def Let_def)
qed

theorem prune_partitions_exact_witness:
  "four_digit_year 1700000000 \<and> prune_partitions 1700000000 (\<lambda>_. True) [partition_name 1690000000 \<mapsto> ''x''] (partition_name 1690000000) = None"
proof -
  have y: "four_digit_year 1700000000" by (rule demo_year)
  then have y': "four_digit_year 1690000000" by (rule four_digit_year_mono [rotated]) simp
  from prune_partitions_exact [OF y y', where fs = "[partition_name 1690000000 \<mapsto> ''x'']"] y show ?thesis by simp
qed

section \<open>Charts across a restart\<close>

definition contents :: "dir_files \<Rightarrow> string \<Rightarrow> string" where
  "contents fs name = (case fs name of None \<Rightarrow> [] | Some c \<Rightarrow> c)"

lemma contents_append: "contents (append_file n l fs) name = (if name = n then contents fs name @ l else contents fs name)"
  by (simp add: contents_def append_file_def split: option.split)

lemma prune_keeps:
  assumes "four_digit_year now" "four_digit_year t" "now div 86400 \<le> t div 86400 + 14"
  shows "contents (prune_partitions now rm_ok fs) (partition_name t) = contents fs (partition_name t)"
proof -
  have "four_digit_year (now - 1209600)" by (rule four_digit_year_mono [OF _ assms(1)]) simp
  moreover have "(now - 1209600) div 86400 = now div 86400 - 14"
    by (cases "1209600 \<le> now") (simp_all add: div_less_iff_less_mult le_div_geq)
  ultimately have "\<not> date_str t < date_str (now - 1209600)"
    using date_str_less [OF assms(2)] assms(3) by simp
  then show ?thesis by (simp add: contents_def prune_partitions_def RETAIN_DAYS_def)
qed

text \<open>A process that is up records a list of events, every append succeeding.\<close>

definition record_all :: "(string \<Rightarrow> bool) \<Rightarrow> (u64 \<times> event) list \<Rightarrow> metrics \<Rightarrow> metrics" where
  "record_all rm_ok evs st = fold (\<lambda>p. record_at True rm_ok (snd p) (fst p)) evs st"

lemma record_all_snoc: "record_all rm_ok (evs @ [p]) st = record_at True rm_ok (snd p) (fst p) (record_all rm_ok evs st)"
  by (simp add: record_all_def)

lemma record_all_dir: "m_dir (record_all rm_ok evs st) = m_dir st"
proof (induction evs rule: rev_induct)
  case (snoc p evs)
  then show ?case by (simp add: record_all_snoc record_at_def Let_def)
qed (simp add: record_all_def)

lemma recorded_files:
  assumes "m_dir st" "m_files st = Map.empty" "four_digit_year now" "t \<le> now"
  shows "sorted (map fst evs) \<Longrightarrow> \<forall>p \<in> set evs. fst p \<le> now \<Longrightarrow> \<forall>p \<in> set evs. fst p div 86400 \<le> t div 86400 + 14 \<Longrightarrow>
    contents (m_files (record_all rm_ok evs st)) (partition_name t) = event_lines (filter (\<lambda>p. fst p div 86400 = t div 86400) evs)"
proof (induction evs rule: rev_induct)
  case Nil
  then show ?case using assms(2) by (simp add: record_all_def contents_def event_lines_def)
next
  case (snoc p evs)
  let ?st = "record_all rm_ok evs st"
  have IH: "contents (m_files ?st) (partition_name t) = event_lines (filter (\<lambda>p. fst p div 86400 = t div 86400) evs)"
    using snoc by (simp add: sorted_append)
  define fs where "fs = (if m_last_day ?st \<noteq> fst p div 86400 then prune_partitions (fst p) rm_ok (m_files ?st) else m_files ?st)"
  have y: "four_digit_year (fst p)" "four_digit_year t"
    using four_digit_year_mono [OF _ assms(3)] snoc.prems(2) assms(4) by simp_all
  have "contents fs (partition_name t) = contents (m_files ?st) (partition_name t)"
    using prune_keeps [OF y, of rm_ok "m_files ?st"] snoc.prems(3) by (simp add: fs_def)
  moreover have "m_files (record_all rm_ok (evs @ [p]) st) = append_partition (fst p) (snd p) fs"
    using assms(1) by (simp add: record_all_snoc record_at_def record_all_dir fs_def Let_def)
  ultimately show ?case
    using IH partition_name_inject [OF y(2,1)]
    by (auto simp: append_partition_def contents_append event_lines_def)
qed

lemma dropWhile_sorted_filter: "sorted (map fst xs) \<Longrightarrow> dropWhile (\<lambda>p. fst p < c) xs = filter (\<lambda>p. c \<le> fst p) (xs :: (nat \<times> 'a) list)"
proof (induction xs)
  case (Cons x xs)
  show ?case
  proof (cases "fst x < c")
    case False
    then have "\<forall>y \<in> set xs. c \<le> fst y" using Cons.prems by fastforce
    then show ?thesis using False by (simp add: filter_True)
  qed (use Cons in simp)
qed simp

lemma recorded_log:
  assumes "m_log st = []"
  shows "sorted (map fst evs) \<Longrightarrow> length evs \<le> EVENT_CAPACITY \<Longrightarrow> evs \<noteq> [] \<Longrightarrow>
    m_log (record_all rm_ok evs st) = filter (\<lambda>p. fst (last evs) - 90000 \<le> fst p) evs"
proof (induction evs rule: rev_induct)
  case (snoc p evs)
  let ?st = "record_all rm_ok evs st"
  have s: "sorted (map fst evs)" "\<forall>q \<in> set evs. fst q \<le> fst p" "length evs < EVENT_CAPACITY"
    using snoc.prems by (auto simp: sorted_append)
  have log: "m_log (record_all rm_ok (evs @ [p]) st) = push_mem p (m_log ?st)"
    by (simp add: record_all_snoc record_at_def Let_def)
  have old: "m_log ?st = filter (\<lambda>q. fst (last evs) - 90000 \<le> fst q) evs"
    using snoc.IH s assms by (cases "evs = []") (simp_all add: record_all_def)
  have "filter (\<lambda>q. fst p - 90000 \<le> fst q) (m_log ?st) = filter (\<lambda>q. fst p - 90000 \<le> fst q) evs"
  proof (cases "evs = []")
    case False
    then have "fst (last evs) \<le> fst p" using s(2) by simp
    then have "fst (last evs) - 90000 \<le> fst p - 90000" by (rule diff_le_mono)
    then show ?thesis unfolding old filter_filter by (intro filter_cong) auto
  qed (use old in simp)
  moreover have "sorted (map fst (m_log ?st))" unfolding old using s(1) by (rule sorted_filter)
  moreover have "length (filter (\<lambda>q. fst p - 90000 \<le> fst q) evs) < EVENT_CAPACITY"
    using s(3) length_filter_le [of _ evs] by (rule le_less_trans [rotated])
  ultimately have "push_mem p (m_log ?st) = filter (\<lambda>q. fst p - 90000 \<le> fst q) evs @ [p]"
    by (simp add: push_mem_def RETAIN_HOURS_def Let_def dropWhile_sorted_filter push_bounded_keep)
  then show ?case unfolding log by simp
qed simp

lemma day_entries_contents:
  "day_entries now day_t fs =
     filter (\<lambda>p. now - 90000 \<le> fst p \<and> fst p \<le> now + 3600)
       (List.map_filter parse_event_line (rust_lines (contents fs (partition_name day_t))))"
  by (simp add: day_entries_def contents_def RETAIN_HOURS_def List.map_filter_simps split: option.split)

lemma count_in_append: "count_in (a @ b) e h = count_in a e h + count_in b e h"
  by (simp add: count_in_def)

lemma count_in_sort: "count_in (sort_key f xs) e h = count_in xs e h"
proof -
  have "mset (filter P (sort_key f xs)) = mset (filter P xs)" for P by simp
  from arg_cong [OF this, of size] show ?thesis unfolding count_in_def by (simp only: size_mset)
qed

lemma count_in_filter:
  "(\<And>p. p \<in> set xs \<Longrightarrow> snd p = e \<Longrightarrow> h \<le> fst p \<Longrightarrow> fst p < h + 3600 \<Longrightarrow> P p) \<Longrightarrow> count_in (filter P xs) e h = count_in xs e h"
  unfolding count_in_def filter_filter by (intro arg_cong [where f = length] filter_cong) auto

lemma length_filter_disjoint:
  "(\<And>x. x \<in> set xs \<Longrightarrow> \<not> (P x \<and> Q x)) \<Longrightarrow> length (filter P xs) + length (filter Q xs) = length (filter (\<lambda>x. P x \<or> Q x) xs)"
  by (induction xs) auto

lemma push_all_keeps:
  "\<forall>p \<in> set (acc @ xs). c \<le> fst p \<Longrightarrow> \<forall>p \<in> set xs. fst p - 90000 \<le> c \<Longrightarrow> length (acc @ xs) \<le> EVENT_CAPACITY \<Longrightarrow>
     fold push_mem xs acc = acc @ xs"
proof (induction xs arbitrary: acc)
  case (Cons x xs)
  have "dropWhile (\<lambda>p. fst p < fst x - 90000) acc = acc"
    using Cons.prems(1,2) by (cases acc) (auto simp: not_less intro: order_trans)
  then have "push_mem x acc = acc @ [x]"
    using Cons.prems(3) by (simp add: push_mem_def RETAIN_HOURS_def Let_def push_bounded_keep)
  then show ?case using Cons.IH [of "acc @ [x]"] Cons.prems by simp
qed simp

lemma chart_covers_day:
  assumes "buckets \<le> 24" "chart_start buckets now \<le> t"
  shows "now - 86400 \<le> t" "now < t + 86400"
proof -
  have "now < now div 3600 * 3600 + 3600" using dividend_less_div_times [of 3600 now] by simp
  moreover have "(buckets - 1) * 3600 \<le> 82800" using assms(1) by simp
  ultimately show "now < t + 86400" using assms(2) by (simp add: chart_start_def)
  then show "now - 86400 \<le> t" by simp
qed

lemma last_two_days:
  fixes now t :: u64
  assumes "now < t + 86400" "t \<le> now" "86400 \<le> now"
  shows "t div 86400 = (now - 86400) div 86400 \<or> t div 86400 = now div 86400"
proof -
  have n: "now div 86400 = Suc ((now - 86400) div 86400)" using assms(3) by (simp add: le_div_geq)
  have "t div 86400 \<le> now div 86400" using assms(2) by (rule div_le_mono)
  moreover have "now - 86400 \<le> t" using assms(1) by simp
  then have "(now - 86400) div 86400 \<le> t div 86400" by (rule div_le_mono)
  ultimately show ?thesis using n by linarith
qed

text \<open>What a restart loads: the events of the last 25 hours that happened today or yesterday.\<close>

lemma recorded_window:
  assumes "m_dir st" "m_files st = Map.empty" "sorted (map fst evs)" "list_all (\<lambda>p. fst p \<le> now) evs"
    and "86400 \<le> now" "now < U64_LIMIT" "four_digit_year now"
  defines "D t \<equiv> filter (\<lambda>p. fst p div 86400 = t div 86400) evs"
    and "W p \<equiv> now - 90000 \<le> fst p \<and> fst p \<le> now + 3600"
  shows "load_window now (m_files (record_all rm_ok evs st)) = sort_key fst (filter W (D (now - 86400)) @ filter W (D now))"
proof -
  have le: "\<forall>p \<in> set evs. fst p \<le> now" using assms(4) by (simp add: list_all_iff)
  have day: "fst p div 86400 \<le> t div 86400 + 14" if "p \<in> set evs" "t = now \<or> t = now - 86400" for p t
  proof -
    have "fst p div 86400 \<le> now div 86400" using le that(1) by (intro div_le_mono) blast
    moreover have "now div 86400 = Suc ((now - 86400) div 86400)" using assms(5) by (simp add: le_div_geq)
    ultimately show ?thesis using that(2) by auto
  qed
  have read: "day_entries now t (m_files (record_all rm_ok evs st)) = filter W (D t)" if "t = now \<or> t = now - 86400" for t
  proof -
    have "t \<le> now" using that by auto
    then have "contents (m_files (record_all rm_ok evs st)) (partition_name t) = event_lines (D t)"
      unfolding D_def using le day [OF _ that] by (intro recorded_files [OF assms(1,2,7)] assms(3)) blast+
    moreover have "\<forall>p \<in> set (D t). fst p < U64_LIMIT" using le assms(6) by (auto simp: D_def intro: le_less_trans)
    ultimately show ?thesis unfolding day_entries_contents W_def by (simp only: event_lines_read)
  qed
  then show ?thesis unfolding load_window_def by (simp only: simp_thms)
qed

text \<open>
  The hourly charts survive a restart. A process that recorded events at times that did not run
  backwards (no more than the buffer holds) is replaced by one that loads the daily files: every chart of up
  to 24 hours shows the same counts in the new process as in the old one, whichever part of them came from
  yesterday's file, and each count is the number of events of that hour that were recorded.
\<close>

theorem charts_survive_restart:
  assumes "sorted (map fst evs)" "list_all (\<lambda>p. fst p \<le> now) evs" "length evs \<le> EVENT_CAPACITY"
    and "buckets \<le> 24" "86400 \<le> now" "now < U64_LIMIT" "four_digit_year now"
  shows "let old = record_all rm_ok evs (events_init True rm_ok start (fresh_process Map.empty));
             new = events_init True rm_ok now (fresh_process (m_files old))
         in hourly_counts_at e buckets now (m_log new) = hourly_counts_at e buckets now (m_log old)
          \<and> hourly_counts_at e buckets now (m_log old)
              = map (\<lambda>i. (chart_start buckets now + i * 3600, count_in evs e (chart_start buckets now + i * 3600))) [0..<buckets]"
proof -
  define st where "st = events_init True rm_ok start (fresh_process Map.empty)"
  define old where "old = record_all rm_ok evs st"
  define new where "new = events_init True rm_ok now (fresh_process (m_files old))"
  have st: "m_dir st" "m_log st = []" "m_files st = Map.empty"
    by (simp_all add: st_def events_init_def fresh_process_def load_window_def day_entries_def prune_partitions_def fun_eq_iff split: option.split)
  have le: "\<forall>p \<in> set evs. fst p \<le> now" using assms(2) by (simp add: list_all_iff)
  let ?h = "\<lambda>i. chart_start buckets now + i * 3600"
  have cover: "now - 86400 \<le> t" "now < t + 86400" if "?h i \<le> t" for i t
    using chart_covers_day [OF assms(4), of now t] that by simp_all
  have live: "count_in (m_log old) e (?h i) = count_in evs e (?h i)" for i
  proof (cases "evs = []")
    case True
    then show ?thesis using st by (simp add: old_def record_all_def)
  next
    case False
    then have l: "fst (last evs) \<le> now" using le by simp
    show ?thesis unfolding old_def recorded_log [OF st(2) assms(1,3) False]
      by (rule count_in_filter) (use cover l in \<open>force dest: cover(1)\<close>)
  qed
  let ?W = "\<lambda>p. now - 90000 \<le> fst p \<and> fst p \<le> now + 3600"
  let ?D = "\<lambda>t. filter (\<lambda>p. fst p div 86400 = t div 86400) evs"
  define ld where "ld = load_window now (m_files old)"
  note ld = recorded_window [OF st(1,3) assms(1,2,5,6,7), of rm_ok, folded old_def ld_def]
  have apart: "\<not> (fst p div 86400 = (now - 86400) div 86400 \<and> fst p div 86400 = now div 86400)" for p :: "u64 \<times> event"
    using assms(5) by (simp add: le_div_geq)
  have "length ld \<le> length (?D (now - 86400)) + length (?D now)"
    unfolding ld length_sort length_append by (intro add_mono length_filter_le)
  also have "\<dots> \<le> length evs" unfolding length_filter_disjoint [OF apart] by (rule length_filter_le)
  finally have len: "length ld \<le> EVENT_CAPACITY" using assms(3) by simp
  have mem: "now - 90000 \<le> fst p \<and> fst p - 90000 \<le> now - 90000" if "p \<in> set ld" for p
  proof -
    have "p \<in> set evs" "now - 90000 \<le> fst p" using that by (auto simp: ld)
    then show ?thesis using le by (simp add: diff_le_mono)
  qed
  have new: "m_log new = ld"
  proof -
    have "fold push_mem ld [] = [] @ ld"
      by (rule push_all_keeps [where c = "now - 90000"]) (use len mem in auto)
    then show ?thesis by (simp add: new_def events_init_def fresh_process_def ld_def)
  qed
  have reload: "count_in (m_log new) e (?h i) = count_in evs e (?h i)" for i
  proof -
    have w: "count_in (filter ?W (?D t)) e (?h i) = count_in (?D t) e (?h i)" for t
      by (rule count_in_filter) (use le cover(1) in \<open>force\<close>)
    let ?c = "\<lambda>p. snd p = e \<and> ?h i \<le> fst p \<and> fst p < ?h i + 3600"
    have "count_in (m_log new) e (?h i) = count_in (?D (now - 86400)) e (?h i) + count_in (?D now) e (?h i)"
      unfolding new ld count_in_sort count_in_append w by (rule refl)
    also have "\<dots> = length (filter (\<lambda>p. (fst p div 86400 = (now - 86400) div 86400 \<and> ?c p) \<or> (fst p div 86400 = now div 86400 \<and> ?c p)) evs)"
      unfolding count_in_def filter_filter by (rule length_filter_disjoint) (use apart in blast)
    also have "\<dots> = count_in evs e (?h i)"
      unfolding count_in_def
      by (intro arg_cong [where f = length] filter_cong refl) (use last_two_days [OF cover(2) _ assms(5)] le in blast)
    finally show ?thesis .
  qed
  show ?thesis
    unfolding Let_def st_def [symmetric] old_def [symmetric] new_def [symmetric] hourly_counts_correct by (simp add: live reload)
qed

theorem charts_survive_restart_witness:
  "list_all (\<lambda>p. fst p \<le> (1700000000 :: nat)) [(1699950000, VmCreated), (1699999000, VmCreated)]
   \<and> (let old = record_all (\<lambda>_. True) [(1699950000, VmCreated), (1699999000, VmCreated)]
                  (events_init True (\<lambda>_. True) 1690000000 (fresh_process Map.empty));
          new = events_init True (\<lambda>_. True) 1700000000 (fresh_process (m_files old))
      in hourly_counts_at VmCreated 24 1700000000 (m_log new) = hourly_counts_at VmCreated 24 1700000000 (m_log old)
       \<and> hourly_counts_at VmCreated 24 1700000000 (m_log old)
           = map (\<lambda>i. (chart_start 24 1700000000 + i * 3600,
                       count_in [(1699950000, VmCreated), (1699999000, VmCreated)] VmCreated (chart_start 24 1700000000 + i * 3600))) [0..<24])"
proof (rule conjI)
  show "let old = record_all (\<lambda>_. True) [(1699950000, VmCreated), (1699999000, VmCreated)]
                  (events_init True (\<lambda>_. True) 1690000000 (fresh_process Map.empty));
          new = events_init True (\<lambda>_. True) 1700000000 (fresh_process (m_files old))
      in hourly_counts_at VmCreated 24 1700000000 (m_log new) = hourly_counts_at VmCreated 24 1700000000 (m_log old)
       \<and> hourly_counts_at VmCreated 24 1700000000 (m_log old)
           = map (\<lambda>i. (chart_start 24 1700000000 + i * 3600,
                       count_in [(1699950000, VmCreated), (1699999000, VmCreated)] VmCreated (chart_start 24 1700000000 + i * 3600))) [0..<24]"
    by (rule charts_survive_restart) (simp_all add: demo_year EVENT_CAPACITY_def)
qed simp

text \<open>
  The 25 hours kept in memory reach into a third UTC day during the first hour of a day: an event of 23:30
  two days ago is in the buffer at 00:30, and a restart at that moment does not load it.
\<close>

lemma reload_misses_third_day:
  "\<exists>evs now p. sorted (map fst evs) \<and> list_all (\<lambda>q. fst q \<le> now) evs
     \<and> p \<in> set (m_log (record_all (\<lambda>_. True) evs ((fresh_process Map.empty)\<lparr>m_dir := True\<rparr>)))
     \<and> p \<notin> set (load_window now (m_files (record_all (\<lambda>_. True) evs ((fresh_process Map.empty)\<lparr>m_dir := True\<rparr>))))"
proof -
  let ?evs = "[(1699918200, VmCreated), (1700008200, VmCreated)]" and ?st = "(fresh_process Map.empty)\<lparr>m_dir := True\<rparr>"
  have "four_digit_year 1700008200"
  proof -
    have "(1700008200 :: nat) div 86400 = 19676" by simp
    then show ?thesis
      unfolding four_digit_year_def civil_from_unix_core by (simp add: civil_of_def yoe_of_def ystart_def month_day_def Let_def)
  qed
  then have "load_window 1700008200 (m_files (record_all (\<lambda>_. True) ?evs ?st)) = [(1700008200, VmCreated)]"
    by (subst recorded_window) (simp_all add: fresh_process_def)
  moreover have "m_log (record_all (\<lambda>_. True) ?evs ?st) = ?evs"
    by (subst recorded_log) (simp_all add: fresh_process_def EVENT_CAPACITY_def)
  ultimately show ?thesis
    by (intro exI [of _ ?evs] exI [of _ 1700008200] exI [of _ "(1699918200, VmCreated)"]) simp
qed

section \<open>The journal reads back\<close>

lemma sanitize_plain: "plain_field (sanitize msg)"
  by (auto simp: plain_field_def sanitize_def)

lemma level_plain: "plain_field (level_as_str l)"
  by (cases l) (simp_all add: plain_field_def)

lemma parse_journal_line_line:
  assumes "j_t e < U64_LIMIT" "plain_field (j_kind e)" "plain_field (j_msg e)"
  shows "parse_journal_line (journal_line e) = Some e"
proof -
  have "splitn 4 TAB (journal_line e) = [show_nat (j_t e), level_as_str (j_level e), j_kind e, j_msg e]"
    using assms(2) level_plain [of "j_level e"]
    by (simp add: journal_line_def numeral_eq_Suc split_once_at plain_show_nat plain_field_def)
  then show ?thesis using assms(1) by (simp add: parse_journal_line_def rust_parse_u64_show_nat)
qed

lemma journal_lines_read:
  assumes "\<forall>e \<in> set es. j_t e < U64_LIMIT \<and> plain_field (j_kind e) \<and> plain_field (j_msg e)"
  shows "List.map_filter parse_journal_line (rust_lines (concat (map (\<lambda>e. journal_line e @ [NEWLINE]) es))) = es"
proof -
  have "rust_lines (concat (map (\<lambda>l. l @ [NEWLINE]) (map journal_line es))) = map journal_line es"
  proof (rule rust_lines_concat)
    fix l assume "l \<in> set (map journal_line es)"
    then obtain e where "e \<in> set es" "l = journal_line e" by auto
    then show "NEWLINE \<notin> set l \<and> CR \<notin> set l"
      using assms plain_line [of "[show_nat (j_t e), level_as_str (j_level e), j_kind e, j_msg e]"] level_plain [of "j_level e"]
      by (simp add: journal_line_def)
  qed
  moreover have "List.map_filter parse_journal_line (map journal_line es) = es"
    using assms by (induction es) (simp_all add: List.map_filter_simps parse_journal_line_line)
  ultimately show ?thesis by (simp add: comp_def)
qed

end
