(* ===== verification/Orphans.thy ===== *)
theory Orphans
  imports Store Spares
begin

text \<open>
  The orphan-disk sweep: \<open>src/src/orphans.rs\<close> (the open-file check), \<open>gc_restore_scratch\<close> of
  \<open>src/src/imgarchive.rs\<close>, and \<open>sweep_orphans\<close> of \<open>src/src/registry.rs\<close> with its helpers. What the
  host answers (directory listings, metadata, the daemon's per-id endpoint, removals) is a parameter,
  read once for the classification and again for the destructive phase, since the pass awaits the
  daemon in between and anything may change.
\<close>

section \<open>Open files\<close>

type_synonym inode = "nat \<times> nat"

text \<open>
  \<open>/proc\<close> as the scan sees it: the named entries, each with the descriptors it lists (None when the
  directory cannot be read) and the identity each descriptor resolves to (None when it does not).
\<close>

type_synonym proc_view = "(string \<times> inode option list option) list option"

definition open_inodes :: "proc_view \<Rightarrow> inode set" where
  "open_inodes procs =
     (case procs of
        None \<Rightarrow> {}
      | Some ps \<Rightarrow>
          set (concat (map (\<lambda>(nm, fds).
                 if list_all is_ascii_digit nm
                 then (case fds of None \<Rightarrow> [] | Some ds \<Rightarrow> List.map_filter id ds)
                 else []) ps)))"

text \<open>One entry of a sandbox directory: its type unreadable, a sub-directory, or another file.\<close>

datatype dir_entry = Untyped | Sub_Dir "inode option list option" | Plain_File "inode option"

definition opened :: "inode set \<Rightarrow> inode option \<Rightarrow> bool" where
  "opened opn md \<longleftrightarrow> (case md of None \<Rightarrow> False | Some i \<Rightarrow> i \<in> opn)"

fun entries_held :: "inode set \<Rightarrow> dir_entry list \<Rightarrow> bool" where
  "entries_held opn [] = False"
| "entries_held opn (Untyped # rest) = True"
| "entries_held opn (Sub_Dir sub # rest) =
     ((case sub of None \<Rightarrow> False | Some ss \<Rightarrow> list_ex (opened opn) ss) \<or> entries_held opn rest)"
| "entries_held opn (Plain_File md # rest) = (opened opn md \<or> entries_held opn rest)"

definition dir_held_open :: "dir_entry list option \<Rightarrow> inode set \<Rightarrow> bool" where
  "dir_held_open dir opn = (case dir of None \<Rightarrow> True | Some es \<Rightarrow> entries_held opn es)"

section \<open>Ages\<close>

definition ORPHAN_MIN_AGE :: nat where
  "ORPHAN_MIN_AGE = 1800"

definition ORPHAN_MAX_DELETES_PER_SWEEP :: nat where
  "ORPHAN_MAX_DELETES_PER_SWEEP = 100"

definition ORPHAN_MAX_ROOTFS_PRUNES_PER_SWEEP :: nat where
  "ORPHAN_MAX_ROOTFS_PRUNES_PER_SWEEP = 250"

definition ORPHAN_MAX_DAEMON_ERRORS :: nat where
  "ORPHAN_MAX_DAEMON_ERRORS = 5"

definition SCRATCH_MAX_AGE :: nat where
  "SCRATCH_MAX_AGE = 3600"

text \<open>\<open>duration_since\<close> fails on a time in the future.\<close>

definition duration_since :: "nat \<Rightarrow> nat \<Rightarrow> nat option" where
  "duration_since now mtime = (if mtime \<le> now then Some (now - mtime) else None)"

definition file_older_than :: "nat \<Rightarrow> nat option \<Rightarrow> nat \<Rightarrow> bool" where
  "file_older_than now mtime age =
     (case mtime of
        None \<Rightarrow> False
      | Some m \<Rightarrow> (case duration_since now m of None \<Rightarrow> False | Some elapsed \<Rightarrow> age \<le> elapsed))"

text \<open>The age floor of the scan: a directory whose metadata cannot be read passes it.\<close>

definition dir_too_new :: "nat \<Rightarrow> nat option \<Rightarrow> bool" where
  "dir_too_new now mtime =
     (case mtime of
        None \<Rightarrow> False
      | Some m \<Rightarrow> (case duration_since now m of None \<Rightarrow> True | Some age \<Rightarrow> age < ORPHAN_MIN_AGE))"

section \<open>The restore scratch directory\<close>

text \<open>
  A scratch entry: its path, and its metadata (modification time and allocated blocks) when it can be
  read. The result is the bytes freed and the paths removed.
\<close>

record scratch_entry =
  scratch_path :: string
  scratch_meta :: "(nat option \<times> nat) option"

fun gc_entries :: "nat \<Rightarrow> (string \<Rightarrow> bool) \<Rightarrow> scratch_entry list \<Rightarrow> nat \<times> string list" where
  "gc_entries now rm [] = (0, [])"
| "gc_entries now rm (e # rest) =
     (case gc_entries now rm rest of (freed, gone) \<Rightarrow>
        (case scratch_meta e of
           None \<Rightarrow> (freed, gone)
         | Some (mtime, blocks) \<Rightarrow>
             if file_older_than now mtime SCRATCH_MAX_AGE \<and> rm (scratch_path e)
             then (blocks * 512 + freed, scratch_path e # gone) else (freed, gone)))"

definition gc_restore_scratch ::
  "nat \<Rightarrow> (string \<Rightarrow> bool) \<Rightarrow> scratch_entry list option \<Rightarrow> nat \<times> string list" where
  "gc_restore_scratch now rm es = (case es of None \<Rightarrow> (0, []) | Some l \<Rightarrow> gc_entries now rm l)"

section \<open>The daemon's verdict\<close>

datatype daemon_verdict = Present bool | Gone | Daemon_Error

definition daemon_state :: "daemon \<Rightarrow> string \<Rightarrow> daemon_verdict" where
  "daemon_state d sid =
     (if \<not> d_connect d sid then Daemon_Error
      else case d_get d sid of
             Got_Info running _ _ \<Rightarrow> Present running
           | Got_Not_Found \<Rightarrow> Gone
           | Got_Error \<Rightarrow> Daemon_Error)"

fun daemon_error_run :: "nat \<Rightarrow> daemon_verdict \<Rightarrow> nat" where
  "daemon_error_run run Daemon_Error = run + 1"
| "daemon_error_run run (Present _) = 0"
| "daemon_error_run run Gone = 0"

section \<open>One sweep\<close>

text \<open>An entry of the run directory: its name when it is UTF-8, whether it is a directory, its mtime.\<close>

record run_entry =
  entry_name :: "string option"
  entry_is_dir :: bool
  entry_mtime :: "nat option"

text \<open>What the host shows at one time: the open files, each sandbox directory, each rootfs copy, the daemon.\<close>

record host_view =
  view_now :: nat
  view_open :: "inode set"
  view_dir :: "string \<Rightarrow> dir_entry list option"
  view_rootfs :: "string \<Rightarrow> nat option"
  view_daemon :: daemon

definition view_held :: "host_view \<Rightarrow> string \<Rightarrow> bool" where
  "view_held v sid = dir_held_open (view_dir v sid) (view_open v)"

definition view_state :: "host_view \<Rightarrow> string \<Rightarrow> daemon_verdict" where
  "view_state v sid = daemon_state (view_daemon v) sid"

definition rootfs_old :: "host_view \<Rightarrow> string \<Rightarrow> bool" where
  "rootfs_old v sid = file_older_than (view_now v) (view_rootfs v sid) ORPHAN_MIN_AGE"

definition sweep_candidate :: "nat \<Rightarrow> run_entry \<Rightarrow> string option" where
  "sweep_candidate now e =
     (case entry_name e of
        None \<Rightarrow> None
      | Some nm \<Rightarrow>
          if \<not> starts_with ''sb-'' nm then None
          else if \<not> entry_is_dir e then None
          else if dir_too_new now (entry_mtime e) then None
          else Some nm)"

definition by_id_of :: "(string, rec) hashmap \<Rightarrow> (string, string \<times> tier) hashmap" where
  "by_id_of recs = hm_collect (map (\<lambda>(schema, r). (sandbox_id r, (schema, tier_of r))) recs)"

datatype why = Offloaded_Schema string | Unreferenced

record sweep_plan =
  deletable :: "(string \<times> why) list"
  dataloss :: "(string \<times> string) list"
  stale_rootfs :: "string list"
  alive :: nat
  held :: nat
  aborted :: bool

definition empty_plan :: sweep_plan where
  "empty_plan = \<lparr>deletable = [], dataloss = [], stale_rootfs = [], alive = 0, held = 0, aborted = False\<rparr>"

definition note_present :: "host_view \<Rightarrow> string \<Rightarrow> bool \<Rightarrow> sweep_plan \<Rightarrow> sweep_plan" where
  "note_present v sid running p =
     (let p' = p\<lparr>alive := alive p + 1\<rparr>
      in if \<not> running \<and> rootfs_old v sid then p'\<lparr>stale_rootfs := stale_rootfs p' @ [sid]\<rparr> else p')"

definition note_gone :: "(string, string \<times> tier) hashmap \<Rightarrow> string \<Rightarrow> sweep_plan \<Rightarrow> sweep_plan" where
  "note_gone by_id sid p =
     (case hm_get by_id sid of
        Some (schema, t) \<Rightarrow>
          if t = Live then p\<lparr>dataloss := dataloss p @ [(schema, sid)]\<rparr>
          else p\<lparr>deletable := deletable p @ [(sid, Offloaded_Schema schema)]\<rparr>
      | None \<Rightarrow> p\<lparr>deletable := deletable p @ [(sid, Unreferenced)]\<rparr>)"

text \<open>The classification loop; \<open>errs\<close> is the run of consecutive daemon errors.\<close>

fun classify ::
  "host_view \<Rightarrow> (string, string \<times> tier) hashmap \<Rightarrow> nat \<Rightarrow> string list \<Rightarrow> sweep_plan \<Rightarrow> sweep_plan" where
  "classify v by_id errs [] p = p"
| "classify v by_id errs (sid # rest) p =
     (if view_held v sid then classify v by_id errs rest (p\<lparr>held := held p + 1\<rparr>)
      else let s = view_state v sid; errs' = daemon_error_run errs s
           in case s of
                Present running \<Rightarrow> classify v by_id errs' rest (note_present v sid running p)
              | Daemon_Error \<Rightarrow>
                  if ORPHAN_MAX_DAEMON_ERRORS \<le> errs' then p\<lparr>aborted := True\<rparr>
                  else classify v by_id errs' rest p
              | Gone \<Rightarrow> classify v by_id errs' rest (note_gone by_id sid p))"

text \<open>The destructive phase: what was removed, and how many removals failed.\<close>

fun delete_dirs :: "host_view \<Rightarrow> (string \<Rightarrow> bool) \<Rightarrow> string list \<Rightarrow> string list \<times> nat" where
  "delete_dirs v rm [] = ([], 0)"
| "delete_dirs v rm (sid # rest) =
     (if view_held v sid then delete_dirs v rm rest
      else if view_state v sid \<noteq> Gone then delete_dirs v rm rest
      else case delete_dirs v rm rest of (gone, nfailed) \<Rightarrow>
             if rm sid then (sid # gone, nfailed) else (gone, nfailed + 1))"

fun prune_rootfs :: "host_view \<Rightarrow> (string \<Rightarrow> bool) \<Rightarrow> string list \<Rightarrow> string list" where
  "prune_rootfs v rm [] = []"
| "prune_rootfs v rm (sid # rest) =
     (if view_held v sid then prune_rootfs v rm rest
      else if \<not> rootfs_old v sid then prune_rootfs v rm rest
      else if view_state v sid \<noteq> Present False then prune_rootfs v rm rest
      else if rm sid then sid # prune_rootfs v rm rest else prune_rootfs v rm rest)"

record sweep_result =
  removed_dirs :: "string list"
  pruned_rootfs :: "string list"
  reported_loss :: "(string \<times> string) list"
  scratch_gone :: "string list"
  acted :: nat
  deferred :: nat

definition nothing_swept :: "string list \<Rightarrow> sweep_result" where
  "nothing_swept swept =
     \<lparr>removed_dirs = [], pruned_rootfs = [], reported_loss = [], scratch_gone = swept, acted = 0, deferred = 0\<rparr>"

text \<open>
  The host as one sweep meets it: whether a run directory is configured, whether a sweep is already
  running, the listings of the scratch directory and of the run directory (None when one cannot be read), the view at
  classification and at the destructive phase, and which removals succeed.
\<close>

record sweep_env =
  has_run_dir :: bool
  sweeping :: bool
  scratch :: "scratch_entry list option"
  listing :: "run_entry list option"
  before :: host_view
  after :: host_view
  rm_scratch :: "string \<Rightarrow> bool"
  rm_dir :: "string \<Rightarrow> bool"
  rm_rootfs :: "string \<Rightarrow> bool"

definition sweep_dirs :: "sweep_env \<Rightarrow> run_entry list \<Rightarrow> string list" where
  "sweep_dirs e es = List.map_filter (sweep_candidate (view_now (before e))) es"

definition sweep_plan_of :: "sweep_env \<Rightarrow> (string, rec) hashmap \<Rightarrow> run_entry list \<Rightarrow> sweep_plan" where
  "sweep_plan_of e recs es = classify (before e) (by_id_of recs) 0 (sweep_dirs e es) empty_plan"

definition execute_plan :: "sweep_env \<Rightarrow> string list \<Rightarrow> sweep_plan \<Rightarrow> sweep_result" where
  "execute_plan e swept p =
     (let doomed = map fst (take ORPHAN_MAX_DELETES_PER_SWEEP (deletable p));
          backlog = length (deletable p) - ORPHAN_MAX_DELETES_PER_SWEEP;
          stale = take ORPHAN_MAX_ROOTFS_PRUNES_PER_SWEEP (stale_rootfs p);
          rootfs_backlog = length (stale_rootfs p) - ORPHAN_MAX_ROOTFS_PRUNES_PER_SWEEP;
          gone = fst (delete_dirs (after e) (rm_dir e) doomed);
          pruned = prune_rootfs (after e) (rm_rootfs e) stale
      in \<lparr>removed_dirs = gone, pruned_rootfs = pruned, reported_loss = dataloss p, scratch_gone = swept,
          acted = length gone + length pruned, deferred = backlog + rootfs_backlog\<rparr>)"

definition sweep_orphans :: "sweep_env \<Rightarrow> (string, rec) hashmap \<Rightarrow> sweep_result" where
  "sweep_orphans e recs =
     (if \<not> has_run_dir e then nothing_swept []
      else if sweeping e then nothing_swept []
      else let gone = snd (gc_restore_scratch (view_now (before e)) (rm_scratch e) (scratch e))
           in case listing e of
                None \<Rightarrow> nothing_swept gone
              | Some es \<Rightarrow>
                  if sweep_dirs e es = [] then nothing_swept gone
                  else execute_plan e gone (sweep_plan_of e recs es))"

section \<open>What the sweep decides\<close>

lemma entries_heldI:
  "i \<in> opn \<Longrightarrow> Plain_File (Some i) \<in> set es \<or> (\<exists>ss. Sub_Dir (Some ss) \<in> set es \<and> Some i \<in> set ss) \<Longrightarrow>
     entries_held opn es"
  by (induction opn es rule: entries_held.induct) (force simp: opened_def list_ex_iff)+

lemma open_inodesI:
  assumes "(pid, Some fds) \<in> set ps" "list_all is_ascii_digit pid" "Some i \<in> set fds"
  shows "i \<in> open_inodes (Some ps)"
proof -
  have "i \<in> set (List.map_filter id fds)"
    using assms(3) by (auto simp: List.map_filter_def intro: image_eqI [where x = "Some i"])
  with assms(1,2) show ?thesis
    unfolding open_inodes_def option.case set_concat set_map UN_iff bex_simps(7)
    by (intro bexI [where x = "(pid, Some fds)"]) simp_all
qed

lemma sweep_candidate_iff:
  "sweep_candidate now e = Some sid \<longleftrightarrow>
     entry_name e = Some sid \<and> starts_with ''sb-'' sid \<and> entry_is_dir e
       \<and> (entry_mtime e = None \<or> (\<exists>m. entry_mtime e = Some m \<and> m + ORPHAN_MIN_AGE \<le> now))"
  by (auto simp: sweep_candidate_def dir_too_new_def duration_since_def ORPHAN_MIN_AGE_def split: option.splits if_splits)

lemma gc_entries_only_stale:
  "p \<in> set (snd (gc_entries now rm es)) \<Longrightarrow>
     \<exists>e \<in> set es. \<exists>m b. scratch_path e = p \<and> scratch_meta e = Some (Some m, b) \<and> m + SCRATCH_MAX_AGE \<le> now"
proof (induction es)
  case (Cons e es)
  obtain freed gone where g: "gc_entries now rm es = (freed, gone)" by (cases "gc_entries now rm es")
  show ?case
  proof (cases "p \<in> set gone")
    case True
    with Cons.IH g show ?thesis by auto
  next
    case False
    with Cons.prems g obtain mt b where m: "scratch_meta e = Some (mt, b)" "file_older_than now mt SCRATCH_MAX_AGE" "scratch_path e = p"
      by (auto split: option.splits if_splits prod.splits)
    then obtain t where "mt = Some t" "t + SCRATCH_MAX_AGE \<le> now"
      by (auto simp: file_older_than_def duration_since_def split: option.splits if_splits)
    with m show ?thesis by (intro bexI [of _ e]) auto
  qed
qed simp

text \<open>The candidates the classification gets to before its breaker trips, and the verdict on one.\<close>

fun reached :: "host_view \<Rightarrow> nat \<Rightarrow> string list \<Rightarrow> string list" where
  "reached v errs [] = []"
| "reached v errs (sid # rest) =
     (if view_held v sid then sid # reached v errs rest
      else let errs' = daemon_error_run errs (view_state v sid)
           in if ORPHAN_MAX_DAEMON_ERRORS \<le> errs' then [] else sid # reached v errs' rest)"

definition orphaned :: "host_view \<Rightarrow> (string, string \<times> tier) hashmap \<Rightarrow> string \<Rightarrow> bool" where
  "orphaned v by_id sid \<longleftrightarrow> \<not> view_held v sid \<and> view_state v sid = Gone
     \<and> (case hm_get by_id sid of None \<Rightarrow> True | Some (_, t) \<Rightarrow> t \<noteq> Live)"

definition lost :: "host_view \<Rightarrow> (string, string \<times> tier) hashmap \<Rightarrow> string \<Rightarrow> (string \<times> string) option" where
  "lost v by_id sid =
     (if \<not> view_held v sid \<and> view_state v sid = Gone
      then (case hm_get by_id sid of None \<Rightarrow> None | Some (schema, t) \<Rightarrow> if t = Live then Some (schema, sid) else None)
      else None)"

definition leftover :: "host_view \<Rightarrow> string \<Rightarrow> bool" where
  "leftover v sid \<longleftrightarrow> \<not> view_held v sid \<and> view_state v sid = Present False \<and> rootfs_old v sid"

lemma reached_subset: "set (reached v errs ids) \<subseteq> set ids"
  by (induction v errs ids rule: reached.induct) (auto simp: Let_def)

lemma classify_spec:
  "errs < ORPHAN_MAX_DAEMON_ERRORS \<Longrightarrow>
   map fst (deletable (classify v by_id errs ids p)) = map fst (deletable p) @ filter (orphaned v by_id) (reached v errs ids)
   \<and> dataloss (classify v by_id errs ids p) = dataloss p @ List.map_filter (lost v by_id) (reached v errs ids)
   \<and> stale_rootfs (classify v by_id errs ids p) = stale_rootfs p @ filter (leftover v) (reached v errs ids)
   \<and> (aborted (classify v by_id errs ids p) \<longleftrightarrow> aborted p \<or> reached v errs ids \<noteq> ids)"
proof (induction v by_id errs ids p rule: classify.induct)
  case (1 v by_id errs p)
  then show ?case by (simp add: List.map_filter_def)
next
  case (2 v by_id errs sid rest p)
  show ?case
  proof (cases "view_held v sid")
    case True
    with 2 show ?thesis by (simp add: orphaned_def lost_def leftover_def List.map_filter_simps)
  next
    case False
    have pos: "(0::nat) < ORPHAN_MAX_DAEMON_ERRORS" by (simp add: ORPHAN_MAX_DAEMON_ERRORS_def)
    show ?thesis
    proof (cases "view_state v sid")
      case (Present running)
      with 2(2) [OF False refl refl] False pos show ?thesis
        by (auto simp: orphaned_def lost_def leftover_def List.map_filter_simps note_present_def Let_def)
    next
      case Gone
      with 2(3) [OF False refl refl] False pos show ?thesis
        by (auto simp: orphaned_def lost_def leftover_def List.map_filter_simps note_gone_def split: option.splits prod.splits)
    next
      case Daemon_Error
      with 2(4) [OF False refl refl] False 2(5) show ?thesis
        by (auto simp: orphaned_def lost_def leftover_def List.map_filter_simps Let_def)
    qed
  qed
qed

lemma delete_dirs_iff:
  "sid \<in> set (fst (delete_dirs v rm ids)) \<longleftrightarrow>
     sid \<in> set ids \<and> \<not> view_held v sid \<and> view_state v sid = Gone \<and> rm sid"
  by (induction v rm ids rule: delete_dirs.induct) (auto split: prod.splits)

lemma delete_dirs_all:
  "list_all (\<lambda>sid. \<not> view_held v sid \<and> view_state v sid = Gone \<and> rm sid) ids \<Longrightarrow> delete_dirs v rm ids = (ids, 0)"
  by (induction v rm ids rule: delete_dirs.induct) auto

lemma length_delete_dirs: "length (fst (delete_dirs v rm ids)) \<le> length ids"
  by (induction ids) (auto split: prod.splits)

lemma prune_rootfs_filter:
  "prune_rootfs v rm ids = filter (\<lambda>sid. leftover v sid \<and> rm sid) ids"
  by (induction v rm ids rule: prune_rootfs.induct) (auto simp: leftover_def)

text \<open>When no two rows share a sandbox id, the reverse map finds the row of an id.\<close>

lemma by_id_of_get:
  "distinct (map (\<lambda>(_, r). sandbox_id r) recs) \<Longrightarrow>
     hm_get (by_id_of recs) sid = Some (schema, t) \<longleftrightarrow>
       (\<exists>r. (schema, r) \<in> set recs \<and> sandbox_id r = sid \<and> tier_of r = t)"
proof -
  assume "distinct (map (\<lambda>(_, r). sandbox_id r) recs)"
  then have d: "distinct (map fst (map (\<lambda>(schema, r). (sandbox_id r, schema, tier_of r)) recs))"
    by (simp add: comp_def split_def)
  then show ?thesis
    by (auto simp: by_id_of_def hm_get_collect map_of_rev_distinct map_of_eq_Some_iff)
qed

lemma not_live_row:
  "distinct (map (\<lambda>(_, r). sandbox_id r) recs) \<Longrightarrow> orphaned v (by_id_of recs) sid \<Longrightarrow>
     (schema, r) \<in> set recs \<Longrightarrow> sandbox_id r = sid \<Longrightarrow> tier_of r \<noteq> Live"
  using by_id_of_get [of recs sid schema "tier_of r"] by (auto simp: orphaned_def)

lemma sweep_plan_spec:
  "map fst (deletable (sweep_plan_of e recs es)) = filter (orphaned (before e) (by_id_of recs)) (reached (before e) 0 (sweep_dirs e es))"
  "dataloss (sweep_plan_of e recs es) = List.map_filter (lost (before e) (by_id_of recs)) (reached (before e) 0 (sweep_dirs e es))"
  "stale_rootfs (sweep_plan_of e recs es) = filter (leftover (before e)) (reached (before e) 0 (sweep_dirs e es))"
  using classify_spec [of 0 "before e" "by_id_of recs" "sweep_dirs e es" empty_plan]
  by (simp_all add: sweep_plan_of_def empty_plan_def ORPHAN_MAX_DAEMON_ERRORS_def)

lemma sweep_cases:
  obtains (idle) swept where "sweep_orphans e recs = nothing_swept swept"
  | (run) es swept where "listing e = Some es" "sweep_orphans e recs = execute_plan e swept (sweep_plan_of e recs es)"
proof -
  have "(\<exists>swept. sweep_orphans e recs = nothing_swept swept)
      \<or> (\<exists>es swept. listing e = Some es \<and> sweep_orphans e recs = execute_plan e swept (sweep_plan_of e recs es))"
    by (auto simp: sweep_orphans_def Let_def split: option.splits)
  then show ?thesis using idle run by blast
qed

text \<open>
  C11: The orphan-disk sweep deletes a sandbox directory only when it is dead. Whatever the host
  answers, and however those answers change between classification and deletion, a directory the
  sweep removes is an entry of the run directory named \<open>sb-...\<close>, is at least half an hour old or has no
  age that can be read, holds no file that a scanned process has open, in the first snapshot or in the
  second, and was reported gone by the daemon's per-id endpoint both times. At most 100 directories and
  250 rootfs copies go in one sweep. If no two rows of the registry share a sandbox id, the directory is
  not the disk of any schema whose tier is live.
\<close>

theorem sweep_removes_only_orphans:
  assumes "sid \<in> set (removed_dirs (sweep_orphans e recs))"
  shows "(\<exists>es. listing e = Some es \<and> (\<exists>x \<in> set es. entry_name x = Some sid \<and> entry_is_dir x
            \<and> (entry_mtime x = None \<or> (\<exists>m. entry_mtime x = Some m \<and> m + 1800 \<le> view_now (before e)))))
       \<and> starts_with ''sb-'' sid
       \<and> \<not> view_held (before e) sid \<and> \<not> view_held (after e) sid
       \<and> view_state (before e) sid = Gone \<and> view_state (after e) sid = Gone
       \<and> (distinct (map (\<lambda>(_, r). sandbox_id r) recs) \<longrightarrow>
            (\<forall>schema r. (schema, r) \<in> set recs \<and> sandbox_id r = sid \<longrightarrow> tier_of r \<noteq> Live))
       \<and> length (removed_dirs (sweep_orphans e recs)) \<le> 100
       \<and> length (pruned_rootfs (sweep_orphans e recs)) \<le> 250"
proof (cases rule: sweep_cases [of e recs])
  case (idle swept)
  with assms show ?thesis by (simp add: nothing_swept_def)
next
  case (run es swept)
  let ?p = "sweep_plan_of e recs es"
  let ?doomed = "map fst (take ORPHAN_MAX_DELETES_PER_SWEEP (deletable ?p))"
  have r: "removed_dirs (sweep_orphans e recs) = fst (delete_dirs (after e) (rm_dir e) ?doomed)"
    and pr: "pruned_rootfs (sweep_orphans e recs)
      = prune_rootfs (after e) (rm_rootfs e) (take ORPHAN_MAX_ROOTFS_PRUNES_PER_SWEEP (stale_rootfs ?p))"
    using run(2) by (simp_all add: execute_plan_def Let_def)
  have sid: "sid \<in> set ?doomed" "\<not> view_held (after e) sid" "view_state (after e) sid = Gone"
    using assms r by (simp_all add: delete_dirs_iff)
  then have "sid \<in> set (map fst (deletable ?p))" by (metis in_set_takeD take_map)
  then have o: "orphaned (before e) (by_id_of recs) sid" and c: "sid \<in> set (sweep_dirs e es)"
    using reached_subset [of "before e" 0 "sweep_dirs e es"] by (auto simp: sweep_plan_spec)
  obtain x where x: "x \<in> set es" "sweep_candidate (view_now (before e)) x = Some sid"
    using c by (auto simp: sweep_dirs_def List.map_filter_def)
  have "length ?doomed \<le> 100" by (simp add: ORPHAN_MAX_DELETES_PER_SWEEP_def)
  then have "length (removed_dirs (sweep_orphans e recs)) \<le> 100"
    unfolding r by (rule order.trans [OF length_delete_dirs])
  moreover have "length (pruned_rootfs (sweep_orphans e recs)) \<le> 250"
    unfolding pr prune_rootfs_filter
    by (rule order.trans [OF length_filter_le]) (simp add: ORPHAN_MAX_ROOTFS_PRUNES_PER_SWEEP_def)
  moreover have "distinct (map (\<lambda>(_, r). sandbox_id r) recs) \<longrightarrow>
      (\<forall>schema r. (schema, r) \<in> set recs \<and> sandbox_id r = sid \<longrightarrow> tier_of r \<noteq> Live)"
    using not_live_row [OF _ o] by blast
  ultimately show ?thesis
    using x run(1) sid(2,3) o by (auto simp: sweep_candidate_iff ORPHAN_MIN_AGE_def orphaned_def)
qed

text \<open>A run directory with one old sandbox directory, whose VM the daemon no longer knows.\<close>

definition gone_daemon :: daemon where
  "gone_daemon =
     \<lparr>d_connect = (\<lambda>_. True), d_get = (\<lambda>_. Got_Not_Found), d_pg = (\<lambda>_ _. Pg_Error), d_kill = (\<lambda>_. True),
      d_permit = (\<lambda>_. True), d_start = (\<lambda>_. True), d_wait_ready = (\<lambda>_. True), d_create = (\<lambda>_. None),
      d_list = None, d_probe_order = (\<lambda>x. x), d_build_order = (\<lambda>x. x)\<rparr>"

definition gone_view :: host_view where
  "gone_view =
     \<lparr>view_now = 2000, view_open = {}, view_dir = (\<lambda>_. Some [Plain_File (Some (8, 1))]),
      view_rootfs = (\<lambda>_. None), view_daemon = gone_daemon\<rparr>"

definition old_dir :: "string \<Rightarrow> run_entry" where
  "old_dir sid = \<lparr>entry_name = Some sid, entry_is_dir = True, entry_mtime = Some 100\<rparr>"

definition gone_env :: "string \<Rightarrow> sweep_env" where
  "gone_env sid =
     \<lparr>has_run_dir = True, sweeping = False, scratch = None, listing = Some [old_dir sid],
      before = gone_view, after = gone_view, rm_scratch = (\<lambda>_. True), rm_dir = (\<lambda>_. True),
      rm_rootfs = (\<lambda>_. True)\<rparr>"

lemma gone_view_simps [simp]:
  "view_held gone_view sid = False" "view_state gone_view sid = Gone" "view_now gone_view = 2000"
  by (simp_all add: gone_view_def view_held_def dir_held_open_def opened_def view_state_def
      daemon_state_def gone_daemon_def)

lemma gone_env_simps [simp]:
  "before (gone_env sid) = gone_view" "after (gone_env sid) = gone_view" "scratch (gone_env sid) = None"
  "listing (gone_env sid) = Some [old_dir sid]" "has_run_dir (gone_env sid)" "\<not> sweeping (gone_env sid)"
  "rm_dir (gone_env sid) = (\<lambda>_. True)"
  by (simp_all add: gone_env_def)

lemma gone_env_sweep:
  assumes "starts_with ''sb-'' sid"
  shows "removed_dirs (sweep_orphans (gone_env sid) recs) = filter (orphaned gone_view (by_id_of recs)) [sid]
       \<and> reported_loss (sweep_orphans (gone_env sid) recs) = List.map_filter (lost gone_view (by_id_of recs)) [sid]"
proof -
  have dirs: "sweep_dirs (gone_env sid) [old_dir sid] = [sid]"
    using assms by (simp add: sweep_dirs_def List.map_filter_simps sweep_candidate_def old_dir_def
        dir_too_new_def duration_since_def ORPHAN_MIN_AGE_def)
  have r: "reached gone_view 0 [sid] = [sid]" by (simp add: ORPHAN_MAX_DAEMON_ERRORS_def)
  let ?p = "sweep_plan_of (gone_env sid) recs [old_dir sid]"
  have p: "map fst (deletable ?p) = filter (orphaned gone_view (by_id_of recs)) [sid]"
    "dataloss ?p = List.map_filter (lost gone_view (by_id_of recs)) [sid]"
    using sweep_plan_spec [of "gone_env sid" recs "[old_dir sid]"] r by (simp_all add: dirs)
  have "length (map fst (deletable ?p)) \<le> 1" unfolding p(1) by (rule order.trans [OF length_filter_le]) simp
  then have "take ORPHAN_MAX_DELETES_PER_SWEEP (deletable ?p) = deletable ?p"
    by (simp add: ORPHAN_MAX_DELETES_PER_SWEEP_def)
  moreover have "sweep_orphans (gone_env sid) recs = execute_plan (gone_env sid) [] ?p"
    using dirs by (simp add: sweep_orphans_def gc_restore_scratch_def Let_def)
  moreover have "delete_dirs gone_view (\<lambda>_. True) (map fst (deletable ?p)) = (map fst (deletable ?p), 0)"
    by (rule delete_dirs_all) (simp add: list_all_iff)
  ultimately show ?thesis
    by (simp add: execute_plan_def Let_def p)
qed

theorem sweep_removes_only_orphans_witness:
  "view_state (after (gone_env ''sb-1'')) ''sb-1'' = Gone
     \<and> length (removed_dirs (sweep_orphans (gone_env ''sb-1'') [])) \<le> 100
     \<and> removed_dirs (sweep_orphans (gone_env ''sb-1'') []) = [''sb-1'']"
proof -
  have r: "removed_dirs (sweep_orphans (gone_env ''sb-1'') []) = [''sb-1'']"
    using gone_env_sweep [of "''sb-1''" "[]"]
    by (simp add: starts_with_def orphaned_def by_id_of_def hm_get_collect)
  then show ?thesis
    using sweep_removes_only_orphans [of "''sb-1''" "gone_env ''sb-1''" "[]"] by simp
qed

section \<open>The breaker, and a quiet host\<close>

text \<open>A run of \<open>n\<close> unanswered probes among the candidates nobody holds, anywhere and at the front.\<close>

definition error_run :: "host_view \<Rightarrow> nat \<Rightarrow> string list \<Rightarrow> bool" where
  "error_run v n ids \<longleftrightarrow>
     (\<exists>xs ys zs. filter (\<lambda>s. \<not> view_held v s) ids = xs @ ys @ zs \<and> length ys = n
        \<and> list_all (\<lambda>s. view_state v s = Daemon_Error) ys)"

definition error_prefix :: "host_view \<Rightarrow> nat \<Rightarrow> string list \<Rightarrow> bool" where
  "error_prefix v n ids \<longleftrightarrow>
     (\<exists>ys zs. filter (\<lambda>s. \<not> view_held v s) ids = ys @ zs \<and> length ys = n
        \<and> list_all (\<lambda>s. view_state v s = Daemon_Error) ys)"

lemma error_prefix_Cons:
  assumes "\<not> view_held v s"
  shows "error_prefix v (Suc n) (s # ids) \<longleftrightarrow> view_state v s = Daemon_Error \<and> error_prefix v n ids"
proof
  show "error_prefix v (Suc n) (s # ids) \<Longrightarrow> view_state v s = Daemon_Error \<and> error_prefix v n ids"
    using assms by (auto simp: error_prefix_def Cons_eq_append_conv)
next
  assume "view_state v s = Daemon_Error \<and> error_prefix v n ids"
  then obtain ys zs where "filter (\<lambda>s. \<not> view_held v s) ids = ys @ zs" "length ys = n"
    "list_all (\<lambda>s. view_state v s = Daemon_Error) (s # ys)" by (auto simp: error_prefix_def)
  with assms show "error_prefix v (Suc n) (s # ids)"
    unfolding error_prefix_def by (intro exI [of _ "s # ys"] exI [of _ zs]) simp
qed

lemma error_prefix_0 [simp]: "error_prefix v 0 ids"
  by (simp add: error_prefix_def)

lemma error_prefix_run: "error_prefix v n ids \<Longrightarrow> error_run v n ids"
  unfolding error_run_def error_prefix_def by (metis append_Nil)

lemma error_run_Cons:
  assumes "\<not> view_held v s"
  shows "error_run v n (s # ids) \<longleftrightarrow> error_prefix v n (s # ids) \<or> error_run v n ids"
proof
  assume "error_run v n (s # ids)"
  then obtain xs ys zs where f: "s # filter (\<lambda>s. \<not> view_held v s) ids = xs @ ys @ zs" "length ys = n"
    "list_all (\<lambda>s. view_state v s = Daemon_Error) ys" using assms by (auto simp: error_run_def)
  show "error_prefix v n (s # ids) \<or> error_run v n ids"
  proof (cases xs)
    case Nil
    with f assms have "error_prefix v n (s # ids)" unfolding error_prefix_def by (intro exI [of _ ys] exI [of _ zs]) simp
    then show ?thesis ..
  next
    case (Cons a xs')
    with f have "error_run v n ids" unfolding error_run_def by (intro exI [of _ xs'] exI [of _ ys] exI [of _ zs]) simp
    then show ?thesis ..
  qed
next
  assume "error_prefix v n (s # ids) \<or> error_run v n ids"
  then show "error_run v n (s # ids)"
  proof
    assume "error_run v n ids"
    then obtain xs ys zs where "filter (\<lambda>s. \<not> view_held v s) ids = xs @ ys @ zs" "length ys = n"
      "list_all (\<lambda>s. view_state v s = Daemon_Error) ys" by (auto simp: error_run_def)
    with assms show ?thesis
      unfolding error_run_def by (intro exI [of _ "s # xs"] exI [of _ ys] exI [of _ zs]) simp
  qed (rule error_prefix_run)
qed

lemma error_prefix_le: "error_prefix v n ids \<Longrightarrow> m \<le> n \<Longrightarrow> error_prefix v m ids"
proof -
  assume "error_prefix v n ids" "m \<le> n"
  then obtain ys zs where "filter (\<lambda>s. \<not> view_held v s) ids = ys @ zs" "length ys = n"
    "list_all (\<lambda>s. view_state v s = Daemon_Error) ys" by (auto simp: error_prefix_def)
  with \<open>m \<le> n\<close> show "error_prefix v m ids"
    unfolding error_prefix_def
    by (intro exI [of _ "take m ys"] exI [of _ "drop m ys @ zs"]) (auto simp: list_all_iff dest: in_set_takeD)
qed

lemma reached_all_iff:
  "errs < 5 \<Longrightarrow> reached v errs ids \<noteq> ids \<longleftrightarrow> error_prefix v (5 - errs) ids \<or> error_run v 5 ids"
proof (induction ids arbitrary: errs)
  case Nil
  then show ?case by (auto simp: error_prefix_def error_run_def)
next
  case (Cons s ids)
  show ?case
  proof (cases "view_held v s")
    case True
    with Cons show ?thesis by (simp add: error_prefix_def error_run_def)
  next
    case False
    obtain k where k: "5 - errs = Suc k" using Cons.prems by (metis Suc_diff_Suc)
    have run: "error_run v 5 (s # ids) \<longleftrightarrow> error_prefix v 5 (s # ids) \<or> error_run v 5 ids"
      by (rule error_run_Cons [OF False])
    show ?thesis
    proof (cases "view_state v s = Daemon_Error")
      case True
      have p5: "error_prefix v 5 (s # ids) \<Longrightarrow> error_prefix v (5 - errs) (s # ids)"
        by (erule error_prefix_le) simp
      have p: "error_prefix v (5 - errs) (s # ids) \<longleftrightarrow> error_prefix v k ids"
        unfolding k error_prefix_Cons [OF False] using True by simp
      show ?thesis
      proof (cases "5 \<le> errs + 1")
        case le: True
        then have "k = 0" using k by simp
        with le True False p show ?thesis by (simp add: ORPHAN_MAX_DAEMON_ERRORS_def)
      next
        case lt: False
        then have "k = 5 - (errs + 1)" "errs + 1 < 5" using k by simp_all
        with Cons.IH [of "errs + 1"] lt True False p p5 run show ?thesis
          by (auto simp: ORPHAN_MAX_DAEMON_ERRORS_def)
      qed
    next
      case noerr: False
      then have z: "daemon_error_run errs (view_state v s) = 0" by (cases "view_state v s") auto
      have "\<not> error_prefix v (5 - errs) (s # ids)" "\<not> error_prefix v 5 (s # ids)"
        unfolding k using error_prefix_Cons [OF False, of k ids] error_prefix_Cons [OF False, of 4 ids] noerr
        by simp_all
      with Cons.IH [of 0] False z run error_prefix_run [of v 5 ids] show ?thesis
        by (auto simp: ORPHAN_MAX_DAEMON_ERRORS_def)
    qed
  qed
qed

text \<open>
  The sweep's breaker trips on consecutive errors only. Classification is cut short exactly when
  the candidates whose files nobody holds contain five in a row about which the daemon gave no answer;
  any answer, present or gone, restarts the count, however many errors came before.
\<close>

theorem sweep_breaker_exact:
  "aborted (classify v by_id 0 ids empty_plan) \<longleftrightarrow> error_run v 5 ids"
  using classify_spec [of 0 v by_id ids empty_plan] reached_all_iff [of 0 v ids] error_prefix_run [of v 5 ids]
  by (auto simp: ORPHAN_MAX_DAEMON_ERRORS_def empty_plan_def)

text \<open>
  On a quiet host a sweep makes progress and loses no work. When nothing changes between
  classification and deletion, the daemon answers about every candidate and removals succeed, the sweep
  deletes exactly the first 100 orphaned directories in listing order, prunes exactly the first 250
  leftover rootfs copies, reports every live schema whose VM is gone, and the number it defers is
  exactly what remains of both.
\<close>

theorem sweep_drains_backlog:
  assumes "has_run_dir e" "\<not> sweeping e" "listing e = Some es" "after e = before e"
    and "list_all (\<lambda>s. view_state (before e) s \<noteq> Daemon_Error \<and> rm_dir e s \<and> rm_rootfs e s) (sweep_dirs e es)"
  shows "let r = sweep_orphans e recs;
             orphans = filter (orphaned (before e) (by_id_of recs)) (sweep_dirs e es);
             leftovers = filter (leftover (before e)) (sweep_dirs e es)
         in removed_dirs r = take 100 orphans \<and> pruned_rootfs r = take 250 leftovers
            \<and> reported_loss r = List.map_filter (lost (before e) (by_id_of recs)) (sweep_dirs e es)
            \<and> acted r + deferred r = length orphans + length leftovers"
proof -
  let ?v = "before e" and ?dirs = "sweep_dirs e es" and ?p = "sweep_plan_of e recs es"
  have "\<not> error_run ?v 5 ?dirs"
  proof
    assume "error_run ?v 5 ?dirs"
    then obtain xs ys zs where f: "filter (\<lambda>s. \<not> view_held ?v s) ?dirs = xs @ ys @ zs" "length ys = 5"
      "list_all (\<lambda>s. view_state ?v s = Daemon_Error) ys" by (auto simp: error_run_def)
    then have "ys \<noteq> []" by auto
    moreover have "set ys \<subseteq> set ?dirs" using f(1) by (metis Un_iff filter_is_subset set_append subset_iff)
    ultimately show False using f(3) assms(5) by (cases ys) (auto simp: list_all_iff)
  qed
  then have r: "reached ?v 0 ?dirs = ?dirs" using reached_all_iff [of 0 ?v ?dirs] error_prefix_run [of ?v 5 ?dirs] by auto
  note plan = sweep_plan_spec [of e recs es, unfolded r]
  show ?thesis
  proof (cases "?dirs = []")
    case True
    then show ?thesis
      using assms(1-3) by (simp add: sweep_orphans_def nothing_swept_def List.map_filter_simps Let_def)
  next
    case False
    then obtain swept where run: "sweep_orphans e recs = execute_plan e swept ?p"
      using assms(1-3) by (simp add: sweep_orphans_def Let_def)
    let ?orphans = "filter (orphaned ?v (by_id_of recs)) ?dirs"
    have t: "map fst (take n (deletable ?p)) = take n ?orphans" for n by (simp add: take_map [symmetric] plan)
    have "list_all (\<lambda>s. \<not> view_held ?v s \<and> view_state ?v s = Gone \<and> rm_dir e s) (take 100 ?orphans)"
      using assms(5) by (auto simp: list_all_iff orphaned_def dest!: in_set_takeD)
    then have d: "fst (delete_dirs ?v (rm_dir e) (take 100 ?orphans)) = take 100 ?orphans"
      by (simp add: delete_dirs_all)
    have "prune_rootfs ?v (rm_rootfs e) (take 250 (filter (leftover ?v) ?dirs)) = take 250 (filter (leftover ?v) ?dirs)"
      using assms(5) unfolding prune_rootfs_filter by (auto simp: filter_id_conv list_all_iff dest!: in_set_takeD)
    moreover have "length (deletable ?p) = length ?orphans" using plan(1) by (metis length_map)
    ultimately show ?thesis
      using plan(2,3) d by (simp add: run execute_plan_def Let_def t assms(4) ORPHAN_MAX_DELETES_PER_SWEEP_def
          ORPHAN_MAX_ROOTFS_PRUNES_PER_SWEEP_def)
  qed
qed

theorem sweep_drains_backlog_witness:
  "let r = sweep_orphans (gone_env ''sb-1'') [(''shop'', \<lparr>sandbox_id = ''sb-2'', last_active = 5, tier_of = Live\<rparr>)]
   in removed_dirs r = [''sb-1''] \<and> acted r + deferred r = 1"
proof -
  let ?recs = "[(''shop'', \<lparr>sandbox_id = ''sb-2'', last_active = 5, tier_of = Live\<rparr>)]"
  have dirs: "sweep_dirs (gone_env ''sb-1'') [old_dir ''sb-1''] = [''sb-1'']"
    by (simp add: sweep_dirs_def List.map_filter_simps sweep_candidate_def old_dir_def dir_too_new_def
        duration_since_def ORPHAN_MIN_AGE_def starts_with_def)
  have o: "orphaned gone_view (by_id_of ?recs) ''sb-1''" "\<not> leftover gone_view ''sb-1''"
    by (simp_all add: orphaned_def leftover_def by_id_of_def hm_get_collect)
  have "rm_rootfs (gone_env ''sb-1'') ''sb-1''" by (simp add: gone_env_def)
  with sweep_drains_backlog [of "gone_env ''sb-1''" "[old_dir ''sb-1'']" ?recs] dirs o
  show ?thesis by (simp add: Let_def)
qed

section \<open>A disk whose schema is still live\<close>

text \<open>
  A data-loss disk is protected only until its schema is connected to again. Let a live row name a
  VM the daemon has forgotten and that no other row names. The sweep reports the loss and leaves the
  disk alone; but once a bring-up has bound the schema to another VM, the next sweep finds the disk
  unreferenced and deletes it, although nothing has copied its data.
\<close>

theorem lost_disk_deleted_after_rebind:
  assumes "hm_wf (smap s)" "starts_with ''sb-'' sid" "store_record s x = Some r" "sandbox_id r = sid" "tier_of r = Live"
    and "\<forall>y r'. store_record s y = Some r' \<and> sandbox_id r' = sid \<longrightarrow> y = x" "new \<noteq> sid"
  shows "removed_dirs (sweep_orphans (gone_env sid) (smap s)) = []
       \<and> reported_loss (sweep_orphans (gone_env sid) (smap s)) = [(x, sid)]
       \<and> removed_dirs (sweep_orphans (gone_env sid) (smap (store_put now x new s))) = [sid]
       \<and> reported_loss (sweep_orphans (gone_env sid) (smap (store_put now x new s))) = []"
proof -
  let ?s = "store_put now x new s"
  have by_id: "hm_get (by_id_of m) sid = Some (y, t) \<Longrightarrow> \<exists>r. (y, r) \<in> set m \<and> sandbox_id r = sid \<and> tier_of r = t" for m y t
    by (auto simp: by_id_of_def hm_get_collect dest!: map_of_SomeD)
  have wf: "hm_wf (smap ?s)"
    using assms(1) by (auto simp: store_put_def stamp_def write_detached_def Let_def split: option.splits)
  have "(sid, x, Live) \<in> set (map (\<lambda>(schema, r). (sandbox_id r, schema, tier_of r)) (smap s))"
    using assms(3-5) by (force simp: store_record_def dest: map_of_SomeD)
  then have "(sid, x, Live) \<in> set (rev (map (\<lambda>(schema, r). (sandbox_id r, schema, tier_of r)) (smap s)))"
    by (simp only: set_rev)
  from weak_map_of_SomeI [OF this] obtain v where v: "hm_get (by_id_of (smap s)) sid = Some v"
    unfolding by_id_of_def hm_get_collect by blast
  obtain y t where yt: "v = (y, t)" by (cases v)
  with by_id v obtain r' where r': "(y, r') \<in> set (smap s)" "sandbox_id r' = sid" "tier_of r' = t" by blast
  then have y: "y = x" using assms(1,6) by (auto simp: store_record_def hm_in_set)
  then have "t = Live" using r' assms(1,3,5) by (auto simp: store_record_def hm_in_set)
  with v yt y have first: "hm_get (by_id_of (smap s)) sid = Some (x, Live)" by simp
  have look: "hm_get (smap ?s) y = Some r' \<Longrightarrow> sandbox_id r' \<noteq> sid" for y r'
    using assms(3,4,6,7) by (cases "y = x") (auto simp: store_put_def store_record_def stamp_def write_detached_def
        Let_def split: option.splits if_splits)
  have "hm_get (by_id_of (smap ?s)) sid = None"
  proof (rule ccontr)
    assume "hm_get (by_id_of (smap ?s)) sid \<noteq> None"
    then obtain y t where "hm_get (by_id_of (smap ?s)) sid = Some (y, t)" by auto
    with by_id obtain r' where "(y, r') \<in> set (smap ?s)" "sandbox_id r' = sid" by blast
    with look wf show False by (auto simp: hm_in_set)
  qed
  with first gone_env_sweep [OF assms(2), of "smap s"] gone_env_sweep [OF assms(2), of "smap ?s"] show ?thesis
    by (simp add: orphaned_def lost_def List.map_filter_simps)
qed

theorem lost_disk_deleted_after_rebind_witness:
  "removed_dirs (sweep_orphans (gone_env ''sb-1'') (smap (store_put 5 ''shop'' ''sb-1'' (store_load 4 None)))) = []
   \<and> removed_dirs (sweep_orphans (gone_env ''sb-1'')
       (smap (store_put 9 ''shop'' ''sb-2'' (store_put 5 ''shop'' ''sb-1'' (store_load 4 None))))) = [''sb-1'']"
proof -
  let ?s = "store_put 5 ''shop'' ''sb-1'' (store_load 4 None)"
  have m: "smap ?s = [(''shop'', \<lparr>sandbox_id = ''sb-1'', last_active = 5, tier_of = Live\<rparr>)]"
    by (simp add: store_put_def store_load_def stamp_def write_detached_def Let_def hm_insert_def)
  then have "hm_wf (smap ?s)" "starts_with ''sb-'' ''sb-1''"
    "store_record ?s ''shop'' = Some \<lparr>sandbox_id = ''sb-1'', last_active = 5, tier_of = Live\<rparr>"
    "\<forall>y r'. store_record ?s y = Some r' \<and> sandbox_id r' = ''sb-1'' \<longrightarrow> y = ''shop''"
    by (simp_all add: hm_wf_def starts_with_def store_record_def)
  from lost_disk_deleted_after_rebind [OF this(1,2,3) _ _ this(4), of "''sb-2''" 9] show ?thesis by simp
qed

end
