(* ===== verification/Janitors.thy ===== *)
theory Janitors
  imports Orphans
begin

text \<open>
  The passes of \<open>src/src/registry.rs\<close> that delete or stop VMs nobody uses: \<open>purge_pass\<close>,
  \<open>pending_pass\<close>, \<open>reap_untracked\<close> and the choice of victims in \<open>reap_idle\<close>. Each pass gives up
  control at its awaits. What other tasks do to the registry there is a parameter, a function of the
  number of such points so far; so is the daemon, as it answers at that moment. Other tasks run on other
  threads as well, so the purge, which reads one lock after another, lets them in between any two reads
  and between the last read and the kill; the other passes let them in at their awaits only.
\<close>

section \<open>The registry between two awaits\<close>

text \<open>
  \<open>cells\<close> maps a schema with an entry cell to whether the cell is initialised, \<open>under_offload\<close> is the
  set \<open>archiving\<close>.
\<close>

record host =
  hstore :: store
  hledger :: ledger
  hpool :: "spare_pool option"
  hcache :: inventory
  cells :: "(string, bool) hashmap"
  under_offload :: "string set"

text \<open>
  A running pass: the awaits so far, the registry, and a log of the requests it sent the daemon, each
  with the registry as it was at that moment; then the pass's counters.
\<close>

record pass =
  awaits :: nat
  hst :: host
  sent :: "(host \<times> string) list"
  n_done :: nat
  n_failed :: nat

type_synonym others = "nat \<Rightarrow> host \<Rightarrow> host"

definition await :: "others \<Rightarrow> pass \<Rightarrow> pass" where
  "await env m = m\<lparr>hst := env (awaits m) (hst m), awaits := awaits m + 1\<rparr>"

definition pass_begin :: "host \<Rightarrow> pass" where
  "pass_begin h = \<lparr>awaits = 0, hst = h, sent = [], n_done = 0, n_failed = 0\<rparr>"

definition on_host :: "(host \<Rightarrow> host) \<Rightarrow> pass \<Rightarrow> pass" where
  "on_host f m = m\<lparr>hst := f (hst m)\<rparr>"

text \<open>One probe of the per-id endpoint; a handle that cannot be built answers at once.\<close>

definition probe :: "others \<Rightarrow> (nat \<Rightarrow> daemon) \<Rightarrow> string \<Rightarrow> pass \<Rightarrow> daemon_verdict \<times> pass" where
  "probe env d sid m =
     (if d_connect (d (awaits m)) sid then (daemon_state (d (awaits m)) sid, await env m) else (Daemon_Error, m))"

definition kill_by_id :: "others \<Rightarrow> (nat \<Rightarrow> daemon) \<Rightarrow> string \<Rightarrow> pass \<Rightarrow> bool \<times> pass" where
  "kill_by_id env d sid m =
     (if \<not> d_connect (d (awaits m)) sid then (False, m)
      else let m' = await env (m\<lparr>sent := sent m @ [(hst m, sid)]\<rparr>)
           in if d_kill (d (awaits m)) sid
              then (True, on_host (\<lambda>h. h\<lparr>hcache := inv_remove_id sid (hcache h)\<rparr>) m')
              else (False, m'))"

definition counted :: "bool \<times> pass \<Rightarrow> pass" where
  "counted r = (case r of (ok, m) \<Rightarrow>
     if ok then m\<lparr>n_done := n_done m + 1\<rparr> else m\<lparr>n_failed := n_failed m + 1\<rparr>)"

definition claimed_ids :: "host \<Rightarrow> string set" where
  "claimed_ids h = (case hpool h of None \<Rightarrow> {} | Some p \<Rightarrow> claimed p)"

definition records :: "host \<Rightarrow> (string \<times> rec) list" where
  "records h = smap (hstore h)"

section \<open>Purge\<close>

text \<open>Step 1: the rows of offloaded schemas. \<open>slow k\<close> says that the probe after \<open>k\<close> awaits times out.\<close>

fun purge_offloaded ::
  "others \<Rightarrow> (nat \<Rightarrow> daemon) \<Rightarrow> (nat \<Rightarrow> bool) \<Rightarrow> string set \<Rightarrow> (string \<times> rec) list \<Rightarrow> pass \<Rightarrow> pass" where
  "purge_offloaded env d slow live_ids [] m = m"
| "purge_offloaded env d slow live_ids ((schema, r) # rest) m =
     (if tier_of r = Live then purge_offloaded env d slow live_ids rest m
      else if sandbox_id r \<in> live_ids
      then purge_offloaded env d slow live_ids rest (counted (kill_by_id env d (sandbox_id r) m))
      else (case probe env d (sandbox_id r) m of
              (Present _, m') \<Rightarrow>
                if slow (awaits m) then purge_offloaded env d slow live_ids rest m'
                else purge_offloaded env d slow live_ids rest (counted (kill_by_id env d (sandbox_id r) m'))
            | (_, m') \<Rightarrow> purge_offloaded env d slow live_ids rest m'))"

text \<open>
  Step 2: the listed spares, with both sets read again before each kill. The two sets are under two locks,
  and the kill is sent after both are released.
\<close>

fun purge_spares ::
  "others \<Rightarrow> (nat \<Rightarrow> daemon) \<Rightarrow> string set \<Rightarrow> string set \<Rightarrow> (string \<times> string \<times> bool) list \<Rightarrow> pass \<Rightarrow> pass" where
  "purge_spares env d bound clm [] m = m"
| "purge_spares env d bound clm ((sid, nm, up) # rest) m =
     (if \<not> starts_with SPARE_PREFIX nm \<or> sid \<in> bound \<or> sid \<in> clm then purge_spares env d bound clm rest m
      else (case bound_ids (hstore (hst m)) of (bound_now, s) \<Rightarrow>
        let m' = await env (on_host (\<lambda>h. h\<lparr>hstore := s\<rparr>) m);
            claimed_now = claimed_ids (hst m')
        in if sid \<in> bound_now \<or> sid \<in> claimed_now then purge_spares env d bound clm rest m'
           else purge_spares env d bound clm rest (counted (kill_by_id env d sid (await env m')))))"

definition purge_pass :: "others \<Rightarrow> (nat \<Rightarrow> daemon) \<Rightarrow> (nat \<Rightarrow> bool) \<Rightarrow> host \<Rightarrow> pass" where
  "purge_pass env d slow h =
     (case d_list (d 0) of
        None \<Rightarrow> await env (pass_begin h)
      | Some infos \<Rightarrow>
          let m = on_host (\<lambda>h. h\<lparr>hcache := inv_absorb (map (\<lambda>(sid, nm, up). (nm, sid)) infos) (hcache h)\<rparr>)
                    (await env (pass_begin h));
              live_ids = set (map fst infos);
              bound = set (map (\<lambda>(_, r). sandbox_id r) (records (hst m)));
              m = await env m;
              clm = claimed_ids (hst m);
              m = await env m
          in purge_spares env d bound clm infos
               (purge_offloaded env d slow live_ids (records (hst m)) m))"

section \<open>The pending-bring-up janitor\<close>

text \<open>\<open>pending::clear\<close> removes the entry at once and awaits the rewrite of the file.\<close>

definition clear_pending :: "others \<Rightarrow> (nat \<Rightarrow> bool) \<Rightarrow> string \<Rightarrow> pass \<Rightarrow> pass" where
  "clear_pending env disk schema m =
     await env (on_host (\<lambda>h. h\<lparr>hledger := ledger_clear (disk (awaits m)) schema (hledger h)\<rparr>) m)"

definition resolved :: "pass \<Rightarrow> pass" where
  "resolved m = m\<lparr>n_done := n_done m + 1\<rparr>"

text \<open>Taking the async lock of the entries map is an await.\<close>

fun pending_loop ::
  "others \<Rightarrow> (nat \<Rightarrow> daemon) \<Rightarrow> (nat \<Rightarrow> bool) \<Rightarrow> (string \<times> string) list \<Rightarrow> pass \<Rightarrow> pass" where
  "pending_loop env d disk [] m = m"
| "pending_loop env d disk ((schema, sid) # rest) m =
     (if (case store_record (hstore (hst m)) schema of Some r \<Rightarrow> sandbox_id r = sid | None \<Rightarrow> False)
      then pending_loop env d disk rest (resolved (clear_pending env disk schema m))
      else let m1 = await env m
           in if hm_get (cells (hst m1)) schema = Some False then pending_loop env d disk rest m1
              else (case probe env d sid m1 of
                      (Gone, m2) \<Rightarrow> pending_loop env d disk rest (resolved (clear_pending env disk schema m2))
                    | (Present _, m2) \<Rightarrow>
                        (case kill_by_id env d sid m2 of
                           (True, m3) \<Rightarrow> pending_loop env d disk rest (resolved (clear_pending env disk schema m3))
                         | (False, m3) \<Rightarrow> pending_loop env d disk rest m3)
                    | (Daemon_Error, m2) \<Rightarrow> pending_loop env d disk rest m2))"

definition pending_pass ::
  "u64 \<Rightarrow> u64 \<Rightarrow> others \<Rightarrow> (nat \<Rightarrow> daemon) \<Rightarrow> (nat \<Rightarrow> bool) \<Rightarrow> host \<Rightarrow> pass" where
  "pending_pass ready_timeout now env d disk h =
     pending_loop env d disk (ledger_stale now (ready_timeout * 2 + 300) (hledger h)) (pass_begin h)"

section \<open>The untracked reaper\<close>

definition live_by_id :: "host \<Rightarrow> (string, string) hashmap" where
  "live_by_id h =
     hm_collect (map (\<lambda>(schema, r). (sandbox_id r, schema)) (filter (\<lambda>(_, r). tier_of r = Live) (records h)))"

text \<open>
  The schema a running VM belongs to, and whether the VM is a superseded duplicate: a \<open>pg-\<close> VM of a
  schema whose row names another one.
\<close>

definition owner_schema :: "(string, string) hashmap \<Rightarrow> host \<Rightarrow> string \<Rightarrow> string \<Rightarrow> (string \<times> bool) option" where
  "owner_schema live h sid nm =
     (case hm_get live sid of
        Some schema \<Rightarrow> Some (schema, False)
      | None \<Rightarrow>
          if \<not> starts_with ''pg-'' nm then None
          else (case store_record (hstore h) (drop 3 nm) of
                  Some r \<Rightarrow> if sandbox_id r \<noteq> sid then Some (drop 3 nm, True) else None
                | None \<Rightarrow> None))"

text \<open>\<open>sb.stop()\<close> with its time limit: \<open>stops k\<close> says whether the stop after \<open>k\<close> awaits is confirmed in time.\<close>

definition stop_vm :: "others \<Rightarrow> (nat \<Rightarrow> daemon) \<Rightarrow> (nat \<Rightarrow> bool) \<Rightarrow> string \<Rightarrow> pass \<Rightarrow> pass" where
  "stop_vm env d stops sid m =
     (if \<not> d_connect (d (awaits m)) sid then m
      else let m' = await env (m\<lparr>sent := sent m @ [(hst m, sid)]\<rparr>)
           in if stops (awaits m) then resolved m' else m')"

fun untracked_loop ::
  "others \<Rightarrow> (nat \<Rightarrow> daemon) \<Rightarrow> (nat \<Rightarrow> bool) \<Rightarrow> (string, string) hashmap \<Rightarrow> string set \<Rightarrow> string set \<Rightarrow>
     (string \<times> string \<times> bool) list \<Rightarrow> pass \<times> string set \<Rightarrow> pass \<times> string set" where
  "untracked_loop env d stops live clm suspects [] (m, seen) = (m, seen)"
| "untracked_loop env d stops live clm suspects ((sid, nm, up) # rest) (m, seen) =
     (if \<not> up then untracked_loop env d stops live clm suspects rest (m, seen)
      else if starts_with SPARE_PREFIX nm \<or> sid \<in> clm then untracked_loop env d stops live clm suspects rest (m, seen)
      else (case owner_schema live (hst m) sid nm of
              None \<Rightarrow> untracked_loop env d stops live clm suspects rest (m, seen)
            | Some (schema, superseded) \<Rightarrow>
                let m1 = await env m
                in if hm_get (cells (hst m1)) schema \<noteq> None \<and> \<not> superseded
                   then untracked_loop env d stops live clm suspects rest (m1, seen)
                   else if schema \<in> under_offload (hst m1) \<or> ledger_get (hledger (hst m1)) schema = Some sid
                   then untracked_loop env d stops live clm suspects rest (m1, seen)
                   else if sid \<notin> suspects
                   then untracked_loop env d stops live clm suspects rest (m1, insert sid seen)
                   else untracked_loop env d stops live clm suspects rest
                          (stop_vm env d stops sid m1, insert sid seen)))"

text \<open>One pass: the result carries the suspects for the next pass.\<close>

definition reap_untracked ::
  "others \<Rightarrow> (nat \<Rightarrow> daemon) \<Rightarrow> (nat \<Rightarrow> bool) \<Rightarrow> string set \<Rightarrow> host \<Rightarrow> pass \<times> string set" where
  "reap_untracked env d stops suspects h =
     (let m = await env (pass_begin h)
      in case d_list (d 0) of
           None \<Rightarrow> (m, suspects)
         | Some infos \<Rightarrow>
             untracked_loop env d stops (live_by_id (hst m)) (claimed_ids (hst m)) suspects infos (m, {}))"

section \<open>What the passes send\<close>

named_theorems pass_simps

lemma await_simps [pass_simps, simp]:
  "sent (await env m) = sent m" "hst (await env m) = env (awaits m) (hst m)" "awaits (await env m) = awaits m + 1"
  "n_done (await env m) = n_done m"
  by (simp_all add: await_def)

lemma on_host_simps [pass_simps, simp]:
  "sent (on_host f m) = sent m" "hst (on_host f m) = f (hst m)" "awaits (on_host f m) = awaits m"
  "n_done (on_host f m) = n_done m"
  by (simp_all add: on_host_def)

lemma resolved_simps [pass_simps, simp]:
  "sent (resolved m) = sent m" "hst (resolved m) = hst m" "awaits (resolved m) = awaits m"
  by (simp_all add: resolved_def)

lemma pass_begin_simps [simp]: "sent (pass_begin h) = []" "hst (pass_begin h) = h" "awaits (pass_begin h) = 0"
  by (simp_all add: pass_begin_def)

lemma counted_sent [simp]: "sent (counted (b, m)) = sent m"
  by (simp add: counted_def)

lemma probe_sent: "probe env d sid m = (v, m') \<Longrightarrow> sent m' = sent m"
  by (auto simp: probe_def split: if_splits)

lemma clear_pending_sent [simp]: "sent (clear_pending env disk schema m) = sent m"
  by (simp add: clear_pending_def)

lemma kill_by_id_sent:
  "kill_by_id env d sid m = (b, m') \<Longrightarrow> x \<in> set (sent m') \<Longrightarrow> x \<in> set (sent m) \<or> x = (hst m, sid)"
  by (auto simp: kill_by_id_def Let_def split: if_splits)

lemma counted_kill_sent:
  "x \<in> set (sent (counted (kill_by_id env d sid m))) \<Longrightarrow> x \<in> set (sent m) \<or> x = (hst m, sid)"
  by (cases "kill_by_id env d sid m") (auto dest: kill_by_id_sent)

lemma purge_offloaded_sent:
  "(h', sid) \<in> set (sent (purge_offloaded env d slow live_ids rows m)) \<Longrightarrow>
     (h', sid) \<in> set (sent m) \<or> (\<exists>schema r. (schema, r) \<in> set rows \<and> sandbox_id r = sid \<and> tier_of r \<noteq> Live)"
proof (induction env d slow live_ids rows m rule: purge_offloaded.induct)
  case (1 env d slow live_ids m)
  then show ?case by simp
next
  case (2 env d slow live_ids schema r rest m)
  show ?case
  proof (cases "tier_of r = Live")
    case True
    with 2 show ?thesis by auto
  next
    case nl: False
    show ?thesis
    proof (cases "sandbox_id r \<in> live_ids")
      case True
      with nl 2 show ?thesis by (auto dest!: counted_kill_sent)
    next
      case False
      obtain v m' where p: "probe env d (sandbox_id r) m = (v, m')" by (cases "probe env d (sandbox_id r) m")
      have s: "sent m' = sent m" by (rule probe_sent [OF p])
      show ?thesis
      proof (cases v)
        case (Present u)
        show ?thesis
        proof (cases "slow (awaits m)")
          case slow: True
          with 2(3) [OF nl False p [symmetric] Present] 2(7) nl False p Present s show ?thesis by auto
        next
          case fast: False
          with 2(4) [OF nl False p [symmetric] Present] 2(7) nl False p Present s show ?thesis
            by (auto dest!: counted_kill_sent)
        qed
      next
        case Gone
        with 2(5) [OF nl False p [symmetric] Gone] 2(7) nl False p s show ?thesis by auto
      next
        case Daemon_Error
        with 2(6) [OF nl False p [symmetric] Daemon_Error] 2(7) nl False p s show ?thesis by auto
      qed
    qed
  qed
qed

lemma bound_ids_again: "bound_ids s = (ids, s') \<Longrightarrow> fst (bound_ids s') = ids"
  by (auto simp: bound_ids_def Let_def split: option.splits)

lemma purge_spares_sent:
  "(h', sid) \<in> set (sent (purge_spares env d bound clm infos m)) \<Longrightarrow>
     (h', sid) \<in> set (sent m) \<or>
     (\<exists>nm up k g. (sid, nm, up) \<in> set infos \<and> starts_with SPARE_PREFIX nm
        \<and> sid \<notin> fst (bound_ids (hstore g)) \<and> sid \<notin> claimed_ids (env k g) \<and> h' = env (Suc k) (env k g))"
proof (induction infos arbitrary: m)
  case (Cons row infos)
  obtain i nm up where row: "row = (i, nm, up)" by (cases row)
  obtain ids s where b: "bound_ids (hstore (hst m)) = (ids, s)" by (cases "bound_ids (hstore (hst m))")
  let ?n = "on_host (\<lambda>h. h\<lparr>hstore := s\<rparr>) m"
  let ?m = "await env ?n"
  show ?case
  proof (cases "\<not> starts_with SPARE_PREFIX nm \<or> i \<in> bound \<or> i \<in> clm")
    case True
    with Cons row show ?thesis by auto
  next
    case False
    show ?thesis
    proof (cases "i \<in> ids \<or> i \<in> claimed_ids (hst ?m)")
      case True
      then have "(h', sid) \<in> set (sent (purge_spares env d bound clm infos ?m))"
        using Cons.prems False row b by (simp add: Let_def)
      from Cons.IH [OF this] show ?thesis by auto
    next
      case keep: False
      then have "(h', sid) \<in> set (sent (purge_spares env d bound clm infos (counted (kill_by_id env d i (await env ?m)))))"
        using Cons.prems False row b by (simp add: Let_def)
      from Cons.IH [OF this] show ?thesis
      proof
        assume "(h', sid) \<in> set (sent (counted (kill_by_id env d i (await env ?m))))"
        then have "(h', sid) \<in> set (sent m) \<or> h' = env (Suc (awaits m)) (env (awaits m) (hst ?n)) \<and> sid = i"
          by (auto dest!: counted_kill_sent)
        moreover have "i \<notin> fst (bound_ids (hstore (hst ?n)))" "i \<notin> claimed_ids (env (awaits m) (hst ?n))"
          using keep bound_ids_again [OF b] by simp_all
        ultimately consider "(h', sid) \<in> set (sent m)"
          | "sid = i" "\<exists>k g. i \<notin> fst (bound_ids (hstore g)) \<and> i \<notin> claimed_ids (env k g) \<and> h' = env (Suc k) (env k g)"
          by blast
        then show ?thesis using False row by cases auto
      qed auto
    qed
  qed
qed simp

text \<open>The rows a purge works on: the registry after the listing was absorbed and the two awaits before the rows are read.\<close>

definition rows_read :: "others \<Rightarrow> (string \<times> string \<times> bool) list \<Rightarrow> host \<Rightarrow> (string \<times> rec) list" where
  "rows_read env infos h =
     records (env 2 (env 1 (env 0 h\<lparr>hcache := inv_absorb (map (\<lambda>(sid, nm, up). (nm, sid)) infos) (hcache (env 0 h))\<rparr>)))"

text \<open>
  C28: Whatever else runs meanwhile, a purge kills only two kinds of VM: one that a row of an offloaded
  schema named when the pass read the rows, and one listed under a spare name that no row named and then
  no bring-up had claimed when the pass looked again just before the kill. Other tasks may do anything
  between these two looks, and between the second look and the kill.
\<close>

theorem purge_kills_only_waste:
  assumes "(h', sid) \<in> set (sent (purge_pass env d slow h))"
  shows "\<exists>infos. d_list (d 0) = Some infos
     \<and> ((\<exists>schema r. (schema, r) \<in> set (rows_read env infos h) \<and> sandbox_id r = sid \<and> tier_of r \<noteq> Live)
       \<or> (\<exists>nm up k g. (sid, nm, up) \<in> set infos \<and> starts_with SPARE_PREFIX nm
            \<and> sid \<notin> fst (bound_ids (hstore g)) \<and> sid \<notin> claimed_ids (env k g) \<and> h' = env (Suc k) (env k g)))"
proof (cases "d_list (d 0)")
  case None
  with assms show ?thesis by (simp add: purge_pass_def)
next
  case (Some infos)
  let ?a = "on_host (\<lambda>h. h\<lparr>hcache := inv_absorb (map (\<lambda>(sid, nm, up). (nm, sid)) infos) (hcache h)\<rparr>)
              (await env (pass_begin h))"
  let ?m = "await env (await env ?a)"
  let ?off = "purge_offloaded env d slow (set (map fst infos)) (records (hst ?m)) ?m"
  have rows: "records (hst ?m) = rows_read env infos h" by (simp add: rows_read_def eval_nat_numeral)
  have "(h', sid) \<in> set (sent (purge_spares env d (set (map (\<lambda>(_, r). sandbox_id r) (records (hst ?a))))
      (claimed_ids (hst (await env ?a))) infos ?off))"
    using assms Some by (simp only: purge_pass_def Let_def option.case)
  from purge_spares_sent [OF this] show ?thesis
  proof
    assume "(h', sid) \<in> set (sent ?off)"
    from purge_offloaded_sent [OF this] Some show ?thesis unfolding rows by auto
  qed (use Some in blast)
qed

text \<open>A daemon that knows every VM, and a host with one row.\<close>

definition knowing_daemon :: daemon where
  "knowing_daemon = gone_daemon\<lparr>d_get := (\<lambda>s. Got_Info True s s), d_list := Some []\<rparr>"

definition host_with :: "store \<Rightarrow> host" where
  "host_with s = \<lparr>hstore = s, hledger = \<lparr>entries = [], lfile = None\<rparr>, hpool = None, hcache = [], cells = [], under_offload = {}\<rparr>"

definition one_row :: "string \<Rightarrow> rec \<Rightarrow> host" where
  "one_row x r = host_with (store_load 0 None \<lparr>smap := [(x, r)]\<rparr>)"

definition frozen_row :: "string \<Rightarrow> rec" where
  "frozen_row sid = \<lparr>sandbox_id = sid, last_active = 3, tier_of = Frozen\<rparr>"

lemma knowing_daemon_simps [simp]:
  "d_connect knowing_daemon sid" "d_kill knowing_daemon sid" "daemon_state knowing_daemon sid = Present True"
  "d_list knowing_daemon = Some []"
  by (simp_all add: knowing_daemon_def gone_daemon_def daemon_state_def)

text \<open>Another task binds \<open>x\<close> to \<open>sid\<close> during the await numbered \<open>k\<close>.\<close>

definition rebinding :: "nat \<Rightarrow> string \<Rightarrow> string \<Rightarrow> others" where
  "rebinding k x sid n h = (if n = k then h\<lparr>hstore := store_put 9 x sid (hstore h)\<rparr> else h)"

lemma purge_one_row:
  assumes "tier_of r \<noteq> Live" "records (env 2 (env 1 (env 0 h))) = [(x, r)]"
  shows "sent (purge_pass env (\<lambda>_. knowing_daemon) (\<lambda>_. False) h) = [(env 3 (env 2 (env 1 (env 0 h))), sandbox_id r)]"
  using assms by (simp add: eval_nat_numeral purge_pass_def Let_def probe_def kill_by_id_def inv_absorb_def counted_def records_def)

theorem purge_kills_only_waste_witness:
  "\<exists>h'. (h', ''sb-1'') \<in> set (sent (purge_pass (\<lambda>_ h. h) (\<lambda>_. knowing_daemon) (\<lambda>_. False) (one_row ''shop'' (frozen_row ''sb-1''))))
     \<and> (\<exists>schema r. (schema, r) \<in> set (rows_read (\<lambda>_ h. h) [] (one_row ''shop'' (frozen_row ''sb-1'')))
          \<and> sandbox_id r = ''sb-1'' \<and> tier_of r \<noteq> Live)"
proof -
  let ?h = "one_row ''shop'' (frozen_row ''sb-1'')"
  have "records ?h = [(''shop'', frozen_row ''sb-1'')]" by (simp add: records_def one_row_def host_with_def)
  then have "sent (purge_pass (\<lambda>_ h. h) (\<lambda>_. knowing_daemon) (\<lambda>_. False) ?h) = [(?h, ''sb-1'')]"
    using purge_one_row [of "frozen_row ''sb-1''" "\<lambda>_ h. h" ?h "''shop''"] by (simp add: frozen_row_def)
  then have s: "(?h, ''sb-1'') \<in> set (sent (purge_pass (\<lambda>_ h. h) (\<lambda>_. knowing_daemon) (\<lambda>_. False) ?h))" by simp
  from s purge_kills_only_waste [OF this] show ?thesis by auto
qed

text \<open>
  The second look does not hold until the kill. A bring-up on another thread that takes the spare after
  the claimed set was read and before the kill is sent has claimed the VM the purge kills.
\<close>

definition claiming :: "nat \<Rightarrow> others" where
  "claiming k n h = (if n = k then h\<lparr>hpool := map_option (snd \<circ> pop_claim {}) (hpool h)\<rparr> else h)"

theorem purge_races_claim:
  "let d = (\<lambda>_. knowing_daemon\<lparr>d_list := Some [(''sp'', SPARE_PREFIX @ ''1'', True)]\<rparr>);
       h = host_with (store_load 0 None)\<lparr>hpool := Some (spare_new 1\<lparr>ready := [''sp'']\<rparr>)\<rparr>
   in \<exists>h'. sent (purge_pass (claiming 4) d (\<lambda>_. False) h) = [(h', ''sp'')] \<and> ''sp'' \<in> claimed_ids h'"
  by (simp add: purge_pass_def Let_def kill_by_id_def counted_def records_def claiming_def host_with_def claimed_ids_def
      pop_claim_def spare_new_def bound_ids_def store_load_def ids_of_def starts_with_def eval_nat_numeral)

text \<open>
  The purge re-reads the registry for spares but not for offloaded schemas. A schema whose row was
  offloaded when the pass began, and whose leftover VM a restore meanwhile took over and bound (during
  the probe of that very VM), is live when the purge kills the VM, which then holds the schema's data.
\<close>

theorem purge_kills_restored_schema:
  assumes "tier_of r \<noteq> Live"
  shows "\<exists>h'. sent (purge_pass (rebinding 3 x (sandbox_id r)) (\<lambda>_. knowing_daemon) (\<lambda>_. False) (one_row x r)) = [(h', sandbox_id r)]
       \<and> store_record (hstore h') x = Some \<lparr>sandbox_id = sandbox_id r, last_active = 9, tier_of = Live\<rparr>"
proof -
  let ?env = "rebinding 3 x (sandbox_id r)"
  have e0: "?env 2 (?env 1 (?env 0 (one_row x r))) = one_row x r" by (simp add: rebinding_def)
  have "records (one_row x r) = [(x, r)]" by (simp add: records_def one_row_def host_with_def)
  with e0 have "sent (purge_pass ?env (\<lambda>_. knowing_daemon) (\<lambda>_. False) (one_row x r))
      = [(?env 3 (one_row x r), sandbox_id r)]"
    using purge_one_row [OF assms, of ?env "one_row x r" x] by simp
  moreover have "store_record (hstore (?env 3 (one_row x r))) x = Some \<lparr>sandbox_id = sandbox_id r, last_active = 9, tier_of = Live\<rparr>"
    using assms by (simp add: rebinding_def one_row_def host_with_def store_put_def store_record_def stamp_def
        write_detached_def Let_def)
  ultimately show ?thesis by blast
qed

theorem purge_kills_restored_schema_witness:
  "\<exists>h'. sent (purge_pass (rebinding 3 ''shop'' ''sb-1'') (\<lambda>_. knowing_daemon) (\<lambda>_. False) (one_row ''shop'' (frozen_row ''sb-1'')))
      = [(h', ''sb-1'')]
     \<and> store_record (hstore h') ''shop'' = Some \<lparr>sandbox_id = ''sb-1'', last_active = 9, tier_of = Live\<rparr>"
  using purge_kills_restored_schema [of "frozen_row ''sb-1''" "''shop''"] by (simp add: frozen_row_def)

section \<open>The janitor\<close>

lemma pending_loop_sent:
  "(h', sid) \<in> set (sent (pending_loop env d disk stale m)) \<Longrightarrow>
     (h', sid) \<in> set (sent m) \<or> (\<exists>schema. (schema, sid) \<in> set stale)"
proof (induction stale arbitrary: m)
  case (Cons e stale)
  obtain x i where e: "e = (x, i)" by (cases e)
  have step: "(h', sid) \<in> set (sent (pending_loop env d disk stale m')) \<Longrightarrow>
      (\<And>y. y \<in> set (sent m') \<Longrightarrow> y \<in> set (sent m) \<or> snd y = i) \<Longrightarrow>
      (h', sid) \<in> set (sent m) \<or> (\<exists>schema. (schema, sid) \<in> set (e # stale))" for m'
    using Cons.IH [of m'] e by fastforce
  show ?case
  proof (cases "case store_record (hstore (hst m)) x of Some r \<Rightarrow> sandbox_id r = i | None \<Rightarrow> False")
    case True
    show ?thesis
      by (rule step [of "resolved (clear_pending env disk x m)"]) (use Cons.prems True e in simp_all)
  next
    case nb: False
    let ?m1 = "await env m"
    show ?thesis
    proof (cases "hm_get (cells (hst ?m1)) x = Some False")
      case True
      show ?thesis by (rule step [of ?m1]) (use Cons.prems nb True e in \<open>simp_all add: Let_def\<close>)
    next
      case nf: False
      obtain v m2 where p: "probe env d i ?m1 = (v, m2)" by (cases "probe env d i ?m1")
      then have s2: "sent m2 = sent m" using probe_sent [OF p] by simp
      note now = Cons.prems nb nf e p
      show ?thesis
      proof (cases v)
        case (Present u)
        obtain b m3 where k: "kill_by_id env d i m2 = (b, m3)" by (cases "kill_by_id env d i m2")
        have s3: "y \<in> set (sent m3) \<Longrightarrow> y \<in> set (sent m) \<or> snd y = i" for y
          using kill_by_id_sent [OF k] s2 by fastforce
        show ?thesis
        proof (cases b)
          case True
          show ?thesis
            by (rule step [of "resolved (clear_pending env disk x m3)"]) (use now Present k True s3 in \<open>simp_all add: Let_def\<close>)
        next
          case False
          show ?thesis by (rule step [of m3]) (use now Present k False s3 in \<open>simp_all add: Let_def\<close>)
        qed
      next
        case Gone
        show ?thesis
          by (rule step [of "resolved (clear_pending env disk x m2)"]) (use now Gone s2 in \<open>simp_all add: Let_def\<close>)
      next
        case Daemon_Error
        show ?thesis by (rule step [of m2]) (use now Daemon_Error s2 in \<open>simp_all add: Let_def\<close>)
      qed
    qed
  qed
qed simp

text \<open>Under every interleaving, a VM the janitor kills is one the ledger named when the pass began, and old enough.\<close>

lemma pending_kills_only_stale:
  "(h', sid) \<in> set (sent (pending_pass ready_timeout now env d disk h)) \<Longrightarrow>
     \<exists>schema. (schema, sid) \<in> set (ledger_stale now (ready_timeout * 2 + 300) (hledger h))"
  unfolding pending_pass_def by (drule pending_loop_sent) simp

text \<open>What a quiet pass does with one stale entry: settle it, or leave it for later.\<close>

definition row_names :: "host \<Rightarrow> string \<Rightarrow> string \<Rightarrow> bool" where
  "row_names h x sid = (case store_record (hstore h) x of Some r \<Rightarrow> sandbox_id r = sid | None \<Rightarrow> False)"

definition stranded :: "host \<Rightarrow> daemon \<Rightarrow> string \<times> string \<Rightarrow> bool" where
  "stranded h d e = (case e of (x, sid) \<Rightarrow>
     \<not> row_names h x sid \<and> hm_get (cells h) x \<noteq> Some False \<and> (\<exists>u. daemon_state d sid = Present u))"

definition settles :: "host \<Rightarrow> daemon \<Rightarrow> string \<times> string \<Rightarrow> bool" where
  "settles h d e = (case e of (x, sid) \<Rightarrow>
     row_names h x sid
     \<or> hm_get (cells h) x \<noteq> Some False
       \<and> (daemon_state d sid = Gone \<or> (\<exists>u. daemon_state d sid = Present u) \<and> d_kill d sid))"

lemma daemon_state_connect: "daemon_state d sid \<noteq> Daemon_Error \<Longrightarrow> d_connect d sid"
  by (auto simp: daemon_state_def split: if_splits)

definition same_registry :: "host \<Rightarrow> host \<Rightarrow> bool" where
  "same_registry h h' \<longleftrightarrow> hstore h' = hstore h \<and> cells h' = cells h"

lemma pending_step_quiet:
  fixes d :: daemon and disk :: "nat \<Rightarrow> bool"
  assumes "same_registry h (hst m)"
  shows "\<exists>m'. pending_loop (\<lambda>_ h. h) (\<lambda>_. d) disk ((x, sid) # rest) m = pending_loop (\<lambda>_ h. h) (\<lambda>_. d) disk rest m'
       \<and> same_registry h (hst m')
       \<and> map snd (sent m') = map snd (sent m) @ (if stranded h d (x, sid) then [sid] else [])
       \<and> hm_get (entries (hledger (hst m')))
           = (if settles h d (x, sid) then (hm_get (entries (hledger (hst m))))(x := None) else hm_get (entries (hledger (hst m))))
       \<and> n_done m' = n_done m + (if settles h d (x, sid) then 1 else 0)"
proof -
  have st: "store_record (hstore (hst m)) x = store_record (hstore h) x" "cells (hst m) = cells h"
    using assms by (simp_all add: same_registry_def)
  show ?thesis
  proof (cases "row_names h x sid")
    case True
    then have "case store_record (hstore (hst m)) x of Some r \<Rightarrow> sandbox_id r = sid | None \<Rightarrow> False"
      using st by (simp add: row_names_def)
    with True assms show ?thesis
      by (intro exI [of _ "resolved (clear_pending (\<lambda>_ h. h) disk x m)"])
        (simp add: stranded_def settles_def same_registry_def clear_pending_def ledger_clear_get resolved_def)
  next
    case nr: False
    then have nb: "\<not> (case store_record (hstore (hst m)) x of Some r \<Rightarrow> sandbox_id r = sid | None \<Rightarrow> False)"
      using st by (simp add: row_names_def)
    show ?thesis
    proof (cases "hm_get (cells h) x = Some False")
      case True
      with nr nb st assms show ?thesis
        by (intro exI [of _ "await (\<lambda>_ h. h) m"]) (simp add: stranded_def settles_def same_registry_def Let_def)
    next
      case nf: False
      note simps = stranded_def settles_def same_registry_def clear_pending_def ledger_clear_get resolved_def Let_def probe_def
        kill_by_id_def nr nf
      let ?m2 = "await (\<lambda>_ h. h) (await (\<lambda>_ h. h) m)"
      show ?thesis
      proof (cases "daemon_state d sid")
        case (Present u)
        then have "d_connect d sid" using daemon_state_connect [of d sid] by simp
        with Present nb st assms show ?thesis
          by (intro exI [of _ "if d_kill d sid
                then resolved (clear_pending (\<lambda>_ h. h) disk x (snd (kill_by_id (\<lambda>_ h. h) (\<lambda>_. d) sid ?m2)))
                else snd (kill_by_id (\<lambda>_ h. h) (\<lambda>_. d) sid ?m2)"]) (simp add: simps)
      next
        case Gone
        then have "d_connect d sid" using daemon_state_connect [of d sid] by simp
        with Gone nb st assms show ?thesis
          by (intro exI [of _ "resolved (clear_pending (\<lambda>_ h. h) disk x ?m2)"]) (simp add: simps)
      next
        case Daemon_Error
        with nb st assms show ?thesis
          by (intro exI [of _ "snd (probe (\<lambda>_ h. h) (\<lambda>_. d) sid (await (\<lambda>_ h. h) m))"]) (simp add: simps)
      qed
    qed
  qed
qed

lemma pending_loop_quiet:
  assumes "same_registry h (hst m)" "distinct (map fst stale)"
  shows "let m' = pending_loop (\<lambda>_ h. h) (\<lambda>_. d) disk stale m
         in map snd (sent m') = map snd (sent m) @ map snd (filter (stranded h d) stale)
            \<and> hm_get (entries (hledger (hst m'))) x
                = (if \<exists>sid. (x, sid) \<in> set stale \<and> settles h d (x, sid) then None else hm_get (entries (hledger (hst m))) x)
            \<and> n_done m' = n_done m + length (filter (settles h d) stale)"
  using assms
proof (induction stale arbitrary: m)
  case Nil
  then show ?case by simp
next
  case (Cons e stale)
  obtain y i where e: "e = (y, i)" by (cases e)
  obtain m' where m': "pending_loop (\<lambda>_ h. h) (\<lambda>_. d) disk ((y, i) # stale) m = pending_loop (\<lambda>_ h. h) (\<lambda>_. d) disk stale m'"
    "same_registry h (hst m')"
    "map snd (sent m') = map snd (sent m) @ (if stranded h d (y, i) then [i] else [])"
    "hm_get (entries (hledger (hst m')))
       = (if settles h d (y, i) then (hm_get (entries (hledger (hst m))))(y := None) else hm_get (entries (hledger (hst m))))"
    "n_done m' = n_done m + (if settles h d (y, i) then 1 else 0)"
    using pending_step_quiet [OF Cons.prems(1), of d disk y i stale] by blast
  have d: "distinct (map fst stale)" "y \<notin> fst ` set stale" using Cons.prems(2) e by simp_all
  let ?m = "pending_loop (\<lambda>_ h. h) (\<lambda>_. d) disk stale m'"
  have "map snd (sent ?m) = map snd (sent m') @ map snd (filter (stranded h d) stale)"
    "hm_get (entries (hledger (hst ?m))) x
      = (if \<exists>sid. (x, sid) \<in> set stale \<and> settles h d (x, sid) then None else hm_get (entries (hledger (hst m'))) x)"
    "n_done ?m = n_done m' + length (filter (settles h d) stale)"
    using Cons.IH [OF m'(2) d(1)] by (simp_all add: Let_def)
  with m'(3-5) d(2) show ?case
    unfolding e m'(1) Let_def by (auto simp: rev_image_eqI)
qed

lemma stale_distinct: "hm_wf (entries l) \<Longrightarrow> distinct (map fst (ledger_stale now age l))"
proof -
  assume "hm_wf (entries l)"
  then have "distinct (map fst (filter (\<lambda>(_, (_, ts)). ts \<le> now - age) (entries l)))"
    by (simp add: hm_wf_def distinct_map_filter)
  then show ?thesis by (simp add: ledger_stale_def Let_def comp_def split_def)
qed

text \<open>
  A janitor pass that meets no other task settles what it can and kills only what is stranded. It
  kills, in ledger order, exactly the VMs of entries older than twice the ready timeout plus five
  minutes whose schema's row does not name them, whose schema has no bring-up in flight, and which the
  daemon positively knows; an entry leaves the ledger exactly when its VM is bound after all, is gone,
  or was killed; an unanswered probe or a failed kill leaves it for the next pass; every other entry
  stays, and the pass reports the number settled.
\<close>

theorem pending_pass_settles:
  assumes "hm_wf (entries (hledger h))"
  shows "let stale = ledger_stale now (ready_timeout * 2 + 300) (hledger h);
             m = pending_pass ready_timeout now (\<lambda>_ h. h) (\<lambda>_. d) disk h
         in map snd (sent m) = map snd (filter (stranded h d) stale)
            \<and> ledger_get (hledger (hst m)) x
                = (if \<exists>sid. (x, sid) \<in> set stale \<and> settles h d (x, sid) then None else ledger_get (hledger h) x)
            \<and> n_done m = length (filter (settles h d) stale)"
  using pending_loop_quiet [of h "pass_begin h" "ledger_stale now (ready_timeout * 2 + 300) (hledger h)" d disk x]
    stale_distinct [OF assms]
  by (auto simp: pending_pass_def Let_def same_registry_def ledger_get_def pass_begin_def)

definition leaky_host :: host where
  "leaky_host = (host_with (store_load 0 None))\<lparr>hledger := \<lparr>entries = [(''shop'', (''sb-7'', 5))], lfile = None\<rparr>\<rparr>"

theorem pending_pass_settles_witness:
  "let m = pending_pass 60 1000 (\<lambda>_ h. h) (\<lambda>_. knowing_daemon) (\<lambda>_. True) leaky_host
   in map snd (sent m) = [''sb-7''] \<and> ledger_get (hledger (hst m)) ''shop'' = None \<and> n_done m = 1"
proof -
  have s: "ledger_stale 1000 (60 * 2 + 300) (hledger leaky_host) = [(''shop'', ''sb-7'')]"
    by (simp add: leaky_host_def ledger_stale_def Let_def)
  have "stranded leaky_host knowing_daemon (''shop'', ''sb-7'')" "settles leaky_host knowing_daemon (''shop'', ''sb-7'')"
    by (auto simp: stranded_def settles_def row_names_def leaky_host_def host_with_def store_load_def store_record_def)
  moreover have "hm_wf (entries (hledger leaky_host))" by (simp add: leaky_host_def hm_wf_def)
  ultimately show ?thesis
    using pending_pass_settles [of leaky_host 1000 60 knowing_daemon "\<lambda>_. True" "''shop''"] s by (simp add: Let_def)
qed

text \<open>
  The janitor clears by schema, not by id: when another bring-up of the schema records a new VM while
  the kill of the stranded one is awaited, the clear that follows drops the new VM's entry.
\<close>

lemma janitor_drops_newer_create:
  "let env = (\<lambda>k h. if k = 2 then h\<lparr>hledger := ledger_record 990 True ''shop'' ''sb-8'' (hledger h)\<rparr> else h);
       m = pending_pass 60 1000 env (\<lambda>_. knowing_daemon) (\<lambda>_. True) leaky_host
   in ledger_get (hledger (hst m)) ''shop'' = None \<and> map snd (sent m) = [''sb-7'']"
  by (simp add: pending_pass_def leaky_host_def ledger_stale_def Let_def host_with_def store_load_def store_record_def
      probe_def kill_by_id_def clear_pending_def ledger_get_def ledger_clear_get)

section \<open>The reaper of untracked VMs\<close>

definition may_stop :: "(string, string) hashmap \<Rightarrow> string \<Rightarrow> string \<Rightarrow> host \<Rightarrow> bool" where
  "may_stop live sid nm h \<longleftrightarrow>
     (\<exists>schema. schema \<notin> under_offload h \<and> ledger_get (hledger h) schema \<noteq> Some sid
        \<and> (hm_get live sid = Some schema \<and> hm_get (cells h) schema = None
           \<or> hm_get live sid = None \<and> nm = ''pg-'' @ schema))"

lemma owner_schema_cases:
  "owner_schema live h sid nm = Some (schema, superseded) \<Longrightarrow>
     (if superseded then hm_get live sid = None \<and> nm = ''pg-'' @ schema else hm_get live sid = Some schema)"
proof -
  have "starts_with ''pg-'' nm \<Longrightarrow> ''pg-'' @ drop 3 nm = nm"
    by (metis append_take_drop_id starts_with_def length_Cons list.size(3) numeral_3_eq_3 take_all)
  then show "owner_schema live h sid nm = Some (schema, superseded) \<Longrightarrow>
     (if superseded then hm_get live sid = None \<and> nm = ''pg-'' @ schema else hm_get live sid = Some schema)"
    by (auto simp: owner_schema_def split: option.splits if_splits)
qed

lemma stop_vm_sent: "y \<in> set (sent (stop_vm env d stops sid m)) \<Longrightarrow> y \<in> set (sent m) \<or> y = (hst m, sid)"
  by (auto simp: stop_vm_def Let_def split: if_splits)

text \<open>What the loop does with one row of the listing.\<close>

lemma untracked_step:
  fixes env d stops live clm suspects infos m seen
  defines "loop \<equiv> untracked_loop env d stops live clm suspects" and "m1 \<equiv> await env m"
  obtains (skip) "loop ((i, nm, up) # infos) (m, seen) = loop infos (m, seen)"
  | (kept) "loop ((i, nm, up) # infos) (m, seen) = loop infos (m1, seen)"
  | (first) up "loop ((i, nm, up) # infos) (m, seen) = loop infos (m1, insert i seen)"
  | (stop) up "i \<in> suspects" "\<not> starts_with SPARE_PREFIX nm" "i \<notin> clm" "may_stop live i nm (hst m1)"
      "loop ((i, nm, up) # infos) (m, seen) = loop infos (stop_vm env d stops i m1, insert i seen)"
proof (cases "up \<and> \<not> starts_with SPARE_PREFIX nm \<and> i \<notin> clm")
  case False
  then show thesis using skip by (auto simp: loop_def)
next
  case up: True
  show thesis
  proof (cases "owner_schema live (hst m) i nm")
    case None
    then show thesis using skip up by (auto simp: loop_def)
  next
    case (Some own)
    obtain x sup where xs: "own = (x, sup)" by (cases own)
    note owner = Some [unfolded xs]
    let ?go = "\<not> (hm_get (cells (hst m1)) x \<noteq> None \<and> \<not> sup)
        \<and> x \<notin> under_offload (hst m1) \<and> ledger_get (hledger (hst m1)) x \<noteq> Some i"
    have eq: "loop ((i, nm, up) # infos) (m, seen) =
        (if \<not> ?go then loop infos (m1, seen)
         else if i \<notin> suspects then loop infos (m1, insert i seen)
         else loop infos (stop_vm env d stops i m1, insert i seen))"
      using up owner by (auto simp: loop_def m1_def Let_def)
    show thesis
    proof (cases ?go)
      case True
      then have "may_stop live i nm (hst m1)"
        using owner_schema_cases [OF owner] by (auto simp: may_stop_def split: if_splits)
      moreover have "loop ((i, nm, up) # infos) (m, seen) =
          (if i \<notin> suspects then loop infos (m1, insert i seen) else loop infos (stop_vm env d stops i m1, insert i seen))"
        using eq True by auto
      ultimately show thesis using first stop up by (cases "i \<in> suspects") auto
    next
      case False
      then have "loop ((i, nm, up) # infos) (m, seen) = loop infos (m1, seen)" using eq by argo
      then show thesis by (rule kept)
    qed
  qed
qed

lemma untracked_loop_sent:
  "(h', sid) \<in> set (sent (fst (untracked_loop env d stops live clm suspects infos (m, seen)))) \<Longrightarrow>
     (h', sid) \<in> set (sent m) \<or>
     sid \<in> suspects \<and> sid \<notin> clm
       \<and> (\<exists>nm. (sid, nm, True) \<in> set infos \<and> \<not> starts_with SPARE_PREFIX nm \<and> may_stop live sid nm h')"
proof (induction infos arbitrary: m seen)
  case (Cons row infos)
  obtain i nm up where row: "row = (i, nm, up)" by (cases row)
  show ?case
  proof (cases rule: untracked_step [of env d stops live clm suspects i nm up infos m seen])
    case skip
    with Cons.IH [of m seen] Cons.prems row show ?thesis by auto
  next
    case kept
    with Cons.IH [of "await env m" seen] Cons.prems row show ?thesis by auto
  next
    case first
    with Cons.IH [of "await env m" "insert i seen"] Cons.prems row show ?thesis by auto
  next
    case stop
    with Cons.IH [of "stop_vm env d stops i (await env m)" "insert i seen"] Cons.prems row show ?thesis
      by (auto dest!: stop_vm_sent)
  qed
qed simp

lemma untracked_loop_seen:
  "sid \<in> snd (untracked_loop env d stops live clm suspects infos (m, seen)) \<Longrightarrow>
     sid \<in> seen \<or> (\<exists>nm. (sid, nm, True) \<in> set infos)"
proof (induction infos arbitrary: m seen)
  case (Cons row infos)
  obtain i nm up where row: "row = (i, nm, up)" by (cases row)
  show ?case
  proof (cases rule: untracked_step [of env d stops live clm suspects i nm up infos m seen])
    case skip
    with Cons.IH [of m seen] Cons.prems row show ?thesis by auto
  next
    case kept
    with Cons.IH [of "await env m" seen] Cons.prems row show ?thesis by auto
  next
    case first
    with Cons.IH [of "await env m" "insert i seen"] Cons.prems row show ?thesis by auto
  next
    case stop
    with Cons.IH [of "stop_vm env d stops i (await env m)" "insert i seen"] Cons.prems row show ?thesis by auto
  qed
qed simp

text \<open>
  A running VM is stopped as untracked only on its second sighting, and only if it is nobody's.
  Whatever other tasks do, when a pass stops a VM, the previous pass that got a listing saw it running
  too; the VM has no spare name and is not a claimed spare; and at the moment of the stop its schema is
  not being offloaded, no bring-up has the VM in the pending ledger, and either a live row names the VM
  and its schema has no entry cell, warm or in bring-up, or no live row names the VM and it carries the
  schema's name.
\<close>

theorem untracked_stop_needs_two_sightings:
  assumes "d_list (d1 0) = Some infos1" "reap_untracked env1 d1 stops1 suspects h1 = (m1, suspects')"
    and "(h', sid) \<in> set (sent (fst (reap_untracked env d stops suspects' h)))"
  shows "(\<exists>nm. (sid, nm, True) \<in> set infos1)
       \<and> (\<exists>infos nm. d_list (d 0) = Some infos \<and> (sid, nm, True) \<in> set infos \<and> \<not> starts_with SPARE_PREFIX nm
            \<and> sid \<notin> claimed_ids (env 0 h) \<and> may_stop (live_by_id (env 0 h)) sid nm h')"
proof -
  obtain infos where l: "d_list (d 0) = Some infos"
    using assms(3) by (cases "d_list (d 0)") (auto simp: reap_untracked_def Let_def)
  then have s: "sid \<in> suspects'" "sid \<notin> claimed_ids (env 0 h)"
    "\<exists>nm. (sid, nm, True) \<in> set infos \<and> \<not> starts_with SPARE_PREFIX nm \<and> may_stop (live_by_id (env 0 h)) sid nm h'"
    using assms(3) by (auto simp: reap_untracked_def Let_def dest!: untracked_loop_sent)
  have "suspects' = snd (untracked_loop env1 d1 stops1 (live_by_id (env1 0 h1)) (claimed_ids (env1 0 h1)) suspects infos1
      (await env1 (pass_begin h1), {}))"
    using assms(1,2) by (auto simp: reap_untracked_def Let_def)
  with s(1) have "\<exists>nm. (sid, nm, True) \<in> set infos1" by (auto dest: untracked_loop_seen)
  with l s show ?thesis by blast
qed

text \<open>A schema \<open>shop\<close> whose row is offloaded, and a running VM of its name that the row does not name.\<close>

definition listing_daemon :: "(string \<times> string \<times> bool) list \<Rightarrow> daemon" where
  "listing_daemon infos = knowing_daemon\<lparr>d_list := Some infos\<rparr>"

lemma untracked_duplicate:
  assumes "tier_of r \<noteq> Live" "sandbox_id r \<noteq> ''sb-4''"
  shows "reap_untracked (\<lambda>_ h. h) (\<lambda>_. listing_daemon [(''sb-4'', ''pg-shop'', True)]) (\<lambda>_. True) suspects
           ((one_row ''shop'' r)\<lparr>cells := cs\<rparr>)
         = (let h = (one_row ''shop'' r)\<lparr>cells := cs\<rparr>; m = await (\<lambda>_ h. h) (await (\<lambda>_ h. h) (pass_begin h))
            in (if ''sb-4'' \<in> suspects
                then resolved (await (\<lambda>_ h. h) (m\<lparr>sent := [(h, ''sb-4'')]\<rparr>)) else m, {''sb-4''}))"
proof -
  have n: "starts_with ''pg-'' ''pg-shop''" "\<not> starts_with SPARE_PREFIX ''pg-shop''" "drop 3 ''pg-shop'' = ''shop''"
    by (simp_all add: starts_with_def SPARE_PREFIX_def)
  show ?thesis
    using assms by (simp add: reap_untracked_def listing_daemon_def Let_def one_row_def host_with_def claimed_ids_def
        owner_schema_def live_by_id_def records_def hm_collect_def n store_record_def ledger_get_def stop_vm_def)
qed

theorem untracked_stop_needs_two_sightings_witness:
  "let d = (\<lambda>_. listing_daemon [(''sb-4'', ''pg-shop'', True)]); h = one_row ''shop'' (frozen_row ''sb-1'')
   in sent (fst (reap_untracked (\<lambda>_ h. h) d (\<lambda>_. True) {} h)) = []
      \<and> (h, ''sb-4'') \<in> set (sent (fst (reap_untracked (\<lambda>_ h. h) d (\<lambda>_. True)
            (snd (reap_untracked (\<lambda>_ h. h) d (\<lambda>_. True) {} h)) h)))
      \<and> ''sb-4'' \<notin> claimed_ids h"
proof -
  let ?d = "\<lambda>_ :: nat. listing_daemon [(''sb-4'', ''pg-shop'', True)]"
  let ?h = "one_row ''shop'' (frozen_row ''sb-1'')"
  have h: "?h\<lparr>cells := []\<rparr> = ?h" by (simp add: one_row_def host_with_def)
  have r: "tier_of (frozen_row ''sb-1'') \<noteq> Live" "sandbox_id (frozen_row ''sb-1'') \<noteq> ''sb-4''"
    by (simp_all add: frozen_row_def)
  have p: "reap_untracked (\<lambda>_ h. h) ?d (\<lambda>_. True) {} ?h
      = (await (\<lambda>_ h. h) (await (\<lambda>_ h. h) (pass_begin ?h)), {''sb-4''})"
    using untracked_duplicate [OF r, of "{}" "[]"] by (simp add: h Let_def)
  have q: "(?h, ''sb-4'') \<in> set (sent (fst (reap_untracked (\<lambda>_ h. h) ?d (\<lambda>_. True) {''sb-4''} ?h)))"
    using untracked_duplicate [OF r, of "{''sb-4''}" "[]"] by (simp add: h Let_def)
  have "d_list (?d 0) = Some [(''sb-4'', ''pg-shop'', True)]" by (simp add: listing_daemon_def)
  from untracked_stop_needs_two_sightings [OF this p q] have "''sb-4'' \<notin> claimed_ids ?h" by blast
  with p q show ?thesis by (simp add: Let_def)
qed

text \<open>
  A restore can lose its VM to the reaper. An archived or frozen schema is being restored into a VM
  found by its name, left behind by an earlier attempt: the schema's cell exists and is not initialised,
  and the pending ledger, which names created VMs only, is silent. The row still names the old VM, so
  the running one counts as a superseded duplicate, for which the entry cell is not consulted, and its
  second sighting stops it.
\<close>

theorem untracked_stops_restoring_vm:
  "\<exists>h'. sent (fst (reap_untracked (\<lambda>_ h. h) (\<lambda>_. listing_daemon [(''sb-4'', ''pg-shop'', True)]) (\<lambda>_. True) {''sb-4''}
           ((one_row ''shop'' (frozen_row ''sb-1''))\<lparr>cells := [(''shop'', False)]\<rparr>))) = [(h', ''sb-4'')]
     \<and> hm_get (cells h') ''shop'' = Some False"
  using untracked_duplicate [of "frozen_row ''sb-1''" "{''sb-4''}" "[(''shop'', False)]"]
  by (simp add: frozen_row_def Let_def)

end
