(* ===== verification/Warm_Entries.thy ===== *)
theory Warm_Entries
  imports Interfaces
begin

text \<open>
  Warm entries of \<open>src/src/registry.rs\<close>: \<open>SchemaEntry\<close>, the admission guard \<open>ConnGuard\<close>, the warm path of
  \<open>checkout\<close> and the idle reaper. An entry is used by many clients at once while the reaper looks at it;
  the clients are anonymous, so the system counts how many are at each point of the code. Instants are
  seconds; subtraction of instants saturates.
\<close>

section \<open>Entries\<close>

record schema_entry =
  keepalive :: bool
  active :: nat
  last_active_at :: nat
  slots :: nat
  slot_limit :: nat

definition entry_new :: "nat \<Rightarrow> bool \<Rightarrow> nat \<Rightarrow> schema_entry" where
  "entry_new now ka n = \<lparr>keepalive = ka, active = 0, last_active_at = now, slots = n, slot_limit = n\<rparr>"

definition touch :: "nat \<Rightarrow> schema_entry \<Rightarrow> schema_entry" where
  "touch now e = e\<lparr>last_active_at := now\<rparr>"

definition idle_for :: "nat \<Rightarrow> schema_entry \<Rightarrow> nat" where
  "idle_for now e = now - last_active_at e"

definition is_idle :: "nat \<Rightarrow> nat \<Rightarrow> schema_entry \<Rightarrow> bool" where
  "is_idle now timeout e \<longleftrightarrow> \<not> keepalive e \<and> active e = 0 \<and> timeout \<le> now - last_active_at e"

text \<open>
  \<open>ConnGuard::acquire\<close> takes a permit (waiting for one when none is free) and then counts itself and
  refreshes the entry; \<open>drop\<close> uncounts, refreshes, and only then, as the fields of the guard are
  dropped, gives the permit back.
\<close>

definition take_permit :: "schema_entry \<Rightarrow> schema_entry option" where
  "take_permit e = (if 0 < slots e then Some (e\<lparr>slots := slots e - 1\<rparr>) else None)"

definition count_in_use :: "nat \<Rightarrow> schema_entry \<Rightarrow> schema_entry" where
  "count_in_use now e = touch now (e\<lparr>active := active e + 1\<rparr>)"

definition guard_uncount :: "schema_entry \<Rightarrow> schema_entry" where
  "guard_uncount e = e\<lparr>active := active e - 1\<rparr>"

definition release_permit :: "schema_entry \<Rightarrow> schema_entry" where
  "release_permit e = e\<lparr>slots := slots e + 1\<rparr>"

section \<open>Clients and the reaper\<close>

text \<open>
  \<open>claims\<close> holds, for each client that has the entry but no permit, the time it got it; \<open>admitted\<close> the
  same for clients with a permit that are not counted yet; \<open>guards\<close> are the clients counted, \<open>leaving\<close>
  those uncounted and not yet refreshed, \<open>parting\<close> those about to give their permit back. \<open>in_map\<close> says
  that the entries map still leads to this entry, \<open>reaped\<close> that the idle reaper took it out to stop its
  VM. A warm client claims under the map lock, which the reaper holds while it decides; a client of the
  cold path has the entry from its creation.
\<close>

record entry_use =
  clock :: nat
  entry :: schema_entry
  claims :: "nat list"
  admitted :: "nat list"
  guards :: nat
  leaving :: nat
  parting :: nat
  in_map :: bool
  reaped :: bool

definition use_start :: "entry_use \<Rightarrow> bool" where
  "use_start x \<longleftrightarrow> (\<exists>now ka n k. x = \<lparr>clock = now, entry = entry_new now ka n, claims = replicate k now, admitted = [],
     guards = 0, leaving = 0, parting = 0, in_map = True, reaped = False\<rparr>)"

inductive use_step :: "nat \<Rightarrow> entry_use \<Rightarrow> entry_use \<Rightarrow> bool" for timeout where
  tick: "use_step timeout x (x\<lparr>clock := clock x + n\<rparr>)"
| claim: "in_map x \<Longrightarrow> use_step timeout x (x\<lparr>claims := clock x # claims x, entry := touch (clock x) (entry x)\<rparr>)"
| permit: "t \<in> set (claims x) \<Longrightarrow> take_permit (entry x) = Some e \<Longrightarrow>
    use_step timeout x (x\<lparr>claims := remove1 t (claims x), admitted := t # admitted x, entry := e\<rparr>)"
| give_up: "t \<in> set (claims x) \<Longrightarrow> use_step timeout x (x\<lparr>claims := remove1 t (claims x)\<rparr>)"
| count: "t \<in> set (admitted x) \<Longrightarrow>
    use_step timeout x (x\<lparr>admitted := remove1 t (admitted x), guards := guards x + 1, entry := count_in_use (clock x) (entry x)\<rparr>)"
| uncount: "0 < guards x \<Longrightarrow>
    use_step timeout x (x\<lparr>guards := guards x - 1, leaving := leaving x + 1, entry := guard_uncount (entry x)\<rparr>)"
| refresh: "0 < leaving x \<Longrightarrow>
    use_step timeout x (x\<lparr>leaving := leaving x - 1, parting := parting x + 1, entry := touch (clock x) (entry x)\<rparr>)"
| give_back: "0 < parting x \<Longrightarrow> use_step timeout x (x\<lparr>parting := parting x - 1, entry := release_permit (entry x)\<rparr>)"
| evict: "use_step timeout x (x\<lparr>in_map := False\<rparr>)"
| reap: "in_map x \<Longrightarrow> is_idle (clock x) timeout (entry x) \<Longrightarrow> use_step timeout x (x\<lparr>in_map := False, reaped := True\<rparr>)"

inductive_cases use_stepE: "use_step timeout x y"

definition use_inv :: "entry_use \<Rightarrow> bool" where
  "use_inv x \<longleftrightarrow> active (entry x) = guards x
     \<and> slots (entry x) + length (admitted x) + guards x + leaving x + parting x = slot_limit (entry x)
     \<and> (\<forall>t \<in> set (claims x) \<union> set (admitted x). t \<le> last_active_at (entry x))
     \<and> last_active_at (entry x) \<le> clock x"

lemmas entry_op_defs = touch_def take_permit_def count_in_use_def guard_uncount_def release_permit_def

lemma use_inv_step: "use_inv x \<Longrightarrow> use_step timeout x y \<Longrightarrow> use_inv y"
proof (erule use_stepE, goal_cases)
  case (3 t e)
  then have "slots (entry x) > 0" "e = (entry x)\<lparr>slots := slots (entry x) - 1\<rparr>"
    by (auto simp: take_permit_def split: if_splits)
  with 3 show ?case by (auto simp: use_inv_def dest: set_remove1_subset [THEN subsetD])
next
  case (5 t)
  then have "length (admitted x) = Suc (length (remove1 t (admitted x)))"
    using length_pos_if_in_set [of t "admitted x"] by (simp add: length_remove1)
  moreover have "\<forall>t \<in> set (claims x) \<union> set (remove1 t (admitted x)). t \<le> clock x"
    using 5 by (auto simp: use_inv_def dest!: set_remove1_subset [THEN subsetD] intro: order.trans)
  ultimately show ?case using 5 by (simp add: use_inv_def entry_op_defs)
qed (force simp: use_inv_def entry_op_defs dest: set_remove1_subset [THEN subsetD])+

interpretation entry_runs: inductive_invariant use_start "use_step timeout" use_inv for timeout
proof unfold_locales
  fix x assume "use_start x"
  then show "use_inv x" by (auto simp: use_start_def use_inv_def entry_new_def)
next
  fix x y assume "use_inv x" "use_step timeout x y"
  then show "use_inv y" by (rule use_inv_step)
qed

text \<open>
  C7: The idle reaper never takes a VM from a client. In every state that clients, the passing of time
  and the reaper can reach, when the reaper may take an entry out of the map, the entry is not
  keep-alive, no client is counted as using it, and every client that has got hold of it without being
  counted yet did so at least a whole idle timeout ago.
\<close>

theorem reaper_spares_connections:
  assumes "run_of use_start (use_step timeout) x" "is_idle (clock x) timeout (entry x)"
  shows "guards x = 0 \<and> \<not> keepalive (entry x) \<and> (\<forall>t. t \<in> set (claims x @ admitted x) \<longrightarrow> t + timeout \<le> clock x)"
proof -
  have "use_inv x" by (rule entry_runs.reachable_inv [OF assms(1)])
  then have inv: "active (entry x) = guards x" "\<And>t. t \<in> set (claims x @ admitted x) \<Longrightarrow> t \<le> last_active_at (entry x)"
    "last_active_at (entry x) \<le> clock x" by (auto simp: use_inv_def)
  have idle: "\<not> keepalive (entry x)" "active (entry x) = 0" "last_active_at (entry x) + timeout \<le> clock x"
    using assms(2) inv(3) by (auto simp: is_idle_def)
  have "t + timeout \<le> clock x" if "t \<in> set (claims x @ admitted x)" for t using inv(2) [OF that] idle(3) by simp
  with inv(1) idle(1,2) show ?thesis by simp
qed

text \<open>
  C25: No more clients use a VM at once than its Postgres was measured to allow, and no slot leaks. In
  every reachable state the entry's counter is exactly the number of clients counted, the free slots
  and the clients that hold a permit, from taking it to giving it back, make up the limit, and so a VM
  that nobody uses has all its slots free.
\<close>

theorem slots_never_leak:
  assumes "run_of use_start (use_step timeout) x"
  shows "active (entry x) = guards x
       \<and> slots (entry x) + length (admitted x) + guards x + leaving x + parting x = slot_limit (entry x)
       \<and> guards x \<le> slot_limit (entry x)"
  using entry_runs.reachable_inv [OF assms] by (auto simp: use_inv_def)

text \<open>One connection: it claims the entry at its creation, is counted, ends 100 seconds later.\<close>

definition used_entry :: "nat \<Rightarrow> nat \<Rightarrow> nat \<Rightarrow> nat \<Rightarrow> nat \<Rightarrow> entry_use" where
  "used_entry now act free using_it going =
     \<lparr>clock = now, entry = \<lparr>keepalive = False, active = act, last_active_at = 0, slots = free, slot_limit = 1\<rparr>,
      claims = [], admitted = [], guards = using_it, leaving = going, parting = 0, in_map = True, reaped = False\<rparr>"

lemma used_entry_run: "run_of use_start (use_step 10) (used_entry 100 1 0 1 0)"
proof -
  let ?x0 = "\<lparr>clock = 0, entry = entry_new 0 False 1, claims = [0], admitted = [], guards = 0, leaving = 0, parting = 0,
      in_map = True, reaped = False\<rparr>"
  let ?x1 = "?x0\<lparr>claims := [], admitted := [0], entry := (entry_new 0 False 1)\<lparr>slots := 0\<rparr>\<rparr>"
  have "use_start ?x0"
    unfolding use_start_def by (intro exI [of _ 0] exI [of _ False] exI [of _ 1]) simp
  then have r0: "run_of use_start (use_step 10) ?x0" by (rule run_init)
  have "use_step 10 ?x0 ?x1"
    using use_step.permit [of 0 ?x0 "(entry_new 0 False 1)\<lparr>slots := 0\<rparr>" 10] by (simp add: take_permit_def entry_new_def)
  with r0 have r1: "run_of use_start (use_step 10) ?x1" by (rule run_step)
  have "use_step 10 ?x1 (used_entry 0 1 0 1 0)"
    using use_step.count [of 0 ?x1 10] by (simp add: used_entry_def count_in_use_def touch_def entry_new_def)
  with r1 have r2: "run_of use_start (use_step 10) (used_entry 0 1 0 1 0)" by (rule run_step)
  have "use_step 10 (used_entry 0 1 0 1 0) (used_entry 100 1 0 1 0)"
    using use_step.tick [of 10 "used_entry 0 1 0 1 0" 100] by (simp add: used_entry_def)
  with r2 show ?thesis by (rule run_step)
qed

lemma used_entry_leaving: "run_of use_start (use_step 10) (used_entry 100 0 0 0 1)"
proof -
  have "use_step 10 (used_entry 100 1 0 1 0) (used_entry 100 0 0 0 1)"
    using use_step.uncount [of "used_entry 100 1 0 1 0" 10] by (simp add: used_entry_def guard_uncount_def)
  with used_entry_run show ?thesis by (rule run_step)
qed

theorem reaper_spares_connections_witness:
  "is_idle (100 :: nat) 10 (entry (used_entry 100 0 0 0 1)) \<and> guards (used_entry 100 0 0 0 1) = 0"
proof -
  have i: "is_idle (clock (used_entry 100 0 0 0 1)) 10 (entry (used_entry 100 0 0 0 1))"
    by (simp add: is_idle_def used_entry_def)
  from reaper_spares_connections [OF used_entry_leaving i] i show ?thesis by (simp add: used_entry_def)
qed

theorem slots_never_leak_witness:
  "active (entry (used_entry 100 1 0 1 0)) = 1 \<and> guards (used_entry 100 1 0 1 0) \<le> slot_limit (entry (used_entry 100 1 0 1 0))"
  using slots_never_leak [OF used_entry_run] by (simp add: used_entry_def)

text \<open>
  A guard that is dropped stops being counted before it refreshes the entry. In between the entry shows
  no user and the time its connection began, so the reaper may take a VM whose connection ends at this
  moment, however short the time since: here after 100 seconds of use, with a timeout of 10.
\<close>

lemma leaving_client_looks_idle:
  "\<exists>x y. run_of use_start (use_step 10) x \<and> leaving x = 1 \<and> use_step 10 x y \<and> reaped y"
proof (intro exI conjI)
  show "run_of use_start (use_step 10) (used_entry 100 0 0 0 1)" by (rule used_entry_leaving)
  show "leaving (used_entry 100 0 0 0 1) = 1" by (simp add: used_entry_def)
  show "use_step 10 (used_entry 100 0 0 0 1) ((used_entry 100 0 0 0 1)\<lparr>in_map := False, reaped := True\<rparr>)"
    by (rule reap) (simp_all add: used_entry_def is_idle_def)
  show "reaped ((used_entry 100 0 0 0 1)\<lparr>in_map := False, reaped := True\<rparr>)" by simp
qed

section \<open>One pass of the idle reaper\<close>

definition IDLE_MAX_STOPS_PER_PASS :: nat where
  "IDLE_MAX_STOPS_PER_PASS = 24"

text \<open>
  The entries map with its cells (None while one is being initialised). \<open>jittered\<close> is
  \<open>jittered_timeout\<close>, the timeout scaled by a hash of the schema's name.
\<close>

definition expired :: "nat \<Rightarrow> (string \<Rightarrow> nat) \<Rightarrow> (string, schema_entry option) hashmap \<Rightarrow> (string \<times> nat) list" where
  "expired now jittered m =
     List.map_filter (\<lambda>(schema, cell).
       (case cell of
          None \<Rightarrow> None
        | Some e \<Rightarrow> if is_idle now (jittered schema) e then Some (schema, idle_for now e) else None)) m"

fun evict_all :: "string list \<Rightarrow> (string, schema_entry option) hashmap \<Rightarrow>
    (string \<times> schema_entry) list \<times> (string, schema_entry option) hashmap" where
  "evict_all [] m = ([], m)"
| "evict_all (schema # rest) m =
     (case hm_get m schema of
        Some (Some e) \<Rightarrow>
          (case evict_all rest (hm_remove schema m) of (victims, m') \<Rightarrow> ((schema, e) # victims, m'))
      | _ \<Rightarrow> evict_all rest m)"

text \<open>\<open>sort_by_key\<close> is stable; \<open>Reverse\<close> puts the longest idle first. The result also says how many are put off.\<close>

definition reap_idle ::
  "nat \<Rightarrow> (string \<Rightarrow> nat) \<Rightarrow> (string, schema_entry option) hashmap \<Rightarrow>
     (string \<times> schema_entry) list \<times> (string, schema_entry option) hashmap \<times> nat" where
  "reap_idle now jittered m =
     (let ex = sort_key (\<lambda>(_, idle). - int idle) (expired now jittered m);
          put_off = length ex - IDLE_MAX_STOPS_PER_PASS
      in case evict_all (map fst (take IDLE_MAX_STOPS_PER_PASS ex)) m of
           (victims, m') \<Rightarrow> (victims, m', put_off))"

lemma expired_iff:
  "hm_wf m \<Longrightarrow> (schema, i) \<in> set (expired now jittered m) \<longleftrightarrow>
     (\<exists>e. hm_get m schema = Some (Some e) \<and> is_idle now (jittered schema) e \<and> i = idle_for now e)"
proof -
  assume wf: "hm_wf m"
  have "(schema, i) \<in> set (expired now jittered m) \<longleftrightarrow>
      (\<exists>e. (schema, Some e) \<in> set m \<and> is_idle now (jittered schema) e \<and> i = idle_for now e)"
    unfolding expired_def by (induction m) (auto simp: List.map_filter_simps split: option.splits if_splits)
  with wf show ?thesis by (simp add: hm_in_set)
qed

lemma expired_distinct: "hm_wf m \<Longrightarrow> distinct (map fst (expired now jittered m))"
proof (induction m)
  case Nil
  then show ?case by (simp add: expired_def List.map_filter_simps)
next
  case (Cons kv m)
  obtain k c where kv: "kv = (k, c)" by (cases kv)
  with Cons.prems have "k \<notin> fst ` set m" "hm_wf m" by (auto simp: hm_wf_def)
  moreover have "fst ` set (expired now jittered m) \<subseteq> fst ` set m"
    unfolding expired_def by (induction m) (auto simp: List.map_filter_simps split: option.splits if_splits)
  ultimately show ?case using Cons.IH kv
    by (auto simp: expired_def List.map_filter_simps split: option.splits)
qed

lemma evict_all_spec:
  assumes "distinct ids" "\<And>s. s \<in> set ids \<Longrightarrow> \<exists>e. hm_get m s = Some (Some e)"
  shows "fst (evict_all ids m) = map (\<lambda>s. (s, the (the (hm_get m s)))) ids
       \<and> hm_get (snd (evict_all ids m)) = (\<lambda>s. if s \<in> set ids then None else hm_get m s)"
  using assms
proof (induction ids arbitrary: m)
  case (Cons s ids)
  obtain e where e: "hm_get m s = Some (Some e)" using Cons.prems(2) by auto
  have "\<exists>e. hm_get (hm_remove s m) t = Some (Some e)" if "t \<in> set ids" for t
    using Cons.prems that by (auto simp: fun_upd_def)
  note IH = Cons.IH [OF _ this]
  have d: "distinct ids" "s \<notin> set ids" using Cons.prems(1) by simp_all
  have "map (\<lambda>t. (t, the (the (hm_get (hm_remove s m) t)))) ids = map (\<lambda>t. (t, the (the (hm_get m t)))) ids"
    using d(2) by auto
  with IH [OF d(1)] e show ?case by (auto simp: fun_eq_iff split: prod.splits)
qed simp

lemma sorted_key_take:
  "sorted (map f xs) \<Longrightarrow> a \<in> set (take n xs) \<Longrightarrow> b \<in> set (drop n xs) \<Longrightarrow> f a \<le> (f b :: int)"
proof -
  assume s: "sorted (map f xs)" and ab: "a \<in> set (take n xs)" "b \<in> set (drop n xs)"
  have "sorted (map f (take n xs) @ map f (drop n xs))" using s by (metis append_take_drop_id map_append)
  with ab show ?thesis by (auto simp: sorted_append)
qed

text \<open>
  One pass of the idle reaper takes the longest idle entries and nothing else. Every entry it takes
  is idle for its schema's timeout; it takes 24, or all that are idle if they are fewer; no idle entry
  it leaves has been idle longer than one it takes; it reports how many idle ones it leaves; and the
  map keeps every other cell as it was, initialised or not.
\<close>

theorem reap_idle_takes_longest_idle:
  assumes "hm_wf m" "reap_idle now jittered m = (victims, m', put_off)"
  shows "list_all (\<lambda>(schema, e). hm_get m schema = Some (Some e) \<and> is_idle now (jittered schema) e) victims
       \<and> length victims = min 24 (length (expired now jittered m)) \<and> put_off = length (expired now jittered m) - 24
       \<and> hm_get m' = (\<lambda>schema. if schema \<in> fst ` set victims then None else hm_get m schema)
       \<and> (\<forall>schema e. hm_get m' schema = Some (Some e) \<and> is_idle now (jittered schema) e \<longrightarrow>
            list_all (\<lambda>(_, v). idle_for now e \<le> idle_for now v) victims)"
proof -
  let ?key = "\<lambda>(_ :: string, idle). - int idle"
  let ?ex = "sort_key ?key (expired now jittered m)"
  let ?ids = "map fst (take 24 ?ex)"
  have ex: "(s, i) \<in> set ?ex \<longleftrightarrow> (\<exists>e. hm_get m s = Some (Some e) \<and> is_idle now (jittered s) e \<and> i = idle_for now e)" for s i
    using expired_iff [OF assms(1)] by simp
  have dx: "distinct (map fst ?ex)"
    using expired_distinct [OF assms(1), of now jittered] by (simp add: distinct_map inj_on_def)
  then have d: "distinct ?ids" unfolding take_map [symmetric] by (rule distinct_take)
  have "\<exists>e. hm_get m s = Some (Some e)" if "s \<in> set ?ids" for s
    using that ex by (auto dest!: in_set_takeD)
  from evict_all_spec [OF d this] assms(2)
  have v: "victims = map (\<lambda>s. (s, the (the (hm_get m s)))) ?ids"
    and m': "hm_get m' = (\<lambda>s. if s \<in> set ?ids then None else hm_get m s)" and p: "put_off = length ?ex - 24"
    by (auto simp: reap_idle_def IDLE_MAX_STOPS_PER_PASS_def Let_def split: prod.splits)
  have vic: "(s, e) \<in> set victims \<Longrightarrow> (s, idle_for now e) \<in> set (take 24 ?ex) \<and> hm_get m s = Some (Some e) \<and> is_idle now (jittered s) e" for s e
  proof -
    assume "(s, e) \<in> set victims"
    then obtain i where i: "(s, i) \<in> set (take 24 ?ex)" "e = the (the (hm_get m s))" unfolding v by auto
    with ex [of s i] show ?thesis by (auto dest: in_set_takeD)
  qed
  have left: "idle_for now e \<le> idle_for now w"
    if "hm_get m' s = Some (Some e)" "is_idle now (jittered s) e" "(t, w) \<in> set victims" for s e t w
  proof -
    have "s \<notin> set ?ids" "hm_get m s = Some (Some e)" using that(1) m' by (auto split: if_splits)
    then have "(s, idle_for now e) \<in> set ?ex" "(s, idle_for now e) \<notin> set (take 24 ?ex)"
      using ex [of s "idle_for now e"] that(2) by (auto intro: rev_image_eqI)
    moreover have "set ?ex = set (take 24 ?ex) \<union> set (drop 24 ?ex)" by (metis append_take_drop_id set_append)
    ultimately have "(s, idle_for now e) \<in> set (drop 24 ?ex)" by blast
    with vic [OF that(3)] sorted_key_take [of ?key ?ex "(t, idle_for now w)" 24 "(s, idle_for now e)"] show ?thesis
      by simp
  qed
  have "fst ` set victims = set ?ids" unfolding v by force
  moreover have "length victims = min 24 (length (expired now jittered m))" by (simp add: v)
  moreover have "list_all (\<lambda>(_, v). idle_for now e \<le> idle_for now v) victims"
    if "hm_get m' s = Some (Some e) \<and> is_idle now (jittered s) e" for s e
    unfolding list_all_iff using left that by blast
  moreover have "list_all (\<lambda>(schema, e). hm_get m schema = Some (Some e) \<and> is_idle now (jittered schema) e) victims"
    unfolding list_all_iff using vic by blast
  ultimately show ?thesis using m' p by simp
qed

definition sleepy :: "nat \<Rightarrow> schema_entry" where
  "sleepy t = entry_new t False 3"

theorem reap_idle_takes_longest_idle_witness:
  "\<exists>victims m' put_off. reap_idle 100 (\<lambda>_. 10) [(''a'', Some (sleepy 95)), (''b'', Some (sleepy 50))] = (victims, m', put_off)
     \<and> list_all (\<lambda>(schema, e). is_idle (100 :: nat) 10 e) victims \<and> length victims = 1"
proof -
  let ?m = "[(''a'', Some (sleepy 95)), (''b'', Some (sleepy 50))]"
  obtain victims m' put_off where r: "reap_idle 100 (\<lambda>_. 10) ?m = (victims, m', put_off)" by (metis prod_cases3)
  have "hm_wf ?m" by (simp add: hm_wf_def)
  note reap_idle_takes_longest_idle [OF this r]
  moreover have "length (expired 100 (\<lambda>_. 10) ?m) = 1"
    by (simp add: expired_def List.map_filter_simps is_idle_def sleepy_def entry_new_def)
  ultimately show ?thesis using r by (auto simp: list_all_iff)
qed

end
