(* ===== verification/Readiness.thy ===== *)
theory Readiness
  imports Spares
begin

text \<open>
  Getting a VM's Postgres ready, and getting rid of a VM: \<open>probe_pg\<close>, \<open>probe_pg_window\<close>, \<open>wait_pg_ready\<close>,
  \<open>ready_pg\<close>, \<open>power_cycle\<close>, \<open>kill_and_reclaim\<close> and \<open>stop_after_failed_bringup\<close> of \<open>src/src/vm.rs\<close>. The guest
  is a function from the time an attempt begins (in milliseconds) to how the attempt goes.
\<close>

section \<open>One attempt\<close>

text \<open>
  An error with a SQLSTATE was composed by the server; one without came from a closed or refused
  connection. Getting a client from the pool takes finitely long (the pool is built with time limits);
  a query may take forever.
\<close>

datatype pg_err = Sqlstate | No_Sqlstate
datatype query_outcome = Answers nat | Query_Fails nat pg_err | Hangs
datatype attempt = Client nat query_outcome | Backend_Fails nat pg_err | Pool_Fails nat

datatype pg_verdict = Ready | Responding | Stalled | Unreachable

definition classify_pg_error :: "pg_err \<Rightarrow> pg_verdict" where
  "classify_pg_error e = (case e of Sqlstate \<Rightarrow> Responding | No_Sqlstate \<Rightarrow> Unreachable)"

text \<open>The verdict an attempt would come to, and how long it takes; None if it never does.\<close>

fun attempt_verdict :: "attempt \<Rightarrow> (pg_verdict \<times> nat) option" where
  "attempt_verdict (Client n (Answers m)) = Some (Ready, n + m)"
| "attempt_verdict (Client n (Query_Fails m e)) = Some (classify_pg_error e, n + m)"
| "attempt_verdict (Client n Hangs) = None"
| "attempt_verdict (Backend_Fails n e) = Some (classify_pg_error e, n)"
| "attempt_verdict (Pool_Fails n) = Some (Stalled, n)"

definition PG_PROBE_ATTEMPT :: nat where "PG_PROBE_ATTEMPT = 3000"
definition PG_PROBE_WINDOW :: nat where "PG_PROBE_WINDOW = 15000"
definition PG_POLL_FAST :: nat where "PG_POLL_FAST = 100"
definition PG_POLL_SLOW :: nat where "PG_POLL_SLOW = 500"
definition PG_POLL_FAST_WINDOW :: nat where "PG_POLL_FAST_WINDOW = 5000"

definition pg_poll_interval :: "nat \<Rightarrow> nat" where
  "pg_poll_interval elapsed = (if elapsed < PG_POLL_FAST_WINDOW then PG_POLL_FAST else PG_POLL_SLOW)"

lemma pg_poll_interval_pos [simp]: "0 < pg_poll_interval n"
  by (simp add: pg_poll_interval_def PG_POLL_FAST_def PG_POLL_SLOW_def)

text \<open>\<open>probe_pg\<close>: the verdict and the time it is reached.\<close>

definition probe_pg :: "(nat \<Rightarrow> attempt) \<Rightarrow> nat \<Rightarrow> pg_verdict \<times> nat" where
  "probe_pg srv now =
     (case attempt_verdict (srv now) of
        Some (v, d) \<Rightarrow> if d < PG_PROBE_ATTEMPT then (v, now + d) else (Stalled, now + PG_PROBE_ATTEMPT)
      | None \<Rightarrow> (Stalled, now + PG_PROBE_ATTEMPT))"

lemma probe_pg_time: "now \<le> snd (probe_pg srv now)"
  by (auto simp: probe_pg_def split: option.splits)

lemma next_poll_later:
  assumes "now \<le> t" and "\<not> deadline \<le> t"
  shows "deadline - (t + pg_poll_interval k) < deadline - now"
  using assms pg_poll_interval_pos [of k] by linarith

lemma probe_pg_advances: "(v, t) = probe_pg srv now \<Longrightarrow> now \<le> t"
  by (metis probe_pg_time snd_conv)

section \<open>The probe window\<close>

function window_loop :: "(nat \<Rightarrow> attempt) \<Rightarrow> nat \<Rightarrow> nat \<Rightarrow> bool \<Rightarrow> nat \<Rightarrow> pg_verdict \<times> nat" where
  "window_loop srv start deadline stalled now =
     (case probe_pg srv now of
        (v, t) \<Rightarrow>
          if v = Ready \<or> v = Responding then (v, t)
          else let stalled' = (stalled \<or> v = Stalled)
               in if deadline \<le> t then (if stalled' then Stalled else Unreachable, t)
                  else window_loop srv start deadline stalled' (t + pg_poll_interval (t - start)))"
  by pat_completeness auto
termination
  by (relation "measure (\<lambda>(srv, start, deadline, stalled, now). deadline - now)")
    (simp_all add: next_poll_later probe_pg_advances)

declare window_loop.simps [simp del]

definition probe_pg_window :: "(nat \<Rightarrow> attempt) \<Rightarrow> nat \<Rightarrow> nat \<Rightarrow> pg_verdict \<times> nat" where
  "probe_pg_window srv now window = window_loop srv now (now + window) False now"

text \<open>The verdicts of the probes the window makes, in order.\<close>

function window_probes :: "(nat \<Rightarrow> attempt) \<Rightarrow> nat \<Rightarrow> nat \<Rightarrow> nat \<Rightarrow> pg_verdict list" where
  "window_probes srv start deadline now =
     (case probe_pg srv now of
        (v, t) \<Rightarrow>
          if v = Ready \<or> v = Responding \<or> deadline \<le> t then [v]
          else v # window_probes srv start deadline (t + pg_poll_interval (t - start)))"
  by pat_completeness auto
termination
  by (relation "measure (\<lambda>(srv, start, deadline, now). deadline - now)")
    (simp_all add: next_poll_later probe_pg_advances)

declare window_probes.simps [simp del]

section \<open>Waiting for readiness\<close>

text \<open>None when an attempt hangs: the loop checks its deadline between attempts only.\<close>

function wait_loop :: "(nat \<Rightarrow> attempt) \<Rightarrow> nat \<Rightarrow> nat \<Rightarrow> nat \<Rightarrow> (bool \<times> nat) option" where
  "wait_loop srv start deadline now =
     (case attempt_verdict (srv now) of
        None \<Rightarrow> None
      | Some (v, d) \<Rightarrow>
          if v = Ready then Some (True, now + d)
          else if deadline \<le> now + d then Some (False, now + d)
          else wait_loop srv start deadline (now + d + pg_poll_interval (now + d - start)))"
  by pat_completeness auto
termination
  by (relation "measure (\<lambda>(srv, start, deadline, now). deadline - now)")
    (simp_all add: next_poll_later)

declare wait_loop.simps [simp del]

definition wait_pg_ready :: "(nat \<Rightarrow> attempt) \<Rightarrow> nat \<Rightarrow> nat \<Rightarrow> (bool \<times> nat) option" where
  "wait_pg_ready srv now timeout = wait_loop srv now (now + timeout) now"

section \<open>Readiness, with one power cycle at most\<close>

datatype vm_action = Stop_Vm | Start_Vm

text \<open>
  What the daemon does for one bring-up: whether a connection can be set up before and after a reboot,
  the stop, the start and the ready wait; the guest before and after; how long the reboot takes.
\<close>

record pg_host =
  connect1 :: bool
  connect2 :: bool
  stops_vm :: bool
  starts_vm :: bool
  becomes_ready :: bool
  reboot_takes :: nat
  guest :: "nat \<Rightarrow> attempt"
  rebooted_guest :: "nat \<Rightarrow> attempt"

text \<open>The result (None while it hangs) and the requests sent to the daemon.\<close>

definition power_cycle :: "pg_host \<Rightarrow> nat \<Rightarrow> nat \<Rightarrow> bool option \<times> vm_action list" where
  "power_cycle h ready_timeout now =
     (if \<not> stops_vm h then (Some False, [Stop_Vm])
      else if \<not> starts_vm h \<or> \<not> becomes_ready h \<or> \<not> connect2 h then (Some False, [Stop_Vm, Start_Vm])
      else (map_option fst (wait_pg_ready (rebooted_guest h) (now + reboot_takes h) ready_timeout), [Stop_Vm, Start_Vm]))"

definition ready_pg :: "pg_host \<Rightarrow> nat \<Rightarrow> nat \<Rightarrow> bool option \<times> vm_action list" where
  "ready_pg h ready_timeout now =
     (if \<not> connect1 h then (Some False, [])
      else case probe_pg_window (guest h) now PG_PROBE_WINDOW of
             (Ready, _) \<Rightarrow> (Some True, [])
           | (Responding, t) \<Rightarrow> (map_option fst (wait_pg_ready (guest h) t ready_timeout), [])
           | (Stalled, t) \<Rightarrow>
               (case wait_pg_ready (guest h) t ready_timeout of
                  None \<Rightarrow> (None, [])
                | Some (True, _) \<Rightarrow> (Some True, [])
                | Some (False, t') \<Rightarrow> power_cycle h ready_timeout t')
           | (Unreachable, t) \<Rightarrow> power_cycle h ready_timeout t)"

section \<open>Killing a VM and its directory\<close>

text \<open>
  \<open>kill_and_reclaim\<close>: whether the daemon acknowledged the kill, whether the run directory is configured,
  whether the VM's directory is there at each look, the daemon's answer for the id (None when it did not
  answer in time), and whether the removal succeeds.
\<close>

record kill_world =
  kill_acked :: bool
  run_dir :: "string option"
  dir_there :: "nat \<Rightarrow> bool"
  get_after :: "get_answer option"
  remove_ok :: bool

datatype kill_outcome = Kill_Failed | Unverified | Reclaimed | Removed_Directly string | Remove_Failed string | Left_For_Sweep

definition KILL_VERIFY_ATTEMPTS :: nat where "KILL_VERIFY_ATTEMPTS = 8"

definition kill_and_reclaim :: "kill_world \<Rightarrow> string \<Rightarrow> kill_outcome" where
  "kill_and_reclaim w sid =
     (if \<not> kill_acked w then Kill_Failed
      else case run_dir w of
             None \<Rightarrow> Unverified
           | Some d \<Rightarrow>
               let dir = d @ ''/'' @ sid
               in if list_ex (\<lambda>attempt. \<not> dir_there w attempt) [0..<KILL_VERIFY_ATTEMPTS] then Reclaimed
                  else if get_after w = Some Got_Not_Found
                       then (if remove_ok w then Removed_Directly dir else Remove_Failed dir)
                       else Left_For_Sweep)"

section \<open>Stopping what a failed bring-up left\<close>

text \<open>
  The ids \<open>stop_after_failed_bringup\<close> asks the daemon to stop: the one of the ledger, the known one, and
  the VM of that name only when there is neither. The lookup's answer is \<open>None\<close> when it failed.
\<close>

definition ids_to_stop :: "ledger \<Rightarrow> string \<Rightarrow> string option \<Rightarrow> string option option \<Rightarrow> string list" where
  "ids_to_stop l schema known by_name =
     (let held_ids = (case hm_get (entries l) schema of None \<Rightarrow> [] | Some (sid, _) \<Rightarrow> [sid]);
          ids = (case known of None \<Rightarrow> held_ids
                 | Some k \<Rightarrow> if k \<in> set held_ids then held_ids else held_ids @ [k])
      in if ids \<noteq> [] then ids
         else case by_name of None \<Rightarrow> [] | Some None \<Rightarrow> [] | Some (Some sid) \<Rightarrow> [sid])"

definition stop_after_failed_bringup ::
    "(string \<Rightarrow> bool) \<Rightarrow> ledger \<Rightarrow> string \<Rightarrow> string option \<Rightarrow> string option option \<Rightarrow> string list" where
  "stop_after_failed_bringup connects l schema known by_name =
     filter connects (ids_to_stop l schema known by_name)"

section \<open>What the window reports\<close>

definition alive :: "pg_verdict \<Rightarrow> bool" where
  "alive v = (v = Ready \<or> v = Responding)"

definition window_summary :: "bool \<Rightarrow> pg_verdict list \<Rightarrow> pg_verdict" where
  "window_summary stalled vs =
     (case filter alive vs of
        v # _ \<Rightarrow> v
      | [] \<Rightarrow> if stalled \<or> Stalled \<in> set vs then Stalled else Unreachable)"

lemma alive_simps [simp]: "alive Ready" "alive Responding" "\<not> alive Stalled" "\<not> alive Unreachable"
  by (simp_all add: alive_def)

lemma not_alive: "\<not> alive v \<longleftrightarrow> v = Stalled \<or> v = Unreachable"
  by (cases v) simp_all

lemma window_summary_Cons [simp]:
  "window_summary stalled (v # vs) = (if alive v then v else window_summary (stalled \<or> v = Stalled) vs)"
  by (auto simp: window_summary_def split: list.splits)

lemma window_summary_Nil [simp]: "window_summary stalled [] = (if stalled then Stalled else Unreachable)"
  by (simp add: window_summary_def)

lemma window_loop_summary:
  "fst (window_loop srv start deadline stalled now) =
     window_summary stalled (window_probes srv start deadline now)"
proof (induction srv start deadline stalled now rule: window_loop.induct)
  case (1 srv start deadline stalled now)
  obtain v t where p: "probe_pg srv now = (v, t)" by fastforce
  show ?case
    by (cases v; subst window_loop.simps; subst window_probes.simps)
      (use 1 p in \<open>auto simp: Let_def\<close>)
qed

lemma probe_pg_bounded: "snd (probe_pg srv now) \<le> now + PG_PROBE_ATTEMPT"
  by (auto simp: probe_pg_def split: option.splits)

lemma pg_poll_interval_le: "pg_poll_interval n \<le> PG_POLL_SLOW"
  by (simp add: pg_poll_interval_def PG_POLL_FAST_def PG_POLL_SLOW_def)

lemma window_loop_bounded:
  "now \<le> deadline + PG_POLL_SLOW \<Longrightarrow>
   snd (window_loop srv start deadline stalled now) \<le> deadline + PG_POLL_SLOW + PG_PROBE_ATTEMPT"
proof (induction srv start deadline stalled now rule: window_loop.induct)
  case (1 srv start deadline stalled now)
  obtain v t where p: "probe_pg srv now = (v, t)" by fastforce
  have t: "t \<le> now + PG_PROBE_ATTEMPT" using probe_pg_bounded [of srv now] p by simp
  have "t + pg_poll_interval (t - start) \<le> deadline + PG_POLL_SLOW" if "\<not> deadline \<le> t"
    using that pg_poll_interval_le [of "t - start"] by linarith
  with 1 p t show ?case
    by (subst window_loop.simps) (auto simp: Let_def)
qed

lemma window_loop_full:
  "\<not> alive (fst (window_loop srv start deadline stalled now)) \<Longrightarrow>
   deadline \<le> snd (window_loop srv start deadline stalled now)"
proof (induction srv start deadline stalled now rule: window_loop.induct)
  case (1 srv start deadline stalled now)
  obtain v t where p: "probe_pg srv now = (v, t)" by fastforce
  from 1 p show ?case
    by (subst window_loop.simps, subst (asm) (3) window_loop.simps) (auto simp: Let_def split: if_splits)
qed

section \<open>How long the wait takes\<close>

text \<open>The verdicts of the attempts the wait makes.\<close>

function wait_verdicts :: "(nat \<Rightarrow> attempt) \<Rightarrow> nat \<Rightarrow> nat \<Rightarrow> nat \<Rightarrow> pg_verdict list" where
  "wait_verdicts srv start deadline now =
     (case attempt_verdict (srv now) of
        None \<Rightarrow> []
      | Some (v, d) \<Rightarrow>
          if v = Ready \<or> deadline \<le> now + d then [v]
          else v # wait_verdicts srv start deadline (now + d + pg_poll_interval (now + d - start)))"
  by pat_completeness auto
termination
  by (relation "measure (\<lambda>(srv, start, deadline, now). deadline - now)")
    (simp_all add: next_poll_later)

declare wait_verdicts.simps [simp del]

lemma wait_loop_verdicts:
  "wait_loop srv start deadline now = Some (b, t) \<Longrightarrow>
   (b \<longleftrightarrow> Ready \<in> set (wait_verdicts srv start deadline now)) \<and> (b \<or> deadline \<le> t)"
proof (induction srv start deadline now rule: wait_loop.induct)
  case (1 srv start deadline now)
  from 1(2) obtain v d where a: "attempt_verdict (srv now) = Some (v, d)"
    by (subst (asm) wait_loop.simps) (auto split: option.splits)
  have loop: "(if v = Ready then Some (True, now + d) else if deadline \<le> now + d then Some (False, now + d)
      else wait_loop srv start deadline (now + d + pg_poll_interval (now + d - start))) = Some (b, t)"
    using 1(2) a by (subst (asm) wait_loop.simps) simp
  show ?case
    using loop 1(1) [OF a refl] a by (subst wait_verdicts.simps) (auto split: if_splits)
qed

lemma wait_loop_returns:
  assumes "\<forall>s. \<exists>v d. attempt_verdict (srv s) = Some (v, d) \<and> d \<le> longest"
  shows "now \<le> deadline + PG_POLL_SLOW \<Longrightarrow>
     \<exists>b t. wait_loop srv start deadline now = Some (b, t) \<and> t \<le> deadline + PG_POLL_SLOW + longest"
  using assms
proof (induction srv start deadline now rule: wait_loop.induct)
  case (1 srv start deadline now)
  obtain v d where a: "attempt_verdict (srv now) = Some (v, d)" "d \<le> longest" using 1(3) by blast
  have "now + d + pg_poll_interval (now + d - start) \<le> deadline + PG_POLL_SLOW" if "\<not> deadline \<le> now + d"
    using that pg_poll_interval_le [of "now + d - start"] by linarith
  with 1(1) [OF a(1) refl] 1(2,3) a show ?case
    by (subst wait_loop.simps) auto
qed

text \<open>
  C32: \<open>wait_pg_ready\<close> comes back, and within its time limit plus one poll interval plus one attempt, as
  soon as no attempt hangs and each takes at most \<open>longest\<close>; it then reports success exactly when one of its
  attempts had an answer, and a failure only after the whole time limit. The bound on an attempt is a
  real condition: the code sets none on the query itself.
\<close>
theorem wait_pg_ready_returns:
  assumes "\<forall>s. \<exists>v d. attempt_verdict (srv s) = Some (v, d) \<and> d \<le> longest"
  shows "\<exists>b t. wait_pg_ready srv now timeout = Some (b, t)
     \<and> t \<le> now + timeout + PG_POLL_SLOW + longest
     \<and> (b \<longleftrightarrow> Ready \<in> set (wait_verdicts srv now (now + timeout) now))
     \<and> (b \<or> now + timeout \<le> t)"
proof -
  obtain b t where "wait_pg_ready srv now timeout = Some (b, t)" "t \<le> now + timeout + PG_POLL_SLOW + longest"
    using wait_loop_returns [OF assms, of now "now + timeout" now] by (auto simp: wait_pg_ready_def)
  with wait_loop_verdicts [of srv now "now + timeout" now b t] show ?thesis
    by (auto simp: wait_pg_ready_def)
qed

definition booting_guest :: "nat \<Rightarrow> attempt" where
  "booting_guest s = (if s < 400 then Backend_Fails 1 No_Sqlstate else Client 2 (Answers 3))"

lemma booting_guest_attempts: "\<forall>s. \<exists>v d. attempt_verdict (booting_guest s) = Some (v, d) \<and> d \<le> 5"
  by (simp add: booting_guest_def)

text \<open>A guest that opens its port after 400 ms: ready at the fifth poll.\<close>
theorem wait_pg_ready_returns_witness:
  "wait_pg_ready booting_guest 0 300000 = Some (True, 409)
   \<and> Ready \<in> set (wait_verdicts booting_guest 0 300000 0)"
proof -
  have "wait_pg_ready booting_guest 0 300000 = Some (True, 409)"
    by (simp add: wait_pg_ready_def wait_loop.simps booting_guest_def pg_poll_interval_def
        PG_POLL_FAST_def PG_POLL_FAST_WINDOW_def classify_pg_error_def)
  with wait_pg_ready_returns [of booting_guest 5 0 300000, OF booting_guest_attempts] show ?thesis
    by auto
qed

section \<open>The power cycle\<close>

lemma probe_window_facts:
  assumes "probe_pg_window srv now window = (v, t)"
  shows "v = window_summary False (window_probes srv now (now + window) now)
     \<and> t \<le> now + window + PG_POLL_SLOW + PG_PROBE_ATTEMPT \<and> (alive v \<or> now + window \<le> t)"
  using assms window_loop_summary [of srv now "now + window" False now]
    window_loop_bounded [of now "now + window" srv now False]
    window_loop_full [of srv now "now + window" False now]
  by (cases "alive v") (simp_all add: probe_pg_window_def)

text \<open>
  The window's verdict is the summary of the probes it made (the first live answer; otherwise stalled if
  anything stalled; otherwise unreachable), a verdict without a live answer takes the whole window, and
  the window ends within one poll interval and one bounded attempt of its time, whatever the guest does.
\<close>
theorem probe_window_sound:
  "case probe_pg_window srv now window of
     (v, t) \<Rightarrow> v = window_summary False (window_probes srv now (now + window) now)
       \<and> t \<le> now + window + PG_POLL_SLOW + PG_PROBE_ATTEMPT
       \<and> (alive v \<or> now + window \<le> t)"
  using probe_window_facts [of srv now window] by (cases "probe_pg_window srv now window") simp

lemma window_summary_not_alive: "\<not> alive (window_summary stalled vs) \<Longrightarrow> v \<in> set vs \<Longrightarrow> \<not> alive v"
  by (induction vs arbitrary: stalled) (auto split: if_splits)

lemma power_cycle_actions: "snd (power_cycle h rt now) \<in> {[Stop_Vm], [Stop_Vm, Start_Vm]}"
  by (simp add: power_cycle_def)

lemma ready_pg_cycles:
  assumes "Stop_Vm \<in> set (snd (ready_pg h rt now))"
  obtains v t where "connect1 h" "probe_pg_window (guest h) now PG_PROBE_WINDOW = (v, t)" "\<not> alive v"
    "v = Stalled \<Longrightarrow> \<exists>t'. wait_pg_ready (guest h) t rt = Some (False, t')"
  using assms
  by (auto simp: ready_pg_def split: if_splits prod.splits pg_verdict.splits option.splits bool.splits)

text \<open>
  C19: A VM is power-cycled only on silence: no probe of a whole window was answered, not even with an error;
  and where one of them stalled, no query of the following wait, as long as the ready timeout,
  succeeded either. There is at most one stop, and the only start follows it.
\<close>
theorem power_cycle_needs_silence:
  assumes "Stop_Vm \<in> set (snd (ready_pg h rt now))"
  shows "snd (ready_pg h rt now) \<in> {[Stop_Vm], [Stop_Vm, Start_Vm]}
     \<and> list_all (\<lambda>v. \<not> alive v) (window_probes (guest h) now (now + PG_PROBE_WINDOW) now)
     \<and> (\<exists>v t. probe_pg_window (guest h) now PG_PROBE_WINDOW = (v, t) \<and> now + PG_PROBE_WINDOW \<le> t
          \<and> (v = Unreachable
             \<or> Ready \<notin> set (wait_verdicts (guest h) t (t + rt) t)
               \<and> (\<exists>t'. wait_pg_ready (guest h) t rt = Some (False, t') \<and> t + rt \<le> t')))"
proof -
  from assms obtain v t where w: "connect1 h" "probe_pg_window (guest h) now PG_PROBE_WINDOW = (v, t)" "\<not> alive v"
    and stalled: "v = Stalled \<Longrightarrow> \<exists>t'. wait_pg_ready (guest h) t rt = Some (False, t')"
    by (rule ready_pg_cycles) blast
  have "snd (ready_pg h rt now) \<in> {[], [Stop_Vm], [Stop_Vm, Start_Vm]}"
    using power_cycle_actions [of h rt]
    by (auto simp: ready_pg_def split: if_splits prod.splits pg_verdict.splits option.splits bool.splits)
  then have acts: "snd (ready_pg h rt now) \<in> {[Stop_Vm], [Stop_Vm, Start_Vm]}"
    using assms by auto
  have sound: "v = window_summary False (window_probes (guest h) now (now + PG_PROBE_WINDOW) now)"
    "now + PG_PROBE_WINDOW \<le> t"
    using probe_window_facts [OF w(2)] w(3) by auto
  have "list_all (\<lambda>v. \<not> alive v) (window_probes (guest h) now (now + PG_PROBE_WINDOW) now)"
    using w(3) window_summary_not_alive unfolding sound(1) list_all_iff by blast
  moreover have "v = Unreachable \<or> Ready \<notin> set (wait_verdicts (guest h) t (t + rt) t)
      \<and> (\<exists>t'. wait_pg_ready (guest h) t rt = Some (False, t') \<and> t + rt \<le> t')"
    using stalled w(3) wait_loop_verdicts [of "guest h" t "t + rt" t False]
    by (auto simp: not_alive wait_pg_ready_def)
  ultimately show ?thesis using acts w(2) sound(2) by blast
qed

definition dead_host :: pg_host where
  "dead_host = \<lparr>connect1 = True, connect2 = True, stops_vm = True, starts_vm = True, becomes_ready = True,
     reboot_takes = 1000, guest = (\<lambda>_. Backend_Fails 2000 No_Sqlstate), rebooted_guest = (\<lambda>_. Client 1 (Answers 1))\<rparr>"

lemma window_loop_dead:
  "probe_pg_window (\<lambda>_. Backend_Fails 2000 No_Sqlstate) 0 PG_PROBE_WINDOW = (Unreachable, 16200)"
  by (simp add: probe_pg_window_def window_loop.simps probe_pg_def classify_pg_error_def pg_poll_interval_def
      PG_PROBE_ATTEMPT_def PG_PROBE_WINDOW_def PG_POLL_FAST_def PG_POLL_SLOW_def PG_POLL_FAST_WINDOW_def)

text \<open>A guest whose port is closed is power-cycled once, and is ready again.\<close>
theorem power_cycle_needs_silence_witness:
  "snd (ready_pg dead_host 300000 0) = [Stop_Vm, Start_Vm]
   \<and> list_all (\<lambda>v. \<not> alive v) (window_probes (guest dead_host) 0 PG_PROBE_WINDOW 0)"
proof -
  have "ready_pg dead_host 300000 0 = (Some True, [Stop_Vm, Start_Vm])"
    by (simp add: ready_pg_def power_cycle_def dead_host_def window_loop_dead wait_pg_ready_def wait_loop.simps)
  with power_cycle_needs_silence [of dead_host 300000 0] show ?thesis by simp
qed

text \<open>
  The wait after a stalled window does not tell an error the server composed from silence: a server
  that answers every attempt with a SQLSTATE (out of connections, in recovery) is stopped, though
  the probes would have called each of those answers a sign of life.
\<close>
lemma wait_loop_responding:
  assumes "\<forall>s\<ge>now. \<exists>d. attempt_verdict (srv s) = Some (Responding, d)"
  shows "\<exists>t. wait_loop srv start deadline now = Some (False, t)"
  using assms
proof (induction srv start deadline now rule: wait_loop.induct)
  case (1 srv start deadline now)
  then obtain d where a: "attempt_verdict (srv now) = Some (Responding, d)" by blast
  with 1(1) [OF a refl] 1(2) show ?case by (subst wait_loop.simps) auto
qed

text \<open>
  After a stalled window, a server that is alive and answers every attempt with an error of its own is
  power-cycled all the same, however the window's stalls came about.
\<close>
theorem live_server_power_cycled:
  assumes "connect1 h"
    and "probe_pg_window (guest h) now PG_PROBE_WINDOW = (Stalled, t)"
    and "\<forall>s\<ge>t. \<exists>d. attempt_verdict (guest h s) = Some (Responding, d)"
  shows "Stop_Vm \<in> set (snd (ready_pg h rt now))"
proof -
  obtain t' where "wait_pg_ready (guest h) t rt = Some (False, t')"
    using wait_loop_responding [OF assms(3), of t "t + rt"] by (auto simp: wait_pg_ready_def)
  with assms(1,2) power_cycle_actions [of h rt t'] show ?thesis
    by (auto simp: ready_pg_def)
qed

definition busy_host :: pg_host where
  "busy_host = dead_host\<lparr>guest := (\<lambda>s. if s < 15000 then Client 1 Hangs else Backend_Fails 1 Sqlstate)\<rparr>"

lemma busy_host_window: "probe_pg_window (guest busy_host) 0 PG_PROBE_WINDOW = (Stalled, 16600)"
  by (simp add: busy_host_def probe_pg_window_def window_loop.simps probe_pg_def pg_poll_interval_def
      PG_PROBE_ATTEMPT_def PG_PROBE_WINDOW_def PG_POLL_FAST_def PG_POLL_SLOW_def PG_POLL_FAST_WINDOW_def)

lemma busy_host_answers: "\<forall>s\<ge>16600. \<exists>d. attempt_verdict (guest busy_host s) = Some (Responding, d)"
  by (simp add: busy_host_def classify_pg_error_def)

text \<open>A server that was slow for 15 seconds and is out of connections afterwards.\<close>
theorem live_server_power_cycled_witness:
  "Stop_Vm \<in> set (snd (ready_pg busy_host 300000 0))"
  using live_server_power_cycled [of busy_host 0 16600, OF _ busy_host_window busy_host_answers]
  by (simp add: busy_host_def dead_host_def)

section \<open>The directory of a killed VM\<close>

text \<open>
  The directory of a killed VM is removed by the pooler only when the daemon acknowledged the kill, was
  asked again and no longer knows the id; a directory that vanished at any of the eight looks is left
  alone, and without an answer the directory stays for the orphan sweep.
\<close>
lemma kill_removes_only_forgotten:
  "kill_and_reclaim w sid \<in> {Removed_Directly dir, Remove_Failed dir} \<longleftrightarrow>
     kill_acked w \<and> (\<exists>d. run_dir w = Some d \<and> dir = d @ ''/'' @ sid)
     \<and> (\<forall>n<8. dir_there w n) \<and> get_after w = Some Got_Not_Found"
  by (auto simp: kill_and_reclaim_def KILL_VERIFY_ATTEMPTS_def list_ex_iff Let_def split: option.splits if_splits)

text \<open>
  A VM found by its name only (the row's id is dead, nothing was created) is not stopped: the lookup by
  name is made only when there is no id at all.
\<close>
lemma stale_id_hides_named_vm:
  assumes "hm_get (entries l) schema = None" and "known \<noteq> sid"
  shows "sid \<notin> set (stop_after_failed_bringup connects l schema (Some known) (Some (Some sid)))"
  using assms by (simp add: stop_after_failed_bringup_def ids_to_stop_def)

lemma ledgered_vm_is_stopped:
  assumes "hm_get (entries l) schema = Some (sid, ts)" and "connects sid"
  shows "sid \<in> set (stop_after_failed_bringup connects l schema known by_name)"
  using assms by (auto simp: stop_after_failed_bringup_def ids_to_stop_def Let_def split: option.splits)

end
