(* ===== verification/Settings.thy ===== *)
theory Settings
  imports S3_Sign
begin

text \<open>
  \<open>src/src/config.rs\<close>: the pooler's settings, read once from the environment. An environment is the list
  \<open>std::env::vars\<close> yields; only variables whose value is valid UTF-8 are in it, as for \<open>std::env::var\<close>.
  Durations are in seconds. The parsers of socket addresses and of floating-point numbers are parameters,
  so every theorem holds for whatever they accept.
\<close>

section \<open>Parts of the standard library\<close>

type_synonym env = "(string \<times> string) list"

abbreviation var :: "env \<Rightarrow> string \<Rightarrow> string option" where
  "var e k \<equiv> map_of e k"

definition opt_filter :: "('a \<Rightarrow> bool) \<Rightarrow> 'a option \<Rightarrow> 'a option" where
  "opt_filter p x = (case x of None \<Rightarrow> None | Some v \<Rightarrow> if p v then Some v else None)"

definition unwrap_or :: "'a \<Rightarrow> 'a option \<Rightarrow> 'a" where
  "unwrap_or d x = (case x of None \<Rightarrow> d | Some v \<Rightarrow> v)"

definition and_then :: "'e + 'a \<Rightarrow> ('a \<Rightarrow> 'e + 'b) \<Rightarrow> 'e + 'b" where
  "and_then r f = (case r of Inl e \<Rightarrow> Inl e | Inr x \<Rightarrow> f x)"

definition blank :: "string \<Rightarrow> bool" where
  "blank s = (rust_trim s = [])"

definition to_ascii_lowercase :: "string \<Rightarrow> string" where
  "to_ascii_lowercase = map (\<lambda>c. if 65 \<le> code c \<and> code c \<le> 90 then char_of (code c + 32) else c)"

definition rust_parse_u32 :: "string \<Rightarrow> nat option" where
  "rust_parse_u32 s = opt_filter (\<lambda>n. n < 2 ^ 32) (rust_parse_u64 s)"

text \<open>A path, up to the equality of \<open>std::path::Path\<close>: absolute or not, and its components.\<close>

datatype path = Path (absolute: bool) (components: "string list")

definition to_path :: "string \<Rightarrow> path" where
  "to_path s =
     (let rooted = (s \<noteq> [] \<and> hd s = CHR ''/'');
          parts = filter (\<lambda>c. c \<noteq> []) (split_on (CHR ''/'') s)
      in Path rooted
           (if rooted \<or> parts = [] then filter (\<lambda>c. c \<noteq> ''.'') parts
            else hd parts # filter (\<lambda>c. c \<noteq> ''.'') (tl parts)))"

definition parent_or_dot :: "path \<Rightarrow> path" where
  "parent_or_dot p = (if components p = [] then Path False [''.''] else Path (absolute p) (butlast (components p)))"

definition join_path :: "path \<Rightarrow> string list \<Rightarrow> path" where
  "join_path p cs = Path (absolute p) (components p @ cs)"

text \<open>
  An \<open>f64\<close>: a finite one is a dyadic fraction, \<open>Dyadic m e\<close> standing for \<open>m / 2 ^ e\<close>. Comparisons with a NaN
  are false.
\<close>

datatype f64 = NaN | Infinite bool | Dyadic int nat

fun f64_less :: "f64 \<Rightarrow> f64 \<Rightarrow> bool" where
  "f64_less NaN _ = False"
| "f64_less _ NaN = False"
| "f64_less (Infinite neg) (Infinite neg') = (neg \<and> \<not> neg')"
| "f64_less (Infinite neg) (Dyadic _ _) = neg"
| "f64_less (Dyadic _ _) (Infinite neg') = (\<not> neg')"
| "f64_less (Dyadic m e) (Dyadic m' e') = (m * 2 ^ e' < m' * 2 ^ e)"

definition f64_leq :: "f64 \<Rightarrow> f64 \<Rightarrow> bool" where
  "f64_leq a b = (a \<noteq> NaN \<and> b \<noteq> NaN \<and> \<not> f64_less b a)"

abbreviation f64_of :: "int \<Rightarrow> f64" where
  "f64_of n \<equiv> Dyadic n 0"

definition percentage :: "f64 \<Rightarrow> bool" where
  "percentage p = (f64_leq (f64_of 1) p \<and> f64_leq p (f64_of 99))"

section \<open>The settings\<close>

datatype sandbox_size = Micro | Mini | Small | Medium | Large

record reclaim_config =
  reclaim_cmd :: string
  reclaim_interval :: nat

record 'a dump_net_config =
  net_dump_dir :: path
  net_listen :: 'a

record 'a freeze_config =
  freeze_after :: nat
  freeze_sweep :: nat
  freeze_dump_dir :: path
  freeze_listen :: 'a

record compact_config =
  compact_after :: nat
  compact_sweep :: nat
  compact_dir :: path

record image_archive_config =
  spool_dir :: path

record disk_grow_config =
  grow_pct :: f64
  grow_max_gb :: nat

record pressure_config =
  pressure_path :: path
  high_pct :: f64
  low_pct :: f64
  check_interval :: nat

record archive_config =
  archive_after :: nat
  archive_sweep :: nat
  archive_pressure :: "pressure_config option"
  archive_s3 :: s3_config

record 'a dashboard_config =
  dash_listen :: 'a
  basic_auth_pair :: "(string \<times> string) option"
  pooler_log :: path
  heyvmd_log :: path
  log_lines :: nat
  alerts_file :: path
  alert_interval :: nat

record 'a config =
  listen_addr :: 'a
  vm_image :: string
  size_class :: sandbox_size
  pg_user :: string
  pg_password :: "string option"
  idle_timeout :: "nat option"
  ready_timeout :: nat
  connect_timeout :: nat
  admit_timeout :: nat
  data_disk_gb :: nat
  keepalive_schemas :: "string set"
  direct_connect :: bool
  state_file :: path
  dedicated_file :: path
  metrics_dir :: path
  disk_grow :: "disk_grow_config option"
  tls_cert :: "path option"
  tls_key :: "path option"
  dashboard_tier :: "'a dashboard_config option"
  archive_tier :: "archive_config option"
  image_archive :: "image_archive_config option"
  freeze_tier :: "'a freeze_config option"
  dump_net :: "'a dump_net_config"
  compact_tier :: "compact_config option"
  warm_spares :: nat
  reclaim_cfg :: "reclaim_config option"
  cfg_run_dir :: "path option"
  orphan_sweep :: "nat option"
  offload_workers :: nat
  offload_load_max :: f64

text \<open>A refusal names the variable at fault.\<close>

datatype config_error = Invalid string | Set_Together string string | Needs string string | Out_Of_Range string

section \<open>Reading them\<close>

text \<open>The four ways a number of seconds is read: a positive one or a default, trimmed or not, or a switch.\<close>

definition u64_or :: "env \<Rightarrow> string \<Rightarrow> nat \<Rightarrow> nat" where
  "u64_or e k d = unwrap_or d (Option.bind (var e k) rust_parse_u64)"

definition positive_secs :: "env \<Rightarrow> string \<Rightarrow> nat option" where
  "positive_secs e k = opt_filter (\<lambda>s. 0 < s) (Option.bind (var e k) (\<lambda>v. rust_parse_u64 (rust_trim v)))"

definition secs_or :: "env \<Rightarrow> string \<Rightarrow> nat \<Rightarrow> nat" where
  "secs_or e k d = unwrap_or d (positive_secs e k)"

definition non_blank :: "env \<Rightarrow> string \<Rightarrow> string option" where
  "non_blank e k = opt_filter (\<lambda>s. \<not> blank s) (var e k)"

definition non_empty :: "env \<Rightarrow> string \<Rightarrow> string option" where
  "non_empty e k = opt_filter (\<lambda>s. s \<noteq> []) (var e k)"

definition home_path :: "env \<Rightarrow> string list \<Rightarrow> path" where
  "home_path e cs = join_path (to_path (unwrap_or ''.'' (var e ''HOME''))) cs"

definition beside :: "path \<Rightarrow> string \<Rightarrow> path" where
  "beside file f = join_path (parent_or_dot file) [f]"

definition parse_size_class :: "string \<Rightarrow> config_error + sandbox_size" where
  "parse_size_class v =
     (let s = to_ascii_lowercase (rust_trim v)
      in if s = ''micro'' then Inr Micro else if s = ''mini'' then Inr Mini
         else if s = ''small'' then Inr Small else if s = ''medium'' then Inr Medium
         else if s = ''large'' then Inr Large else Inl (Invalid ''PG_VM_POOL_SIZE_CLASS''))"

definition reclaim_from_env :: "env \<Rightarrow> reclaim_config option" where
  "reclaim_from_env e =
     map_option (\<lambda>cmd. \<lparr>reclaim_cmd = cmd, reclaim_interval = secs_or e ''PG_VM_POOL_RECLAIM_INTERVAL_SECS'' 3600\<rparr>)
       (non_blank e ''PG_VM_POOL_RECLAIM_CMD'')"

definition parse_listen :: "(string \<Rightarrow> 'a option) \<Rightarrow> env \<Rightarrow> string \<Rightarrow> string \<Rightarrow> config_error + 'a" where
  "parse_listen addr e k d =
     (case addr (unwrap_or d (var e k)) of None \<Rightarrow> Inl (Invalid k) | Some a \<Rightarrow> Inr a)"

definition dump_net_from_env :: "(string \<Rightarrow> 'a option) \<Rightarrow> env \<Rightarrow> config_error + 'a dump_net_config" where
  "dump_net_from_env addr e =
     and_then (parse_listen addr e ''PG_VM_POOL_DUMP_LISTEN'' ''0.0.0.0:6433'') (\<lambda>l.
       Inr \<lparr>net_dump_dir = (case var e ''PG_VM_POOL_DUMP_DIR'' of Some d \<Rightarrow> to_path d
                            | None \<Rightarrow> home_path e [''.heyo'', ''pg-vm-pool'', ''dumps'']), net_listen = l\<rparr>)"

definition freeze_from_env :: "(string \<Rightarrow> 'a option) \<Rightarrow> env \<Rightarrow> config_error + 'a freeze_config option" where
  "freeze_from_env addr e =
     (case positive_secs e ''PG_VM_POOL_FREEZE_AFTER_SECS'' of
        None \<Rightarrow> Inr None
      | Some n \<Rightarrow>
          and_then (dump_net_from_env addr e) (\<lambda>net.
            Inr (Some \<lparr>freeze_after = n, freeze_sweep = secs_or e ''PG_VM_POOL_FREEZE_SWEEP_SECS'' 900,
                        freeze_dump_dir = net_dump_dir net, freeze_listen = net_listen net\<rparr>)))"

definition compact_from_env :: "path \<Rightarrow> env \<Rightarrow> compact_config option" where
  "compact_from_env st_file e =
     map_option (\<lambda>n. \<lparr>compact_after = n, compact_sweep = secs_or e ''PG_VM_POOL_COMPACT_SWEEP_SECS'' 900,
         compact_dir = (case non_blank e ''PG_VM_POOL_COMPACT_DIR'' of Some d \<Rightarrow> to_path d
                        | None \<Rightarrow> beside st_file ''compact'')\<rparr>)
       (positive_secs e ''PG_VM_POOL_COMPACT_AFTER_SECS'')"

definition compact_path :: "compact_config \<Rightarrow> string \<Rightarrow> path" where
  "compact_path c schema = join_path (compact_dir c) [schema @ ''.img.zst'']"

definition truthy :: "string \<Rightarrow> bool" where
  "truthy v = (to_ascii_lowercase (rust_trim v) \<in> {''1'', ''true'', ''yes''})"

definition image_archive_from_env :: "path \<Rightarrow> env \<Rightarrow> image_archive_config option" where
  "image_archive_from_env st_file e =
     (if \<not> (case var e ''PG_VM_POOL_IMAGE_ARCHIVE'' of None \<Rightarrow> False | Some v \<Rightarrow> truthy v) then None
      else Some \<lparr>spool_dir = (case non_blank e ''PG_VM_POOL_IMAGE_SPOOL_DIR'' of Some d \<Rightarrow> to_path d
                               | None \<Rightarrow> beside st_file ''spool'')\<rparr>)"

definition disk_grow_from_env :: "(string \<Rightarrow> f64 option) \<Rightarrow> env \<Rightarrow> config_error + disk_grow_config option" where
  "disk_grow_from_env num e =
     (case var e ''PG_VM_POOL_DISK_GROW_PCT'' of
        None \<Rightarrow> Inr None
      | Some v \<Rightarrow>
          (case num (rust_trim v) of
             None \<Rightarrow> Inl (Invalid ''PG_VM_POOL_DISK_GROW_PCT'')
           | Some p \<Rightarrow>
               if \<not> f64_less (f64_of 0) p then Inr None
               else if \<not> percentage p then Inl (Out_Of_Range ''PG_VM_POOL_DISK_GROW_PCT'')
               else let max_gb = unwrap_or 100 (Option.bind (var e ''PG_VM_POOL_DISK_MAX_GB'')
                                   (\<lambda>v. rust_parse_u64 (rust_trim v)))
                    in if \<not> (1 \<le> max_gb \<and> max_gb \<le> 250) then Inl (Out_Of_Range ''PG_VM_POOL_DISK_MAX_GB'')
                       else Inr (Some \<lparr>grow_pct = p, grow_max_gb = max_gb\<rparr>)))"

definition pct_or :: "(string \<Rightarrow> f64 option) \<Rightarrow> env \<Rightarrow> string \<Rightarrow> f64 \<Rightarrow> config_error + f64" where
  "pct_or num e k d =
     (case var e k of
        None \<Rightarrow> Inr d
      | Some v \<Rightarrow> (case opt_filter percentage (num (rust_trim v)) of
                    None \<Rightarrow> Inl (Invalid k) | Some p \<Rightarrow> Inr p))"

definition pressure_from_env :: "(string \<Rightarrow> f64 option) \<Rightarrow> env \<Rightarrow> config_error + pressure_config option" where
  "pressure_from_env num e =
     (case non_blank e ''PG_VM_POOL_PRESSURE_PATH'' of
        None \<Rightarrow> Inr None
      | Some p \<Rightarrow>
          and_then (pct_or num e ''PG_VM_POOL_PRESSURE_HIGH_PCT'' (f64_of 85)) (\<lambda>high.
          and_then (pct_or num e ''PG_VM_POOL_PRESSURE_LOW_PCT'' (f64_of 75)) (\<lambda>low.
            if f64_leq high low then Inl (Out_Of_Range ''PG_VM_POOL_PRESSURE_LOW_PCT'')
            else Inr (Some \<lparr>pressure_path = to_path p, high_pct = high, low_pct = low,
                             check_interval = secs_or e ''PG_VM_POOL_PRESSURE_CHECK_SECS'' 60\<rparr>))))"

definition archive_from_env :: "(string \<Rightarrow> f64 option) \<Rightarrow> env \<Rightarrow> config_error + archive_config option" where
  "archive_from_env num e =
     (case positive_secs e ''PG_VM_POOL_ARCHIVE_AFTER_SECS'' of
        None \<Rightarrow> Inr None
      | Some n \<Rightarrow>
          (case non_blank e ''PG_VM_POOL_S3_BUCKET'' of
             None \<Rightarrow> Inl (Needs ''PG_VM_POOL_ARCHIVE_AFTER_SECS'' ''PG_VM_POOL_S3_BUCKET'')
           | Some b \<Rightarrow>
               let either = (\<lambda>k k'. case non_blank e k of Some v \<Rightarrow> Some v | None \<Rightarrow> non_blank e k')
               in case (either ''PG_VM_POOL_S3_ACCESS_KEY_ID'' ''AWS_ACCESS_KEY_ID'',
                        either ''PG_VM_POOL_S3_SECRET_ACCESS_KEY'' ''AWS_SECRET_ACCESS_KEY'') of
                    (Some ak, Some sk) \<Rightarrow>
                      and_then (pressure_from_env num e) (\<lambda>pr.
                        Inr (Some \<lparr>archive_after = n, archive_sweep = secs_or e ''PG_VM_POOL_ARCHIVE_SWEEP_SECS'' 3600,
                          archive_pressure = pr,
                          archive_s3 = \<lparr>bucket = b, key_prefix = unwrap_or ''pg-vm-pool/'' (var e ''PG_VM_POOL_S3_PREFIX''),
                            configured_region = unwrap_or ''us-east-1'' (non_blank e ''PG_VM_POOL_S3_REGION''),
                            discovered = None, endpoint = non_blank e ''PG_VM_POOL_S3_ENDPOINT'',
                            access_key_id = ak, secret_access_key = sk\<rparr>\<rparr>))
                  | _ \<Rightarrow> Inl (Needs ''PG_VM_POOL_ARCHIVE_AFTER_SECS'' ''PG_VM_POOL_S3_ACCESS_KEY_ID'')))"

definition dashboard_from_env :: "(string \<Rightarrow> 'a option) \<Rightarrow> env \<Rightarrow> config_error + 'a dashboard_config option" where
  "dashboard_from_env addr e =
     (case non_empty e ''PG_VM_POOL_DASHBOARD_LISTEN'' of
        None \<Rightarrow> Inr None
      | Some l \<Rightarrow>
          and_then (parse_listen addr e ''PG_VM_POOL_DASHBOARD_LISTEN'' l) (\<lambda>a.
          and_then (case (non_empty e ''PG_VM_POOL_DASHBOARD_USER'', non_empty e ''PG_VM_POOL_DASHBOARD_PASSWORD'') of
                      (Some u, Some p) \<Rightarrow> Inr (Some (u, p))
                    | (None, None) \<Rightarrow> Inr None
                    | _ \<Rightarrow> Inl (Set_Together ''PG_VM_POOL_DASHBOARD_USER'' ''PG_VM_POOL_DASHBOARD_PASSWORD'')) (\<lambda>cred.
            Inr (Some \<lparr>dash_listen = a, basic_auth_pair = cred,
              pooler_log = to_path (unwrap_or ''/var/log/pg-vm-pool/pg-vm-pool.log'' (var e ''PG_VM_POOL_POOLER_LOG'')),
              heyvmd_log = to_path (unwrap_or ''/var/log/heyvmd/heyvmd.log'' (var e ''PG_VM_POOL_HEYVMD_LOG'')),
              log_lines = u64_or e ''PG_VM_POOL_DASHBOARD_LOG_LINES'' 200,
              alerts_file = (case var e ''PG_VM_POOL_DASHBOARD_ALERTS_FILE'' of Some f \<Rightarrow> to_path f
                             | None \<Rightarrow> home_path e [''.heyo'', ''pg-vm-pool'', ''alerts.tsv'']),
              alert_interval = unwrap_or 60 (opt_filter (\<lambda>s. 0 < s)
                (Option.bind (var e ''PG_VM_POOL_DASHBOARD_ALERT_INTERVAL_SECS'') rust_parse_u64))\<rparr>))))"

section \<open>The whole configuration\<close>

definition KNOWN_VARS :: "string list" where
  "KNOWN_VARS = [
    ''PG_VM_POOL_LISTEN'', ''PG_VM_POOL_IMAGE'', ''PG_VM_POOL_SIZE_CLASS'', ''PG_VM_POOL_USER'',
    ''PG_VM_POOL_PASSWORD'', ''PG_VM_POOL_IDLE_TIMEOUT_SECS'', ''PG_VM_POOL_READY_TIMEOUT_SECS'',
    ''PG_VM_POOL_CONNECT_TIMEOUT_SECS'', ''PG_VM_POOL_ADMIT_TIMEOUT_SECS'', ''PG_VM_POOL_DIRECT_CONNECT'',
    ''PG_VM_POOL_DATA_DISK_GB'', ''PG_VM_POOL_KEEPALIVE_SCHEMAS'', ''PG_VM_POOL_STATE_FILE'',
    ''PG_VM_POOL_DEDICATED_FILE'', ''PG_VM_POOL_METRICS_DIR'', ''PG_VM_POOL_DISK_GROW_PCT'',
    ''PG_VM_POOL_DISK_MAX_GB'', ''PG_VM_POOL_TLS_CERT'', ''PG_VM_POOL_TLS_KEY'',
    ''PG_VM_POOL_DASHBOARD_LISTEN'', ''PG_VM_POOL_DASHBOARD_USER'', ''PG_VM_POOL_DASHBOARD_PASSWORD'',
    ''PG_VM_POOL_POOLER_LOG'', ''PG_VM_POOL_HEYVMD_LOG'', ''PG_VM_POOL_DASHBOARD_LOG_LINES'',
    ''PG_VM_POOL_DASHBOARD_ALERTS_FILE'', ''PG_VM_POOL_DASHBOARD_ALERT_INTERVAL_SECS'',
    ''PG_VM_POOL_ARCHIVE_AFTER_SECS'', ''PG_VM_POOL_ARCHIVE_SWEEP_SECS'', ''PG_VM_POOL_IMAGE_ARCHIVE'',
    ''PG_VM_POOL_IMAGE_SPOOL_DIR'', ''PG_VM_POOL_RECLAIM_CMD'', ''PG_VM_POOL_RECLAIM_INTERVAL_SECS'',
    ''PG_VM_POOL_RUN_DIR'', ''PG_VM_POOL_ORPHAN_SWEEP_SECS'', ''PG_VM_POOL_OFFLOAD_WORKERS'',
    ''PG_VM_POOL_OFFLOAD_LOAD_MAX'', ''PG_VM_POOL_WARM_SPARES'', ''PG_VM_POOL_FREEZE_AFTER_SECS'',
    ''PG_VM_POOL_FREEZE_SWEEP_SECS'', ''PG_VM_POOL_DUMP_DIR'', ''PG_VM_POOL_DUMP_LISTEN'',
    ''PG_VM_POOL_PRESSURE_PATH'', ''PG_VM_POOL_PRESSURE_HIGH_PCT'', ''PG_VM_POOL_PRESSURE_LOW_PCT'',
    ''PG_VM_POOL_PRESSURE_CHECK_SECS'', ''PG_VM_POOL_S3_BUCKET'', ''PG_VM_POOL_S3_PREFIX'',
    ''PG_VM_POOL_S3_REGION'', ''PG_VM_POOL_S3_ENDPOINT'', ''PG_VM_POOL_S3_ACCESS_KEY_ID'',
    ''PG_VM_POOL_S3_SECRET_ACCESS_KEY'', ''PG_VM_POOL_DAEMON_URL'']"

text \<open>The variables \<open>from_env\<close> warns of as ignored.\<close>

definition unknown_vars :: "env \<Rightarrow> string list" where
  "unknown_vars e = filter (\<lambda>k. starts_with ''PG_VM_POOL_'' k \<and> k \<notin> set KNOWN_VARS) (map fst e)"

definition idle_from_env :: "env \<Rightarrow> nat option" where
  "idle_from_env e =
     (case Option.bind (var e ''PG_VM_POOL_IDLE_TIMEOUT_SECS'') rust_parse_u64 of
        None \<Rightarrow> Some 900
      | Some n \<Rightarrow> if n = 0 then None else Some n)"

definition keepalive_from_env :: "env \<Rightarrow> string set" where
  "keepalive_from_env e =
     set (filter (\<lambda>s. s \<noteq> []) (map rust_trim (split_on (CHR '','') (unwrap_or [] (var e ''PG_VM_POOL_KEEPALIVE_SCHEMAS'')))))"

definition is_keepalive :: "'a config \<Rightarrow> string \<Rightarrow> bool" where
  "is_keepalive c schema = (schema \<in> keepalive_schemas c)"

definition tls_pair :: "env \<Rightarrow> config_error + path option \<times> path option" where
  "tls_pair e =
     (let cert = non_empty e ''PG_VM_POOL_TLS_CERT''; key = non_empty e ''PG_VM_POOL_TLS_KEY''
      in if (cert = None) \<noteq> (key = None) then Inl (Set_Together ''PG_VM_POOL_TLS_CERT'' ''PG_VM_POOL_TLS_KEY'')
         else Inr (map_option to_path cert, map_option to_path key))"

definition workers_from_env :: "env \<Rightarrow> config_error + nat" where
  "workers_from_env e =
     (case var e ''PG_VM_POOL_OFFLOAD_WORKERS'' of
        None \<Rightarrow> Inr 1
      | Some v \<Rightarrow> (case rust_parse_u64 (rust_trim v) of
                    None \<Rightarrow> Inl (Invalid ''PG_VM_POOL_OFFLOAD_WORKERS'')
                  | Some n \<Rightarrow> Inr (min 16 (max 1 n))))"

definition load_max_from_env :: "(string \<Rightarrow> f64 option) \<Rightarrow> env \<Rightarrow> config_error + f64" where
  "load_max_from_env num e =
     (case var e ''PG_VM_POOL_OFFLOAD_LOAD_MAX'' of
        None \<Rightarrow> Inr (Dyadic 3 2)
      | Some v \<Rightarrow> (case opt_filter (f64_less (f64_of 0)) (num (rust_trim v)) of
                    None \<Rightarrow> Inl (Invalid ''PG_VM_POOL_OFFLOAD_LOAD_MAX'')
                  | Some f \<Rightarrow> Inr f))"

definition run_dir_from_env :: "env \<Rightarrow> archive_config option \<Rightarrow> path option" where
  "run_dir_from_env e arch =
     (case opt_filter (\<lambda>s. s \<noteq> []) (map_option rust_trim (var e ''PG_VM_POOL_RUN_DIR'')) of
        Some d \<Rightarrow> Some (to_path d)
      | None \<Rightarrow> map_option pressure_path (Option.bind arch archive_pressure))"

text \<open>The fields, once every check has passed; the tiers that need the run directory are off without one.\<close>

definition build_config ::
  "env \<Rightarrow> path \<Rightarrow> 'a \<Rightarrow> sandbox_size \<Rightarrow> path option \<times> path option \<Rightarrow> 'a dashboard_config option \<Rightarrow> archive_config option \<Rightarrow>
     nat \<Rightarrow> f64 \<Rightarrow> 'a freeze_config option \<Rightarrow> disk_grow_config option \<Rightarrow> 'a dump_net_config \<Rightarrow> 'a config" where
  "build_config e st_file listen cls tls dash arch workers load fr grow net =
       \<lparr>listen_addr = listen,
         vm_image = unwrap_or ''pg'' (var e ''PG_VM_POOL_IMAGE''),
         size_class = cls,
         pg_user = unwrap_or ''postgres'' (var e ''PG_VM_POOL_USER''),
         pg_password = non_empty e ''PG_VM_POOL_PASSWORD'',
         idle_timeout = idle_from_env e,
         ready_timeout = u64_or e ''PG_VM_POOL_READY_TIMEOUT_SECS'' 300,
         connect_timeout = u64_or e ''PG_VM_POOL_CONNECT_TIMEOUT_SECS'' 30,
         admit_timeout = u64_or e ''PG_VM_POOL_ADMIT_TIMEOUT_SECS'' 30,
         data_disk_gb = unwrap_or 2 (Option.bind (var e ''PG_VM_POOL_DATA_DISK_GB'') rust_parse_u32),
         keepalive_schemas = keepalive_from_env e,
         direct_connect = (case var e ''PG_VM_POOL_DIRECT_CONNECT'' of None \<Rightarrow> True
             | Some v \<Rightarrow> to_ascii_lowercase (rust_trim v) \<notin> {''0'', ''false'', ''no''}),
         state_file = st_file,
         dedicated_file = (case non_blank e ''PG_VM_POOL_DEDICATED_FILE'' of Some f \<Rightarrow> to_path f
             | None \<Rightarrow> beside st_file ''dedicated.tsv''),
         metrics_dir = (case non_empty e ''PG_VM_POOL_METRICS_DIR'' of Some f \<Rightarrow> to_path f
             | None \<Rightarrow> beside st_file ''metrics''),
         disk_grow = grow,
         tls_cert = fst tls,
         tls_key = snd tls,
         dashboard_tier = dash,
         archive_tier = arch,
         image_archive = (if arch = None \<or> run_dir_from_env e arch = None then None else image_archive_from_env st_file e),
         freeze_tier = fr,
         dump_net = net,
         compact_tier = (if run_dir_from_env e arch = None then None else compact_from_env st_file e),
         warm_spares = unwrap_or 0 (Option.bind (var e ''PG_VM_POOL_WARM_SPARES'') (\<lambda>v. rust_parse_u64 (rust_trim v))),
         reclaim_cfg = reclaim_from_env e,
         cfg_run_dir = run_dir_from_env e arch,
         orphan_sweep = (if run_dir_from_env e arch = None then None else positive_secs e ''PG_VM_POOL_ORPHAN_SWEEP_SECS''),
         offload_workers = workers,
         offload_load_max = load\<rparr>"

text \<open>\<open>Config::from_env\<close>: the checks, in the order of the code.\<close>

definition config_from_env ::
  "(string \<Rightarrow> 'a option) \<Rightarrow> (string \<Rightarrow> f64 option) \<Rightarrow> env \<Rightarrow> config_error + 'a config" where
  "config_from_env addr num e =
     and_then (parse_listen addr e ''PG_VM_POOL_LISTEN'' ''127.0.0.1:6432'') (\<lambda>listen.
     and_then (case var e ''PG_VM_POOL_SIZE_CLASS'' of None \<Rightarrow> Inr Micro | Some v \<Rightarrow> parse_size_class v) (\<lambda>cls.
     let st_file = (case var e ''PG_VM_POOL_STATE_FILE'' of Some f \<Rightarrow> to_path f
                    | None \<Rightarrow> home_path e [''.heyo'', ''pg-vm-pool'', ''registry.tsv''])
     in
     and_then (tls_pair e) (\<lambda>tls.
     and_then (dashboard_from_env addr e) (\<lambda>dash.
     and_then (archive_from_env num e) (\<lambda>arch.
     if arch = None \<and> non_blank e ''PG_VM_POOL_PRESSURE_PATH'' \<noteq> None
     then Inl (Needs ''PG_VM_POOL_PRESSURE_PATH'' ''PG_VM_POOL_ARCHIVE_AFTER_SECS'')
     else
     and_then (workers_from_env e) (\<lambda>workers.
     and_then (load_max_from_env num e) (\<lambda>load.
     and_then (freeze_from_env addr e) (\<lambda>fr.
     and_then (disk_grow_from_env num e) (\<lambda>grow.
     and_then (dump_net_from_env addr e) (\<lambda>net.
       Inr (build_config e st_file listen cls tls dash arch workers load fr grow net)))))))))))"

text \<open>
  \<open>preflight_offload_dirs\<close>: every output directory of an enabled tier, in order; the first that cannot be
  created or written is the error.
\<close>

definition offload_dirs :: "'a config \<Rightarrow> path list" where
  "offload_dirs c =
     (if freeze_tier c \<noteq> None \<or> archive_tier c \<noteq> None then [net_dump_dir (dump_net c)] else [])
     @ (case compact_tier c of None \<Rightarrow> [] | Some k \<Rightarrow> [compact_dir k])
     @ (case image_archive c of None \<Rightarrow> [] | Some i \<Rightarrow> [spool_dir i])"

fun probe_dirs :: "(path \<Rightarrow> bool) \<Rightarrow> (path \<Rightarrow> bool) \<Rightarrow> path list \<Rightarrow> path + unit" where
  "probe_dirs mk wr [] = Inr ()"
| "probe_dirs mk wr (d # ds) = (if \<not> mk d \<or> \<not> wr d then Inl d else probe_dirs mk wr ds)"

definition preflight_offload_dirs :: "(path \<Rightarrow> bool) \<Rightarrow> (path \<Rightarrow> bool) \<Rightarrow> 'a config \<Rightarrow> path + unit" where
  "preflight_offload_dirs mk wr c = probe_dirs mk wr (offload_dirs c)"

section \<open>What an accepted configuration satisfies\<close>

lemma and_then_Inr: "and_then r f = Inr y \<longleftrightarrow> (\<exists>x. r = Inr x \<and> f x = Inr y)"
  by (cases r) (simp_all add: and_then_def)

lemma opt_filter_Some: "opt_filter p x = Some v \<longleftrightarrow> x = Some v \<and> p v"
  by (auto simp: opt_filter_def split: option.splits if_splits)

lemma positive_secs_pos: "positive_secs e k = Some n \<Longrightarrow> 0 < n"
  by (simp add: positive_secs_def opt_filter_Some)

lemma secs_or_pos [simp]: "0 < d \<Longrightarrow> 0 < secs_or e k d"
  by (auto simp: secs_or_def unwrap_or_def dest: positive_secs_pos split: option.splits)

lemma non_blank_Some: "non_blank e k = Some v \<Longrightarrow> \<not> blank v"
  by (simp add: non_blank_def opt_filter_Some)

lemma non_empty_Some: "non_empty e k = Some v \<Longrightarrow> v \<noteq> []"
  by (simp add: non_empty_def opt_filter_Some)

definition pressure_ok :: "pressure_config \<Rightarrow> bool" where
  "pressure_ok p \<longleftrightarrow> percentage (high_pct p) \<and> percentage (low_pct p) \<and> f64_less (low_pct p) (high_pct p)
     \<and> 0 < check_interval p"

definition archive_ok :: "archive_config \<Rightarrow> bool" where
  "archive_ok a \<longleftrightarrow> 0 < archive_after a \<and> 0 < archive_sweep a \<and> \<not> blank (bucket (archive_s3 a))
     \<and> \<not> blank (access_key_id (archive_s3 a)) \<and> \<not> blank (secret_access_key (archive_s3 a))
     \<and> pred_option pressure_ok (archive_pressure a)"

definition config_ok :: "'a config \<Rightarrow> bool" where
  "config_ok c \<longleftrightarrow>
     (tls_cert c = None \<longleftrightarrow> tls_key c = None)
     \<and> 1 \<le> offload_workers c \<and> offload_workers c \<le> 16 \<and> f64_less (f64_of 0) (offload_load_max c)
     \<and> idle_timeout c \<noteq> Some 0 \<and> [] \<notin> keepalive_schemas c \<and> pg_password c \<noteq> Some []
     \<and> pred_option (\<lambda>d. pred_option (\<lambda>(u, p). u \<noteq> [] \<and> p \<noteq> []) (basic_auth_pair d) \<and> 0 < alert_interval d) (dashboard_tier c)
     \<and> pred_option archive_ok (archive_tier c)
     \<and> pred_option (\<lambda>f. 0 < freeze_after f \<and> 0 < freeze_sweep f \<and> freeze_dump_dir f = net_dump_dir (dump_net c)
          \<and> freeze_listen f = net_listen (dump_net c)) (freeze_tier c)
     \<and> pred_option (\<lambda>k. 0 < compact_after k \<and> 0 < compact_sweep k \<and> cfg_run_dir c \<noteq> None) (compact_tier c)
     \<and> pred_option (\<lambda>_. archive_tier c \<noteq> None \<and> cfg_run_dir c \<noteq> None) (image_archive c)
     \<and> pred_option (\<lambda>n. 0 < n \<and> cfg_run_dir c \<noteq> None) (orphan_sweep c)
     \<and> pred_option (\<lambda>g. percentage (grow_pct g) \<and> 1 \<le> grow_max_gb g \<and> grow_max_gb g \<le> 250) (disk_grow c)
     \<and> pred_option (\<lambda>r. \<not> blank (reclaim_cmd r) \<and> 0 < reclaim_interval r) (reclaim_cfg c)"

lemma f64_less_leq_flip: "percentage a \<Longrightarrow> percentage b \<Longrightarrow> \<not> f64_leq a b \<Longrightarrow> f64_less b a"
  by (auto simp: percentage_def f64_leq_def)

lemma pct_or_ok: "pct_or num e k d = Inr p \<Longrightarrow> percentage d \<Longrightarrow> percentage p"
  by (auto simp: pct_or_def opt_filter_Some split: option.splits)

lemma percentage_defaults: "percentage (f64_of 85)" "percentage (f64_of 75)"
  by (simp_all add: percentage_def f64_leq_def)

lemma pressure_from_env_ok: "pressure_from_env num e = Inr x \<Longrightarrow> pred_option pressure_ok x"
  by (auto simp: pressure_from_env_def and_then_Inr pressure_ok_def percentage_defaults
      intro!: f64_less_leq_flip split: option.splits if_splits dest!: pct_or_ok)

lemma archive_from_env_ok: "archive_from_env num e = Inr x \<Longrightarrow> pred_option archive_ok x"
  by (auto simp: archive_from_env_def and_then_Inr archive_ok_def Let_def
      dest!: pressure_from_env_ok positive_secs_pos non_blank_Some split: option.splits)

lemma dashboard_from_env_ok:
  "dashboard_from_env addr e = Inr x \<Longrightarrow>
   pred_option (\<lambda>d. pred_option (\<lambda>(u, p). u \<noteq> [] \<and> p \<noteq> []) (basic_auth_pair d) \<and> 0 < alert_interval d) x"
  by (auto simp: dashboard_from_env_def and_then_Inr unwrap_or_def opt_filter_Some
      dest: non_empty_Some split: option.splits)

lemma freeze_from_env_ok:
  "freeze_from_env addr e = Inr x \<Longrightarrow> dump_net_from_env addr e = Inr net \<Longrightarrow>
   pred_option (\<lambda>f. 0 < freeze_after f \<and> 0 < freeze_sweep f \<and> freeze_dump_dir f = net_dump_dir net
      \<and> freeze_listen f = net_listen net) x"
  by (auto simp: freeze_from_env_def and_then_Inr secs_or_pos dest: positive_secs_pos split: option.splits)

lemma disk_grow_from_env_ok:
  "disk_grow_from_env num e = Inr x \<Longrightarrow>
   pred_option (\<lambda>g. percentage (grow_pct g) \<and> 1 \<le> grow_max_gb g \<and> grow_max_gb g \<le> 250) x"
  by (auto simp: disk_grow_from_env_def Let_def split: option.splits if_splits)

lemma small_settings_ok:
  "workers_from_env e = Inr n \<Longrightarrow> 1 \<le> n \<and> n \<le> 16"
  "load_max_from_env num e = Inr f \<Longrightarrow> f64_less (f64_of 0) f"
  "idle_from_env e \<noteq> Some 0"
  "[] \<notin> keepalive_from_env e"
  "tls_pair e = Inr (cert, key) \<Longrightarrow> cert = None \<longleftrightarrow> key = None"
  "pred_option (\<lambda>r. \<not> blank (reclaim_cmd r) \<and> 0 < reclaim_interval r) (reclaim_from_env e)"
  by (auto simp: workers_from_env_def load_max_from_env_def idle_from_env_def keepalive_from_env_def tls_pair_def
      reclaim_from_env_def opt_filter_Some secs_or_pos Let_def pred_option_def
      dest: non_blank_Some split: option.splits if_splits)

lemma compact_from_env_ok:
  "pred_option (\<lambda>k. 0 < compact_after k \<and> 0 < compact_sweep k) (compact_from_env st_file e)"
  by (auto simp: compact_from_env_def pred_option_def secs_or_pos dest: positive_secs_pos)

lemma config_from_env_Inr:
  assumes "config_from_env addr num e = Inr c"
  obtains st_file listen cls tls dash arch workers load fr grow net where
    "c = build_config e st_file listen cls tls dash arch workers load fr grow net"
    "tls_pair e = Inr tls" "dashboard_from_env addr e = Inr dash" "archive_from_env num e = Inr arch"
    "workers_from_env e = Inr workers" "load_max_from_env num e = Inr load" "freeze_from_env addr e = Inr fr"
    "disk_grow_from_env num e = Inr grow" "dump_net_from_env addr e = Inr net"
  using assms that unfolding config_from_env_def Let_def
  by (auto simp: and_then_Inr split: if_splits)

text \<open>
  C20: Whatever the environment holds, a configuration the pooler starts with is consistent: TLS files and
  dashboard credentials come in pairs, percentages are within 1 to 99 and the low-water mark is below the
  high one, the S3 tier has a bucket and both keys, the idle times and intervals of every part that is
  on are positive, worker counts are within 1 to 16, and a tier that works on the run directory is on only if that directory is
  known. The timeouts for readiness, connecting and admission are not among the values checked: each may
  be 0.
\<close>
theorem config_well_formed:
  assumes "config_from_env addr num e = Inr c"
  shows "config_ok c"
proof -
  obtain st_file listen cls tls dash arch workers load fr grow net where
    c: "c = build_config e st_file listen cls tls dash arch workers load fr grow net"
    and r: "tls_pair e = Inr tls" "dashboard_from_env addr e = Inr dash" "archive_from_env num e = Inr arch"
      "workers_from_env e = Inr workers" "load_max_from_env num e = Inr load" "freeze_from_env addr e = Inr fr"
      "disk_grow_from_env num e = Inr grow" "dump_net_from_env addr e = Inr net"
    by (rule config_from_env_Inr [OF assms]) blast
  have "non_empty e ''PG_VM_POOL_PASSWORD'' \<noteq> Some []" by (auto dest: non_empty_Some)
  moreover have "fst tls = None \<longleftrightarrow> snd tls = None" using small_settings_ok(5) [of e "fst tls" "snd tls"] r(1) by simp
  moreover have "pred_option (\<lambda>k. 0 < compact_after k \<and> 0 < compact_sweep k) (compact_from_env st_file e)"
    by (rule compact_from_env_ok)
  moreover have "pred_option (\<lambda>n. 0 < n) (positive_secs e ''PG_VM_POOL_ORPHAN_SWEEP_SECS'')"
    by (auto simp: pred_option_def dest: positive_secs_pos)
  ultimately show ?thesis
    using small_settings_ok(1) [OF r(4)] small_settings_ok(2) [OF r(5)] small_settings_ok(3,4,6) [of e]
      dashboard_from_env_ok [OF r(2)] archive_from_env_ok [OF r(3)] freeze_from_env_ok [OF r(6,8)]
      disk_grow_from_env_ok [OF r(7)]
    by (auto simp: config_ok_def c build_config_def pred_option_def)
qed

definition demo_env :: env where
  "demo_env = [(''PG_VM_POOL_COMPACT_AFTER_SECS'', ''60''), (''PG_VM_POOL_RUN_DIR'', ''/run/vm'')]"

lemma demo_env_var [simp]:
  "var demo_env k = (if k = ''PG_VM_POOL_COMPACT_AFTER_SECS'' then Some ''60''
     else if k = ''PG_VM_POOL_RUN_DIR'' then Some ''/run/vm'' else None)"
  by (simp add: demo_env_def)

lemma demo_env_values [simp]: "rust_parse_u64 (rust_trim ''60'') = Some 60" "rust_trim ''/run/vm'' = ''/run/vm''"
  by (simp_all add: rust_trim_ends is_ascii_graphic_def code_def rust_parse_u64_def is_ascii_digit_def)

lemmas from_env_defs = config_from_env_def and_then_def parse_listen_def tls_pair_def dashboard_from_env_def
  archive_from_env_def workers_from_env_def load_max_from_env_def freeze_from_env_def disk_grow_from_env_def
  dump_net_from_env_def positive_secs_def non_empty_def non_blank_def opt_filter_def unwrap_or_def Let_def

lemma demo_env_config:
  "\<exists>c. config_from_env Some (\<lambda>_. None) demo_env = Inr c \<and> compact_tier c \<noteq> None
     \<and> cfg_run_dir c = Some (Path True [''run'', ''vm''])"
  by (simp add: from_env_defs build_config_def run_dir_from_env_def compact_from_env_def to_path_def)

text \<open>A process that compacts schemas idle for a minute, over \<open>/run/vm\<close>.\<close>
theorem config_well_formed_witness:
  "\<exists>c. config_from_env Some (\<lambda>_. None) demo_env = Inr c \<and> config_ok c \<and> compact_tier c \<noteq> None"
  using demo_env_config config_well_formed [of Some "\<lambda>_. None" demo_env] by blast

section \<open>Which variables count\<close>

definition EXTRA_VARS :: "string list" where
  "EXTRA_VARS = [''HOME'', ''AWS_ACCESS_KEY_ID'', ''AWS_SECRET_ACCESS_KEY'', ''PG_VM_POOL_COMPACT_AFTER_SECS'',
     ''PG_VM_POOL_COMPACT_SWEEP_SECS'', ''PG_VM_POOL_COMPACT_DIR'']"

lemmas env_reader_defs = config_from_env_def parse_listen_def tls_pair_def dashboard_from_env_def
  archive_from_env_def workers_from_env_def load_max_from_env_def freeze_from_env_def disk_grow_from_env_def
  dump_net_from_env_def build_config_def secs_or_def positive_secs_def non_empty_def non_blank_def u64_or_def
  home_path_def pct_or_def pressure_from_env_def image_archive_from_env_def compact_from_env_def
  run_dir_from_env_def reclaim_from_env_def idle_from_env_def keepalive_from_env_def

text \<open>
  The configuration is a function of the variables of \<open>KNOWN_VARS\<close> and six others: two environments that
  agree on those give the same settings or the same refusal.
\<close>
theorem config_reads_only_these:
  assumes "list_all (\<lambda>k. var e k = var e' k) (KNOWN_VARS @ EXTRA_VARS)"
  shows "config_from_env addr num e = config_from_env addr num e'"
proof -
  note agree = assms [unfolded KNOWN_VARS_def EXTRA_VARS_def append.simps list.pred_inject]
  show ?thesis
    by (simp only: env_reader_defs Let_def agree cong del: if_weak_cong option.case_cong_weak prod.case_cong_weak)
qed

theorem config_reads_only_these_witness:
  "config_from_env Some (\<lambda>_. None) ((''PG_VM_POOL_SIZE'', ''large'') # demo_env) = config_from_env Some (\<lambda>_. None) demo_env
   \<and> unknown_vars [(''PG_VM_POOL_SIZE'', ''large'')] = [''PG_VM_POOL_SIZE'']"
proof -
  have "list_all (\<lambda>k. var ((''PG_VM_POOL_SIZE'', ''large'') # demo_env) k = var demo_env k) (KNOWN_VARS @ EXTRA_VARS)"
    by (simp add: KNOWN_VARS_def EXTRA_VARS_def)
  from config_reads_only_these [OF this, of Some "\<lambda>_. None"] show ?thesis
    by (simp add: unknown_vars_def KNOWN_VARS_def starts_with_def)
qed

text \<open>
  Where the code and its comment part: \<open>KNOWN_VARS\<close> is said to hold every variable the pooler reads, and three
  of the six it lacks carry the prefix of the pooler's own settings. So a process with the compacted tier on
  has just warned that it ignores the variable that turned it on.
\<close>
theorem ignored_setting_in_force:
  assumes "config_from_env addr num e = Inr c" and "compact_tier c \<noteq> None"
  shows "''PG_VM_POOL_COMPACT_AFTER_SECS'' \<in> set (unknown_vars e)"
proof -
  obtain st_file listen cls tls dash arch workers load fr grow net where
    "c = build_config e st_file listen cls tls dash arch workers load fr grow net"
    by (rule config_from_env_Inr [OF assms(1)]) blast
  with assms(2) have "compact_from_env st_file e \<noteq> None"
    by (auto simp: build_config_def split: if_splits)
  then have "var e ''PG_VM_POOL_COMPACT_AFTER_SECS'' \<noteq> None"
    by (cases "var e ''PG_VM_POOL_COMPACT_AFTER_SECS''") (auto simp: compact_from_env_def positive_secs_def opt_filter_Some)
  then have "''PG_VM_POOL_COMPACT_AFTER_SECS'' \<in> fst ` set e"
    by (metis map_of_eq_None_iff)
  then show ?thesis
    by (simp add: unknown_vars_def KNOWN_VARS_def starts_with_def)
qed

theorem ignored_setting_in_force_witness:
  "''PG_VM_POOL_COMPACT_AFTER_SECS'' \<in> set (unknown_vars demo_env)"
  using demo_env_config ignored_setting_in_force [of Some "\<lambda>_. None" demo_env] by blast

section \<open>The preflight\<close>

lemma preflight_passes_iff:
  "preflight_offload_dirs mk wr c = Inr () \<longleftrightarrow> list_all (\<lambda>d. mk d \<and> wr d) (offload_dirs c)"
proof -
  have "probe_dirs mk wr ds = Inr () \<longleftrightarrow> list_all (\<lambda>d. mk d \<and> wr d) ds" for ds
    by (induction ds) auto
  then show ?thesis by (simp add: preflight_offload_dirs_def)
qed

text \<open>The compacted images of two schemas are different files.\<close>

lemma compact_path_inj: "compact_path c x = compact_path c y \<longleftrightarrow> x = y"
  by (simp add: compact_path_def join_path_def)

end
