(* ===== verification/Alerts.thy ===== *)
theory Alerts
  imports Settings "HOL-Library.Multiset"
begin

text \<open>
  \<open>src/src/dashboard/alerts.rs\<close>: alert rules over host metrics, their file, the evaluator that turns samples
  into webhooks, and the JSON it sends. The rule list is under a lock, but the file is written after the
  lock is released, so each change is the change itself and the snapshot it wants written.
\<close>

section \<open>Rules\<close>

datatype metric = Host_Cpu | Host_Memory | Disk | Heyvmd_Health

fun slug :: "metric \<Rightarrow> string" where
  "slug Host_Cpu = ''host-cpu''"
| "slug Host_Memory = ''host-memory''"
| "slug Disk = ''disk''"
| "slug Heyvmd_Health = ''heyvmd-health''"

definition metric_parse :: "string \<Rightarrow> metric option" where
  "metric_parse s =
     (if s = ''host-cpu'' then Some Host_Cpu else if s = ''host-memory'' then Some Host_Memory
      else if s = ''disk'' then Some Disk else if s = ''heyvmd-health'' then Some Heyvmd_Health else None)"

record rule =
  rule_id :: string
  rule_metric :: metric
  threshold_pct :: f64
  webhook_url :: string
  firing :: bool
  paused :: bool

record alert_sample =
  host_cpu_pct :: "f64 option"
  host_mem_pct :: "f64 option"
  max_disk_pct :: "f64 option"
  worst_mount :: "string option"
  heyvmd_fail_count :: "f64 option"
  heyvmd_error :: "string option"

definition MAX_RULES :: nat where "MAX_RULES = 64"

section \<open>Text\<close>

text \<open>
  \<open>format!("{:.1}", v)\<close>: the exact value rounded to tenths, ties to even. Negative zero is left out of the
  model of \<open>f64\<close>.
\<close>

definition round_half_even :: "nat \<Rightarrow> nat \<Rightarrow> nat" where
  "round_half_even a b =
     (let q = a div b; r = a mod b
      in if 2 * r < b then q else if b < 2 * r then q + 1 else if even q then q else q + 1)"

definition show_tenths :: "nat \<Rightarrow> string" where
  "show_tenths t = show_nat (t div 10) @ ''.'' @ [digit_char (t mod 10)]"

fun num :: "f64 \<Rightarrow> string" where
  "num NaN = ''NaN''"
| "num (Infinite neg) = (if neg then ''-inf'' else ''inf'')"
| "num (Dyadic m e) = (if m < 0 then ''-'' else []) @ show_tenths (round_half_even (10 * nat \<bar>m\<bar>) (2 ^ e))"

definition hex_digit :: "nat \<Rightarrow> char" where
  "hex_digit n = (if n < 10 then char_of (48 + n) else char_of (87 + n))"

text \<open>A byte of a multi-byte character is at least 128 and passes through.\<close>

definition json_escape :: "char \<Rightarrow> string" where
  "json_escape c =
     (if c = CHR 0x22 then [CHR 0x5C, CHR 0x22]
      else if c = CHR 0x5C then [CHR 0x5C, CHR 0x5C]
      else if c = NEWLINE then [CHR 0x5C, CHR ''n'']
      else if c = CR then [CHR 0x5C, CHR ''r'']
      else if c = TAB then [CHR 0x5C, CHR ''t'']
      else if code c < 32 then [CHR 0x5C, CHR ''u'', CHR ''0'', CHR ''0'', hex_digit (code c div 16), hex_digit (code c mod 16)]
      else [c])"

definition json_str :: "string \<Rightarrow> string" where
  "json_str s = CHR 0x22 # concat (map json_escape s) @ [CHR 0x22]"

definition payload :: "string \<Rightarrow> rule \<Rightarrow> string \<Rightarrow> f64 \<Rightarrow> string option \<Rightarrow> string" where
  "payload host r state v detail =
     (let q = (\<lambda>s. CHR 0x22 # s @ [CHR 0x22])
      in ''{'' @ q ''source'' @ '':'' @ q ''pg-vm-pool'' @ '','' @ q ''host'' @ '':'' @ json_str host @ '',''
         @ q ''rule_id'' @ '':'' @ json_str (rule_id r) @ '',''
         @ q ''metric'' @ '':'' @ q (slug (rule_metric r)) @ '',''
         @ q ''state'' @ '':'' @ q state @ '',''
         @ q ''threshold_pct'' @ '':'' @ num (threshold_pct r) @ '',''
         @ q ''value_pct'' @ '':'' @ num v
         @ (case detail of None \<Rightarrow> [] | Some d \<Rightarrow> '','' @ q ''detail'' @ '':'' @ json_str d) @ ''}'')"

definition base36_digit :: "nat \<Rightarrow> char" where
  "base36_digit n = (if n < 10 then char_of (48 + n) else char_of (87 + n))"

fun base36_rev :: "nat \<Rightarrow> string" where
  "base36_rev n = (if n = 0 then [] else base36_digit (n mod 36) # base36_rev (n div 36))"

declare base36_rev.simps [simp del]

definition to_base36 :: "nat \<Rightarrow> string" where
  "to_base36 n = (if n = 0 then ''0'' else rev (base36_rev n))"

section \<open>The rule list and its file\<close>

definition validate :: "string \<Rightarrow> f64 \<Rightarrow> string \<Rightarrow> (metric \<times> string) option" where
  "validate m t url =
     (case metric_parse m of
        None \<Rightarrow> None
      | Some mt \<Rightarrow>
          if \<not> (f64_leq (f64_of 0) t \<and> f64_leq t (f64_of 100)) then None
          else let u = rust_trim url
               in if \<not> (starts_with ''http://'' u \<or> starts_with ''https://'' u) then None
                  else if has_control u then None
                  else Some (mt, u))"

definition rule_line :: "rule \<Rightarrow> string" where
  "rule_line r = join_tab [rule_id r, slug (rule_metric r), num (threshold_pct r), webhook_url r,
     if paused r then ''paused'' else ''active'']"

definition serialize :: "rule list \<Rightarrow> string" where
  "serialize rs = concat (map (\<lambda>r. rule_line r @ [NEWLINE]) rs)"

text \<open>\<open>parse\<close>; \<open>pf\<close> is the parser of floating-point numbers.\<close>

definition rule_parse :: "(string \<Rightarrow> f64 option) \<Rightarrow> string \<Rightarrow> rule option" where
  "rule_parse pf line =
     (case split_on TAB line of
        i # m # t # u # rest \<Rightarrow>
          (case (metric_parse m, pf t) of
             (Some mt, Some tv) \<Rightarrow>
               if i = [] \<or> u = [] then None
               else Some \<lparr>rule_id = i, rule_metric = mt, threshold_pct = tv, webhook_url = u, firing = False,
                          paused = (rest \<noteq> [] \<and> hd rest = ''paused'')\<rparr>
           | _ \<Rightarrow> None)
      | _ \<Rightarrow> None)"

definition alerts_parse :: "(string \<Rightarrow> f64 option) \<Rightarrow> string \<Rightarrow> rule list" where
  "alerts_parse pf s = List.map_filter (rule_parse pf) (rust_lines s)"

text \<open>The rules in memory and the file; a change that persists returns its snapshot.\<close>

record alert_store =
  rules :: "rule list"
  afile :: "string option"

definition alerts_load :: "(string \<Rightarrow> f64 option) \<Rightarrow> string option \<Rightarrow> alert_store" where
  "alerts_load pf f = \<lparr>rules = (case f of None \<Rightarrow> [] | Some s \<Rightarrow> alerts_parse pf s), afile = f\<rparr>"

definition alerts_write :: "bool \<Rightarrow> string \<Rightarrow> alert_store \<Rightarrow> alert_store" where
  "alerts_write disk_ok snap s = (if disk_ok then s\<lparr>afile := Some snap\<rparr> else s)"

definition add_mem :: "nat \<Rightarrow> string \<Rightarrow> f64 \<Rightarrow> string \<Rightarrow> alert_store \<Rightarrow> string option \<times> alert_store" where
  "add_mem nanos m t url s =
     (case validate m t url of
        None \<Rightarrow> (None, s)
      | Some (mt, u) \<Rightarrow>
          if MAX_RULES \<le> length (rules s) then (None, s)
          else let s' = s\<lparr>rules := rules s @ [\<lparr>rule_id = to_base36 nanos, rule_metric = mt, threshold_pct = t,
                             webhook_url = u, firing = False, paused = False\<rparr>]\<rparr>
               in (Some (serialize (rules s')), s'))"

text \<open>The first rule with the id is changed.\<close>

fun change_first :: "string \<Rightarrow> (rule \<Rightarrow> rule) \<Rightarrow> rule list \<Rightarrow> rule list option" where
  "change_first i f [] = None"
| "change_first i f (r # rs) =
     (if rule_id r = i then Some (f r # rs) else map_option (\<lambda>rs'. r # rs') (change_first i f rs))"

definition change_mem :: "string \<Rightarrow> (rule \<Rightarrow> rule) \<Rightarrow> alert_store \<Rightarrow> string option \<times> alert_store" where
  "change_mem i f s =
     (case change_first i f (rules s) of
        None \<Rightarrow> (None, s)
      | Some rs \<Rightarrow> (Some (serialize rs), s\<lparr>rules := rs\<rparr>))"

definition update_mem :: "string \<Rightarrow> string \<Rightarrow> f64 \<Rightarrow> string \<Rightarrow> alert_store \<Rightarrow> string option \<times> alert_store" where
  "update_mem i m t url s =
     (case validate m t url of
        None \<Rightarrow> (None, s)
      | Some (mt, u) \<Rightarrow>
          change_mem i (\<lambda>r. r\<lparr>rule_metric := mt, threshold_pct := t, webhook_url := u, firing := False\<rparr>) s)"

definition set_paused_mem :: "string \<Rightarrow> bool \<Rightarrow> alert_store \<Rightarrow> string option \<times> alert_store" where
  "set_paused_mem i p s = change_mem i (\<lambda>r. r\<lparr>paused := p, firing := (firing r \<and> \<not> p)\<rparr>) s"

definition remove_mem :: "string \<Rightarrow> alert_store \<Rightarrow> string option \<times> alert_store" where
  "remove_mem i s =
     (let rs = filter (\<lambda>r. rule_id r \<noteq> i) (rules s)
      in if length rs = length (rules s) then (None, s) else (Some (serialize rs), s\<lparr>rules := rs\<rparr>))"

text \<open>A whole call: the change, then the write of its snapshot. The result is whether it reports success.\<close>

definition persist :: "bool \<Rightarrow> string option \<times> alert_store \<Rightarrow> bool \<times> alert_store" where
  "persist disk_ok c = (case c of (None, s) \<Rightarrow> (False, s) | (Some snap, s) \<Rightarrow> (disk_ok, alerts_write disk_ok snap s))"

section \<open>The evaluator\<close>

definition metric_value :: "alert_sample \<Rightarrow> metric \<Rightarrow> f64 option \<times> string option" where
  "metric_value s m =
     (case m of Host_Cpu \<Rightarrow> (host_cpu_pct s, None) | Host_Memory \<Rightarrow> (host_mem_pct s, None)
      | Disk \<Rightarrow> (max_disk_pct s, worst_mount s) | Heyvmd_Health \<Rightarrow> (heyvmd_fail_count s, heyvmd_error s))"

definition over :: "rule \<Rightarrow> f64 \<Rightarrow> bool" where
  "over r v = f64_leq (threshold_pct r) v"

text \<open>One rule against one sample: the rule after it and the webhook it sends, as URL and body.\<close>

definition evaluate_rule :: "string \<Rightarrow> alert_sample \<Rightarrow> rule \<Rightarrow> rule \<times> (string \<times> string) option" where
  "evaluate_rule host s r =
     (if paused r then (r, None)
      else case metric_value s (rule_metric r) of
             (None, _) \<Rightarrow> (r, None)
           | (Some v, detail) \<Rightarrow>
               if over r v \<and> \<not> firing r
               then (let r' = r\<lparr>firing := True\<rparr> in (r', Some (webhook_url r, payload host r' ''triggered'' v detail)))
               else if \<not> over r v \<and> firing r
               then (let r' = r\<lparr>firing := False\<rparr> in (r', Some (webhook_url r, payload host r' ''resolved'' v detail)))
               else (r, None))"

definition evaluate :: "string \<Rightarrow> alert_sample \<Rightarrow> alert_store \<Rightarrow> (string \<times> string) list \<times> alert_store" where
  "evaluate host smp s =
     (let rs = map (evaluate_rule host smp) (rules s)
      in (List.map_filter snd rs, s\<lparr>rules := map fst rs\<rparr>))"

text \<open>
  One tick of the evaluator: the daemon probe resets or advances the failure counter (\<open>None\<close> is a healthy
  daemon), and the counter enters the sample. Counters below \<open>2 ^ 53\<close> are exact as \<open>f64\<close>.
\<close>

definition evaluator_tick ::
  "string \<Rightarrow> alert_sample \<Rightarrow> string option \<Rightarrow> nat \<times> alert_store \<Rightarrow> (string \<times> string) list \<times> nat \<times> alert_store" where
  "evaluator_tick host smp health c =
     (let fails = (case health of None \<Rightarrow> 0 | Some _ \<Rightarrow> fst c + 1);
          smp' = smp\<lparr>heyvmd_error := (case health of None \<Rightarrow> heyvmd_error smp | Some err \<Rightarrow> Some err),
                     heyvmd_fail_count := Some (f64_of (int fails))\<rparr>;
          (out, s) = evaluate host smp' (snd c)
      in (out, fails, s))"

section \<open>Webhooks are the edges\<close>

text \<open>
  What a rule should send for the readings it saw: one webhook each time the reading is on the other
  side of the threshold than before, nothing in between.
\<close>

fun edge_hooks :: "string \<Rightarrow> rule \<Rightarrow> bool \<Rightarrow> (f64 \<times> string option) list \<Rightarrow> (string \<times> string) list" where
  "edge_hooks host r b [] = []"
| "edge_hooks host r b ((v, d) # os) =
     (if over r v = b then edge_hooks host r b os
      else (webhook_url r, payload host r (if over r v then ''triggered'' else ''resolved'') v d) # edge_hooks host r (\<not> b) os)"

definition readings :: "metric \<Rightarrow> alert_sample list \<Rightarrow> (f64 \<times> string option) list" where
  "readings m ss = List.map_filter (\<lambda>s. case metric_value s m of (None, _) \<Rightarrow> None | (Some v, d) \<Rightarrow> Some (v, d)) ss"

definition rule_hooks :: "string \<Rightarrow> alert_sample list \<Rightarrow> rule \<Rightarrow> (string \<times> string) list" where
  "rule_hooks host ss r = (if paused r then [] else edge_hooks host r (firing r) (readings (rule_metric r) ss))"

fun evaluate_all :: "string \<Rightarrow> alert_sample list \<Rightarrow> alert_store \<Rightarrow> (string \<times> string) list" where
  "evaluate_all host [] s = []"
| "evaluate_all host (x # xs) s = (case evaluate host x s of (out, s') \<Rightarrow> out @ evaluate_all host xs s')"

lemma payload_firing [simp]: "payload host (r\<lparr>firing := b\<rparr>) = payload host r"
  by (simp add: payload_def fun_eq_iff)

lemma over_firing [simp]: "over (r\<lparr>firing := b\<rparr>) = over r"
  by (simp add: over_def fun_eq_iff)

lemma edge_hooks_firing [simp]: "edge_hooks host (r\<lparr>firing := b\<rparr>) c os = edge_hooks host r c os"
  by (induction host r c os rule: edge_hooks.induct) simp_all

lemma readings_Cons:
  "readings m (s # ss) =
     (case metric_value s m of (None, _) \<Rightarrow> readings m ss | (Some v, d) \<Rightarrow> (v, d) # readings m ss)"
  by (simp add: readings_def List.map_filter_def split: prod.splits option.splits)

lemma rule_hooks_step:
  "rule_hooks host (s # ss) r =
     (case snd (evaluate_rule host s r) of None \<Rightarrow> [] | Some h \<Rightarrow> [h]) @ rule_hooks host ss (fst (evaluate_rule host s r))"
  by (simp add: rule_hooks_def evaluate_rule_def readings_Cons Let_def split: prod.splits option.splits)

lemma mset_map_filter_snd:
  "mset (List.map_filter snd (map f rs)) = (\<Sum>r\<in>#mset rs. mset (case snd (f r) of None \<Rightarrow> [] | Some h \<Rightarrow> [h]))"
  by (induction rs) (auto simp: List.map_filter_def split: option.splits)

text \<open>
  Over any run of samples, the webhooks sent are exactly those every rule owes: for a paused rule none,
  for another one webhook per crossing of its threshold, alternating between triggered and resolved and
  starting from its state; a metric that cannot be read neither fires nor resolves a rule.
\<close>
theorem webhooks_are_edges:
  "mset (evaluate_all host ss s) = (\<Sum>r\<in>#mset (rules s). mset (rule_hooks host ss r))"
proof (induction ss arbitrary: s)
  case Nil
  show ?case by (simp add: rule_hooks_def readings_def List.map_filter_def sum_mset.neutral)
next
  case (Cons x ss)
  have "mset (evaluate_all host (x # ss) s) =
      (\<Sum>r\<in>#mset (rules s). mset (case snd (evaluate_rule host x r) of None \<Rightarrow> [] | Some h \<Rightarrow> [h]))
      + (\<Sum>r\<in>#mset (rules s). mset (rule_hooks host ss (fst (evaluate_rule host x r))))"
    by (simp add: evaluate_def Let_def mset_map_filter_snd Cons.IH image_mset.compositionality comp_def)
  then show ?case
    by (simp add: rule_hooks_step sum_mset.distrib)
qed

section \<open>The file\<close>

text \<open>What the parser of numbers has to do: read a percentage with one decimal back as one that prints the same.\<close>

definition parses_tenths :: "(string \<Rightarrow> f64 option) \<Rightarrow> bool" where
  "parses_tenths pf \<longleftrightarrow> (\<forall>t\<le>1000. \<exists>y. pf (show_tenths t) = Some y \<and> num y = show_tenths t
     \<and> f64_leq (f64_of 0) y \<and> f64_leq y (f64_of 100))"

definition rule_ok :: "rule \<Rightarrow> bool" where
  "rule_ok r \<longleftrightarrow> rule_id r \<noteq> [] \<and> plain_field (rule_id r) \<and> webhook_url r \<noteq> [] \<and> plain_field (webhook_url r)
     \<and> f64_leq (f64_of 0) (threshold_pct r) \<and> f64_leq (threshold_pct r) (f64_of 100)"

lemma round_half_even_le: "0 < b \<Longrightarrow> a \<le> c * b \<Longrightarrow> round_half_even a b \<le> c"
proof -
  assume b: "0 < b" and a: "a \<le> c * b"
  have q: "a div b \<le> c" using a b by (metis div_le_mono nonzero_mult_div_cancel_right less_numeral_extra(3))
  show ?thesis
  proof (cases "a div b = c")
    case True
    then have "a mod b = 0" using a by (metis add_diff_cancel_left' div_mult_mod_eq diff_is_0_eq)
    then show ?thesis using True b by (simp add: round_half_even_def)
  qed (use q in \<open>auto simp: round_half_even_def Let_def\<close>)
qed

lemma num_percent:
  assumes "f64_leq (f64_of 0) v" "f64_leq v (f64_of 100)"
  shows "\<exists>t\<le>1000. num v = show_tenths t"
proof (cases v)
  case (Dyadic m e)
  have m: "0 \<le> m" "m \<le> 100 * 2 ^ e" using assms Dyadic by (auto simp: f64_leq_def not_less)
  then have "10 * nat \<bar>m\<bar> \<le> 1000 * 2 ^ e" by (simp add: nat_le_iff)
  then have "round_half_even (10 * nat \<bar>m\<bar>) (2 ^ e) \<le> 1000" by (intro round_half_even_le) auto
  with m Dyadic show ?thesis by auto
qed (use assms in \<open>auto simp: f64_leq_def\<close>)

lemma plain_field_show_tenths: "plain_field (show_tenths t)"
proof -
  have "digit_char (t mod 10) \<notin> {TAB, NEWLINE, CR}"
    using is_ascii_digit_digit_char [of "t mod 10"] by (auto simp: is_ascii_digit_def code_def)
  then show ?thesis
    using plain_field_show_nat [of "t div 10"] by (auto simp: show_tenths_def plain_field_def)
qed

lemma metric_parse_slug [simp]: "metric_parse (slug m) = Some m"
  by (cases m) (simp_all add: metric_parse_def)

lemma plain_field_slug: "plain_field (slug m)"
  by (cases m) (simp_all add: plain_field_def)

text \<open>A rule after a reload: the same, not firing, its threshold rounded to what the file holds.\<close>

definition rule_reloaded :: "(string \<Rightarrow> f64 option) \<Rightarrow> rule \<Rightarrow> rule" where
  "rule_reloaded pf r = r\<lparr>firing := False, threshold_pct := the (pf (num (threshold_pct r)))\<rparr>"

lemma rule_line_fields:
  assumes "rule_ok r"
  shows "\<forall>f \<in> set [rule_id r, slug (rule_metric r), num (threshold_pct r), webhook_url r,
     if paused r then ''paused'' else ''active'']. plain_field f"
proof -
  obtain t where "num (threshold_pct r) = show_tenths t" using assms num_percent by (auto simp: rule_ok_def)
  then have "plain_field (num (threshold_pct r))" by (simp add: plain_field_show_tenths)
  moreover have "plain_field ''paused''" "plain_field ''active''" by (simp_all add: plain_field_def)
  ultimately show ?thesis using assms by (simp add: rule_ok_def plain_field_slug)
qed

lemma rule_line_plain: "rule_ok r \<Longrightarrow> NEWLINE \<notin> set (rule_line r) \<and> CR \<notin> set (rule_line r)"
  unfolding rule_line_def by (rule plain_line [OF rule_line_fields])

lemma rule_parse_line:
  assumes "rule_ok r" "parses_tenths pf"
  shows "rule_parse pf (rule_line r) = Some (rule_reloaded pf r)" "num (threshold_pct (rule_reloaded pf r)) = num (threshold_pct r)"
    "rule_ok (rule_reloaded pf r)"
proof -
  obtain t where "t \<le> 1000" and n: "num (threshold_pct r) = show_tenths t"
    using assms(1) num_percent by (auto simp: rule_ok_def)
  with assms(2) obtain y where y: "pf (show_tenths t) = Some y" "num y = show_tenths t"
      "f64_leq (f64_of 0) y" "f64_leq y (f64_of 100)"
    by (auto simp: parses_tenths_def)
  show "rule_parse pf (rule_line r) = Some (rule_reloaded pf r)"
    using split_plain [OF _ rule_line_fields [OF assms(1)]] assms(1) y n
    by (simp add: rule_parse_def rule_line_def rule_reloaded_def rule_ok_def)
  show "num (threshold_pct (rule_reloaded pf r)) = num (threshold_pct r)" "rule_ok (rule_reloaded pf r)"
    using y n assms(1) by (simp_all add: rule_reloaded_def rule_ok_def)
qed

lemma alerts_parse_serialize:
  assumes "list_all rule_ok rs" "parses_tenths pf"
  shows "alerts_parse pf (serialize rs) = map (rule_reloaded pf) rs"
proof -
  have "rust_lines (serialize rs) = map rule_line rs"
    unfolding serialize_def
    using rust_lines_concat [of "map rule_line rs"] assms(1) rule_line_plain
    by (auto simp: comp_def list_all_iff)
  moreover have "List.map_filter (rule_parse pf) (map rule_line rs) = map (rule_reloaded pf) rs"
    using assms by (induction rs) (auto simp: List.map_filter_def rule_parse_line)
  ultimately show ?thesis by (simp add: alerts_parse_def)
qed

lemma rule_reloaded_twice:
  "rule_ok r \<Longrightarrow> parses_tenths pf \<Longrightarrow> rule_reloaded pf (rule_reloaded pf r) = rule_reloaded pf r"
  using rule_parse_line(2) [of r pf] by (simp add: rule_reloaded_def)

text \<open>
  The calls of the dashboard, one at a time, the ticks of the evaluator and a restart; any write may fail.
  Beside the store, two ghosts: the rules as of the last write that succeeded, and whether a write has
  failed since.
\<close>

record alert_run =
  alerts_now :: alert_store
  saved :: "rule list"
  behind :: bool

definition call_step :: "bool \<Rightarrow> string option \<times> alert_store \<Rightarrow> alert_run \<Rightarrow> alert_run" where
  "call_step disk_ok c x =
     x\<lparr>alerts_now := snd (persist disk_ok c),
       saved := (if fst c \<noteq> None \<and> disk_ok then rules (snd c) else saved x),
       behind := (if fst c \<noteq> None then \<not> disk_ok else behind x)\<rparr>"

inductive alert_step :: "(string \<Rightarrow> f64 option) \<Rightarrow> alert_run \<Rightarrow> alert_run \<Rightarrow> bool" for pf where
  step_add: "alert_step pf x (call_step disk_ok (add_mem nanos m t url (alerts_now x)) x)"
| step_update: "alert_step pf x (call_step disk_ok (update_mem i m t url (alerts_now x)) x)"
| step_pause: "alert_step pf x (call_step disk_ok (set_paused_mem i p (alerts_now x)) x)"
| step_remove: "alert_step pf x (call_step disk_ok (remove_mem i (alerts_now x)) x)"
| step_tick: "alert_step pf x (x\<lparr>alerts_now := snd (evaluate host smp (alerts_now x))\<rparr>)"
| step_restart: "alert_step pf x (x\<lparr>alerts_now := alerts_load pf (afile (alerts_now x)), behind := False\<rparr>)"

definition alert_start :: "alert_run \<Rightarrow> bool" where
  "alert_start x \<longleftrightarrow> x = \<lparr>alerts_now = \<lparr>rules = [], afile = None\<rparr>, saved = [], behind = False\<rparr>"

definition rules_ok :: "rule list \<Rightarrow> bool" where
  "rules_ok rs \<longleftrightarrow> list_all rule_ok rs \<and> length rs \<le> MAX_RULES"

definition alert_inv :: "(string \<Rightarrow> f64 option) \<Rightarrow> alert_run \<Rightarrow> bool" where
  "alert_inv pf x \<longleftrightarrow> parses_tenths pf \<longrightarrow>
     rules_ok (rules (alerts_now x)) \<and> rules_ok (saved x)
     \<and> rules (alerts_load pf (afile (alerts_now x))) = map (rule_reloaded pf) (saved x)
     \<and> (behind x \<or> map (rule_reloaded pf) (saved x) = map (rule_reloaded pf) (rules (alerts_now x)))"

lemma to_base36_plain: "to_base36 n \<noteq> [] \<and> plain_field (to_base36 n)"
proof -
  have d: "is_ascii_graphic (base36_digit (k mod 36))" for k
  proof -
    have "k mod 36 \<le> 35" using mod_less_divisor [of 36 k] by linarith
    then show ?thesis by (simp add: base36_digit_def is_ascii_graphic_def)
  qed
  have "\<forall>c \<in> set (base36_rev k). is_ascii_graphic c" for k
    by (induction k rule: base36_rev.induct) (subst base36_rev.simps, simp add: d)
  then have "\<forall>c \<in> set (to_base36 n). is_ascii_graphic c"
    by (simp add: to_base36_def is_ascii_graphic_def code_def)
  then have "plain_field (to_base36 n)" by (intro plain_field_graphic) blast
  moreover have "to_base36 n \<noteq> []" by (subst to_base36_def) (simp add: base36_rev.simps [of n])
  ultimately show ?thesis by simp
qed

lemma validate_ok:
  "validate m t url = Some (mt, u) \<Longrightarrow> u \<noteq> [] \<and> plain_field u \<and> f64_leq (f64_of 0) t \<and> f64_leq t (f64_of 100)"
  by (auto simp: validate_def Let_def starts_with_def plain_field_no_control split: option.splits if_splits)

lemma change_first_ok:
  assumes "change_first i f rs = Some rs'" "rules_ok rs" "\<And>r. rule_ok r \<Longrightarrow> rule_ok (f r)"
  shows "rules_ok rs'"
proof -
  have "list_all rule_ok rs' \<and> length rs' = length rs"
    if "change_first i f rs = Some rs'" "list_all rule_ok rs" for rs rs'
    using that assms(3) by (induction rs arbitrary: rs') (auto split: if_splits)
  with assms(1,2) show ?thesis by (simp add: rules_ok_def)
qed

lemma add_mem_cases:
  "add_mem nanos m t url s = (snap, s') \<Longrightarrow> rules_ok (rules s) \<Longrightarrow>
     snap = None \<and> s' = s \<or> snap = Some (serialize (rules s')) \<and> rules_ok (rules s') \<and> afile s' = afile s"
  by (auto simp: add_mem_def Let_def rules_ok_def rule_ok_def to_base36_plain dest!: validate_ok
      split: option.splits if_splits)

lemma change_mem_cases:
  "change_mem i f s = (snap, s') \<Longrightarrow> rules_ok (rules s) \<Longrightarrow> (\<And>r. rule_ok r \<Longrightarrow> rule_ok (f r)) \<Longrightarrow>
     snap = None \<and> s' = s \<or> snap = Some (serialize (rules s')) \<and> rules_ok (rules s') \<and> afile s' = afile s"
  by (auto simp: change_mem_def dest: change_first_ok split: option.splits)

lemma remove_mem_cases:
  "remove_mem i s = (snap, s') \<Longrightarrow> rules_ok (rules s) \<Longrightarrow>
     snap = None \<and> s' = s \<or> snap = Some (serialize (rules s')) \<and> rules_ok (rules s') \<and> afile s' = afile s"
  by (auto simp: remove_mem_def Let_def rules_ok_def list_all_iff intro: le_trans [OF length_filter_le] split: if_splits)

lemma persist_inv:
  assumes "alert_inv pf x"
    and "\<And>snap s'. c = (snap, s') \<Longrightarrow> rules_ok (rules (alerts_now x)) \<Longrightarrow>
      snap = None \<and> s' = alerts_now x \<or> snap = Some (serialize (rules s')) \<and> rules_ok (rules s') \<and> afile s' = afile (alerts_now x)"
  shows "alert_inv pf (call_step disk_ok c x)"
proof (cases "parses_tenths pf")
  case True
  obtain snap s' where c: "c = (snap, s')" by (cases c)
  have "rules_ok (rules (alerts_now x))" using assms(1) True by (simp add: alert_inv_def)
  from assms(2) [OF c this] assms(1) show ?thesis
    by (cases disk_ok) (auto simp: c alert_inv_def call_step_def persist_def alerts_write_def alerts_load_def
        rules_ok_def alerts_parse_serialize)
qed (simp add: alert_inv_def)

lemma evaluate_rule_frame: "\<exists>b. fst (evaluate_rule host smp r) = r\<lparr>firing := b\<rparr>"
  by (auto simp: evaluate_rule_def Let_def split: prod.splits option.splits intro: exI [of _ "firing r"])

lemma evaluate_inv: "alert_inv pf x \<Longrightarrow> alert_inv pf (x\<lparr>alerts_now := snd (evaluate host smp (alerts_now x))\<rparr>)"
proof -
  assume inv: "alert_inv pf x"
  have f: "rule_ok (fst (evaluate_rule host smp r)) = rule_ok r"
    "rule_reloaded pf (fst (evaluate_rule host smp r)) = rule_reloaded pf r" for r
    using evaluate_rule_frame [of host smp r] by (auto simp: rule_ok_def rule_reloaded_def)
  show ?thesis
    using inv by (simp add: alert_inv_def evaluate_def Let_def rules_ok_def list.pred_map comp_def f)
qed

lemma restart_inv:
  "alert_inv pf x \<Longrightarrow> alert_inv pf (x\<lparr>alerts_now := alerts_load pf (afile (alerts_now x)), behind := False\<rparr>)"
proof -
  assume inv: "alert_inv pf x"
  let ?f = "afile (alerts_now x)" and ?g = "rule_reloaded pf"
  show ?thesis
  proof (cases "parses_tenths pf")
    case True
    with inv have rs: "rules_ok (saved x)" "rules (alerts_load pf ?f) = map ?g (saved x)" by (auto simp: alert_inv_def)
    have "afile (alerts_load pf ?f) = ?f" by (simp add: alerts_load_def)
    moreover have "map ?g (map ?g (saved x)) = map ?g (saved x)"
      using rs(1) True by (auto simp: rules_ok_def list_all_iff rule_reloaded_twice)
    moreover have "rules_ok (map ?g (saved x))"
      using rs(1) True by (auto simp: rules_ok_def list_all_iff rule_parse_line(3))
    ultimately show ?thesis using rs by (simp add: alert_inv_def)
  qed (simp add: alert_inv_def)
qed

lemma update_mem_cases:
  assumes "update_mem i m t url s = (snap, s')" "rules_ok (rules s)"
  shows "snap = None \<and> s' = s \<or> snap = Some (serialize (rules s')) \<and> rules_ok (rules s') \<and> afile s' = afile s"
proof (cases "validate m t url")
  case (Some x)
  obtain mt u where x: "x = (mt, u)" by (cases x) blast
  show ?thesis
  proof (rule change_mem_cases)
    show "change_mem i (\<lambda>r. r\<lparr>rule_metric := mt, threshold_pct := t, webhook_url := u, firing := False\<rparr>) s = (snap, s')"
      using assms(1) Some x by (simp add: update_mem_def)
    show "rule_ok (r\<lparr>rule_metric := mt, threshold_pct := t, webhook_url := u, firing := False\<rparr>)" if "rule_ok r" for r
      using that validate_ok [of m t url mt u] Some x by (simp add: rule_ok_def)
  qed (rule assms(2))
qed (use assms in \<open>simp add: update_mem_def\<close>)

lemma set_paused_mem_cases:
  "set_paused_mem i p s = (snap, s') \<Longrightarrow> rules_ok (rules s) \<Longrightarrow>
     snap = None \<and> s' = s \<or> snap = Some (serialize (rules s')) \<and> rules_ok (rules s') \<and> afile s' = afile s"
  unfolding set_paused_mem_def by (erule change_mem_cases) (simp_all add: rule_ok_def)

lemma alert_inv_step: "alert_step pf s s' \<Longrightarrow> alert_inv pf s \<Longrightarrow> alert_inv pf s'"
proof (induction rule: alert_step.induct)
  case (step_add x disk_ok nanos m t url)
  then show ?case by (rule persist_inv) (rule add_mem_cases)
next
  case (step_update x disk_ok i m t url)
  then show ?case by (rule persist_inv) (rule update_mem_cases)
next
  case (step_pause x disk_ok i p)
  then show ?case by (rule persist_inv) (rule set_paused_mem_cases)
next
  case (step_remove x disk_ok i)
  then show ?case by (rule persist_inv) (rule remove_mem_cases)
qed (auto intro: evaluate_inv restart_inv)

lemma alert_inv_start: "alert_start s \<Longrightarrow> alert_inv pf s"
  by (simp add: alert_start_def alert_inv_def alerts_load_def rules_ok_def)

interpretation alert_life: inductive_invariant alert_start "alert_step pf" "alert_inv pf" for pf
  by unfold_locales (auto intro: alert_inv_step alert_inv_start)

text \<open>
  C29: Saved alert rules survive a restart. After any sequence of changes, evaluations and restarts, one
  at a time and with any writes failing, a process that starts now has the rules as of the last write
  that succeeded, in the same order, none firing, each threshold as the file shows it to one decimal.
  They are the rules in force in the running process unless a write has failed since, and there are never
  more than 64 of either.
\<close>
theorem alerts_survive_restart:
  assumes "parses_tenths pf" and "run_of alert_start (alert_step pf) x"
  shows "rules (alerts_load pf (afile (alerts_now x))) = map (rule_reloaded pf) (saved x)
     \<and> (\<not> behind x \<longrightarrow> map (rule_reloaded pf) (saved x) = map (rule_reloaded pf) (rules (alerts_now x)))
     \<and> length (saved x) \<le> 64 \<and> length (rules (alerts_now x)) \<le> 64
     \<and> list_all (\<lambda>r. num (threshold_pct (rule_reloaded pf r)) = num (threshold_pct r)) (saved x)"
  using alert_life.reachable_inv [OF assms(2)] assms(1)
  by (auto simp: alert_inv_def rules_ok_def MAX_RULES_def list_all_iff rule_parse_line(2))

text \<open>A parser of numbers that reads percentages with one decimal.\<close>

definition tenths_parser :: "string \<Rightarrow> f64 option" where
  "tenths_parser s =
     map_option (\<lambda>t. Dyadic ((int t * 1024 + 5) div 10) 10) (List.find (\<lambda>t. show_tenths t = s) [0..<1001])"

lemma show_tenths_inj: "show_tenths t = show_tenths u \<Longrightarrow> t = u"
proof -
  assume eq: "show_tenths t = show_tenths u"
  have "length (show_nat (t div 10)) = length (show_nat (u div 10))"
    using arg_cong [OF eq, of length] by (simp add: show_tenths_def)
  then have parts: "show_nat (t div 10) = show_nat (u div 10)" "digit_char (t mod 10) = digit_char (u mod 10)"
    using eq by (simp_all add: show_tenths_def)
  have "t mod 10 = u mod 10"
    using arg_cong [OF parts(2), of code] by (simp add: code_digit_char)
  moreover have "t div 10 = u div 10"
    using parts(1) by (metis option.inject digits_value_show_nat)
  ultimately show ?thesis by (metis div_mult_mod_eq)
qed

lemma round_near: "c = (t * 1024 + 5) div 10 \<Longrightarrow> round_half_even (10 * c) 1024 = t" for c t :: nat
proof -
  assume c: "c = (t * 1024 + 5) div 10"
  have "10 * c + (t * 1024 + 5) mod 10 = t * 1024 + 5" "(t * 1024 + 5) mod 10 < 10" unfolding c by simp_all
  then have "10 * c \<le> t * 1024 + 5" "t * 1024 \<le> 10 * c + 4" by linarith+
  then consider d where "10 * c = t * 1024 + d" "d \<le> 5" | d where "10 * c + d = t * 1024" "1 \<le> d" "d \<le> 4"
  proof (cases "t * 1024 \<le> 10 * c")
    case True
    show ?thesis by (rule that(1) [of "10 * c - t * 1024"]) (use True \<open>10 * c \<le> t * 1024 + 5\<close> in linarith)+
  next
    case False
    show ?thesis by (rule that(2) [of "t * 1024 - 10 * c"]) (use False \<open>t * 1024 \<le> 10 * c + 4\<close> in linarith)+
  qed
  then show ?thesis
  proof cases
    case 1
    then have "10 * c div 1024 = t" "10 * c mod 1024 = d" by auto
    then show ?thesis using 1 by (simp add: round_half_even_def)
  next
    case 2
    then have "10 * c = (t - 1) * 1024 + (1024 - d)" by (cases t) auto
    then have "10 * c div 1024 = t - 1" "10 * c mod 1024 = 1024 - d"
      using 2 by (simp_all only: div_mult_self3 mod_mult_self3) simp_all
    then show ?thesis using 2 by (cases t) (auto simp: round_half_even_def Let_def)
  qed
qed

lemma tenths_parser_law: "parses_tenths tenths_parser"
  unfolding parses_tenths_def
proof (intro allI impI)
  fix t :: nat
  assume t: "t \<le> 1000"
  let ?c = "(t * 1024 + 5) div 10"
  have "List.find (\<lambda>u. show_tenths u = show_tenths t) [0..<1001] = Some t"
    using t by (auto simp: find_Some_iff intro!: exI [of _ t] dest: show_tenths_inj)
  then have "tenths_parser (show_tenths t) = Some (Dyadic (int ?c) 10)"
    by (simp add: tenths_parser_def zdiv_int)
  moreover have "num (Dyadic (int ?c) 10) = show_tenths t"
    using round_near [of ?c t] by simp
  moreover have "f64_leq (f64_of 0) (Dyadic (int ?c) 10)" by (simp add: f64_leq_def)
  moreover have "?c \<le> 102400" using t by linarith
  then have "f64_leq (Dyadic (int ?c) 10) (f64_of 100)" by (simp add: f64_leq_def)
  ultimately show "\<exists>y. tenths_parser (show_tenths t) = Some y \<and> num y = show_tenths t
      \<and> f64_leq (f64_of 0) y \<and> f64_leq y (f64_of 100)" by blast
qed

text \<open>A disk alert at 99.96 percent, saved: the file says 100.0, and that is the threshold after a restart.\<close>

abbreviation no_alerts :: alert_run where
  "no_alerts \<equiv> \<lparr>alerts_now = \<lparr>rules = [], afile = None\<rparr>, saved = [], behind = False\<rparr>"

definition fine_run :: alert_run where
  "fine_run = call_step True (add_mem 7 ''disk'' (Dyadic 102359 10) ''https://hook'' (alerts_now no_alerts)) no_alerts"

definition fine_alert :: alert_store where
  "fine_alert = alerts_now fine_run"

lemma hook_url: "rust_trim ''https://hook'' = ''https://hook''"
  by (simp add: rust_trim_ends is_ascii_graphic_def code_def)

lemma fine_alert_rules:
  "rules fine_alert = [\<lparr>rule_id = to_base36 7, rule_metric = Disk, threshold_pct = Dyadic 102359 10,
     webhook_url = ''https://hook'', firing = False, paused = False\<rparr>]" "\<not> behind fine_run" "saved fine_run = rules fine_alert"
  by (simp_all add: fine_alert_def fine_run_def call_step_def persist_def add_mem_def validate_def metric_parse_def f64_leq_def hook_url starts_with_def
      MAX_RULES_def alerts_write_def code_def)

lemma fine_alert_reachable: "run_of alert_start (alert_step tenths_parser) fine_run"
  unfolding fine_run_def by (rule run_step, rule run_init, simp add: alert_start_def, rule step_add)

theorem alerts_survive_restart_witness:
  "rules (alerts_load tenths_parser (afile fine_alert)) = map (rule_reloaded tenths_parser) (rules fine_alert)
   \<and> length (rules fine_alert) = 1"
  using alerts_survive_restart [OF tenths_parser_law fine_alert_reachable] fine_alert_rules
  by (simp add: fine_alert_def [symmetric])

text \<open>
  The threshold in force before a restart is not the one after it: what the file keeps is rounded to one
  decimal, so a reading of 99.97 fires the rule in the running process and not in the next one.
\<close>
lemma threshold_rounds_on_restart:
  "over (hd (rules fine_alert)) (Dyadic 102370 10)
   \<and> \<not> over (hd (rules (alerts_load tenths_parser (afile fine_alert)))) (Dyadic 102370 10)"
proof -
  have r: "rules (alerts_load tenths_parser (afile fine_alert)) = map (rule_reloaded tenths_parser) (rules fine_alert)"
    using alert_life.reachable_inv [OF fine_alert_reachable] tenths_parser_law fine_alert_rules(3)
    by (simp add: alert_inv_def fine_alert_def [symmetric])
  have "num (Dyadic 102359 10) = show_tenths 1000"
    by (simp add: round_half_even_def)
  moreover have "tenths_parser (show_tenths 1000) = Some (Dyadic 102400 10)"
    by (auto simp: tenths_parser_def find_Some_iff intro!: exI [of _ 1000] dest: show_tenths_inj)
  ultimately show ?thesis
    by (simp add: r fine_alert_rules rule_reloaded_def over_def f64_leq_def del: num.simps)
qed

text \<open>
  The snapshots of two overlapping calls may be written in the other order: both report success and both
  rules are in force, but the file lacks the second, and so does the next process.
\<close>
lemma overlapping_adds_lose_rule:
  assumes "parses_tenths pf" "rules_ok (rules s)"
    and "add_mem n m t u s = (Some snap, s1)" "add_mem n' m' t' u' s1 = (Some snap', s2)"
  shows "let s3 = alerts_write True snap (alerts_write True snap' s2)
     in length (rules s3) = length (rules s) + 2 \<and> rules (alerts_load pf (afile s3)) = map (rule_reloaded pf) (rules s1)
        \<and> length (rules s1) = length (rules s) + 1"
proof -
  have ok: "snap = serialize (rules s1)" "rules_ok (rules s1)"
    using add_mem_cases [OF assms(3,2)] by auto
  have len: "length (rules s1) = length (rules s) + 1" "length (rules s2) = length (rules s1) + 1"
    using assms(3,4) by (auto simp: add_mem_def Let_def split: option.splits if_splits)
  show ?thesis
    using ok len assms(1) by (simp add: alerts_write_def alerts_load_def rules_ok_def alerts_parse_serialize)
qed

text \<open>An addition that could not be saved is reported as failed, and is in force all the same.\<close>

lemma failed_add_stays:
  assumes "add_mem n m t u s = (Some snap, s1)"
  shows "persist False (add_mem n m t u s) = (False, s1) \<and> length (rules s1) = length (rules s) + 1"
  using assms by (auto simp: persist_def alerts_write_def add_mem_def Let_def split: option.splits if_splits)

section \<open>The JSON strings\<close>

text \<open>A JSON reader for the body of a string, after its opening quote: the text and what follows the closing quote.\<close>

definition json_hex :: "char \<Rightarrow> nat option" where
  "json_hex c =
     (if 48 \<le> code c \<and> code c \<le> 57 then Some (code c - 48)
      else if 97 \<le> code c \<and> code c \<le> 102 then Some (code c - 87)
      else if 65 \<le> code c \<and> code c \<le> 70 then Some (code c - 55) else None)"

definition json_short :: "char \<Rightarrow> char option" where
  "json_short c =
     (if c \<in> {CHR 0x22, CHR 0x5C, CHR ''/''} then Some c
      else if c = CHR ''n'' then Some NEWLINE else if c = CHR ''r'' then Some CR else if c = CHR ''t'' then Some TAB
      else if c = CHR ''b'' then Some (CHR 0x08) else if c = CHR ''f'' then Some (CHR 0x0C) else None)"

fun json_body :: "string \<Rightarrow> (string \<times> string) option" where
  "json_body [] = None"
| "json_body (c # cs) =
     (if c = CHR 0x22 then Some ([], cs)
      else if code c < 32 then None
      else if c \<noteq> CHR 0x5C then map_option (\<lambda>(t, rest). (c # t, rest)) (json_body cs)
      else case cs of
             [] \<Rightarrow> None
           | d # ds \<Rightarrow>
               if d \<noteq> CHR ''u''
               then Option.bind (json_short d) (\<lambda>x. map_option (\<lambda>(t, rest). (x # t, rest)) (json_body ds))
               else case ds of
                      z1 # z2 # h # l # es \<Rightarrow>
                        (case (json_hex z1, json_hex z2, json_hex h, json_hex l) of
                           (Some 0, Some 0, Some a, Some b) \<Rightarrow>
                             if a < 8 then map_option (\<lambda>(t, rest). (char_of (16 * a + b) # t, rest)) (json_body es) else None
                         | _ \<Rightarrow> None)
                    | _ \<Rightarrow> None)"

declare json_body.simps(2) [simp del]

lemma json_hex_digit: "n < 16 \<Longrightarrow> json_hex (hex_digit n) = Some n"
  by (auto simp: json_hex_def hex_digit_def)

lemma json_body_escape:
  "json_body (json_escape c @ rest) = map_option (\<lambda>(t, r). (c # t, r)) (json_body rest)"
proof -
  have hex: "json_hex (CHR ''0'') = Some 0" by (simp add: json_hex_def code_def)
  have low: "char_of (16 * (code c div 16) + code c mod 16) = c" by (simp add: code_def)
  show ?thesis
    by (cases "code c < 32")
      (auto simp: json_escape_def json_body.simps(2) json_short_def hex json_hex_digit low code_def
        simp del: char_of_take_bit_eq split: if_splits)
qed

text \<open>
  A JSON reader recovers exactly the string that was written, whatever bytes it holds, and stops at its
  closing quote: no hostname, mount point or error text can add fields to a webhook.
\<close>
theorem json_str_roundtrip:
  "json_str s = CHR 0x22 # tl (json_str s) \<and> json_body (tl (json_str s) @ rest) = Some (s, rest)"
proof -
  have "json_body (concat (map json_escape s) @ CHR 0x22 # rest) = Some (s, rest)"
    by (induction s) (simp_all add: json_body.simps(2) json_body_escape)
  then show ?thesis by (simp add: json_str_def)
qed

end
