(* ===== verification/Dashboard.thy ===== *)
theory Dashboard
  imports Store Wire Settings "HOL-Library.Sublist" "HOL-Library.Product_Lexorder" "HOL-Library.Multiset"
begin

text \<open>
  The admin dashboard: who is let in (\<open>src/src/dashboard/auth.rs\<close>), what the list of VMs shows (\<open>model.rs\<close>:
  the merged inventory with its cache, the join with the pooler's own state, search, filters and
  paging) and the bulk stop and the redirects of \<open>handlers.rs\<close>. The daemon's answers, the base64 decoder and
  Unicode lower-casing are parameters. Of the records, the columns that are only displayed are left out.
\<close>

section \<open>Basic authentication\<close>

text \<open>\<open>HeaderValue::to_str\<close> accepts visible ASCII and tabs.\<close>

definition header_str :: "string \<Rightarrow> bool" where
  "header_str v = list_all (\<lambda>c. c = TAB \<or> 32 \<le> code c \<and> code c < 127) v"

definition authorized :: "(string \<Rightarrow> bytes option) \<Rightarrow> string option \<Rightarrow> string \<Rightarrow> string \<Rightarrow> bool" where
  "authorized b64 hdr usr pwd =
     (case hdr of
        None \<Rightarrow> False
      | Some v \<Rightarrow>
          if \<not> header_str v \<or> \<not> starts_with ''Basic '' v then False
          else case b64 (rust_trim (drop 6 v)) of
                 None \<Rightarrow> False
               | Some d \<Rightarrow>
                   if \<not> valid_utf8 d \<or> CHR '':'' \<notin> set d then False
                   else let u = takeWhile (\<lambda>c. c \<noteq> CHR '':'') d; p = tl (dropWhile (\<lambda>c. c \<noteq> CHR '':'') d)
                        in constant_time_eq u usr \<and> constant_time_eq p pwd)"

definition basic_auth :: "(string \<Rightarrow> bytes option) \<Rightarrow> (string \<times> string) option \<Rightarrow> string option \<Rightarrow> bool" where
  "basic_auth b64 creds hdr = (case creds of None \<Rightarrow> True | Some (usr, pwd) \<Rightarrow> authorized b64 hdr usr pwd)"

section \<open>The inventory\<close>

datatype vm_status = Running | Provisioning | Stopped | Paused | Failed | Cold_Stored | Unknown

fun status_str :: "vm_status \<Rightarrow> string" where
  "status_str Running = ''running''"
| "status_str Provisioning = ''provisioning''"
| "status_str Stopped = ''stopped''"
| "status_str Paused = ''paused''"
| "status_str Failed = ''failed''"
| "status_str Cold_Stored = ''cold-stored''"
| "status_str Unknown = ''unknown''"

record raw_sandbox =
  raw_id :: string
  raw_name :: string
  raw_status :: vm_status
  raw_guest_ip :: "string option"
  raw_image :: "string option"
  raw_offload :: "string option"

record inactive_page =
  sandboxes :: "raw_sandbox list"
  next_cursor :: "string option"

definition MAX_INACTIVE_PAGES :: nat where "MAX_INACTIVE_PAGES = 25"

text \<open>A page adds the sandboxes not seen before, also within the page.\<close>

fun add_unseen :: "raw_sandbox list \<Rightarrow> raw_sandbox list \<Rightarrow> raw_sandbox list" where
  "add_unseen acc [] = acc"
| "add_unseen acc (x # xs) = (if raw_id x \<in> raw_id ` set acc then add_unseen acc xs else add_unseen (acc @ [x]) xs)"

text \<open>
  The walk over the inactive pages: at most \<open>n\<close> requests, ended by a failure or a page without a cursor.
  \<open>daemon k c\<close> is the answer to the \<open>k\<close>-th request, made with cursor \<open>c\<close>.
\<close>

fun inactive_walk :: "(nat \<Rightarrow> string option \<Rightarrow> inactive_page option) \<Rightarrow> nat \<Rightarrow> nat \<Rightarrow> string option \<Rightarrow> raw_sandbox list \<Rightarrow> raw_sandbox list" where
  "inactive_walk daemon 0 k c acc = acc"
| "inactive_walk daemon (Suc n) k c acc =
     (case daemon k c of
        None \<Rightarrow> acc
      | Some p \<Rightarrow>
          let acc' = add_unseen acc (sandboxes p)
          in case next_cursor p of None \<Rightarrow> acc' | Some c' \<Rightarrow> inactive_walk daemon n (Suc k) (Some c') acc')"

definition fetch_inventory :: "raw_sandbox list option \<Rightarrow> (nat \<Rightarrow> string option \<Rightarrow> inactive_page option) \<Rightarrow> raw_sandbox list option" where
  "fetch_inventory deployed daemon =
     map_option (inactive_walk daemon MAX_INACTIVE_PAGES 0 None) deployed"

definition offloaded_row :: "string \<Rightarrow> rec \<Rightarrow> raw_sandbox" where
  "offloaded_row schema r =
     \<lparr>raw_id = sandbox_id r, raw_name = ''pg-'' @ schema, raw_status = Stopped, raw_guest_ip = None,
      raw_image = None, raw_offload = Some (tier_as_str (tier_of r))\<rparr>"

definition append_offloaded :: "raw_sandbox list \<Rightarrow> (string \<times> rec) list \<Rightarrow> raw_sandbox list" where
  "append_offloaded xs records =
     xs @ map (\<lambda>(schema, r). offloaded_row schema r)
            (filter (\<lambda>(schema, r). offloaded r \<and> sandbox_id r \<notin> raw_id ` set xs) records)"

definition row_state_label :: "raw_sandbox \<Rightarrow> string" where
  "row_state_label s = (case raw_offload s of Some l \<Rightarrow> l | None \<Rightarrow> status_str (raw_status s))"

section \<open>The cache\<close>

definition INVENTORY_FRESH :: nat where "INVENTORY_FRESH = 5000"

datatype serve = Fresh | Stale_Refresh | Cold_Fetch

definition serve_plan :: "nat option \<Rightarrow> serve" where
  "serve_plan age =
     (case age of None \<Rightarrow> Cold_Fetch | Some a \<Rightarrow> if a < INVENTORY_FRESH then Fresh else Stale_Refresh)"

text \<open>
  The cached snapshot with the time it was taken, the single-flight flag, the refreshes in flight and the
  inventory walks asked of the daemon so far, newest first.
\<close>

record inv_cache =
  snap :: "(nat \<times> raw_sandbox list) option"
  refreshing :: bool
  in_flight :: nat
  walks :: "nat list"

definition cache_new :: inv_cache where
  "cache_new = \<lparr>snap = None, refreshing = False, in_flight = 0, walks = []\<rparr>"

text \<open>A request at time \<open>now\<close>: what it is served at once, if anything, and the cache after it.\<close>

definition cached_inventory :: "nat \<Rightarrow> inv_cache \<Rightarrow> raw_sandbox list option \<times> inv_cache" where
  "cached_inventory now c =
     (case serve_plan (map_option (\<lambda>(at, _). now - at) (snap c)) of
        Fresh \<Rightarrow> (map_option snd (snap c), c)
      | Stale_Refresh \<Rightarrow>
          (map_option snd (snap c),
           if refreshing c then c
           else c\<lparr>refreshing := True, in_flight := Suc (in_flight c), walks := now # walks c\<rparr>)
      | Cold_Fetch \<Rightarrow> (None, c\<lparr>walks := now # walks c\<rparr>))"

text \<open>The end of a background refresh (a failure or a panic keeps the snapshot; the guard clears the flag) and of a cold fetch.\<close>

definition refresh_done :: "nat \<Rightarrow> raw_sandbox list option \<Rightarrow> inv_cache \<Rightarrow> inv_cache" where
  "refresh_done now res c =
     c\<lparr>snap := (case res of None \<Rightarrow> snap c | Some xs \<Rightarrow> Some (now, xs)), refreshing := False, in_flight := in_flight c - 1\<rparr>"

definition cold_done :: "nat \<Rightarrow> raw_sandbox list option \<Rightarrow> inv_cache \<Rightarrow> inv_cache" where
  "cold_done now res c = (case res of None \<Rightarrow> c | Some xs \<Rightarrow> c\<lparr>snap := Some (now, xs)\<rparr>)"

section \<open>Rows and pages\<close>

record entry_snapshot =
  snap_schema :: string
  snap_sandbox :: string
  snap_active :: nat
  snap_keepalive :: bool

record vm_row =
  row_id :: string
  row_name :: string
  row_schema :: "string option"
  pool_managed :: bool
  row_status :: vm_status
  live_sessions :: "nat option"
  row_keepalive :: bool
  row_offload :: "string option"

text \<open>The pooler's maps: the last entry of an id wins, as in \<open>collect\<close>.\<close>

definition entry_by_id :: "entry_snapshot list \<Rightarrow> string \<Rightarrow> entry_snapshot option" where
  "entry_by_id es i = map_of (rev (map (\<lambda>e. (snap_sandbox e, e)) es)) i"

definition schema_by_id :: "(string \<times> rec) list \<Rightarrow> string \<Rightarrow> string option" where
  "schema_by_id records i = map_of (rev (map (\<lambda>(schema, r). (sandbox_id r, schema)) records)) i"

definition join_row :: "entry_snapshot list \<Rightarrow> (string \<times> rec) list \<Rightarrow> raw_sandbox \<Rightarrow> vm_row" where
  "join_row es records s =
     (let entry = entry_by_id es (raw_id s);
          schema = (case entry of Some e \<Rightarrow> Some (snap_schema e)
                    | None \<Rightarrow> (case schema_by_id records (raw_id s) of Some x \<Rightarrow> Some x
                              | None \<Rightarrow> if starts_with ''pg-'' (raw_name s) then Some (drop 3 (raw_name s)) else None))
      in \<lparr>row_id = raw_id s, row_name = raw_name s, row_schema = schema,
          pool_managed = (schema \<noteq> None \<or> starts_with ''pg-'' (raw_name s)), row_status = raw_status s,
          live_sessions = map_option snap_active entry,
          row_keepalive = (case entry of None \<Rightarrow> False | Some e \<Rightarrow> snap_keepalive e), row_offload = raw_offload s\<rparr>)"

definition build_rows :: "raw_sandbox list \<Rightarrow> entry_snapshot list \<Rightarrow> (string \<times> rec) list \<Rightarrow> vm_row list" where
  "build_rows xs es records =
     sort_key (\<lambda>r. (\<not> pool_managed r, row_name r)) (map (join_row es records) (append_offloaded xs records))"

definition STATE_FILTERS :: "string list" where
  "STATE_FILTERS = [''running'', ''provisioning'', ''stopped'', ''paused'', ''cold-stored'', ''failed'', ''unknown'',
     ''compacted'', ''frozen'', ''archived'']"

definition MAX_PER :: nat where "MAX_PER = 200"

definition state_matches :: "raw_sandbox \<Rightarrow> string \<Rightarrow> bool" where
  "state_matches s state = (state = ''all'' \<or> row_state_label s = state)"

definition matches_query :: "(string \<Rightarrow> string) \<Rightarrow> raw_sandbox \<Rightarrow> string option \<Rightarrow> string \<Rightarrow> bool" where
  "matches_query lower s schema needle =
     (let hay = (\<lambda>v. sublist needle (lower v)); opt = (\<lambda>v. case v of None \<Rightarrow> False | Some x \<Rightarrow> hay x)
      in hay (raw_id s) \<or> hay (raw_name s) \<or> opt schema \<or> hay (row_state_label s) \<or> opt (raw_image s) \<or> opt (raw_guest_ip s))"

definition page_window :: "nat \<Rightarrow> nat \<Rightarrow> nat \<Rightarrow> nat \<times> nat" where
  "page_window matched page per =
     (let pages = max 1 ((matched + per - 1) div per) in (min pages (max 1 page), pages))"

record sandbox_page =
  page_rows :: "vm_row list"
  page_total :: nat
  page_matched :: nat
  page_no :: nat
  page_count :: nat
  state_counts :: "(string \<times> nat) list"

definition applied_state :: "(string \<Rightarrow> string) \<Rightarrow> string \<Rightarrow> string" where
  "applied_state lower state = (let s = lower (rust_trim state) in if s = [] then ''running'' else s)"

definition query_hits ::
  "(string \<Rightarrow> string) \<Rightarrow> string \<Rightarrow> raw_sandbox list \<Rightarrow> entry_snapshot list \<Rightarrow> (string \<times> rec) list \<Rightarrow> raw_sandbox list" where
  "query_hits lower q xs es records =
     (let needle = lower (rust_trim q)
      in filter (\<lambda>s. needle = [] \<or>
                     matches_query lower s
                       (case entry_by_id es (raw_id s) of Some e \<Rightarrow> Some (snap_schema e) | None \<Rightarrow> schema_by_id records (raw_id s))
                       needle)
           (append_offloaded xs records))"

definition page_hits ::
  "(string \<Rightarrow> string) \<Rightarrow> string \<Rightarrow> string \<Rightarrow> raw_sandbox list \<Rightarrow> entry_snapshot list \<Rightarrow> (string \<times> rec) list \<Rightarrow> raw_sandbox list" where
  "page_hits lower q state xs es records =
     sort_key (\<lambda>s. (raw_name s, raw_id s))
       (filter (\<lambda>s. state_matches s (applied_state lower state)) (query_hits lower q xs es records))"

definition build_page ::
  "(string \<Rightarrow> string) \<Rightarrow> string \<Rightarrow> string \<Rightarrow> nat \<Rightarrow> nat \<Rightarrow> raw_sandbox list \<Rightarrow> entry_snapshot list \<Rightarrow> (string \<times> rec) list \<Rightarrow> sandbox_page" where
  "build_page lower q state page per xs es records =
     (let hits = page_hits lower q state xs es records;
          (page', pages) = page_window (length hits) page per
      in \<lparr>page_rows = map (join_row es records) (take per (drop ((page' - 1) * per) hits)),
          page_total = length (append_offloaded xs records), page_matched = length hits,
          page_no = page', page_count = pages,
          state_counts = map (\<lambda>l. (l, length (filter (\<lambda>s. row_state_label s = l) (query_hits lower q xs es records)))) STATE_FILTERS\<rparr>)"

text \<open>The handler bounds the rows per page.\<close>

definition databases ::
  "(string \<Rightarrow> string) \<Rightarrow> string \<Rightarrow> string option \<Rightarrow> nat option \<Rightarrow> nat option \<Rightarrow> raw_sandbox list \<Rightarrow> entry_snapshot list \<Rightarrow> (string \<times> rec) list \<Rightarrow> sandbox_page" where
  "databases lower q state page per xs es records =
     build_page lower q (unwrap_or ''running'' state) (unwrap_or 1 page) (min MAX_PER (max 1 (unwrap_or 25 per))) xs es records"

section \<open>Actions\<close>

definition stop_idle_target :: "vm_row \<Rightarrow> bool" where
  "stop_idle_target r =
     (let stoppable = (pool_managed r \<or> starts_with ''spare-pg-'' (row_name r) \<and> row_schema r \<noteq> None)
      in row_status r = Running \<and> \<not> row_keepalive r \<and> \<not> 0 < unwrap_or 0 (live_sessions r) \<and> stoppable)"

definition action_stop_idle :: "vm_row list \<Rightarrow> string list" where
  "action_stop_idle rows = map row_id (filter stop_idle_target rows)"

definition next_dest :: "string option \<Rightarrow> string option" where
  "next_dest nxt = opt_filter (\<lambda>n. starts_with ''/'' n \<and> \<not> starts_with ''//'' n) nxt"

definition qenc_char :: "char \<Rightarrow> bool" where
  "qenc_char c = (is_ascii_digit c \<or> is_ascii_lowercase c \<or> 65 \<le> code c \<and> code c \<le> 90 \<or> c \<in> set ''+.,:_-()'')"

definition qenc :: "string \<Rightarrow> string" where
  "qenc s = take 200 (filter qenc_char (map (\<lambda>c. if c = CHR '' '' then CHR ''+'' else c) s))"

definition redirect :: "string \<Rightarrow> string + unit \<Rightarrow> string \<Rightarrow> string option \<Rightarrow> string" where
  "redirect i result ok_msg nxt =
     (let (key, val) = (case result of Inr _ \<Rightarrow> (''msg'', ok_msg) | Inl e \<Rightarrow> (''err'', e))
      in case nxt of
           Some n \<Rightarrow> n @ (if CHR ''?'' \<in> set n then ''&'' else ''?'') @ key @ ''='' @ qenc val
         | None \<Rightarrow> ''/vm/'' @ i @ ''?'' @ key @ ''='' @ qenc val)"

section \<open>Who gets in\<close>

lemma split_once_eq:
  "CHR '':'' \<in> set d \<Longrightarrow>
   takeWhile (\<lambda>c. c \<noteq> CHR '':'') d = u \<and> tl (dropWhile (\<lambda>c. c \<noteq> CHR '':'') d) = p \<longleftrightarrow>
   d = u @ CHR '':'' # p \<and> CHR '':'' \<notin> set u"
proof (induction d arbitrary: u)
  case (Cons c d)
  then show ?case by (cases u) auto
qed simp

text \<open>
  With credentials configured, a request passes exactly if its \<open>Authorization\<close> header is a \<open>Basic\<close> one
  whose decoded text is the user name, a colon and the password; a configured user name with a colon in it
  matches no header at all.
\<close>
theorem dashboard_auth_exact:
  "basic_auth b64 (Some (usr, pwd)) hdr \<longleftrightarrow>
     CHR '':'' \<notin> set usr \<and>
     (\<exists>v. hdr = Some v \<and> header_str v \<and> starts_with ''Basic '' v
        \<and> b64 (rust_trim (drop 6 v)) = Some (usr @ CHR '':'' # pwd) \<and> valid_utf8 (usr @ CHR '':'' # pwd))"
proof (cases hdr)
  case (Some v)
  show ?thesis
  proof (cases "b64 (rust_trim (drop 6 v))")
    case (Some d)
    with \<open>hdr = Some v\<close> show ?thesis
      using split_once_eq [of d usr pwd]
      by (cases "CHR '':'' \<in> set d") (auto simp: basic_auth_def authorized_def constant_time_eq_iff Let_def)
  qed (use Some in \<open>simp add: basic_auth_def authorized_def\<close>)
qed (simp add: basic_auth_def authorized_def)

text \<open>
  The settings accept a user name with a colon, and a dashboard so configured refuses everybody.
\<close>
lemma colon_user_locked_out:
  assumes "config_from_env addr num e = Inr c" "dashboard_tier c = Some d" "basic_auth_pair d = Some (usr, pwd)"
    and "CHR '':'' \<in> set usr"
  shows "\<not> basic_auth b64 (basic_auth_pair d) hdr"
  using assms(3,4) split_once_eq
  by (auto simp: basic_auth_def authorized_def constant_time_eq_iff Let_def split: option.splits if_splits
      dest: set_takeWhileD)

section \<open>What the inventory holds\<close>

lemma add_unseen_distinct:
  "distinct (map raw_id acc) \<Longrightarrow> distinct (map raw_id (add_unseen acc xs)) \<and> prefix acc (add_unseen acc xs)"
proof (induction acc xs rule: add_unseen.induct)
  case (2 acc x xs)
  then show ?case by (auto simp: prefix_def)
qed simp

lemma inactive_walk_distinct:
  "distinct (map raw_id acc) \<Longrightarrow>
   distinct (map raw_id (inactive_walk daemon n k c acc)) \<and> prefix acc (inactive_walk daemon n k c acc)"
proof (induction daemon n k c acc rule: inactive_walk.induct)
  case (2 daemon n k c acc)
  show ?case
  proof (cases "daemon k c")
    case (Some p)
    note seen = add_unseen_distinct [OF 2(2), of "sandboxes p"]
    show ?thesis
    proof (cases "next_cursor p")
      case (Some c')
      note 2(1) [OF \<open>daemon k c = Some p\<close> refl Some]
      with seen \<open>daemon k c = Some p\<close> Some show ?thesis
        by (auto simp: Let_def intro: prefix_order.order_trans)
    qed (use seen Some in simp)
  qed (use 2(2) in simp)
qed simp

lemma page_window_eq:
  "0 < per \<Longrightarrow> page_window matched page per = (p, n) \<Longrightarrow> 1 \<le> p \<and> p \<le> n \<and> matched \<le> n * per \<and> (1 < n \<longrightarrow> (n - 1) * per < matched)"
proof -
  assume per: "0 < per" and w: "page_window matched page per = (p, n)"
  have n: "n = max 1 ((matched + per - 1) div per)" "p = min n (max 1 page)"
    using w by (auto simp: page_window_def Let_def)
  have "matched + per - 1 < ((matched + per - 1) div per + 1) * per"
    using per by (metis Suc_eq_plus1 dividend_less_div_times mult.commute add.commute mult_Suc_right)
  then have "matched \<le> ((matched + per - 1) div per) * per" by (simp add: algebra_simps)
  moreover have "1 < n \<Longrightarrow> (n - 1) * per < matched"
  proof -
    assume "1 < n"
    then have nn: "n = (matched + per - 1) div per" using n(1) by (simp add: max_def split: if_splits)
    have "n * per \<le> matched + per - 1" unfolding nn by (simp add: div_times_less_eq_dividend)
    then show ?thesis using per \<open>1 < n\<close> by (cases n) auto
  qed
  ultimately show ?thesis using n per
    by (cases "(matched + per - 1) div per = 0") (auto simp: max_def min_def split: if_splits)
qed

lemma concat_pages:
  "length xs \<le> n * per \<Longrightarrow> concat (map (\<lambda>k. take per (drop (k * per) xs)) [0..<n]) = xs"
proof (induction n arbitrary: xs)
  case (Suc n)
  have "concat (map (\<lambda>k. take per (drop (k * per) xs)) [0..<Suc n]) =
      take per xs @ concat (map (\<lambda>k. take per (drop (k * per) (drop per xs))) [0..<n])"
    by (subst upt_conv_Cons) (simp_all add: map_Suc_upt [symmetric] comp_def add.commute del: upt_Suc)
  also have "concat (map (\<lambda>k. take per (drop (k * per) (drop per xs))) [0..<n]) = drop per xs"
    using Suc.prems by (intro Suc.IH) simp
  finally show ?case by simp
qed simp

text \<open>
  The fetched inventory lists every sandbox once and keeps the running record of one that both lists
  report, whatever pages the daemon returns; the walk makes at most 25 requests by construction.
\<close>
lemma inventory_has_each_once:
  assumes "fetch_inventory (Some deployed) daemon = Some xs" "distinct (map raw_id deployed)"
  shows "distinct (map raw_id xs) \<and> prefix deployed xs"
  using assms inactive_walk_distinct [of deployed] by (auto simp: fetch_inventory_def)

lemma build_page_concat:
  assumes "0 < per" and n: "n = snd (page_window (length (page_hits lower q state xs es records)) 1 per)"
  shows "concat (map (\<lambda>k. page_rows (build_page lower q state (Suc k) per xs es records)) [0..<n]) =
      map (join_row es records) (page_hits lower q state xs es records)"
proof -
  let ?hits = "page_hits lower q state xs es records"
  have win: "page_window (length ?hits) (Suc k) per = (Suc k, n)" if "k < n" for k
    using that by (auto simp: n page_window_def Let_def)
  have "map (\<lambda>k. page_rows (build_page lower q state (Suc k) per xs es records)) [0..<n] =
      map (map (join_row es records)) (map (\<lambda>k. take per (drop (k * per) ?hits)) [0..<n])"
    by (simp add: build_page_def win Let_def)
  moreover have "length ?hits \<le> n * per"
    using page_window_eq [OF assms(1), of "length ?hits" 1] by (simp add: n page_window_def Let_def)
  ultimately show ?thesis
    by (simp only: map_concat [symmetric] concat_pages)
qed

lemma page_rows_bounded: "length (page_rows (build_page lower q state k per xs es records)) \<le> per"
  by (simp add: build_page_def Let_def split: prod.splits)

lemma page_no_le:
  "page_no (build_page lower q state k per xs es records) \<le> page_count (build_page lower q state k per xs es records)"
  by (simp add: build_page_def page_window_def Let_def)

text \<open>
  Browsing shows every match exactly once: with any query, state filter and page size, the pages from the
  first to the last, one after the other, are the rows of the matching sandboxes in order of name and id,
  and a page never has more than 200.
\<close>
theorem pages_show_each_match_once:
  "let show = (\<lambda>k. databases lower q state (Some k) per xs es records);
       hits = page_hits lower q (unwrap_or ''running'' state) xs es records
   in concat (map (\<lambda>k. page_rows (show (Suc k))) [0..<page_count (show 1)]) = map (join_row es records) hits
      \<and> mset hits = filter_mset (\<lambda>s. state_matches s (applied_state lower (unwrap_or ''running'' state)))
          (mset (query_hits lower q xs es records))
      \<and> length (page_rows (show k)) \<le> 200 \<and> page_no (show k) \<le> page_count (show k)"
proof -
  let ?per = "min MAX_PER (max 1 (unwrap_or 25 per))"
  let ?st = "unwrap_or ''running'' state"
  have per: "0 < ?per" "?per \<le> 200" by (simp_all add: MAX_PER_def)
  have cnt: "page_count (databases lower q state (Some 1) per xs es records) =
      snd (page_window (length (page_hits lower q ?st xs es records)) 1 ?per)"
    by (simp add: databases_def build_page_def unwrap_or_def Let_def split: prod.splits)
  have "concat (map (\<lambda>k. page_rows (databases lower q state (Some (Suc k)) per xs es records))
        [0..<page_count (databases lower q state (Some 1) per xs es records)]) =
      map (join_row es records) (page_hits lower q ?st xs es records)"
    unfolding cnt using build_page_concat [OF per(1) refl, of lower q ?st xs es records]
    by (simp add: databases_def unwrap_or_def)
  moreover have "mset (page_hits lower q ?st xs es records) =
      filter_mset (\<lambda>s. state_matches s (applied_state lower ?st)) (mset (query_hits lower q xs es records))"
    by (simp add: page_hits_def)
  moreover have "length (page_rows (databases lower q state (Some k) per xs es records)) \<le> 200"
    unfolding databases_def by (rule order_trans [OF page_rows_bounded per(2)])
  moreover have "page_no (databases lower q state (Some k) per xs es records)
      \<le> page_count (databases lower q state (Some k) per xs es records)"
    unfolding databases_def by (rule page_no_le)
  ultimately show ?thesis by (simp only: Let_def)
qed

text \<open>Every row has one of the labels of the filter, so with no state filter the counts add up.\<close>

lemma row_state_label_known:
  "list_all (\<lambda>s. raw_offload s = None) xs \<Longrightarrow> s \<in> set (append_offloaded xs records) \<Longrightarrow> row_state_label s \<in> set STATE_FILTERS"
proof -
  have "status_str t \<in> set STATE_FILTERS" for t by (cases t) (simp_all add: STATE_FILTERS_def)
  moreover have "offloaded r \<Longrightarrow> tier_as_str (tier_of r) \<in> set STATE_FILTERS" for r
    by (cases "tier_of r") (simp_all add: offloaded_def STATE_FILTERS_def)
  ultimately show "list_all (\<lambda>s. raw_offload s = None) xs \<Longrightarrow> s \<in> set (append_offloaded xs records) \<Longrightarrow> ?thesis"
    by (auto simp: append_offloaded_def row_state_label_def offloaded_row_def list_all_iff)
qed

section \<open>The cache asks once at a time\<close>

inductive cache_step :: "inv_cache \<Rightarrow> inv_cache \<Rightarrow> bool" where
  ask: "cache_step c (snd (cached_inventory now c))"
| refreshed: "0 < in_flight c \<Longrightarrow> cache_step c (refresh_done now res c)"
| fetched: "cache_step c (cold_done now res c)"

definition cache_inv :: "inv_cache \<Rightarrow> bool" where
  "cache_inv c \<longleftrightarrow> in_flight c = (if refreshing c then 1 else 0)"

interpretation cache_life: inductive_invariant "\<lambda>c. c = cache_new" cache_step cache_inv
proof
  show "cache_inv c" if "c = cache_new" for c
    using that by (simp add: cache_inv_def cache_new_def)
  show "cache_inv c'" if "cache_inv c" "cache_step c c'" for c c'
    using that(2,1)
    by (induction rule: cache_step.induct)
      (auto simp: cache_inv_def cached_inventory_def refresh_done_def cold_done_def split: serve.splits option.splits if_splits)
qed

text \<open>
  However requests and refreshes interleave, at most one background refresh is in flight, the flag says
  exactly whether one is (so it never stays set), and a request is answered at once from any snapshot there is.
\<close>
theorem inventory_refresh_single_flight:
  assumes "run_of (\<lambda>c. c = cache_new) cache_step c"
  shows "in_flight c \<le> 1 \<and> (refreshing c \<longleftrightarrow> in_flight c = 1)
     \<and> fst (cached_inventory now c) = map_option snd (snap c)"
proof -
  have "cache_inv c" by (rule cache_life.reachable_inv [OF assms])
  moreover have "fst (cached_inventory now c) = map_option snd (snap c)"
    by (simp add: cached_inventory_def serve_plan_def split: option.splits)
  ultimately show ?thesis by (simp add: cache_inv_def split: if_splits)
qed

definition stale_cache :: inv_cache where
  "stale_cache = snd (cached_inventory 9000 (cold_done 0 (Some []) (snd (cached_inventory 0 cache_new))))"

lemma stale_cache_run: "run_of (\<lambda>c. c = cache_new) cache_step stale_cache"
  unfolding stale_cache_def
  by (rule run_step, rule run_step, rule run_step, rule run_init, rule refl, rule ask, rule fetched, rule ask)

theorem inventory_refresh_single_flight_witness:
  "in_flight stale_cache = 1 \<and> refreshing stale_cache \<and> in_flight (snd (cached_inventory 9001 stale_cache)) \<le> 1"
  using inventory_refresh_single_flight [OF run_step [OF stale_cache_run ask], of 9001 0]
  by (simp add: stale_cache_def cached_inventory_def serve_plan_def cache_new_def cold_done_def INVENTORY_FRESH_def)

text \<open>
  While refreshes fail, every request starts another walk: two walks a millisecond apart, against the one
  per five seconds the cache is there for.
\<close>
lemma failing_daemon_walked_per_request:
  "walks (snd (cached_inventory 9001 (refresh_done 9000 None stale_cache))) = [9001, 9000, 0]"
  by (simp add: stale_cache_def cached_inventory_def serve_plan_def cache_new_def cold_done_def refresh_done_def INVENTORY_FRESH_def)

section \<open>The bulk stop\<close>

text \<open>
  The bulk stop asks only for VMs that the inventory reports running and on which, when the rows were
  built, the pooler counted no session, that no warm entry marks keep-alive, and that are the pooler's; a
  spare is among them only if a row or an entry names it, so the warm pool is left alone.
\<close>
theorem stop_idle_only_idle:
  assumes "i \<in> set (action_stop_idle (build_rows xs es records))"
  shows "(\<exists>s \<in> set xs \<union> set (append_offloaded xs records). raw_id s = i \<and> raw_status s = Running
       \<and> (starts_with ''spare-pg-'' (raw_name s) \<longrightarrow> entry_by_id es i \<noteq> None \<or> schema_by_id records i \<noteq> None))
     \<and> (\<forall>e. entry_by_id es i = Some e \<longrightarrow> snap_active e = 0 \<and> \<not> snap_keepalive e)"
proof -
  obtain s where s: "s \<in> set (append_offloaded xs records)" "raw_id s = i" "stop_idle_target (join_row es records s)"
    using assms by (auto simp: action_stop_idle_def build_rows_def join_row_def Let_def)
  have "starts_with ''spare-pg-'' n \<Longrightarrow> \<not> starts_with ''pg-'' n" for n
    by (cases n) (auto simp: starts_with_def)
  with s have "starts_with ''spare-pg-'' (raw_name s) \<longrightarrow> entry_by_id es i \<noteq> None \<or> schema_by_id records i \<noteq> None"
    by (auto simp: stop_idle_target_def join_row_def Let_def split: option.splits if_splits)
  with s show ?thesis
    by (auto simp: stop_idle_target_def join_row_def Let_def unwrap_or_def split: option.splits)
qed

definition one_vm :: "string \<Rightarrow> raw_sandbox" where
  "one_vm n = \<lparr>raw_id = ''sb-1'', raw_name = n, raw_status = Running, raw_guest_ip = None, raw_image = None, raw_offload = None\<rparr>"

theorem stop_idle_only_idle_witness:
  "action_stop_idle (build_rows [one_vm ''pg-shop''] [] []) = [''sb-1'']
   \<and> entry_by_id [] ''sb-1'' = None"
proof -
  have t: "action_stop_idle (build_rows [one_vm ''pg-shop''] [] []) = [''sb-1'']"
    by (simp add: action_stop_idle_def build_rows_def append_offloaded_def one_vm_def join_row_def entry_by_id_def
        schema_by_id_def stop_idle_target_def starts_with_def unwrap_or_def)
  then show ?thesis
    using stop_idle_only_idle [of "''sb-1''" "[one_vm ''pg-shop'']" "[]" "[]"] by (simp add: entry_by_id_def)
qed

text \<open>
  The keep-alive mark is read from the warm entry. A keep-alive schema that nobody has connected to since
  the pooler started has none, and its VM is stopped with the others.
\<close>
lemma stop_idle_stops_cold_keepalive:
  assumes "schema \<in> keepalive_schemas c" and "rec = \<lparr>sandbox_id = ''sb-1'', last_active = 0, tier_of = Live\<rparr>"
  shows "action_stop_idle (build_rows [one_vm (''pg-'' @ schema)] [] [(schema, rec)]) = [''sb-1'']"
  using assms(2) by (simp add: action_stop_idle_def build_rows_def append_offloaded_def one_vm_def join_row_def entry_by_id_def
      schema_by_id_def stop_idle_target_def starts_with_def unwrap_or_def offloaded_def)

section \<open>Redirects\<close>

text \<open>
  A message carried by a redirect cannot start another query parameter, a fragment or a header line, and is
  at most 200 bytes.
\<close>
lemma qenc_confined: "length (qenc s) \<le> 200 \<and> set (qenc s) \<inter> {CHR ''&'', CHR ''#'', CHR ''='', CHR ''?'', CR, NEWLINE} = {}"
proof -
  have "set (qenc s) \<subseteq> {c. qenc_char c}" by (auto simp: qenc_def dest: in_set_takeD)
  moreover have "\<not> qenc_char c" if "c \<in> {CHR ''&'', CHR ''#'', CHR ''='', CHR ''?'', CR, NEWLINE}" for c
    using that by (auto simp: qenc_char_def is_ascii_digit_def is_ascii_lowercase_def code_def)
  ultimately show ?thesis by (auto simp: qenc_def)
qed

text \<open>
  A browser reads a backslash in a path as a slash. The destination guard looks for two slashes only, so
  \<open>/\host\<close> passes it and leads to another host.
\<close>

definition names_host :: "string \<Rightarrow> bool" where
  "names_host url = starts_with ''//'' (map (\<lambda>c. if c = CHR 0x5C then CHR ''/'' else c) url)"

lemma backslash_passes_guard:
  "next_dest (Some (CHR ''/'' # CHR 0x5C # host)) = Some (CHR ''/'' # CHR 0x5C # host) \<and> names_host (CHR ''/'' # CHR 0x5C # host)"
  by (simp add: next_dest_def opt_filter_def starts_with_def names_host_def)

end
