(* ===== verification/Adoption.thy ===== *)
theory Adoption
  imports Tiers Session Thaw Janitors "HOL-Library.Multiset" "HOL-Library.Product_Lexorder"
begin

text \<open>
  Pointing a schema back at its archive: \<open>probe_archive\<close> of \<open>src/src/imgarchive.rs\<close>, \<open>adopt_archive\<close> and the
  warm path of \<open>checkout\<close> of \<open>src/src/registry.rs\<close>, and the recovery page of \<open>src/src/dashboard/archives.rs\<close>
  (the evidence of \<open>scan\<close> and \<open>lookup\<close>, and \<open>restore\<close>). The HEAD requests are those of \<open>S3_Sign\<close>, the cold path
  is that of \<open>Tiers\<close>.
\<close>

section \<open>What a restore would find\<close>

type_synonym head_result = "s3_error + object_id option"

record archive_probe =
  probe_kind :: restore_kind
  probe_key :: string
  probe_bytes :: u64
  probe_modified :: string

text \<open>The closure \<open>len_of\<close> of \<open>probe_archive\<close>: a HEAD that fails counts as nothing there.\<close>

definition seen_object :: "head_result \<Rightarrow> object_id option" where
  "seen_object r = (case r of Inr i \<Rightarrow> i | Inl _ \<Rightarrow> None)"

definition found_probe :: "restore_kind \<Rightarrow> string \<Rightarrow> u64 \<Rightarrow> object_id option \<Rightarrow> archive_probe option" where
  "found_probe k key least i =
     (case i of
        None \<Rightarrow> None
      | Some d \<Rightarrow>
          if least \<le> content_length d
          then Some \<lparr>probe_kind = k, probe_key = key, probe_bytes = content_length d, probe_modified = last_modified d\<rparr>
          else None)"

definition probe_from :: "s3_config \<Rightarrow> string \<Rightarrow> head_result \<Rightarrow> head_result \<Rightarrow> archive_probe option" where
  "probe_from s schema dump img =
     (let d = seen_object dump; i = seen_object img
      in case choose_restore (map_option content_length d) (map_option content_length i) of
           Dump \<Rightarrow> found_probe Dump (object_key s schema) MIN_DUMP_BYTES d
         | Image \<Rightarrow> found_probe Image (image_object_key s schema) MIN_IMAGE_BYTES i)"

record probe_env =
  pe_crypto :: crypto
  pe_dump :: head_env
  pe_image :: head_env

definition probe_heads :: "probe_env \<Rightarrow> s3_config \<Rightarrow> string \<Rightarrow> (head_result \<times> head_result) \<times> s3_config" where
  "probe_heads e s schema =
     (case head_with (pe_crypto e) (pe_dump e) s (object_key s schema) of
        (dump, s1) \<Rightarrow>
          (case head_with (pe_crypto e) (pe_image e) s1 (image_object_key s schema) of
             (img, s2) \<Rightarrow> ((dump, img), s2)))"

definition probe_archive :: "probe_env \<Rightarrow> s3_config \<Rightarrow> string \<Rightarrow> archive_probe option \<times> s3_config" where
  "probe_archive e s schema =
     (case probe_heads e s schema of ((dump, img), s') \<Rightarrow> (probe_from s schema dump img, s'))"

text \<open>What \<open>pick_restore\<close> makes of the same answers.\<close>

definition head_length :: "head_result \<Rightarrow> nat option option" where
  "head_length r = (case r of Inl _ \<Rightarrow> None | Inr i \<Rightarrow> Some (map_option content_length i))"

definition plausible :: "u64 \<Rightarrow> head_result \<Rightarrow> bool" where
  "plausible least r = (case seen_object r of None \<Rightarrow> False | Some d \<Rightarrow> least \<le> content_length d)"

lemma len_of_head_length: "len_of (head_length r) = map_option content_length (seen_object r)"
  by (cases r) (simp_all add: len_of_def head_length_def seen_object_def)

text \<open>
  The recovery page and the checkout agree on what an archive is. On the same answers of S3, the probe
  reports an object exactly when one of the two keys holds a usable one, and then the object it
  reports (its key, length and date) is the one a restore of the schema would read.
\<close>

theorem probe_matches_restore:
  "case probe_from s schema dump img of
     None \<Rightarrow> \<not> plausible MIN_DUMP_BYTES dump \<and> \<not> plausible MIN_IMAGE_BYTES img
   | Some p \<Rightarrow> probe_kind p = pick_restore (head_length dump) (head_length img)
       \<and> (\<exists>i. seen_object (case probe_kind p of Dump \<Rightarrow> dump | Image \<Rightarrow> img) = Some i
            \<and> probe_bytes p = content_length i \<and> probe_modified p = last_modified i
            \<and> (case probe_kind p of Dump \<Rightarrow> MIN_DUMP_BYTES \<le> content_length i | Image \<Rightarrow> MIN_IMAGE_BYTES \<le> content_length i))
       \<and> probe_key p = (case probe_kind p of Dump \<Rightarrow> object_key s schema | Image \<Rightarrow> image_object_key s schema)"
  by (cases "seen_object dump"; cases "seen_object img")
    (auto simp: probe_from_def found_probe_def choose_restore_def pick_restore_def len_of_head_length plausible_def Let_def)

lemma probe_from_kind: "probe_from s schema dump img = Some p \<Longrightarrow> probe_kind p = pick_restore (head_length dump) (head_length img)"
  by (cases "seen_object dump"; cases "seen_object img")
    (auto simp: probe_from_def found_probe_def choose_restore_def pick_restore_def len_of_head_length Let_def split: if_splits)

section \<open>Adopting an archive\<close>

datatype adopt_error = Invalid_Name | No_Archive_Tier | No_Http_Client | No_Usable_Archive

text \<open>What the message says of the row: there was none, it was archived already, or its tier and VM.\<close>

datatype adopt_verb = Adopted | Reconfirmed string | Repaired tier string

definition adopt_verb_of :: "rec option \<Rightarrow> adopt_verb" where
  "adopt_verb_of prev =
     (case prev of
        None \<Rightarrow> Adopted
      | Some r \<Rightarrow> if tier_of r = Archived then Reconfirmed (sandbox_id r) else Repaired (tier_of r) (sandbox_id r))"

text \<open>
  \<open>archive\<close> is the configured archive tier, \<open>client\<close> whether the HTTP client could be built. The S3
  configuration is returned because a HEAD may learn the bucket's region.
\<close>

definition adopt_archive ::
  "s3_config option \<Rightarrow> bool \<Rightarrow> probe_env \<Rightarrow> u64 \<Rightarrow> bool \<Rightarrow> string \<Rightarrow> store \<Rightarrow>
     (adopt_error + adopt_verb \<times> archive_probe) \<times> store \<times> s3_config option" where
  "adopt_archive archive client e now disk_ok schema str =
     (if \<not> is_valid_schema schema then (Inl Invalid_Name, str, archive)
      else (case archive of
              None \<Rightarrow> (Inl No_Archive_Tier, str, None)
            | Some s \<Rightarrow>
                if \<not> client then (Inl No_Http_Client, str, Some s)
                else (case probe_archive e s schema of
                        (None, s') \<Rightarrow> (Inl No_Usable_Archive, str, Some s')
                      | (Some p, s') \<Rightarrow>
                          (case adopt_archived now disk_ok schema str of
                             (prev, str') \<Rightarrow> (Inr (adopt_verb_of prev, p), str', Some s')))))"

text \<open>The row \<open>adopt_archived\<close> writes.\<close>

definition adopted_row :: "u64 \<Rightarrow> string \<Rightarrow> rec option \<Rightarrow> rec" where
  "adopted_row now schema prev =
     (case prev of
        None \<Rightarrow> \<lparr>sandbox_id = ADOPTED_ID_PREFIX @ schema, last_active = now, tier_of = Archived\<rparr>
      | Some r \<Rightarrow> \<lparr>sandbox_id = sandbox_id r, last_active = last_active r, tier_of = Archived\<rparr>)"

lemma adopt_archived_row:
  "smap (snd (adopt_archived now b k s)) = hm_insert k (adopted_row now k (hm_get (smap s) k)) (smap s)"
  "fst (adopt_archived now b k s) = store_record s k"
  by (auto simp: adopt_archived_def adopt_begin_def adopted_row_def stamp_def write_latest_def Let_def store_record_def
      split: option.splits)

lemma adopt_archived_record:
  "store_record (snd (adopt_archived now b k s)) = (store_record s)(k \<mapsto> adopted_row now k (store_record s k))"
  by (simp add: store_record_def fun_eq_iff adopt_archived_row)

lemma adopted_row_ok:
  assumes "store_sane s" "name_ok k" "now < U64_LIMIT"
  shows "recs_ok (hm_insert k (adopted_row now k (hm_get (smap s) k)) (smap s))"
proof -
  have ok: "recs_ok (smap s)" using assms(1) by (simp add: store_sane_def)
  have "plain_field ADOPTED_ID_PREFIX" by (simp add: ADOPTED_ID_PREFIX_def plain_field_def)
  then have "rec_ok k (adopted_row now k (hm_get (smap s) k))"
    using assms(2,3) recs_ok_get [OF ok, of k]
    by (auto simp: adopted_row_def rec_ok_def name_ok_def plain_field_append split: option.splits)
  then show ?thesis by (rule recs_ok_insert [OF ok])
qed

lemma adopt_archived_file:
  assumes "store_sane s" "name_ok k" "now < U64_LIMIT"
  shows "reloaded t (snd (adopt_archived now True k s)) = store_record (snd (adopt_archived now True k s))"
proof -
  let ?m = "hm_insert k (adopted_row now k (hm_get (smap s) k)) (smap s)"
  have "sfile (snd (adopt_archived now True k s)) = Some (store_serialize ?m)"
    using assms(1) by (auto simp: adopt_archived_def adopt_begin_def adopted_row_def stamp_def write_latest_def Let_def store_sane_def
        split: option.splits)
  then show ?thesis
    using store_parse_serialize [OF adopted_row_ok [OF assms], of t]
    by (simp add: reloaded_def store_load_def store_record_def fun_eq_iff adopt_archived_row)
qed

text \<open>
  Adopting an archive is checked and writes one field. Every refusal leaves the registry as it was, and it
  is refused exactly when the name is not a schema name, the tier is not configured, no client can be
  built, or neither key holds a usable object; otherwise the row is archived, keeps its VM and its idle
  clock (a schema without a row gets one, with a placeholder for the VM), no other row changes, and when
  the write succeeds a process that restarts reads the same. Hypotheses: the registry's records are
  well-formed and the clock is a \<open>u64\<close>.
\<close>

theorem adopt_archive_exact:
  assumes "store_sane str" "now < U64_LIMIT" "adopt_archive archive client e now disk_ok schema str = (res, str', archive')"
  shows "case res of
      Inl err \<Rightarrow> str' = str
        \<and> (err = Invalid_Name \<longleftrightarrow> \<not> is_valid_schema schema)
        \<and> (err = No_Archive_Tier \<longrightarrow> archive = None)
        \<and> (err = No_Usable_Archive \<longrightarrow> (\<exists>s. archive = Some s \<and> fst (probe_archive e s schema) = None))
    | Inr (verb, p) \<Rightarrow> (\<exists>s. archive = Some s \<and> fst (probe_archive e s schema) = Some p)
        \<and> verb = adopt_verb_of (store_record str schema)
        \<and> store_record str' = (store_record str)(schema \<mapsto> adopted_row now schema (store_record str schema))
        \<and> (disk_ok \<longrightarrow> reloaded t str' = store_record str')"
proof (cases "\<exists>s p. archive = Some s \<and> is_valid_schema schema \<and> client \<and> fst (probe_archive e s schema) = Some p")
  case True
  then obtain s p s' where c: "archive = Some s" "is_valid_schema schema" client "probe_archive e s schema = (Some p, s')"
    by (metis prod.collapse)
  then have r: "res = Inr (adopt_verb_of (store_record str schema), p)" "str' = snd (adopt_archived now disk_ok schema str)"
    using assms(3) adopt_archived_row(2) [of now disk_ok schema str]
    by (cases "adopt_archived now disk_ok schema str"; simp add: adopt_archive_def)+
  then show ?thesis
    using c adopt_archived_file [OF assms(1) valid_schema_name_ok [OF c(2)] assms(2)]
    by (simp add: adopt_archived_record)
next
  case False
  then show ?thesis
    using assms(3) by (auto simp: adopt_archive_def split: if_splits option.splits prod.splits)
qed

section \<open>Restoring from the recovery page\<close>

text \<open>
  \<open>checkout\<close> with its warm path. \<open>cell\<close> is the VM of the schema's initialised cell in the entry map, if
  there is one, \<open>slot\<close> whether a connection slot comes free in time, \<open>ans\<close> whether the probe of the cached
  VM is answered. The tier of the row is read only on the cold path.
\<close>

datatype connect_error = Cold checkout_error | Slots_Busy

definition cold_result :: "checkout_error + string \<Rightarrow> connect_error + string" where
  "cold_result r = (case r of Inl e \<Rightarrow> Inl (Cold e) | Inr i \<Rightarrow> Inr i)"

definition checkout ::
  "tier_setup \<Rightarrow> tier_answers \<Rightarrow> nat option option \<times> nat option option \<Rightarrow> bool \<Rightarrow> string option \<Rightarrow> bool \<Rightarrow> bool \<Rightarrow>
     string \<Rightarrow> world \<Rightarrow> (connect_error + string) \<times> effect list" where
  "checkout cfg a heads tripped cell slot ans x w =
     (if x \<in> archiving w then (Inl (Cold Waits_For_Offload), [Touch (now_at a)])
      else (case cell of
              Some i \<Rightarrow>
                if \<not> slot then (Inl Slots_Busy, [Touch (now_at a)])
                else if ans then (Inr i, [Touch (now_at a), Serve])
                else (case checkout_cold cfg a heads tripped x w of
                        (r, fx) \<Rightarrow> (cold_result r, Touch (now_at a) # Evict # tl fx))
            | None \<Rightarrow> (case checkout_cold cfg a heads tripped x w of (r, fx) \<Rightarrow> (cold_result r, fx))))"

text \<open>The guard is dropped at once: the session it counted is over.\<close>

definition leave :: "string \<Rightarrow> world \<Rightarrow> world" where
  "leave x w = w\<lparr>warm := (warm w)(x := map_option (\<lambda>n. n - 1) (warm w x))\<rparr>"

datatype fix_report = Restored_Into string | Restoring_Failed connect_error

text \<open>\<open>POST /archives/restore\<close>: adopt the archive, then a checkout in the background that reports to the journal.\<close>

definition restore ::
  "s3_config option \<Rightarrow> bool \<Rightarrow> probe_env \<Rightarrow> tier_setup \<Rightarrow> tier_answers \<Rightarrow> nat option option \<times> nat option option \<Rightarrow> bool \<Rightarrow>
     string option \<Rightarrow> bool \<Rightarrow> bool \<Rightarrow> string \<Rightarrow> world \<Rightarrow>
     (adopt_error + (adopt_verb \<times> archive_probe) \<times> fix_report) \<times> world" where
  "restore archive client e cfg a heads tripped cell slot ans form w =
     (let x = rust_trim form
      in case adopt_archive archive client e (now_at a) (write_ok a) x (reg w) of
           (Inl err, _, _) \<Rightarrow> (Inl err, w)
         | (Inr v, str', _) \<Rightarrow>
             (let w1 = w\<lparr>reg := str'\<rparr>
              in case checkout cfg a heads tripped cell slot ans x w1 of
                   (Inl er, fx) \<Rightarrow> (Inr (v, Restoring_Failed er), run_effects x fx w1)
                 | (Inr i, fx) \<Rightarrow> (Inr (v, Restored_Into i), leave x (run_effects x fx w1))))"

lemma leave_keeps [simp]: "reg (leave x w) = reg w" "vms (leave x w) = vms w" "s3_dumps (leave x w) = s3_dumps w"
  "s3_images (leave x w) = s3_images w" "dump_files (leave x w) = dump_files w" "image_files (leave x w) = image_files w"
  by (simp_all add: leave_def)

lemma leave_finds [simp]: "connect_finds (leave x w) y r = connect_finds w y r"
  by (cases r; cases "tier_of (the r)") (simp_all add: connect_finds_def)

lemma adopt_Inr:
  assumes "adopt_archive archive client e now ok x s = (Inr (verb, p), s', archive')"
  shows "\<exists>s3 s3'. archive = Some s3 \<and> probe_archive e s3 x = (Some p, s3') \<and> is_valid_schema x
     \<and> s' = snd (adopt_archived now ok x s) \<and> verb = adopt_verb_of (store_record s x)"
  using assms adopt_archived_row(2) [of now ok x s]
  by (cases "adopt_archived now ok x s")
    (auto simp: adopt_archive_def split: if_splits option.splits prod.splits)

lemma touched_tier: "map_option tier_of (store_record (store_touch now x s) x) = map_option tier_of (store_record s x)"
  by (simp add: store_touch_def store_record_def split: option.splits)

definition source_of :: "restore_kind \<Rightarrow> restore_source" where
  "source_of k = (case k of Dump \<Rightarrow> Restore_S3 | Image \<Rightarrow> Restore_S3_Image)"

lemma checkout_archived:
  assumes "x \<notin> archiving w" "\<not> tripped" "has_archive cfg" "boot a = Some i"
    and "map_option tier_of (store_record (reg w) x) = Some Archived"
  shows "checkout cfg a heads tripped None slot ans x w =
    (Inr i, [Touch (now_at a), Restore i (source_of (pick_restore (fst heads) (snd heads))) (cleaned a), Put (now_at a) i, Serve])"
  using assms
  by (auto simp: checkout_def checkout_cold_def restore_plan_def cold_result_def source_of_def thawed_file_def
      split: restore_kind.splits)

lemma put_names: "names (store_record (store_put now x i s) x) Live i"
  using store_put_look [of i now x s] by (auto simp: names_def store_record_def)

text \<open>
  C21: The recovery page does what it says for a schema that is not in use. With no cached VM, no offload in
  flight, the breaker closed, HEADs that answer truthfully and a VM that comes up, with an empty database
  if a dump is to be restored, a successful request ends with the schema bound live to that VM,
  holding the data of exactly the object the page named; the archives stay.
\<close>

theorem restore_aligns:
  assumes "restore archive client e cfg a heads False None slot ans form w = (Inr ((verb, p), rep), w')"
    and "rust_trim form = x" "x \<notin> archiving w" "has_archive cfg" "boot a = Some i"
    and "archive = Some s" "heads = map_prod head_length head_length (fst (probe_heads e s x))"
    and "heads = (Some (map_option bytes (s3_dumps w x)), Some (map_option bytes (s3_images w x)))"
    and "probe_kind p = Dump \<longrightarrow> fresh_vm w i"
  shows "rep = Restored_Into i \<and> names (store_record (reg w') x) Live i
     \<and> (\<exists>f. (case probe_kind p of Dump \<Rightarrow> s3_dumps w x | Image \<Rightarrow> s3_images w x) = Some f
            \<and> probe_bytes p = bytes f \<and> vms w' i = Some (ver f))
     \<and> s3_dumps w' = s3_dumps w \<and> s3_images w' = s3_images w"
proof -
  obtain str' ar' where ad: "adopt_archive archive client e (now_at a) (write_ok a) x (reg w) = (Inr (verb, p), str', ar')"
    using assms(1,2) by (auto simp: restore_def Let_def split: prod.splits sum.splits)
  obtain dump img s3' where hd: "probe_heads e s x = ((dump, img), s3')" by (metis prod.collapse)
  from adopt_Inr [OF ad] assms(6) hd have pr: "probe_from s x dump img = Some p"
    and str: "str' = snd (adopt_archived (now_at a) (write_ok a) x (reg w))"
    by (auto simp: probe_archive_def)
  have len: "head_length dump = Some (map_option bytes (s3_dumps w x))" "head_length img = Some (map_option bytes (s3_images w x))"
    using assms(7,8) hd by (simp_all add: map_prod_def)
  let ?w = "w\<lparr>reg := str'\<rparr>"
  have t: "map_option tier_of (store_record (reg ?w) x) = Some Archived"
    by (simp add: str adopt_archived_record adopted_row_def split: option.splits)
  have co: "checkout cfg a heads False None slot ans x ?w =
    (Inr i, [Touch (now_at a), Restore i (source_of (probe_kind p)) (cleaned a), Put (now_at a) i, Serve])"
    using checkout_archived [of x ?w False cfg a i heads slot ans] assms(3-5) t probe_from_kind [OF pr] assms(7) hd
    by (simp add: map_prod_def)
  then have w': "w' = leave x (run_effects x [Touch (now_at a), Restore i (source_of (probe_kind p)) (cleaned a), Put (now_at a) i, Serve] ?w)"
    and rep: "rep = Restored_Into i"
    using assms(1,2) ad by (simp_all add: restore_def Let_def)
  have "\<exists>f. (case probe_kind p of Dump \<Rightarrow> s3_dumps w x | Image \<Rightarrow> s3_images w x) = Some f \<and> probe_bytes p = bytes f"
    using pr len by (cases dump; cases img; cases "s3_dumps w x"; cases "s3_images w x")
      (auto simp: probe_from_def found_probe_def head_length_def seen_object_def Let_def split: restore_kind.splits option.splits if_splits)
  then show ?thesis
    using rep put_names [of "now_at a" x i] assms(9)
    by (cases "probe_kind p") (auto simp: w' source_of_def restored_def loaded_def fresh_vm_def)
qed

section \<open>The evidence\<close>

definition FRESH_DISK_MAX :: u64 where "FRESH_DISK_MAX = 160 * 1024 * 1024"

datatype verdict = No_Disk | Looks_Empty | Serving

fun verdict_rank :: "verdict \<Rightarrow> nat" where
  "verdict_rank No_Disk = 0"
| "verdict_rank Looks_Empty = 1"
| "verdict_rank Serving = 2"

text \<open>The derived order is the order of declaration.\<close>

instantiation verdict :: linorder
begin

definition less_eq_verdict :: "verdict \<Rightarrow> verdict \<Rightarrow> bool" where
  "less_eq_verdict v u \<longleftrightarrow> verdict_rank v \<le> verdict_rank u"

definition less_verdict :: "verdict \<Rightarrow> verdict \<Rightarrow> bool" where
  "less_verdict v u \<longleftrightarrow> verdict_rank v < verdict_rank u"

instance
proof
  fix v u :: verdict
  show "v \<le> u \<Longrightarrow> u \<le> v \<Longrightarrow> v = u" by (cases v; cases u) (simp_all add: less_eq_verdict_def)
qed (auto simp: less_eq_verdict_def less_verdict_def)

end

definition suspect :: "verdict \<Rightarrow> bool" where
  "suspect v \<longleftrightarrow> v = No_Disk \<or> v = Looks_Empty"

definition verdict_for :: "u64 option \<Rightarrow> u64 \<Rightarrow> verdict" where
  "verdict_for disk_bytes archive_bytes =
     (case disk_bytes of
        None \<Rightarrow> No_Disk
      | Some b \<Rightarrow> if b \<le> FRESH_DISK_MAX \<and> b < archive_bytes then Looks_Empty else Serving)"

record archive_row =
  ar_schema :: string
  ar_tier :: tier
  ar_last_active :: u64
  ar_sandbox_id :: string
  ar_disk_bytes :: "u64 option"
  ar_probe :: archive_probe
  ar_verdict :: verdict

text \<open>
  The run directory: none is configured, or for each sandbox id the allocated size of its \<open>data.ext4\<close>, if
  that file exists (0 when its size cannot be read).
\<close>

type_synonym run_disks = "(string \<Rightarrow> u64 option) option"

definition bound_disk :: "run_disks \<Rightarrow> rec \<Rightarrow> u64 option" where
  "bound_disk run_dir r = (case run_dir of None \<Rightarrow> None | Some disk \<Rightarrow> disk (sandbox_id r))"

definition archive_row_of :: "(string \<Rightarrow> archive_probe option) \<Rightarrow> run_disks \<Rightarrow> string \<times> rec \<Rightarrow> archive_row option" where
  "archive_row_of probes run_dir cand =
     (case cand of (schema, r) \<Rightarrow>
        (case probes schema of
           None \<Rightarrow> None
         | Some p \<Rightarrow>
             let disk = bound_disk run_dir r
             in Some \<lparr>ar_schema = schema, ar_tier = tier_of r, ar_last_active = last_active r, ar_sandbox_id = sandbox_id r,
                      ar_disk_bytes = disk, ar_probe = p, ar_verdict = verdict_for disk (probe_bytes p)\<rparr>))"

datatype page_error = Not_Schema_Name | Tier_Unset | Client_Unbuilt

text \<open>
  \<open>scan\<close>: up to eight probes run at once and their rows arrive in any order: \<open>arrival\<close> is that order.
\<close>

definition archive_scan ::
  "bool \<Rightarrow> bool \<Rightarrow> (string \<Rightarrow> archive_probe option) \<Rightarrow> run_disks \<Rightarrow> (archive_row list \<Rightarrow> archive_row list) \<Rightarrow> store \<Rightarrow>
     page_error + archive_row list" where
  "archive_scan configured client probes run_dir arrival s =
     (if \<not> configured then Inl Tier_Unset
      else if \<not> client then Inl Client_Unbuilt
      else let candidates = filter (\<lambda>(_, r). tier_of r \<noteq> Archived) (smap s);
               rows = arrival (List.map_filter (archive_row_of probes run_dir) candidates)
           in Inr (sort_key (\<lambda>r. (ar_verdict r, - int (probe_bytes (ar_probe r)))) rows))"

record lookup_result =
  lk_schema :: string
  lk_archive :: "archive_probe option"
  lk_record :: "rec option"
  lk_disk_bytes :: "u64 option"

definition archive_lookup ::
  "bool \<Rightarrow> bool \<Rightarrow> archive_probe option \<Rightarrow> run_disks \<Rightarrow> string \<Rightarrow> store \<Rightarrow> page_error + lookup_result" where
  "archive_lookup configured client p run_dir schema s =
     (if \<not> is_valid_schema schema then Inl Not_Schema_Name
      else if \<not> configured then Inl Tier_Unset
      else if \<not> client then Inl Client_Unbuilt
      else let r = store_record s schema
           in Inr \<lparr>lk_schema = schema, lk_archive = p, lk_record = r,
                   lk_disk_bytes = (case r of None \<Rightarrow> None | Some r \<Rightarrow> bound_disk run_dir r)\<rparr>)"

definition actionable :: "lookup_result \<Rightarrow> bool" where
  "actionable l \<longleftrightarrow> lk_archive l \<noteq> None"

definition would_displace_data :: "lookup_result \<Rightarrow> u64 option" where
  "would_displace_data l =
     (case lk_disk_bytes l of None \<Rightarrow> None | Some b \<Rightarrow> if FRESH_DISK_MAX < b then Some b else None)"

lemma sorted_wrt_partition:
  "sorted_wrt P xs \<Longrightarrow> (\<And>a b. P a b \<Longrightarrow> q b \<Longrightarrow> q a) \<Longrightarrow> xs = filter q xs @ filter (\<lambda>x. \<not> q x) xs"
proof (induction xs)
  case (Cons a xs)
  show ?case
  proof (cases "q a")
    case False
    then have "\<forall>b \<in> set xs. \<not> q b" using Cons.prems by auto
    then show ?thesis using False by (simp add: filter_id_conv)
  qed (use Cons in auto)
qed simp

lemma sort_key_sorted_wrt: "sorted_wrt (\<lambda>a b. f a \<le> f b) (sort_key f xs)"
  using sorted_sort_key [of f xs] by (simp add: sorted_map)

lemma in_map_filter: "y \<in> set (List.map_filter f xs) \<longleftrightarrow> (\<exists>x \<in> set xs. f x = Some y)"
  by (induction xs) (auto simp: List.map_filter_simps split: option.splits)

lemma archive_row_of_schema: "archive_row_of probes run_dir (x, r) = Some row \<Longrightarrow> ar_schema row = x"
  by (auto simp: archive_row_of_def Let_def split: option.splits)

lemma map_filter_schemas:
  "distinct (map fst m) \<Longrightarrow> distinct (map ar_schema (List.map_filter (archive_row_of probes run_dir) m))"
proof (induction m)
  case (Cons c m)
  obtain x r where c: "c = (x, r)" by (cases c)
  have "ar_schema ` set (List.map_filter (archive_row_of probes run_dir) m) \<subseteq> fst ` set m"
    by (force simp: in_map_filter dest: archive_row_of_schema)
  then show ?case
    using Cons c by (auto simp: List.map_filter_simps dest!: archive_row_of_schema split: option.splits)
qed (simp add: List.map_filter_simps)

text \<open>
  The scan shows the evidence of every schema it should, once: exactly the schemas whose row is not
  archived and for which S3 holds a usable object, each with its row, disk and object, those that need
  attention before all others and larger archives first within a verdict, whatever order the probes
  come back in.
\<close>

theorem scan_shows_each_candidate:
  assumes "hm_wf (smap s)" "\<And>rs. mset (arrival rs) = mset rs"
    and "archive_scan configured client probes run_dir arrival s = Inr rows"
  shows "distinct (map ar_schema rows)
     \<and> (\<forall>row. row \<in> set rows \<longleftrightarrow> (\<exists>x r. store_record s x = Some r \<and> tier_of r \<noteq> Archived
            \<and> archive_row_of probes run_dir (x, r) = Some row))
     \<and> rows = filter (\<lambda>r. suspect (ar_verdict r)) rows @ filter (\<lambda>r. \<not> suspect (ar_verdict r)) rows
     \<and> sorted_wrt (\<lambda>a b. ar_verdict a = ar_verdict b \<longrightarrow> probe_bytes (ar_probe b) \<le> probe_bytes (ar_probe a)) rows"
proof -
  let ?key = "\<lambda>r. (ar_verdict r, - int (probe_bytes (ar_probe r)))"
  let ?cand = "filter (\<lambda>(_, r). tier_of r \<noteq> Archived) (smap s)"
  let ?found = "List.map_filter (archive_row_of probes run_dir) ?cand"
  have rows: "rows = sort_key ?key (arrival ?found)"
    using assms(3) by (auto simp: archive_scan_def Let_def split: if_splits)
  have ms: "mset rows = mset ?found" by (simp add: rows assms(2))
  have "distinct (map fst ?cand)" using assms(1) by (simp add: hm_wf_def distinct_map_filter)
  then have df: "distinct (map ar_schema ?found)" by (rule map_filter_schemas)
  have "mset (map ar_schema rows) = mset (map ar_schema ?found)" using ms by (simp only: mset_map)
  then have d: "distinct (map ar_schema rows)" using df mset_eq_imp_distinct_iff by blast
  have m: "row \<in> set rows \<longleftrightarrow> (\<exists>x r. store_record s x = Some r \<and> tier_of r \<noteq> Archived
      \<and> archive_row_of probes run_dir (x, r) = Some row)" for row
    by (simp add: mset_eq_setD [OF ms] in_map_filter store_record_def hm_in_set [OF assms(1), symmetric])
  have s: "sorted_wrt (\<lambda>a b. ?key a \<le> ?key b) rows" unfolding rows by (rule sort_key_sorted_wrt)
  have p: "rows = filter (\<lambda>r. suspect (ar_verdict r)) rows @ filter (\<lambda>r. \<not> suspect (ar_verdict r)) rows"
  proof (rule sorted_wrt_partition [OF s])
    fix a b :: archive_row
    assume "?key a \<le> ?key b" "suspect (ar_verdict b)"
    then show "suspect (ar_verdict a)"
      by (cases "ar_verdict a"; cases "ar_verdict b") (auto simp: suspect_def less_verdict_def less_eq_verdict_def)
  qed
  have b: "sorted_wrt (\<lambda>a b. ar_verdict a = ar_verdict b \<longrightarrow> probe_bytes (ar_probe b) \<le> probe_bytes (ar_probe a)) rows"
    by (rule sorted_wrt_mono_rel [OF _ s]) auto
  show ?thesis using d m p b by (intro conjI allI)
qed

text \<open>An S3 that holds an image of 1083 bytes for every schema, and no dump.\<close>

definition image_probe_env :: probe_env where
  "image_probe_env = \<lparr>pe_crypto = demo_crypto, pe_dump = demo_head 404 Map.empty,
     pe_image = demo_head 200 [''content-length'' \<mapsto> ''1083'']\<rparr>"

definition image_object :: object_id where
  "image_object = \<lparr>etag = [], last_modified = [], content_length = 1083\<rparr>"

definition image_probe :: archive_probe where
  "image_probe = \<lparr>probe_kind = Image, probe_key = image_object_key demo_s3 ''shop'', probe_bytes = 1083, probe_modified = []\<rparr>"

definition image_world :: "tier \<Rightarrow> world" where
  "image_world t = demo_world t\<lparr>s3_images := [''shop'' \<mapsto> \<lparr>ver = 3, bytes = 1083\<rparr>]\<rparr>"

abbreviation shop_row :: "tier \<Rightarrow> rec" where
  "shop_row t \<equiv> \<lparr>sandbox_id = ''sb-1'', last_active = 5, tier_of = t\<rparr>"

lemma image_world_simps [simp]:
  "reg (image_world t) = reg (demo_world t)" "archiving (image_world t) = {}" "s3_dumps (image_world t) = Map.empty"
  "s3_images (image_world t) = [''shop'' \<mapsto> \<lparr>ver = 3, bytes = 1083\<rparr>]" "vms (image_world t) = [''sb-1'' \<mapsto> 7]"
  "dump_files (image_world t) = [''shop'' \<mapsto> \<lparr>ver = 7, bytes = 600\<rparr>]"
  "store_record (reg (demo_world t)) ''shop'' = Some (shop_row t)"
  by (simp_all add: image_world_def demo_world_def Let_def store_record_def)

lemma image_heads:
  "probe_heads image_probe_env demo_s3 x = ((Inr None, Inr (Some image_object)), demo_s3)"
proof -
  have "rust_trim ''1083'' = ''1083''" by (rule rust_trim_ends) (simp_all add: is_ascii_graphic_def code_def)
  moreover have "rust_parse_u64 ''1083'' = Some 1083"
    by (rule rust_parse_u64_digits) (auto simp: is_ascii_digit_def code_def)
  ultimately show ?thesis
    by (simp add: probe_heads_def image_probe_env_def head_with_def demo_head_def head_object_def head_once_def answer_def
        is_success_def object_of_def image_object_def)
qed

lemma image_probed: "probe_archive image_probe_env demo_s3 ''shop'' = (Some image_probe, demo_s3)"
  by (simp add: probe_archive_def image_heads probe_from_def seen_object_def choose_restore_def found_probe_def
      image_probe_def image_object_def MIN_IMAGE_BYTES_def)

lemma shop_valid: "is_valid_schema ''shop''"
  by (simp add: is_valid_schema_def code_def)

lemma shop_adopted:
  "adopt_archive (Some demo_s3) True image_probe_env 9 True ''shop'' s =
     (Inr (adopt_verb_of (store_record s ''shop''), image_probe), snd (adopt_archived 9 True ''shop'' s), Some demo_s3)"
  using adopt_archived_row(2) [of 9 True "''shop''" s]
  by (cases "adopt_archived 9 True ''shop'' s") (simp add: adopt_archive_def shop_valid image_probed)

theorem adopt_archive_exact_witness:
  "store_record (snd (adopt_archived 9 True ''shop'' (reg (demo_world Live)))) ''shop'' = Some (shop_row Archived)
   \<and> reloaded 11 (snd (adopt_archived 9 True ''shop'' (reg (demo_world Live))))
      = store_record (snd (adopt_archived 9 True ''shop'' (reg (demo_world Live))))"
  using adopt_archive_exact [OF demo_sane [of Live] _ shop_adopted, where t = 11] by (simp add: adopted_row_def)

lemma shop_trimmed: "rust_trim ''shop'' = ''shop''"
  by (rule rust_trim_ends) (simp_all add: is_ascii_graphic_def code_def)

abbreviation booting :: tier_answers where
  "booting \<equiv> demo_answers\<lparr>boot := Some ''sb-2''\<rparr>"

abbreviation shop_heads :: "nat option option \<times> nat option option" where
  "shop_heads \<equiv> (Some None, Some (Some 1083))"

lemma shop_restore_shape:
  assumes "restore (Some demo_s3) True image_probe_env demo_config booting shop_heads False cell True True ''shop'' (image_world t) = rw"
    and "checkout demo_config booting shop_heads False cell True True ''shop''
       (image_world t\<lparr>reg := snd (adopt_archived 9 True ''shop'' (reg (demo_world t)))\<rparr>) = (Inr i, fx)"
  shows "rw = (Inr ((adopt_verb_of (Some (shop_row t)), image_probe), Restored_Into i),
     leave ''shop'' (run_effects ''shop'' fx (image_world t\<lparr>reg := snd (adopt_archived 9 True ''shop'' (reg (demo_world t)))\<rparr>)))"
proof -
  have a: "now_at booting = 9" "write_ok booting" by (simp_all add: demo_answers_def)
  show ?thesis using assms(2) unfolding assms(1) [symmetric] restore_def shop_trimmed Let_def a shop_adopted image_world_simps
    by (simp add: a shop_adopted)
qed

lemma shop_restored:
  "\<exists>w'. restore (Some demo_s3) True image_probe_env demo_config booting shop_heads False None True True ''shop'' (image_world Live)
     = (Inr ((Repaired Live ''sb-1'', image_probe), Restored_Into ''sb-2''), w')"
proof -
  let ?w = "image_world Live\<lparr>reg := snd (adopt_archived 9 True ''shop'' (reg (demo_world Live)))\<rparr>"
  have "\<exists>fx. checkout demo_config booting shop_heads False None True True ''shop'' ?w = (Inr ''sb-2'', fx)"
    using checkout_archived [of "''shop''" ?w False demo_config booting "''sb-2''" shop_heads True True]
    by (simp add: adopt_archived_record adopted_row_def demo_config_def)
  then show ?thesis using shop_restore_shape [OF refl] by (force simp: adopt_verb_of_def)
qed

theorem restore_aligns_witness:
  "\<exists>w'. restore (Some demo_s3) True image_probe_env demo_config booting shop_heads False None True True ''shop'' (image_world Live)
       = (Inr ((Repaired Live ''sb-1'', image_probe), Restored_Into ''sb-2''), w')
     \<and> vms w' ''sb-2'' = Some 3 \<and> names (store_record (reg w') ''shop'') Live ''sb-2''"
proof -
  obtain w' where w': "restore (Some demo_s3) True image_probe_env demo_config booting shop_heads False None True True ''shop'' (image_world Live)
     = (Inr ((Repaired Live ''sb-1'', image_probe), Restored_Into ''sb-2''), w')"
    using shop_restored by blast
  have h1: "shop_heads = map_prod head_length head_length (fst (probe_heads image_probe_env demo_s3 ''shop''))"
    by (simp add: image_heads head_length_def image_object_def)
  have h2: "shop_heads = (Some (map_option bytes (s3_dumps (image_world Live) ''shop'')), Some (map_option bytes (s3_images (image_world Live) ''shop'')))"
    by simp
  have "names (store_record (reg w') ''shop'') Live ''sb-2'' \<and> vms w' ''sb-2'' = Some 3"
    using restore_aligns [OF w' shop_trimmed _ _ _ refl h1 h2, of "''sb-2''"]
    by (simp add: demo_config_def image_probe_def)
  then show ?thesis using w' by (intro exI [of _ w'] conjI) simp_all
qed

section \<open>Where the recovery falls short\<close>

lemma writes_keep: "reg (run_effects x (replicate n (Serve_Write i)) w) = reg w"
  "s3_dumps (run_effects x (replicate n (Serve_Write i)) w) = s3_dumps w"
  "s3_images (run_effects x (replicate n (Serve_Write i)) w) = s3_images w"
  by (induction n arbitrary: w) simp_all

lemma archived_finds: "map_option tier_of r = Some Archived \<Longrightarrow> connect_finds w x r = s3_finds (s3_dumps w x) (s3_images w x)"
  by (cases r) (auto simp: connect_finds_def)

text \<open>
  A schema that is in use is reported restored and is not. When its VM is cached and answers, the request
  succeeds and the journal says the schema was restored from its archive into that VM, but nothing was
  read from the archive and no disk changed: the clients stay on the old VM, while the row is archived.
  Every write they commit from then on is out of reach: once the VM leaves the cache, a connect reads the
  archive.
\<close>

theorem warm_schema_not_restored:
  assumes "restore archive client e cfg a heads tripped (Some i) True True form w = (Inr ((verb, p), rep), w')"
    and "rust_trim form = x" "x \<notin> archiving w"
  shows "rep = Restored_Into i \<and> vms w' = vms w
     \<and> map_option tier_of (store_record (reg w') x) = Some Archived
     \<and> map_option sandbox_id (store_record (reg w') x) = Some (case store_record (reg w) x of
          None \<Rightarrow> ADOPTED_ID_PREFIX @ x | Some r \<Rightarrow> sandbox_id r)
     \<and> (let later = run_effects x (replicate n (Serve_Write i)) w'
        in connect_finds later x (store_record (reg later) x) = s3_finds (s3_dumps w x) (s3_images w x))"
proof -
  obtain str' ar' where ad: "adopt_archive archive client e (now_at a) (write_ok a) x (reg w) = (Inr (verb, p), str', ar')"
    using assms(1,2) by (auto simp: restore_def Let_def split: prod.splits sum.splits)
  have str: "str' = snd (adopt_archived (now_at a) (write_ok a) x (reg w))" using adopt_Inr [OF ad] by blast
  have "checkout cfg a heads tripped (Some i) True True x (w\<lparr>reg := str'\<rparr>) = (Inr i, [Touch (now_at a), Serve])"
    using assms(3) by (simp add: checkout_def)
  then have w': "w' = leave x (run_effects x [Touch (now_at a), Serve] (w\<lparr>reg := str'\<rparr>))" and rep: "rep = Restored_Into i"
    using assms(1,2) ad by (simp_all add: restore_def Let_def)
  have v: "vms w' = vms w" "s3_dumps w' = s3_dumps w" "s3_images w' = s3_images w" by (simp_all add: w')
  have t: "store_record (reg w') x = Some (adopted_row (now_at a) x (store_record (reg w) x)\<lparr>last_active := now_at a\<rparr>)"
    by (simp add: w' store_touch_def str adopt_archived_row store_record_def)
  have ar: "map_option tier_of (store_record (reg w') x) = Some Archived"
    "map_option sandbox_id (store_record (reg w') x) = Some (case store_record (reg w) x of
          None \<Rightarrow> ADOPTED_ID_PREFIX @ x | Some r \<Rightarrow> sandbox_id r)"
    unfolding t by (simp_all add: adopted_row_def split: option.splits)
  have "connect_finds (run_effects x (replicate n (Serve_Write i)) w') x (store_record (reg (run_effects x (replicate n (Serve_Write i)) w')) x)
      = s3_finds (s3_dumps w x) (s3_images w x)"
    unfolding writes_keep archived_finds [OF ar(1)] v ..
  then show ?thesis using rep v(1) ar unfolding Let_def by blast
qed

theorem warm_schema_not_restored_witness:
  "\<exists>w'. restore (Some demo_s3) True image_probe_env demo_config booting shop_heads False (Some ''sb-1'') True True ''shop'' (image_world Live)
       = (Inr ((Repaired Live ''sb-1'', image_probe), Restored_Into ''sb-1''), w')
     \<and> vms w' ''sb-1'' = Some 7 \<and> map_option tier_of (store_record (reg w') ''shop'') = Some Archived"
proof -
  have "checkout demo_config booting shop_heads False (Some ''sb-1'') True True ''shop''
      (image_world Live\<lparr>reg := snd (adopt_archived 9 True ''shop'' (reg (demo_world Live)))\<rparr>) = (Inr ''sb-1'', [Touch (now_at booting), Serve])"
    by (simp add: checkout_def)
  from shop_restore_shape [OF refl this] obtain w' where
    w': "restore (Some demo_s3) True image_probe_env demo_config booting shop_heads False (Some ''sb-1'') True True ''shop'' (image_world Live)
       = (Inr ((Repaired Live ''sb-1'', image_probe), Restored_Into ''sb-1''), w')"
    by (force simp: adopt_verb_of_def)
  from warm_schema_not_restored [OF w' shop_trimmed, of 0]
  have "vms w' ''sb-1'' = Some 7" "map_option tier_of (store_record (reg w') ''shop'') = Some Archived" by simp_all
  then show ?thesis using w' by (intro exI [of _ w'] conjI) simp_all
qed

text \<open>
  The page recommends rolling a frozen schema back. A frozen or compacted schema has no disk, because the
  offload deleted its VM, so if an archive from an earlier thaw is still in S3 the scan flags the schema
  as having no disk, ahead of all others; but the schema is served from its local file. Adopting the
  archive then replaces what a connect finds, the local file's latest write, by the older object.
\<close>

theorem frozen_schema_rolled_back:
  assumes "names (store_record (reg w) x) t i" "t = Frozen \<or> t = Compacted" "tier_finds w x t i = Some v"
    and "bound_disk run_dir (the (store_record (reg w) x)) = None"
    and "adopt_archive archive client e now ok x (reg w) = (Inr (verb, p), str', archive')"
  shows "connect_finds w x (store_record (reg w) x) = Some v
     \<and> (\<forall>row. archive_row_of (\<lambda>_. Some p) run_dir (x, the (store_record (reg w) x)) = Some row \<longrightarrow>
          ar_verdict row = No_Disk \<and> suspect (ar_verdict row))
     \<and> connect_finds (w\<lparr>reg := str'\<rparr>) x (store_record str' x) = s3_finds (s3_dumps w x) (s3_images w x)"
proof -
  have "store_record str' x = Some (adopted_row now x (store_record (reg w) x))"
    using adopt_Inr [OF assms(5)] by (auto simp: adopt_archived_record)
  then have "map_option tier_of (store_record str' x) = Some Archived" by (simp add: adopted_row_def split: option.splits)
  then show ?thesis
    using names_finds [OF assms(1), of w x] assms(3,4)
    by (auto simp: archived_finds archive_row_of_def verdict_for_def suspect_def Let_def)
qed

theorem frozen_schema_rolled_back_witness:
  "connect_finds (image_world Frozen) ''shop'' (store_record (reg (image_world Frozen)) ''shop'') = Some 7
   \<and> connect_finds (image_world Frozen\<lparr>reg := snd (adopt_archived 9 True ''shop'' (reg (image_world Frozen)))\<rparr>) ''shop''
       (store_record (snd (adopt_archived 9 True ''shop'' (reg (image_world Frozen)))) ''shop'') = Some 3"
proof -
  have "names (store_record (reg (image_world Frozen)) ''shop'') Frozen ''sb-1''" by (simp add: names_def)
  from frozen_schema_rolled_back [OF this _ _ _ shop_adopted, where v = 7 and run_dir = None]
  show ?thesis
    by (simp add: bound_disk_def s3_finds_def whole_def)
qed

text \<open>
  The VM an adoption displaces is not reclaimed by the disk sweep: the sweep removes only directories of
  VMs the daemon does not know, and nothing told the daemon to forget this one.
\<close>

lemma displaced_vm_not_swept:
  assumes "view_state (before e) sid \<noteq> Gone"
  shows "sid \<notin> set (removed_dirs (sweep_orphans e recs))"
proof (cases rule: sweep_cases [of e recs])
  case (run es swept)
  show ?thesis
  proof
    assume "sid \<in> set (removed_dirs (sweep_orphans e recs))"
    then have "sid \<in> set (map fst (take ORPHAN_MAX_DELETES_PER_SWEEP (deletable (sweep_plan_of e recs es))))"
      using run(2) by (simp add: execute_plan_def Let_def delete_dirs_iff)
    then have "sid \<in> set (map fst (deletable (sweep_plan_of e recs es)))" by (metis in_set_takeD take_map)
    then show False using assms by (auto simp: sweep_plan_spec orphaned_def)
  qed
qed (simp add: nothing_swept_def)

text \<open>A purge deletes the VM under the clients of a schema that was adopted while in use.\<close>

lemma purge_kills_adopted_vm:
  assumes "store_record s x = Some r" "smap s = [(x, r)]"
  shows "\<exists>h'. sent (purge_pass (\<lambda>_ h. h) (\<lambda>_. knowing_daemon) (\<lambda>_. False) (host_with (snd (adopt_archived now ok x s)))) = [(h', sandbox_id r)]"
proof -
  have "records (host_with (snd (adopt_archived now ok x s))) = [(x, adopted_row now x (Some r))]"
    using assms by (simp add: records_def host_with_def adopt_archived_row hm_insert_def)
  then show ?thesis
    using purge_one_row [of "adopted_row now x (Some r)" "\<lambda>_ h. h"] by (simp add: adopted_row_def)
qed

end
