(* ===== verification/Sweeps.thy ===== *)
theory Sweeps
  imports Tiers Settings
begin

text \<open>
  The passes of \<open>src/src/registry.rs\<close> that move many schemas or watch a disk: the journaled entry points of
  the tier moves with their back-off, \<open>sweep_archive\<close>, one worker of \<open>offload_drain_loop\<close>, \<open>pressure_pass\<close>, the
  reading of \<open>df\<close>, the growth of a data device and the loop that runs every pass (\<open>supervise_with_wake\<close>).
  The tier moves themselves are those of \<open>Tiers\<close>, the planner that of \<open>Offload\<close>.
\<close>

section \<open>The journaled entry points\<close>

text \<open>
  \<open>archive_schema\<close>, \<open>freeze_schema\<close> and \<open>compact_schema\<close> wrap the move: success clears the schema's back-off, a
  lost claim leaves it alone, any other failure extends it.
\<close>

definition settle :: "string \<Rightarrow> nat \<Rightarrow> offload_error option \<Rightarrow> failures \<Rightarrow> failures" where
  "settle x now e b =
     (case e of
        None \<Rightarrow> backoff_clear x b
      | Some er \<Rightarrow> if er = Already_Offloading then b else snd (backoff_record_failure x now b))"

text \<open>\<open>archive_schema_as_image\<close> clears it on success and otherwise leaves it alone.\<close>

definition settle_image :: "string \<Rightarrow> offload_error option \<Rightarrow> failures \<Rightarrow> failures" where
  "settle_image x e b = (case e of None \<Rightarrow> backoff_clear x b | Some _ \<Rightarrow> b)"

definition offload_recorded ::
  "tier_setup \<Rightarrow> tier_answers \<Rightarrow> nat \<Rightarrow> offload_kind \<Rightarrow> string \<Rightarrow> world \<times> failures \<Rightarrow> offload_error option \<times> world \<times> failures" where
  "offload_recorded cfg a now k x wb =
     (case wb of (w, b) \<Rightarrow>
        (case run_offload_job cfg a k x w of
           (e, fx) \<Rightarrow> (e, run_effects x fx w, if k = ImageArchive then settle_image x e b else settle x now e b)))"

section \<open>The operator's sweep\<close>

text \<open>
  The rows in the order the registry yields them, split into what the sweep will promote, dump or touch.
  \<open>live\<close> is the snapshot of the warm entries, \<open>now\<close> in seconds, \<open>at\<close> the monotonic clock.
\<close>

record sweep_lists =
  sl_live :: "string list"
  sl_frozen :: "string list"
  sl_compacted :: "string list"
  sl_refresh :: "string list"

definition sweep_row ::
  "(string \<Rightarrow> bool) \<Rightarrow> (string \<Rightarrow> (nat \<times> u64) option) \<Rightarrow> failures \<Rightarrow> nat \<Rightarrow> u64 \<Rightarrow> u64 \<Rightarrow> string \<times> rec \<Rightarrow> sweep_lists \<Rightarrow> sweep_lists" where
  "sweep_row keepalive live b at now threshold row l =
     (case row of (schema, r) \<Rightarrow>
        if tier_of r = Frozen \<or> tier_of r = Compacted
        then (if \<not> keepalive schema \<and> threshold \<le> now - last_active r
              then (if tier_of r = Frozen then l\<lparr>sl_frozen := sl_frozen l @ [schema]\<rparr>
                    else l\<lparr>sl_compacted := sl_compacted l @ [schema]\<rparr>)
              else l)
        else (case classify_candidate r (keepalive schema) now threshold (live schema) of
                Skip \<Rightarrow> l
              | Refresh \<Rightarrow> l\<lparr>sl_refresh := sl_refresh l @ [schema]\<rparr>
              | Archive_Now \<Rightarrow>
                  if backoff_active schema at b \<noteq> None then l else l\<lparr>sl_live := sl_live l @ [schema]\<rparr>))"

definition sweep_lists_of ::
  "(string \<Rightarrow> bool) \<Rightarrow> (string \<Rightarrow> (nat \<times> u64) option) \<Rightarrow> failures \<Rightarrow> nat \<Rightarrow> u64 \<Rightarrow> u64 \<Rightarrow> (string \<times> rec) list \<Rightarrow> sweep_lists" where
  "sweep_lists_of keepalive live b at now threshold rows =
     fold (sweep_row keepalive live b at now threshold) rows
       \<lparr>sl_live = [], sl_frozen = [], sl_compacted = [], sl_refresh = []\<rparr>"

text \<open>
  A run of the sweep: the world, the back-offs, the schemas tried so far with how each ended, and how many
  awaits have passed. Other tasks act between two schemas: \<open>env k\<close> is what they do during the \<open>k\<close>-th.
\<close>

record sweep_run =
  sr_world :: world
  sr_backoff :: failures
  sr_tried :: "(string \<times> offload_error option) list"

type_synonym meddling = "nat \<Rightarrow> world \<Rightarrow> world"

definition tried :: "meddling \<Rightarrow> string \<Rightarrow> offload_error option \<Rightarrow> world \<Rightarrow> failures \<Rightarrow> sweep_run \<Rightarrow> sweep_run" where
  "tried env x e w b s =
     \<lparr>sr_world = env (length (sr_tried s)) w, sr_backoff = b, sr_tried = sr_tried s @ [(x, e)]\<rparr>"

text \<open>The promotions call the move directly: no back-off, and a failure is not counted.\<close>

definition promote_one ::
  "(tier_setup \<Rightarrow> tier_answers \<Rightarrow> string \<Rightarrow> world \<Rightarrow> outcome) \<Rightarrow> tier_setup \<Rightarrow> (string \<Rightarrow> tier_answers) \<Rightarrow> meddling \<Rightarrow> string \<Rightarrow> sweep_run \<Rightarrow> sweep_run" where
  "promote_one move cfg a env x s =
     (case move cfg (a x) x (sr_world s) of
        (e, fx) \<Rightarrow> tried env x e (run_effects x fx (sr_world s)) (sr_backoff s) s)"

fun sweep_dumps ::
  "tier_setup \<Rightarrow> (string \<Rightarrow> tier_answers) \<Rightarrow> nat \<Rightarrow> meddling \<Rightarrow> string list \<Rightarrow> nat \<Rightarrow> sweep_run \<Rightarrow> bool \<times> sweep_run" where
  "sweep_dumps cfg a at env [] fails s = (False, s)"
| "sweep_dumps cfg a at env (x # xs) fails s =
     (case offload_recorded cfg (a x) at Archive x (sr_world s, sr_backoff s) of
        (e, w, b) \<Rightarrow>
          (let s' = tried env x e w b s
           in if e = None then sweep_dumps cfg a at env xs 0 s'
              else if SWEEP_MAX_CONSECUTIVE_FAILURES \<le> fails + 1 then (True, s')
              else sweep_dumps cfg a at env xs (fails + 1) s'))"

definition done_count :: "sweep_run \<Rightarrow> nat" where
  "done_count s = length (filter (\<lambda>(_, e). e = None) (sr_tried s))"

text \<open>
  One sweep: whether it aborted, how many schemas it archived, and the run. \<open>sweeping\<close> is the single-flight flag.
\<close>

definition sweep_archive ::
  "bool \<Rightarrow> tier_setup \<Rightarrow> (string \<Rightarrow> tier_answers) \<Rightarrow> meddling \<Rightarrow> (string \<Rightarrow> bool) \<Rightarrow> (string \<Rightarrow> (nat \<times> u64) option) \<Rightarrow>
     nat \<Rightarrow> u64 \<Rightarrow> u64 \<Rightarrow> world \<times> failures \<Rightarrow> bool \<times> nat \<times> sweep_run" where
  "sweep_archive running cfg a env keepalive live at now threshold wb =
     (case wb of (w, b) \<Rightarrow>
        if running then (False, 0, \<lparr>sr_world = w, sr_backoff = b, sr_tried = []\<rparr>)
        else (let l = sweep_lists_of keepalive live b at now threshold (smap (reg w));
                  w1 = w\<lparr>reg := fold (store_touch now) (sl_refresh l) (reg w)\<rparr>;
                  s0 = \<lparr>sr_world = w1, sr_backoff = b, sr_tried = []\<rparr>;
                  s1 = fold (promote_one archive_frozen_schema cfg a env) (sl_frozen l) s0;
                  s2 = fold (promote_one archive_compacted_schema cfg a env) (sl_compacted l) s1
              in case sweep_dumps cfg a at env (sl_live l) 0 s2 of
                   (aborted, s3) \<Rightarrow> (aborted, done_count s3, s3)))"

section \<open>What a sweep tries\<close>

definition sweep_promotes :: "(string \<Rightarrow> bool) \<Rightarrow> u64 \<Rightarrow> u64 \<Rightarrow> tier \<Rightarrow> string \<times> rec \<Rightarrow> bool" where
  "sweep_promotes keepalive now threshold t row \<longleftrightarrow>
     tier_of (snd row) = t \<and> \<not> keepalive (fst row) \<and> threshold \<le> now - last_active (snd row)"

definition sweep_dumped ::
  "(string \<Rightarrow> bool) \<Rightarrow> (string \<Rightarrow> (nat \<times> u64) option) \<Rightarrow> failures \<Rightarrow> nat \<Rightarrow> u64 \<Rightarrow> u64 \<Rightarrow> string \<times> rec \<Rightarrow> bool" where
  "sweep_dumped keepalive live b at now threshold row \<longleftrightarrow>
     tier_of (snd row) = Live \<and> \<not> keepalive (fst row) \<and> threshold \<le> now - last_active (snd row)
     \<and> (case live (fst row) of None \<Rightarrow> True | Some (active, idle) \<Rightarrow> active = 0 \<and> threshold \<le> idle)
     \<and> backoff_active (fst row) at b = None"

lemma sweep_row_lists:
  "sl_live (sweep_row ka live b at now th row l) = sl_live l @ (if sweep_dumped ka live b at now th row then [fst row] else [])"
  "sl_frozen (sweep_row ka live b at now th row l) = sl_frozen l @ (if sweep_promotes ka now th Frozen row then [fst row] else [])"
  "sl_compacted (sweep_row ka live b at now th row l) = sl_compacted l @ (if sweep_promotes ka now th Compacted row then [fst row] else [])"
proof -
  obtain x r where row: "row = (x, r)" by (cases row)
  note defs = row sweep_row_def sweep_dumped_def sweep_promotes_def classify_candidate_def offloaded_def not_less
  show "sl_live (sweep_row ka live b at now th row l) = sl_live l @ (if sweep_dumped ka live b at now th row then [fst row] else [])"
    by (cases "tier_of r"; cases "live x") (auto simp: defs split: if_splits)
  show "sl_frozen (sweep_row ka live b at now th row l) = sl_frozen l @ (if sweep_promotes ka now th Frozen row then [fst row] else [])"
    by (cases "tier_of r"; cases "live x") (auto simp: defs split: if_splits)
  show "sl_compacted (sweep_row ka live b at now th row l) = sl_compacted l @ (if sweep_promotes ka now th Compacted row then [fst row] else [])"
    by (cases "tier_of r"; cases "live x") (auto simp: defs split: if_splits)
qed

lemma sweep_lists_fold:
  "sl_live (fold (sweep_row ka live b at now th) rows l) = sl_live l @ map fst (filter (sweep_dumped ka live b at now th) rows)"
  "sl_frozen (fold (sweep_row ka live b at now th) rows l) = sl_frozen l @ map fst (filter (sweep_promotes ka now th Frozen) rows)"
  "sl_compacted (fold (sweep_row ka live b at now th) rows l) = sl_compacted l @ map fst (filter (sweep_promotes ka now th Compacted) rows)"
  by (induction rows arbitrary: l) (simp_all add: sweep_row_lists)

lemma sweep_lists_spec:
  "sl_live (sweep_lists_of ka live b at now th rows) = map fst (filter (sweep_dumped ka live b at now th) rows)"
  "sl_frozen (sweep_lists_of ka live b at now th rows) = map fst (filter (sweep_promotes ka now th Frozen) rows)"
  "sl_compacted (sweep_lists_of ka live b at now th rows) = map fst (filter (sweep_promotes ka now th Compacted) rows)"
  using sweep_lists_fold by (simp_all add: sweep_lists_of_def)

lemma promotes_tried:
  "map fst (sr_tried (fold (promote_one move cfg a env) xs s)) = map fst (sr_tried s) @ xs"
  by (induction xs arbitrary: s) (simp_all add: promote_one_def tried_def split: prod.splits)

lemma sweep_dumps_tried:
  assumes "sweep_dumps cfg a at env xs fails s = (aborted, s')" "fails < 3"
  shows "\<exists>ys zs. xs = map fst ys @ zs \<and> sr_tried s' = sr_tried s @ ys \<and> (\<not> aborted \<longrightarrow> zs = [])
     \<and> (aborted \<longrightarrow> (\<exists>vs us. ys = vs @ us \<and> list_all (\<lambda>(_, e). e \<noteq> None) us \<and> (vs = [] \<and> fails + length us = 3 \<or> length us = 3)))"
  using assms
proof (induction xs arbitrary: fails s)
  case (Cons x xs)
  obtain e w b where o: "offload_recorded cfg (a x) at Archive x (sr_world s, sr_backoff s) = (e, w, b)" by (cases rule: prod_cases3)
  let ?s = "tried env x e w b s"
  have t: "sr_tried ?s = sr_tried s @ [(x, e)]" by (simp add: tried_def)
  consider (ok) "e = None" "sweep_dumps cfg a at env xs 0 ?s = (aborted, s')"
    | (stop) "e \<noteq> None" "3 \<le> fails + 1" aborted "s' = ?s"
    | (fail) "e \<noteq> None" "fails + 1 < 3" "sweep_dumps cfg a at env xs (fails + 1) ?s = (aborted, s')"
    using Cons.prems(1) o by (force simp: Let_def SWEEP_MAX_CONSECUTIVE_FAILURES_def split: if_splits)
  then show ?case
  proof cases
    case ok
    from Cons.IH [OF ok(2)] obtain ys zs where ih: "xs = map fst ys @ zs" "sr_tried s' = sr_tried ?s @ ys" "\<not> aborted \<longrightarrow> zs = []"
      "aborted \<longrightarrow> (\<exists>vs us. ys = vs @ us \<and> list_all (\<lambda>(_, e). e \<noteq> None) us \<and> length us = 3)" by auto
    then show ?thesis using t
      by (intro exI [of _ "(x, e) # ys"] exI [of _ zs]) (auto, metis append_Cons)
  next
    case stop
    have "\<exists>vs us. [(x, e)] = vs @ us \<and> list_all (\<lambda>(_, e). e \<noteq> None) us \<and> (vs = [] \<and> fails + length us = 3 \<or> length us = 3)"
      using stop(1,2) Cons.prems(2) by (intro exI [of _ "[]"] exI [of _ "[(x, e)]"]) simp
    then show ?thesis using t stop(3,4) by (intro exI [of _ "[(x, e)]"] exI [of _ xs]) simp
  next
    case fail
    from Cons.IH [OF fail(3,2)] obtain ys zs where ih: "xs = map fst ys @ zs" "sr_tried s' = sr_tried ?s @ ys" "\<not> aborted \<longrightarrow> zs = []"
      "aborted \<longrightarrow> (\<exists>vs us. ys = vs @ us \<and> list_all (\<lambda>(_, e). e \<noteq> None) us \<and> (vs = [] \<and> fails + 1 + length us = 3 \<or> length us = 3))"
      by blast
    have "aborted \<longrightarrow> (\<exists>vs us. (x, e) # ys = vs @ us \<and> list_all (\<lambda>(_, e). e \<noteq> None) us \<and> (vs = [] \<and> fails + length us = 3 \<or> length us = 3))"
    proof
      assume aborted
      then obtain vs us where u: "ys = vs @ us" "list_all (\<lambda>(_, e). e \<noteq> None) us" "vs = [] \<and> fails + 1 + length us = 3 \<or> length us = 3"
        using ih(4) by blast
      show "\<exists>vs us. (x, e) # ys = vs @ us \<and> list_all (\<lambda>(_, e). e \<noteq> None) us \<and> (vs = [] \<and> fails + length us = 3 \<or> length us = 3)"
      proof (cases "length us = 3")
        case True
        then show ?thesis using u(1,2) by (intro exI [of _ "(x, e) # vs"] exI [of _ us]) simp
      next
        case False
        then show ?thesis using u fail(1) by (intro exI [of _ "[]"] exI [of _ "(x, e) # us"]) simp
      qed
    qed
    then show ?thesis using ih(1-3) t by (intro exI [of _ "(x, e) # ys"] exI [of _ zs]) auto
  qed
qed simp

text \<open>
  C30: The operator's sweep tries what it should and stops only when it must. Every schema it tries had, when
  the sweep read the registry, a row idle for the threshold that is not pinned; if the row was live, no
  warm entry was busy or younger and the schema was not backing off. Unless it aborts it tries all of
  them, local files first, each once per row; it aborts only after three archives in a row that did not
  succeed; and it reports as archived exactly the tries that succeeded, whatever other tasks do meanwhile.
  A schema another offload has claimed is tried like any other, and counts as one that did not succeed.
\<close>

theorem sweep_tries_exactly:
  assumes "sweep_archive False cfg a env ka live at now th (w, b) = (aborted, n, s)"
  shows "\<exists>rest. map fst (filter (sweep_promotes ka now th Frozen) (smap (reg w)))
        @ map fst (filter (sweep_promotes ka now th Compacted) (smap (reg w)))
        @ map fst (filter (sweep_dumped ka live b at now th) (smap (reg w))) = map fst (sr_tried s) @ rest
      \<and> (aborted \<or> rest = [])
      \<and> (\<not> aborted \<or> (\<exists>vs us. sr_tried s = vs @ us \<and> length us = 3 \<and> (\<forall>(_, e) \<in> set us. e \<noteq> None)))
      \<and> n = length (filter (\<lambda>(_, e). e = None) (sr_tried s))"
proof -
  let ?l = "sweep_lists_of ka live b at now th (smap (reg w))"
  let ?s0 = "\<lparr>sr_world = w\<lparr>reg := fold (store_touch now) (sl_refresh ?l) (reg w)\<rparr>, sr_backoff = b, sr_tried = []\<rparr>"
  let ?s2 = "fold (promote_one archive_compacted_schema cfg a env) (sl_compacted ?l)
    (fold (promote_one archive_frozen_schema cfg a env) (sl_frozen ?l) ?s0)"
  have d: "sweep_dumps cfg a at env (sl_live ?l) 0 ?s2 = (aborted, s)" and n: "n = done_count s"
    using assms by (auto simp: sweep_archive_def Let_def split: prod.splits)
  have t2: "map fst (sr_tried ?s2) = sl_frozen ?l @ sl_compacted ?l" by (simp add: promotes_tried)
  from sweep_dumps_tried [OF d] obtain ys zs where y: "sl_live ?l = map fst ys @ zs" "sr_tried s = sr_tried ?s2 @ ys"
    "\<not> aborted \<longrightarrow> zs = []" "aborted \<longrightarrow> (\<exists>vs us. ys = vs @ us \<and> list_all (\<lambda>(_, e). e \<noteq> None) us \<and> length us = 3)" by auto
  have "\<not> aborted \<or> (\<exists>vs us. sr_tried s = vs @ us \<and> length us = 3 \<and> (\<forall>(_, e) \<in> set us. e \<noteq> None))"
    using y(2,4) by (metis append.assoc list_all_iff)
  moreover have "sl_frozen ?l @ sl_compacted ?l @ sl_live ?l = map fst (sr_tried s) @ zs"
    using t2 y(1,2) by simp
  ultimately show ?thesis
    using y(3) n unfolding sweep_lists_spec done_count_def by blast
qed

section \<open>Where the passes fall short\<close>

lemma archive_lost_claim:
  "x \<in> archiving w \<Longrightarrow> has_archive cfg \<Longrightarrow> map_option tier_of (store_record (reg w) x) = Some Live \<Longrightarrow>
   offload_recorded cfg a at Archive x (w, b) = (Some Already_Offloading, w, b)"
  by (auto simp: offload_recorded_def run_offload_job_def archive_schema_def guarded_def settle_def)

text \<open>
  Lost claims abort the operator's sweep. Three candidates in a row that another worker is already
  offloading, which the entry point treats as no failure at all, end the sweep as if the environment were
  unhealthy, with the candidates behind them untried; the drain loop counts the same outcome as nothing.
\<close>

lemma lost_claims_abort_sweep:
  assumes "has_archive cfg" "list_all (\<lambda>x. x \<in> archiving (sr_world s)) [x, y, z]"
    and "list_all (\<lambda>x. map_option tier_of (store_record (reg (sr_world s)) x) = Some Live) [x, y, z]"
  shows "\<exists>s'. sweep_dumps cfg a at (\<lambda>_ w. w) (x # y # z # rest) 0 s = (True, s')
     \<and> sr_tried s' = sr_tried s @ map (\<lambda>x. (x, Some Already_Offloading)) [x, y, z] \<and> sr_backoff s' = sr_backoff s
     \<and> dr_failures (drain_finish i Job_Skipped d) = dr_failures d"
  using assms by (simp add: archive_lost_claim tried_def SWEEP_MAX_CONSECUTIVE_FAILURES_def drain_finish_def Let_def)

definition job_outcome_of :: "offload_error option \<Rightarrow> job_outcome" where
  "job_outcome_of e = (case e of None \<Rightarrow> Job_Done | Some er \<Rightarrow> if er = Already_Offloading then Job_Skipped else Job_Failed)"

definition scan_of :: "(string \<Rightarrow> (nat \<times> u64) option) \<Rightarrow> (string \<Rightarrow> bool) \<Rightarrow> nat \<Rightarrow> u64 \<Rightarrow> world \<Rightarrow> failures \<Rightarrow> scan" where
  "scan_of live ka at now w b =
     \<lparr>sc_records = smap (reg w), sc_live = live, sc_keepalive = ka, sc_archiving = archiving w, sc_backoff = b, sc_at = at, sc_now = now\<rparr>"

text \<open>
  One turn of the drain loop with one worker: the breaker, the pick, which refreshes the clocks of the warm
  schemas it passes over, the job to its end. The disk is above the low-water mark, and no other task acts.
\<close>

definition drain_once ::
  "tier_setup \<Rightarrow> tier_answers \<Rightarrow> (string \<Rightarrow> (nat \<times> u64) option) \<Rightarrow> (string \<Rightarrow> bool) \<Rightarrow> offload_policy \<Rightarrow> nat \<Rightarrow> u64 \<Rightarrow>
     drain \<times> world \<times> failures \<Rightarrow> drain \<times> world \<times> failures" where
  "drain_once cfg a live ka policy at now dwb =
     (case dwb of (d, w, b) \<Rightarrow>
        let d1 = drain_turn False d
        in if dr_ended d1 then (d1, w, b)
           else (let sc = scan_of live ka at now w b;
                     d2 = drain_fill 1 sc policy d1;
                     stale = snd (next_offload_job sc (policy\<lparr>no_boot := False\<rparr>) {});
                     w1 = w\<lparr>reg := fold (store_touch now) stale (reg w)\<rparr>
                 in case dr_jobs d2 of
                      [] \<Rightarrow> (d2, w1, b)
                    | (x, k) # _ \<Rightarrow>
                        (case offload_recorded cfg a at k x (w1, b) of
                           (e, w', b') \<Rightarrow> (drain_finish 0 (job_outcome_of e) d2, w', b'))))"

abbreviation drain_idle :: "nat \<Rightarrow> bool \<Rightarrow> drain" where
  "drain_idle fails ended \<equiv> \<lparr>dr_jobs = [], dr_archived = 0, dr_failures = fails, dr_ended = ended\<rparr>"

lemma image_job_fails:
  assumes "has_archive cfg" "has_image cfg" "image_len a = None" "store_record (reg w) x = Some r" "\<not> offloaded r"
    and "warm w x = None" "x \<notin> archiving w"
  shows "offload_recorded cfg a at ImageArchive x (w, b) = (Some Disk_Error, w, b)"
proof -
  have "w\<lparr>archiving := insert x (archiving w), warm := (warm w)(x := None), archiving := archiving w\<rparr> = w"
    using assms(6) by (simp add: fun_upd_idem)
  then show ?thesis
    using assms by (auto simp: offload_recorded_def run_offload_job_def archive_schema_as_image_def resolve_image_target_def guarded_def
        evicting_def image_archive_now_def Tiers.after_def settle_image_def split: option.splits)
qed

lemma image_drain_stalls:
  assumes "has_archive cfg" "has_image cfg" "image_len a = None" "store_record (reg w) x = Some r" "\<not> offloaded r"
    and "warm w x = None" "x \<notin> archiving w"
    and "next_offload_job (scan_of live ka at now w b) (policy\<lparr>no_boot := False\<rparr>) {} = (Some \<lparr>job_schema = x, job_kind = ImageArchive\<rparr>, [])"
  shows "(drain_once cfg a live ka policy at now ^^ 4) (drain_idle 0 False, w, b) = (drain_idle 3 True, w, b)"
proof -
  have turn: "drain_once cfg a live ka policy at now (drain_idle n False, w, b) = (drain_idle (Suc n) False, w, b)" if "n < 3" for n
    using that assms(8) image_job_fails [OF assms(1-7), of at b]
    by (simp add: drain_once_def drain_turn_def drain_fill_def dispatch_def SWEEP_MAX_CONSECUTIVE_FAILURES_def drain_finish_def
        job_outcome_of_def Let_def)
  have "drain_once cfg a live ka policy at now (drain_idle 3 False, w, b) = (drain_idle 3 True, w, b)"
    by (simp add: drain_once_def drain_turn_def SWEEP_MAX_CONSECUTIVE_FAILURES_def Let_def)
  then show ?thesis using turn [of 0] turn [of 1] turn [of 2] by (simp add: eval_nat_numeral)
qed

text \<open>
  One schema whose disk cannot be imaged stops the emergency drain. The failure is not remembered, so the
  planner picks the same schema again on the next turn, and after three turns the loop gives up as if the
  environment were unhealthy: nothing was offloaded, no back-off was recorded, no other schema was tried,
  and the next pass does the same. Hypotheses: the schema is the one the planner picks, for an image
  archive, and no warm schema has a stale clock; it is live and cold, and its disk cannot be compressed.
\<close>

theorem failing_image_starves_drain:
  assumes "has_archive cfg" "has_image cfg" "image_len a = None" "store_record (reg w) x = Some r" "\<not> offloaded r"
    and "warm w x = None" "x \<notin> archiving w"
    and "next_offload_job (scan_of live ka at now w b) (policy\<lparr>no_boot := False\<rparr>) {} = (Some \<lparr>job_schema = x, job_kind = ImageArchive\<rparr>, [])"
  shows "(drain_once cfg a live ka policy at now ^^ 4) (drain_idle 0 False, w, b) = (drain_idle 3 True, w, b)"
  by (rule image_drain_stalls [OF assms])

definition two_rows_world :: world where
  "two_rows_world = demo_world Live\<lparr>reg := (reg (demo_world Live))\<lparr>smap :=
     [(''sick'', \<lparr>sandbox_id = ''sb-1'', last_active = 5, tier_of = Live\<rparr>),
      (''shop'', \<lparr>sandbox_id = ''sb-2'', last_active = 50, tier_of = Live\<rparr>)]\<rparr>\<rparr>"

definition image_tier :: offload_config where
  "image_tier = \<lparr>cfg_compact = None, cfg_freeze = None, cfg_archive = Some \<lparr>cfg_after = 60, cfg_sweep = 60\<rparr>, cfg_image = True, cfg_workers = 1\<rparr>"

lemma two_rows_pick:
  "next_offload_job (scan_of (\<lambda>_. None) (\<lambda>_. False) 0 100 two_rows_world []) (pressure_policy image_tier\<lparr>no_boot := False\<rparr>) {}
     = (Some \<lparr>job_schema = ''sick'', job_kind = ImageArchive\<rparr>, [])"
  by (simp add: next_offload_job_def scan_of_def two_rows_world_def pressure_policy_def image_tier_def pick_offload_job_def offer_def
      eligible_def classify_candidate_def offloaded_def improves_def backoff_active_def demo_world_def Let_def)

lemma two_rows_simps:
  "has_archive demo_config" "has_image demo_config" "image_len (demo_answers\<lparr>image_len := None\<rparr>) = None"
  "store_record (reg two_rows_world) ''sick'' = Some (\<lparr>sandbox_id = ''sb-1'', last_active = 5, tier_of = Live\<rparr>)"
  "\<not> offloaded \<lparr>sandbox_id = ''sb-1'', last_active = 5, tier_of = Live\<rparr>"
  "warm two_rows_world ''sick'' = None" "''sick'' \<notin> archiving two_rows_world"
  by (simp_all add: two_rows_world_def demo_defs store_record_def offloaded_def)

theorem failing_image_starves_drain_witness:
  "(drain_once demo_config (demo_answers\<lparr>image_len := None\<rparr>) (\<lambda>_. None) (\<lambda>_. False) (pressure_policy image_tier) 0 100 ^^ 4)
     (drain_idle 0 False, two_rows_world, []) = (drain_idle 3 True, two_rows_world, [])"
  by (rule failing_image_starves_drain [OF two_rows_simps two_rows_pick])

section \<open>Reading the disk\<close>

text \<open>\<open>str::split_whitespace\<close>.\<close>

function split_ws :: "string \<Rightarrow> string \<Rightarrow> string list" where
  "split_ws word s =
     (case strip_any ws_seqs s of
        Some t \<Rightarrow> (if word = [] then [] else [rev word]) @ split_ws [] t
      | None \<Rightarrow> (case s of [] \<Rightarrow> if word = [] then [] else [rev word] | c # cs \<Rightarrow> split_ws (c # word) cs))"
  by pat_completeness auto
termination
  by (relation "measure (\<lambda>(word, s). length s)") (auto simp: strip_any_length ws_seqs_nonempty)

declare split_ws.simps [simp del]

definition split_whitespace :: "string \<Rightarrow> string list" where
  "split_whitespace s = split_ws [] s"

definition wrap_kib :: "u64 \<Rightarrow> u64" where
  "wrap_kib n = n * 1024 mod U64_LIMIT"

fun parse_df :: "string list \<Rightarrow> (u64 \<times> u64 \<times> u64) option" where
  "parse_df [] = None"
| "parse_df (line # lines) =
     (let f = split_whitespace line
      in if 6 \<le> length f \<and> f ! 1 \<noteq> [] \<and> list_all is_ascii_digit (f ! 1)
         then (case (rust_parse_u64 (f ! 1), rust_parse_u64 (f ! 2), rust_parse_u64 (f ! 3)) of
                 (Some tot, Some used, Some avail) \<Rightarrow> Some (wrap_kib tot, wrap_kib used, wrap_kib avail)
               | _ \<Rightarrow> None)
         else parse_df lines)"

text \<open>
  \<open>used_pct\<close>. \<open>pct used denom\<close> is the \<open>f64\<close> that \<open>used / denom * 100\<close> rounds to, which is left open; the
  denominator is not positive exactly when it is 0.
\<close>

definition used_pct :: "(u64 \<Rightarrow> u64 \<Rightarrow> f64) \<Rightarrow> u64 \<Rightarrow> u64 \<Rightarrow> f64 option" where
  "used_pct pct used avail = (if (used + avail) mod U64_LIMIT = 0 then None else Some (pct used ((used + avail) mod U64_LIMIT)))"

text \<open>\<open>disk_used_pct\<close>: \<open>df\<close> ran out of time or could not run (None), or exited with a status and output.\<close>

definition disk_used_pct :: "(u64 \<Rightarrow> u64 \<Rightarrow> f64) \<Rightarrow> (bool \<times> bytes) option \<Rightarrow> f64 option" where
  "disk_used_pct pct out =
     (case out of
        None \<Rightarrow> None
      | Some (ok, bs) \<Rightarrow>
          if \<not> ok then None
          else (case parse_df (rust_lines (from_utf8_lossy bs)) of
                  None \<Rightarrow> None
                | Some (_, used, avail) \<Rightarrow> used_pct pct used avail))"

text \<open>Columns of printable characters, separated by blanks.\<close>

abbreviation SPACE :: char where "SPACE \<equiv> CHR '' ''"

definition columns :: "(nat \<times> string) list \<Rightarrow> string" where
  "columns fs = concat (map (\<lambda>(n, f). f @ replicate (Suc n) SPACE) fs)"

definition column_ok :: "string \<Rightarrow> bool" where
  "column_ok f \<longleftrightarrow> f \<noteq> [] \<and> list_all is_ascii_graphic f"

lemma split_ws_graphic: "list_all is_ascii_graphic f \<Longrightarrow> split_ws word (f @ s) = split_ws (rev f @ word) s"
proof (induction f arbitrary: word)
  case (Cons c f)
  have "strip_any ws_seqs (c # f @ s) = None"
  proof (rule strip_any_None)
    fix w assume w: "w \<in> set ws_seqs"
    then have "w \<noteq> []" using ws_seqs_nonempty(1) by metis
    then show "w \<noteq> [] \<and> hd w \<noteq> c" using hd_ws_seqs [OF w] Cons.prems by (auto simp: is_ascii_graphic_def)
  qed
  then have "split_ws word ((c # f) @ s) = split_ws (c # word) (f @ s)" by (subst split_ws.simps) simp
  then show ?case using Cons by simp
qed simp

lemma strip_any_one:
  "(\<And>w. w \<in> set ws \<Longrightarrow> w \<noteq> [] \<and> (hd w = c \<longrightarrow> w = [c])) \<Longrightarrow> [c] \<in> set ws \<Longrightarrow> strip_any ws (c # s) = Some s"
proof (induction ws)
  case (Cons w ws)
  show ?case
  proof (cases "w = [c]")
    case False
    then obtain d ds where "w = d # ds" "d \<noteq> c" using Cons.prems(1) [of w] by (cases w) auto
    then show ?thesis using Cons False by simp
  qed simp
qed simp

lemma strip_space: "strip_any ws_seqs (SPACE # s) = Some s"
proof (rule strip_any_one)
  have sp: "char_of (32 :: nat) = SPACE" by (simp add: char_of_eq_iff)
  then show "[SPACE] \<in> set ws_seqs" by (force simp: ws_seqs_def)
  fix w assume w: "w \<in> set ws_seqs"
  then have "w \<noteq> []" using ws_seqs_nonempty(1) by metis
  moreover have "code (hd w) = 32 \<Longrightarrow> w = [SPACE]" using w sp by (auto simp: ws_seqs_def code_def)
  ultimately show "w \<noteq> [] \<and> (hd w = SPACE \<longrightarrow> w = [SPACE])" by (auto simp: code_def)
qed

lemma split_ws_blanks: "split_ws [] (replicate n SPACE @ s) = split_ws [] s"
  by (induction n) (simp_all add: split_ws.simps [of _ "SPACE # _"] strip_space)

lemma split_whitespace_columns:
  "list_all (\<lambda>(_, f). column_ok f) fs \<Longrightarrow> split_whitespace (columns fs) = map snd fs"
proof (induction fs)
  case Nil
  have "strip_any ws_seqs [] = None" by (simp add: ws_seqs_def upt_rec)
  then show ?case by (simp add: split_whitespace_def columns_def split_ws.simps)
next
  case (Cons nf fs)
  obtain n f where nf: "nf = (n, f)" by (cases nf)
  have ok: "f \<noteq> []" "list_all is_ascii_graphic f" using Cons.prems nf by (simp_all add: column_ok_def)
  have "split_whitespace (columns (nf # fs)) = split_ws (rev f) (SPACE # replicate n SPACE @ columns fs)"
    by (simp add: split_whitespace_def columns_def nf split_ws_graphic [OF ok(2)])
  also have "\<dots> = f # split_ws [] (replicate n SPACE @ columns fs)"
    using ok(1) by (subst split_ws.simps) (simp add: strip_space)
  finally show ?case using Cons nf by (simp add: split_ws_blanks split_whitespace_def)
qed

lemma digits_graphic: "list_all is_ascii_graphic (show_nat n)"
  by (auto simp: list_all_iff is_ascii_graphic_def is_ascii_digit_def dest!: show_nat_digits)

lemma column_show_nat [simp]: "column_ok (show_nat n)"
  by (simp add: column_ok_def digits_graphic)

text \<open>
  The usage read from \<open>df -kP\<close> is the usage it prints: past a header, whatever the widths of the columns,
  the sizes are those of the first data line, in bytes; a filesystem whose sizes in bytes are below 2^64.
\<close>

theorem parse_df_reads_df:
  assumes "list_all (\<lambda>(_, f). column_ok f) header" "\<not> list_all is_ascii_digit (map snd header ! 1)"
    and "column_ok fs" "column_ok cap" "column_ok mount" "list_all (\<lambda>(_, f). column_ok f) further"
    and "tot * 1024 < U64_LIMIT" "used * 1024 < U64_LIMIT" "avail * 1024 < U64_LIMIT"
  shows "parse_df (columns header
      # columns ([(i, fs), (j, show_nat tot), (k, show_nat used), (l, show_nat avail), (m, cap), (n, mount)] @ further) # rest)
    = Some (tot * 1024, used * 1024, avail * 1024)"
proof -
  have "list_all is_ascii_digit (show_nat tot)" using show_nat_digits by (auto simp: list_all_iff)
  moreover have "rust_parse_u64 (show_nat x) = Some x" if "x * 1024 < U64_LIMIT" for x
    using that by (intro rust_parse_u64_show_nat) linarith
  moreover have "split_whitespace (columns header) = map snd header" by (rule split_whitespace_columns [OF assms(1)])
  moreover have "split_whitespace (columns ([(i, fs), (j, show_nat tot), (k, show_nat used), (l, show_nat avail), (m, cap), (n, mount)] @ further))
      = [fs, show_nat tot, show_nat used, show_nat avail, cap, mount] @ map snd further"
    using assms(3-6) by (subst split_whitespace_columns) (simp_all add: list_all_append)
  ultimately show ?thesis using assms(2,7-9) by (simp add: Let_def wrap_kib_def)
qed

theorem parse_df_reads_df_witness:
  "parse_df [columns [(4, ''Filesystem''), (2, ''1024-blocks''), (1, ''Used''), (0, ''Available''), (0, ''Capacity''), (0, ''Mounted''), (0, ''on'')],
     columns ([(3, ''/dev/vdb''), (1, show_nat 2000), (1, show_nat 900), (0, show_nat 1100), (1, ''45%''), (0, ''/data'')] @ [])]
   = Some (2000 * 1024, 900 * 1024, 1100 * 1024)"
  by (rule parse_df_reads_df) (simp_all add: column_ok_def is_ascii_graphic_def is_ascii_digit_def code_def)

section \<open>Emergency offloading\<close>

datatype pressure_note = Engaged | Exhausted nat

text \<open>
  \<open>pressure_pass\<close>: the usage before, the single-flight flag, what the drain loop archived, and the usage after.
\<close>

definition pressure_pass ::
  "pressure_config \<Rightarrow> f64 option \<Rightarrow> bool \<Rightarrow> nat \<Rightarrow> f64 option \<Rightarrow> nat \<times> pressure_note list" where
  "pressure_pass p usage running archived usage_after =
     (case usage of
        None \<Rightarrow> (0, [])
      | Some u \<Rightarrow>
          if f64_less u (high_pct p) then (0, [])
          else if running then (0, [])
          else (archived,
                Engaged # (case usage_after of
                             None \<Rightarrow> []
                           | Some cur \<Rightarrow> if f64_leq (low_pct p) cur then [Exhausted archived] else [])))"

text \<open>
  A pass that gave up says that it ran out of candidates. After the drain loop aborted on the schema of
  \<open>failing_image_starves_drain\<close>, with the other schema of the host untried, the pass journals that every
  candidate is exhausted.
\<close>

lemma aborted_pass_claims_exhaustion:
  assumes "f64_leq (low_pct p) u" "\<not> f64_less u (high_pct p)"
  shows "\<exists>d. (drain_once demo_config (demo_answers\<lparr>image_len := None\<rparr>) (\<lambda>_. None) (\<lambda>_. False) (pressure_policy image_tier) 0 100 ^^ 4)
       (drain_idle 0 False, two_rows_world, []) = (d, two_rows_world, [])
     \<and> store_record (reg two_rows_world) ''shop'' \<noteq> None
     \<and> pressure_pass p (Some u) False (dr_archived d) (Some u) = (0, [Engaged, Exhausted 0])"
  using assms image_drain_stalls [OF two_rows_simps two_rows_pick]
  by (intro exI [of _ "drain_idle 3 True"]) (simp add: pressure_pass_def two_rows_world_def store_record_def)

section \<open>Growing a data device\<close>

definition GIB :: u64 where "GIB = 1024 * 1024 * 1024"

definition div_ceil :: "nat \<Rightarrow> nat \<Rightarrow> nat" where
  "div_ceil a b = (if a mod b = 0 then a div b else a div b + 1)"

text \<open>
  \<open>sample_disk\<close>: None when the queries do not end in time; otherwise the text of the sector count, and the
  lines of \<open>df\<close>, each None when its query fails.
\<close>

definition sample_disk :: "(string option \<times> string list option) option \<Rightarrow> ((u64 \<times> u64 \<times> u64) \<times> u64) option" where
  "sample_disk ans =
     (case ans of
        Some (Some sectors, df) \<Rightarrow>
          (case rust_parse_u64 (rust_trim sectors) of
             None \<Rightarrow> None
           | Some n \<Rightarrow>
               if U64_LIMIT \<le> n * 512 then None
               else (case df of
                       None \<Rightarrow> None
                     | Some lines \<Rightarrow> map_option (\<lambda>fs. (fs, n * 512)) (parse_df lines)))
      | _ \<Rightarrow> None)"

definition grow_target_gb :: "(u64 \<Rightarrow> u64 \<Rightarrow> f64) \<Rightarrow> u64 \<times> u64 \<times> u64 \<Rightarrow> u64 \<Rightarrow> disk_grow_config \<Rightarrow> u64 option" where
  "grow_target_gb pct fs device_bytes g =
     (case fs of (tot, used, avail) \<Rightarrow>
        (case used_pct pct used avail of
           None \<Rightarrow> None
         | Some p \<Rightarrow>
             if f64_less p (grow_pct g) then None
             else if tot < min (device_bytes * 9) (U64_LIMIT - 1) div 10 then None
             else (let current_gb = max (div_ceil device_bytes GIB) 1
                   in if grow_max_gb g \<le> current_gb then None
                      else Some (min (current_gb * 2) (grow_max_gb g)))))"

text \<open>The VMs an idle pass stopped that are to be grown, in the order they were stopped.\<close>

definition grow_queue ::
  "(u64 \<Rightarrow> u64 \<Rightarrow> f64) \<Rightarrow> disk_grow_config option \<Rightarrow> (string \<Rightarrow> (string option \<times> string list option) option) \<Rightarrow>
     (string \<times> string) list \<Rightarrow> (string \<times> string \<times> u64) list" where
  "grow_queue pct cfg sample victims =
     (case cfg of
        None \<Rightarrow> []
      | Some g \<Rightarrow>
          List.map_filter (\<lambda>(schema, sid).
            case sample_disk (sample sid) of
              None \<Rightarrow> None
            | Some (fs, dev) \<Rightarrow> map_option (\<lambda>target. (schema, sid, target)) (grow_target_gb pct fs dev g)) victims)"

datatype resize_error = Outside_Daemon_Limit | Resize_Unsent | Resize_Refused nat

text \<open>\<open>resize_disk_at\<close>: the daemon's status, or None when the request fails.\<close>

definition resize_disk_at :: "nat option \<Rightarrow> u64 \<Rightarrow> resize_error + unit" where
  "resize_disk_at status target_gb =
     (if \<not> (1 \<le> target_gb \<and> target_gb \<le> 250) then Inl Outside_Daemon_Limit
      else (case status of
              None \<Rightarrow> Inl Resize_Unsent
            | Some c \<Rightarrow> if is_success c then Inr () else Inl (Resize_Refused c)))"

lemma div_ceil_mult: "0 < b \<Longrightarrow> div_ceil (t * b) b = t"
  by (simp add: div_ceil_def)

lemma grow_target_Some:
  assumes "grow_target_gb pct (tot, used, avail) dev g = Some t"
  shows "max (div_ceil dev GIB) 1 < grow_max_gb g \<and> t = min (max (div_ceil dev GIB) 1 * 2) (grow_max_gb g)
     \<and> (\<exists>p. used_pct pct used avail = Some p \<and> \<not> f64_less p (grow_pct g)) \<and> min (dev * 9) (U64_LIMIT - 1) div 10 \<le> tot"
  using assms by (auto simp: grow_target_gb_def Let_def split: option.splits if_splits)

text \<open>A device that is grown again and again: each target is computed on a device of the size before.\<close>

fun growths :: "(u64 \<Rightarrow> u64 \<Rightarrow> f64) \<Rightarrow> disk_grow_config \<Rightarrow> u64 \<Rightarrow> u64 list \<Rightarrow> bool" where
  "growths pct g dev [] = True"
| "growths pct g dev (t # ts) \<longleftrightarrow> (\<exists>fs. grow_target_gb pct fs dev g = Some t) \<and> growths pct g (t * GIB) ts"

lemma growths_bound:
  assumes "growths pct g dev ts" "ts \<noteq> []"
  shows "max (div_ceil dev GIB) 1 * 2 ^ (length ts - 1) < grow_max_gb g"
  using assms
proof (induction ts arbitrary: dev)
  case (Cons t ts)
  then obtain tot used avail where t: "grow_target_gb pct (tot, used, avail) dev g = Some t" by (auto simp: prod_eq_iff)
  note s = grow_target_Some [OF t]
  show ?case
  proof (cases "ts = []")
    case False
    have t1: "max (div_ceil (t * GIB) GIB) 1 = t" using s by (simp add: div_ceil_mult GIB_def)
    have "max (div_ceil (t * GIB) GIB) 1 * 2 ^ (length ts - 1) < grow_max_gb g" using Cons.IH [of "t * GIB"] Cons.prems False by simp
    then have lt: "t * 2 ^ (length ts - 1) < grow_max_gb g" by (simp only: t1)
    have "t \<le> t * 2 ^ (length ts - 1)" by simp
    then have "t < grow_max_gb g" using lt by linarith
    then have "t = max (div_ceil dev GIB) 1 * 2" using s by linarith
    then show ?thesis using lt False by (cases ts) (simp_all add: mult.assoc)
  qed (use s in simp)
qed simp

text \<open>
  Devices grow by doubling, within the daemon's limit, and not for ever. With the ceiling the configuration
  admits (1 to 250 GiB), every target an idle pass queues is larger than the device, at most twice its
  size in whole GiB and at most the ceiling, so the range check of the resize request never refuses it; it
  is queued only when the filesystem is over the threshold and spans nine tenths of the device; and one
  device is grown at most eight times.
\<close>

theorem growth_is_bounded:
  assumes "1 \<le> grow_max_gb g" "grow_max_gb g \<le> 250"
  shows "(grow_target_gb pct (tot, used, avail) dev g = Some t \<longrightarrow>
            dev < t * GIB \<and> t \<le> 2 * max (div_ceil dev GIB) 1 \<and> t \<le> grow_max_gb g
            \<and> resize_disk_at status t \<noteq> Inl Outside_Daemon_Limit
            \<and> (\<exists>p. used_pct pct used avail = Some p \<and> \<not> f64_less p (grow_pct g))
            \<and> min (dev * 9) (U64_LIMIT - 1) div 10 \<le> tot)
     \<and> (growths pct g dev ts \<longrightarrow> length ts \<le> 8)"
proof (intro conjI impI)
  assume t: "grow_target_gb pct (tot, used, avail) dev g = Some t"
  note s = grow_target_Some [OF t]
  have "dev \<le> div_ceil dev GIB * GIB"
  proof (cases "dev mod GIB = 0")
    case False
    have "dev mod GIB < GIB" by (simp add: GIB_def)
    then have "dev \<le> dev div GIB * GIB + GIB" using div_mult_mod_eq [of dev GIB] by linarith
    then show ?thesis using False by (simp add: div_ceil_def)
  next
    case True
    then show ?thesis using div_mult_mod_eq [of dev GIB] by (simp add: div_ceil_def)
  qed
  moreover have "div_ceil dev GIB < t" using s by linarith
  then have "div_ceil dev GIB * GIB < t * GIB" by (simp add: GIB_def)
  ultimately show "dev < t * GIB" by linarith
  show "t \<le> 2 * max (div_ceil dev GIB) 1" "t \<le> grow_max_gb g" using s by linarith+
  have "1 \<le> t" "t \<le> 250" using s assms by linarith+
  then show "resize_disk_at status t \<noteq> Inl Outside_Daemon_Limit" by (simp add: resize_disk_at_def split: option.splits)
  show "\<exists>p. used_pct pct used avail = Some p \<and> \<not> f64_less p (grow_pct g)" "min (dev * 9) (U64_LIMIT - 1) div 10 \<le> tot"
    using s by blast+
next
  assume "growths pct g dev ts"
  show "length ts \<le> 8"
  proof (rule ccontr)
    assume "\<not> length ts \<le> 8"
    then have "ts \<noteq> []" "8 \<le> length ts - 1" by auto
    have "(2 :: nat) ^ 8 \<le> 2 ^ (length ts - 1)" using \<open>8 \<le> length ts - 1\<close> by (intro power_increasing) auto
    moreover have "1 * 2 ^ (length ts - 1) \<le> max (div_ceil dev GIB) 1 * 2 ^ (length ts - 1)" by (intro mult_right_mono) simp_all
    moreover note growths_bound [OF \<open>growths pct g dev ts\<close> \<open>ts \<noteq> []\<close>]
    ultimately have "2 ^ 8 < grow_max_gb g" by linarith
    then show False using assms(2) by simp
  qed
qed

definition whole_pct :: "u64 \<Rightarrow> u64 \<Rightarrow> f64" where
  "whole_pct used denom = f64_of (int (used * 100 div denom))"

definition grow_example :: disk_grow_config where
  "grow_example = \<lparr>grow_pct = f64_of 85, grow_max_gb = 64\<rparr>"

lemma grow_example_target: "grow_target_gb whole_pct (2 * GIB, 9 * 1024, 1024) (2 * GIB) grow_example = Some 4"
  by (simp add: grow_target_gb_def used_pct_def whole_pct_def grow_example_def div_ceil_def GIB_def Let_def)

theorem growth_is_bounded_witness:
  "2 * GIB < 4 * GIB \<and> resize_disk_at (Some 200) 4 = Inr ()
   \<and> (\<exists>p. used_pct whole_pct (9 * 1024) 1024 = Some p \<and> \<not> f64_less p (grow_pct grow_example))"
proof -
  have "1 \<le> grow_max_gb grow_example" "grow_max_gb grow_example \<le> 250" by (simp_all add: grow_example_def)
  from growth_is_bounded [OF this, of whole_pct "2 * GIB" "9 * 1024" 1024 "2 * GIB" 4 "Some 200" "[]"] grow_example_target
  show ?thesis by (simp add: resize_disk_at_def is_success_def)
qed

section \<open>The loop around every pass\<close>

text \<open>
  One turn of \<open>supervise_with_wake\<close>, in nanoseconds: \<open>woken\<close> is when, after the wait began, a wake-up is there
  (0 for one stored during the last pass), \<open>takes\<close> how long the pass ran, and how it ended.
\<close>

datatype pass_end = Pass_Ok nat | Pass_Panicked | Pass_Cancelled

record turn =
  woken :: "nat option"
  takes :: nat
  ended :: pass_end

record supervisor =
  sv_now :: nat
  sv_passes :: nat
  sv_actions :: nat
  sv_last_end :: "nat option"

definition supervise_turn :: "nat \<Rightarrow> nat \<Rightarrow> nat \<Rightarrow> turn \<Rightarrow> supervisor \<Rightarrow> (nat \<times> nat) \<times> supervisor" where
  "supervise_turn first_delay tick wake_floor t s =
     (let delay = (if sv_passes s = 0 then first_delay else tick);
          waited = sv_now s + (case woken t of None \<Rightarrow> delay | Some n \<Rightarrow> min n delay);
          start = (case sv_last_end s of
                     None \<Rightarrow> waited
                   | Some e \<Rightarrow> if waited - e < wake_floor then waited + (wake_floor - (waited - e)) else waited);
          finish = start + takes t
      in ((start, finish),
          \<lparr>sv_now = finish, sv_passes = (sv_passes s + 1) mod U64_LIMIT,
           sv_actions = (case ended t of Pass_Ok n \<Rightarrow> (sv_actions s + n) mod U64_LIMIT | _ \<Rightarrow> sv_actions s),
           sv_last_end = Some finish\<rparr>))"

fun supervise_run :: "nat \<Rightarrow> nat \<Rightarrow> nat \<Rightarrow> turn list \<Rightarrow> supervisor \<Rightarrow> (nat \<times> nat) list" where
  "supervise_run first_delay tick wake_floor [] s = []"
| "supervise_run first_delay tick wake_floor (t # ts) s =
     (case supervise_turn first_delay tick wake_floor t s of
        (interval, s') \<Rightarrow> interval # supervise_run first_delay tick wake_floor ts s')"

definition supervisor_start :: "nat \<Rightarrow> supervisor" where
  "supervisor_start now = \<lparr>sv_now = now, sv_passes = 0, sv_actions = 0, sv_last_end = None\<rparr>"

text \<open>Two consecutive passes: the second starts after the first ended and the floor has passed, and not too late.\<close>

definition spaced :: "nat \<Rightarrow> nat \<Rightarrow> nat \<times> nat \<Rightarrow> nat \<times> nat \<Rightarrow> bool" where
  "spaced wake_floor latest p q \<longleftrightarrow> snd p + wake_floor \<le> fst q \<and> fst q \<le> snd p + max latest wake_floor"

lemma supervise_run_spaced:
  assumes "sv_last_end s = Some (sv_now s)"
  shows "length (supervise_run fd tick fl ts s) = length ts
     \<and> (\<forall>q ps. supervise_run fd tick fl ts s = q # ps \<longrightarrow> sv_now s + fl \<le> fst q \<and> fst q \<le> sv_now s + max (max fd tick) fl)
     \<and> successively (spaced fl (max fd tick)) (supervise_run fd tick fl ts s)
     \<and> list_all (\<lambda>(a, b). a \<le> b) (supervise_run fd tick fl ts s)"
  using assms
proof (induction ts arbitrary: s)
  case (Cons t ts)
  obtain start finish s' where t: "supervise_turn fd tick fl t s = ((start, finish), s')" by (metis prod.exhaust)
  have n: "sv_last_end s' = Some (sv_now s')" "sv_now s' = finish" using t by (auto simp: supervise_turn_def Let_def)
  have b: "sv_now s + fl \<le> start" "start \<le> sv_now s + max (max fd tick) fl" "start \<le> finish"
    using t Cons.prems by (auto simp: supervise_turn_def Let_def split: option.splits if_splits)
  note ih = Cons.IH [OF n(1), unfolded n(2)]
  have run: "supervise_run fd tick fl (t # ts) s = (start, finish) # supervise_run fd tick fl ts s'" by (simp add: t)
  show ?case
    unfolding run using ih b
    by (cases "supervise_run fd tick fl ts s'") (auto simp: spaced_def)
qed simp

text \<open>
  The supervisor keeps every loop alive and apart. Whatever wakes it and however its passes end, a panic
  included, one pass runs per turn; passes never overlap, a pass starts no sooner than the floor after the
  one before it ended, even when woken, and no later than the tick (or the first delay, or the floor) after.
\<close>

theorem supervisor_keeps_running:
  "length (supervise_run fd tick fl ts (supervisor_start now)) = length ts
   \<and> successively (spaced fl (max fd tick)) (supervise_run fd tick fl ts (supervisor_start now))
   \<and> list_all (\<lambda>(a, b). a \<le> b) (supervise_run fd tick fl ts (supervisor_start now))"
proof (cases ts)
  case (Cons t us)
  obtain start finish s' where t: "supervise_turn fd tick fl t (supervisor_start now) = ((start, finish), s')" by (metis prod.exhaust)
  have n: "sv_last_end s' = Some (sv_now s')" "sv_now s' = finish" "start \<le> finish"
    using t by (auto simp: supervise_turn_def Let_def)
  have run: "supervise_run fd tick fl ts (supervisor_start now) = (start, finish) # supervise_run fd tick fl us s'"
    by (simp add: Cons t)
  show ?thesis
    unfolding run using supervise_run_spaced [OF n(1), of fd tick fl us] n(2,3) Cons
    by (cases "supervise_run fd tick fl us s'") (auto simp: spaced_def)
qed simp

text \<open>A host with one live schema, idle for 95 seconds, that is archived by a sweep with a threshold of 50.\<close>

theorem sweep_tries_exactly_witness:
  "\<exists>n s. sweep_archive False demo_config (\<lambda>_. demo_answers) (\<lambda>_ w. w) (\<lambda>_. False) (\<lambda>_. None) 0 100 50 (demo_world Live, []) = (False, n, s)
     \<and> map fst (sr_tried s) = [''shop'']"
proof -
  obtain aborted n s where r: "sweep_archive False demo_config (\<lambda>_. demo_answers) (\<lambda>_ w. w) (\<lambda>_. False) (\<lambda>_. None) 0 100 50 (demo_world Live, [])
      = (aborted, n, s)" by (metis prod.exhaust)
  have rows: "smap (reg (demo_world Live)) = [(''shop'', \<lparr>sandbox_id = ''sb-1'', last_active = 5, tier_of = Live\<rparr>)]"
    by (simp add: demo_world_def Let_def)
  from sweep_tries_exactly [OF r] obtain rest where t: "[''shop''] = map fst (sr_tried s) @ rest" "aborted \<or> rest = []"
    "\<not> aborted \<or> (\<exists>vs us. sr_tried s = vs @ us \<and> length us = 3)"
    by (auto simp: rows sweep_promotes_def sweep_dumped_def backoff_active_def)
  have "length (sr_tried s) \<le> 1" using arg_cong [OF t(1), of length] by simp
  then have "\<not> aborted" using t(3) by auto
  then show ?thesis using r t(1,2) by auto
qed

end
