(* ===== verification/Tls_Reload.thy ===== *)
theory Tls_Reload
  imports Interfaces
begin

text \<open>
  \<open>src/src/tls.rs\<close>: the acceptor for client TLS and its reload when the PEM files change. The PEM parsers
  and rustls's check of a certificate chain against a key are parameters, so an acceptor is whatever they
  build. Handshakes run on several threads and read the files one system call at a time, while the
  certificate tool replaces them.
\<close>

section \<open>Building an acceptor\<close>

record ('c, 'k, 'a) tls_lib =
  pem_certs :: "string \<Rightarrow> 'c list option"
  pem_key :: "string \<Rightarrow> 'k option"
  single_cert :: "'c list \<Rightarrow> 'k \<Rightarrow> 'a option"

datatype tls_error = No_Cert_File | Bad_Cert | Empty_Chain | Bad_Key | Key_Mismatch | No_Mtime

text \<open>The contents of the two files, None for one that cannot be read.\<close>

definition build_acceptor :: "('c, 'k, 'a) tls_lib \<Rightarrow> string option \<Rightarrow> string option \<Rightarrow> tls_error + 'a" where
  "build_acceptor lib cert key =
     (case cert of
        None \<Rightarrow> Inl No_Cert_File
      | Some cp \<Rightarrow>
          (case pem_certs lib cp of
             None \<Rightarrow> Inl Bad_Cert
           | Some certs \<Rightarrow>
               if certs = [] then Inl Empty_Chain
               else (case key of
                       None \<Rightarrow> Inl Bad_Key
                     | Some kp \<Rightarrow>
                         (case pem_key lib kp of
                            None \<Rightarrow> Inl Bad_Key
                          | Some k \<Rightarrow> (case single_cert lib certs k of None \<Rightarrow> Inl Key_Mismatch | Some a \<Rightarrow> Inr a)))))"

section \<open>The files and the handshakes\<close>

text \<open>A file is its modification time and contents. \<open>clock\<close> is the latest modification time given so far.\<close>

record pem_files =
  cert_file :: "(nat \<times> string) option"
  key_file :: "(nat \<times> string) option"
  clock :: nat

definition pem_contents :: "(nat \<times> string) option \<Rightarrow> string option" where
  "pem_contents f = map_option snd f"

text \<open>
  A handshake between two of its reads: it has the time of the certificate; both times; both times, and
  they differ from the cached ones; or also the contents of the certificate file.
\<close>

datatype handshake = Saw_Cert nat | Saw_Both nat nat | Saw_Change nat nat | Read_Cert nat nat "string option"

record 'a tls_state =
  files :: pem_files
  cached :: "(nat \<times> nat) \<times> 'a"
  running :: "handshake list"
  served :: "'a list"

text \<open>\<open>new\<close> builds, then asks for the times; another process may write in between.\<close>

definition reloader_new :: "('c, 'k, 'a) tls_lib \<Rightarrow> pem_files \<Rightarrow> pem_files \<Rightarrow> tls_error + 'a tls_state" where
  "reloader_new lib at_build at_stat =
     (case build_acceptor lib (pem_contents (cert_file at_build)) (pem_contents (key_file at_build)) of
        Inl e \<Rightarrow> Inl e
      | Inr a \<Rightarrow>
          (case (cert_file at_stat, key_file at_stat) of
             (Some (c, _), Some (k, _)) \<Rightarrow> Inr \<lparr>files = at_stat, cached = ((c, k), a), running = [], served = []\<rparr>
           | _ \<Rightarrow> Inl No_Mtime))"

text \<open>The steps of \<open>acceptor\<close>.\<close>

definition stat_cert :: "'a tls_state \<Rightarrow> 'a tls_state" where
  "stat_cert s =
     (case cert_file (files s) of
        None \<Rightarrow> s\<lparr>served := snd (cached s) # served s\<rparr>
      | Some (c, _) \<Rightarrow> s\<lparr>running := Saw_Cert c # running s\<rparr>)"

definition stat_key :: "nat \<Rightarrow> 'a tls_state \<Rightarrow> 'a tls_state" where
  "stat_key c s =
     (let s' = s\<lparr>running := remove1 (Saw_Cert c) (running s)\<rparr>
      in case key_file (files s) of
           None \<Rightarrow> s'\<lparr>served := snd (cached s) # served s\<rparr>
         | Some (k, _) \<Rightarrow> s'\<lparr>running := Saw_Both c k # running s'\<rparr>)"

definition compare_times :: "nat \<Rightarrow> nat \<Rightarrow> 'a tls_state \<Rightarrow> 'a tls_state" where
  "compare_times c k s =
     (let s' = s\<lparr>running := remove1 (Saw_Both c k) (running s)\<rparr>
      in if (c, k) = fst (cached s) then s'\<lparr>served := snd (cached s) # served s\<rparr>
         else s'\<lparr>running := Saw_Change c k # running s'\<rparr>)"

definition read_cert :: "nat \<Rightarrow> nat \<Rightarrow> 'a tls_state \<Rightarrow> 'a tls_state" where
  "read_cert c k s = s\<lparr>running := Read_Cert c k (pem_contents (cert_file (files s))) # remove1 (Saw_Change c k) (running s)\<rparr>"

definition reload :: "('c, 'k, 'a) tls_lib \<Rightarrow> nat \<Rightarrow> nat \<Rightarrow> string option \<Rightarrow> 'a tls_state \<Rightarrow> 'a tls_state" where
  "reload lib c k cert s =
     (let s' = s\<lparr>running := remove1 (Read_Cert c k cert) (running s)\<rparr>
      in case build_acceptor lib cert (pem_contents (key_file (files s))) of
           Inr a \<Rightarrow> s'\<lparr>cached := ((c, k), a), served := a # served s\<rparr>
         | Inl _ \<Rightarrow> s'\<lparr>cached := ((c, k), snd (cached s)), served := snd (cached s) # served s\<rparr>)"

text \<open>
  The certificate tool removes a file or puts a new version in place, whose modification time is later than
  any before it.
\<close>

inductive tls_step :: "('c, 'k, 'a) tls_lib \<Rightarrow> 'a tls_state \<Rightarrow> 'a tls_state \<Rightarrow> bool" for lib where
  put_cert: "clock (files s) < t \<Longrightarrow> tls_step lib s (s\<lparr>files := files s\<lparr>cert_file := Some (t, p), clock := t\<rparr>\<rparr>)"
| put_key: "clock (files s) < t \<Longrightarrow> tls_step lib s (s\<lparr>files := files s\<lparr>key_file := Some (t, p), clock := t\<rparr>\<rparr>)"
| drop_cert: "tls_step lib s (s\<lparr>files := files s\<lparr>cert_file := None\<rparr>\<rparr>)"
| drop_key: "tls_step lib s (s\<lparr>files := files s\<lparr>key_file := None\<rparr>\<rparr>)"
| begin_handshake: "tls_step lib s (stat_cert s)"
| second_stat: "Saw_Cert c \<in> set (running s) \<Longrightarrow> tls_step lib s (stat_key c s)"
| first_check: "Saw_Both c k \<in> set (running s) \<Longrightarrow> tls_step lib s (compare_times c k s)"
| read_chain: "Saw_Change c k \<in> set (running s) \<Longrightarrow> tls_step lib s (read_cert c k s)"
| rebuild: "Read_Cert c k cert \<in> set (running s) \<Longrightarrow> tls_step lib s (reload lib c k cert s)"

inductive_cases tls_stepE: "tls_step lib s s'"

definition files_ok :: "pem_files \<Rightarrow> bool" where
  "files_ok f \<longleftrightarrow> pred_option (\<lambda>(t, _). t \<le> clock f) (cert_file f) \<and> pred_option (\<lambda>(t, _). t \<le> clock f) (key_file f)"

definition tls_start :: "('c, 'k, 'a) tls_lib \<Rightarrow> 'a tls_state \<Rightarrow> bool" where
  "tls_start lib s \<longleftrightarrow> (\<exists>f. files_ok f \<and> reloader_new lib f f = Inr s)"

fun handshake_ok :: "pem_files \<Rightarrow> handshake \<Rightarrow> bool" where
  "handshake_ok f (Saw_Cert c) \<longleftrightarrow> c \<le> clock f"
| "handshake_ok f (Saw_Both c k) \<longleftrightarrow> c \<le> clock f \<and> k \<le> clock f"
| "handshake_ok f (Saw_Change c k) \<longleftrightarrow> c \<le> clock f \<and> k \<le> clock f"
| "handshake_ok f (Read_Cert c k cert) \<longleftrightarrow> c \<le> clock f \<and> k \<le> clock f
     \<and> (\<forall>p. cert_file f = Some (c, p) \<longrightarrow> cert = Some p)"

text \<open>A cached acceptor whose times are those of the files was built from them, if one can be.\<close>

definition cache_ok :: "('c, 'k, 'a) tls_lib \<Rightarrow> 'a tls_state \<Rightarrow> bool" where
  "cache_ok lib s \<longleftrightarrow> (case cached s of ((c, k), a) \<Rightarrow>
     c \<le> clock (files s) \<and> k \<le> clock (files s)
     \<and> (\<forall>p q b. cert_file (files s) = Some (c, p) \<and> key_file (files s) = Some (k, q)
           \<and> build_acceptor lib (Some p) (Some q) = Inr b \<longrightarrow> a = b))"

definition tls_inv :: "('c, 'k, 'a) tls_lib \<Rightarrow> 'a tls_state \<Rightarrow> bool" where
  "tls_inv lib s \<longleftrightarrow> files_ok (files s) \<and> cache_ok lib s \<and> list_all (handshake_ok (files s)) (running s)"

section \<open>Renewals take effect\<close>

lemma handshake_ok_files:
  assumes "handshake_ok f h" "clock f \<le> clock f'"
    and "\<And>t p. cert_file f' = Some (t, p) \<Longrightarrow> cert_file f = Some (t, p) \<or> clock f < t"
  shows "handshake_ok f' h"
  using assms by (cases h) fastforce+

lemma tls_inv_files:
  assumes "tls_inv lib s" "files_ok f'" "clock (files s) \<le> clock f'"
    and "\<And>t p. cert_file f' = Some (t, p) \<Longrightarrow> cert_file (files s) = Some (t, p) \<or> clock (files s) < t"
    and "\<And>t p. key_file f' = Some (t, p) \<Longrightarrow> key_file (files s) = Some (t, p) \<or> clock (files s) < t"
  shows "tls_inv lib (s\<lparr>files := f'\<rparr>)"
proof -
  obtain c k a where cd: "cached s = ((c, k), a)" by (metis prod.exhaust)
  have i: "files_ok (files s)" "cache_ok lib s" "list_all (handshake_ok (files s)) (running s)"
    using assms(1) by (simp_all add: tls_inv_def)
  have "list_all (handshake_ok f') (running s)"
    using i(3) handshake_ok_files [OF _ assms(3,4)] by (auto simp: list_all_iff)
  moreover have "cache_ok lib (s\<lparr>files := f'\<rparr>)"
    using i(2) assms(3) assms(4) [of c] assms(5) [of k] by (fastforce simp: cache_ok_def cd)
  ultimately show ?thesis using assms(2) by (simp add: tls_inv_def)
qed

lemma tls_inv_running:
  assumes "tls_inv lib s" "set hs \<subseteq> insert h (set (running s))" "handshake_ok (files s) h"
  shows "tls_inv lib (s\<lparr>running := hs, served := v\<rparr>)" "tls_inv lib (s\<lparr>running := hs\<rparr>)"
  using assms by (auto simp: tls_inv_def cache_ok_def list_all_iff)

lemma tls_inv_reload:
  assumes "tls_inv lib s" "Read_Cert c k cert \<in> set (running s)"
  shows "tls_inv lib (reload lib c k cert s)"
proof -
  have h: "c \<le> clock (files s)" "k \<le> clock (files s)" "\<And>p. cert_file (files s) = Some (c, p) \<Longrightarrow> cert = Some p"
    using assms by (auto simp: tls_inv_def list_all_iff dest!: bspec)
  have "cache_ok lib (reload lib c k cert s)"
    using h by (auto simp: reload_def cache_ok_def pem_contents_def Let_def split: sum.splits)
  moreover have "files (reload lib c k cert s) = files s" "set (running (reload lib c k cert s)) \<subseteq> set (running s)"
    using set_remove1_subset [of "Read_Cert c k cert" "running s"] by (auto simp: reload_def Let_def split: sum.splits)
  ultimately show ?thesis using assms(1) by (auto simp: tls_inv_def list_all_iff)
qed

lemma tls_inv_step: "tls_inv lib s \<Longrightarrow> tls_step lib s s' \<Longrightarrow> tls_inv lib s'"
proof (erule tls_stepE)
  assume i: "tls_inv lib s"
  then have fo: "files_ok (files s)" by (simp add: tls_inv_def)
  show "tls_inv lib s'" if "s' = s\<lparr>files := files s\<lparr>cert_file := Some (t, p), clock := t\<rparr>\<rparr>" "clock (files s) < t" for t p
    unfolding that(1) using fo that(2) by (intro tls_inv_files [OF i]) (auto simp: files_ok_def option.pred_set)
  show "tls_inv lib s'" if "s' = s\<lparr>files := files s\<lparr>key_file := Some (t, p), clock := t\<rparr>\<rparr>" "clock (files s) < t" for t p
    unfolding that(1) using fo that(2) by (intro tls_inv_files [OF i]) (auto simp: files_ok_def option.pred_set)
  show "tls_inv lib s'" if "s' = s\<lparr>files := files s\<lparr>cert_file := None\<rparr>\<rparr>"
    unfolding that using fo by (intro tls_inv_files [OF i]) (auto simp: files_ok_def)
  show "tls_inv lib s'" if "s' = s\<lparr>files := files s\<lparr>key_file := None\<rparr>\<rparr>"
    unfolding that using fo by (intro tls_inv_files [OF i]) (auto simp: files_ok_def)
  show "tls_inv lib s'" if "s' = stat_cert s"
    unfolding that using i fo by (auto simp: stat_cert_def files_ok_def tls_inv_def cache_ok_def split: option.splits)
  have rm: "tls_inv lib (s\<lparr>running := remove1 h (running s), served := v\<rparr>)" for h v
    by (rule tls_inv_running(1) [OF i, where h = "Saw_Cert 0"]) (use set_remove1_subset [of h "running s"] in auto)
  show "tls_inv lib s'" if "s' = stat_key c s" "Saw_Cert c \<in> set (running s)" for c
  proof (cases "key_file (files s)")
    case None
    then show ?thesis using rm by (simp add: that(1) stat_key_def Let_def)
  next
    case (Some kp)
    moreover have "c \<le> clock (files s)" using i that(2) by (auto simp: tls_inv_def list_all_iff dest!: bspec)
    ultimately show ?thesis
      using fo set_remove1_subset [of "Saw_Cert c" "running s"] tls_inv_running(2) [OF i, of "Saw_Both c (fst kp) # remove1 (Saw_Cert c) (running s)" "Saw_Both c (fst kp)"]
      by (cases kp) (auto simp: that(1) stat_key_def Let_def files_ok_def)
  qed
  show "tls_inv lib s'" if "s' = compare_times c k s" "Saw_Both c k \<in> set (running s)" for c k
  proof -
    have "c \<le> clock (files s)" "k \<le> clock (files s)" using i that(2) by (auto simp: tls_inv_def list_all_iff dest!: bspec)
    then show ?thesis
      using rm set_remove1_subset [of "Saw_Both c k" "running s"] tls_inv_running(2) [OF i, of "Saw_Change c k # remove1 (Saw_Both c k) (running s)" "Saw_Change c k"]
      by (auto simp: that(1) compare_times_def Let_def)
  qed
  show "tls_inv lib s'" if "s' = read_cert c k s" "Saw_Change c k \<in> set (running s)" for c k
  proof -
    have "handshake_ok (files s) (Read_Cert c k (pem_contents (cert_file (files s))))"
      using i that(2) by (auto simp: tls_inv_def list_all_iff pem_contents_def dest!: bspec)
    then show ?thesis
      unfolding that(1) read_cert_def using set_remove1_subset [of "Saw_Change c k" "running s"]
      by (intro tls_inv_running(2) [OF i]) auto
  qed
  show "tls_inv lib s'" if "s' = reload lib c k cert s" "Read_Cert c k cert \<in> set (running s)" for c k cert
    unfolding that(1) by (rule tls_inv_reload [OF i that(2)])
qed

lemma reloader_new_Inr:
  assumes "reloader_new lib f g = Inr s"
  obtains c p k q a where "cert_file g = Some (c, p)" "key_file g = Some (k, q)"
    "build_acceptor lib (pem_contents (cert_file f)) (pem_contents (key_file f)) = Inr a"
    "s = \<lparr>files = g, cached = ((c, k), a), running = [], served = []\<rparr>"
  using assms
  by (cases "build_acceptor lib (pem_contents (cert_file f)) (pem_contents (key_file f))"; cases "cert_file g"; cases "key_file g")
    (auto simp: reloader_new_def)

lemma tls_inv_start: "tls_start lib s \<Longrightarrow> tls_inv lib s"
  by (auto simp: tls_start_def tls_inv_def cache_ok_def files_ok_def pem_contents_def elim!: reloader_new_Inr)

interpretation tls_life: inductive_invariant "tls_start lib" "tls_step lib" "tls_inv lib" for lib
  by unfold_locales (auto intro: tls_inv_start tls_inv_step)

text \<open>\<open>acceptor\<close> as one handshake runs it with nothing in between.\<close>

definition acceptor :: "('c, 'k, 'a) tls_lib \<Rightarrow> 'a tls_state \<Rightarrow> 'a \<times> 'a tls_state" where
  "acceptor lib s =
     (case (cert_file (files s), key_file (files s)) of
        (Some (c, p), Some (k, q)) \<Rightarrow>
          if (c, k) = fst (cached s) then (snd (cached s), s)
          else (case build_acceptor lib (Some p) (Some q) of
                  Inr a \<Rightarrow> (a, s\<lparr>cached := ((c, k), a)\<rparr>)
                | Inl _ \<Rightarrow> (snd (cached s), s\<lparr>cached := ((c, k), snd (cached s))\<rparr>))
      | _ \<Rightarrow> (snd (cached s), s))"

text \<open>It is a run of the steps: the handshake that begins in \<open>s\<close> and is not interrupted.\<close>

lemma acceptor_runs:
  assumes "acceptor lib s = (a, s')"
  shows "(tls_step lib)\<^sup>*\<^sup>* s (s'\<lparr>served := a # served s\<rparr>)"
proof (cases "cert_file (files s)"; cases "key_file (files s)")
  fix cp kq assume f: "cert_file (files s) = Some cp" "key_file (files s) = Some kq"
  obtain c p k q where ck: "cp = (c, p)" "kq = (k, q)" by (metis prod.exhaust)
  let ?s1 = "s\<lparr>running := Saw_Cert c # running s\<rparr>"
  let ?s2 = "s\<lparr>running := Saw_Both c k # running s\<rparr>"
  have s1: "tls_step lib s ?s1" using begin_handshake [of lib s] f ck by (simp add: stat_cert_def)
  have s2: "tls_step lib ?s1 ?s2" using second_stat [of c ?s1 lib] f ck by (simp add: stat_key_def Let_def)
  have s3: "tls_step lib ?s2 (compare_times c k ?s2)" by (rule first_check) simp
  show ?thesis
  proof (cases "(c, k) = fst (cached s)")
    case True
    then have "compare_times c k ?s2 = s'\<lparr>served := a # served s\<rparr>"
      using assms f ck by (auto simp: compare_times_def acceptor_def)
    then show ?thesis using s1 s2 s3 by (metis converse_rtranclp_into_rtranclp rtranclp.rtrancl_refl)
  next
    case False
    let ?s3 = "s\<lparr>running := Saw_Change c k # running s\<rparr>"
    let ?s4 = "s\<lparr>running := Read_Cert c k (Some p) # running s\<rparr>"
    have e3: "compare_times c k ?s2 = ?s3" using False by (simp add: compare_times_def)
    have s4: "tls_step lib ?s3 ?s4" using read_chain [of c k ?s3 lib] f ck by (simp add: read_cert_def pem_contents_def)
    have s5: "tls_step lib ?s4 (reload lib c k (Some p) ?s4)" by (rule rebuild) simp
    have "reload lib c k (Some p) ?s4 = s'\<lparr>served := a # served s\<rparr>"
      using assms f ck False by (auto simp: reload_def acceptor_def pem_contents_def Let_def split: sum.splits)
    then show ?thesis using s1 s2 s3 s4 s5 e3 by (metis converse_rtranclp_into_rtranclp rtranclp.rtrancl_refl)
  qed
next
  fix cp assume f: "cert_file (files s) = Some cp" "key_file (files s) = None"
  obtain c p where c: "cp = (c, p)" by (cases cp)
  have "tls_step lib s (s\<lparr>running := Saw_Cert c # running s\<rparr>)" using begin_handshake [of lib s] f c by (simp add: stat_cert_def)
  moreover have "tls_step lib (s\<lparr>running := Saw_Cert c # running s\<rparr>) (s'\<lparr>served := a # served s\<rparr>)"
    using second_stat [of c "s\<lparr>running := Saw_Cert c # running s\<rparr>" lib] assms f c
    by (auto simp: stat_key_def acceptor_def Let_def)
  ultimately show ?thesis by (metis converse_rtranclp_into_rtranclp rtranclp.rtrancl_refl)
qed (use assms begin_handshake [of lib s] in \<open>auto simp: acceptor_def stat_cert_def\<close>)

text \<open>
  C31: A renewed certificate takes effect on the next handshake, and a broken one never interrupts service.
  Let each file be replaced at once by one with a later modification time, and let the first acceptor have
  been built from the files whose times were recorded. However replacements and handshakes interleave, once
  both files are in place a handshake that starts and is not interrupted uses an acceptor built from
  exactly these files if they make one, and the acceptor in use before otherwise.
\<close>

theorem renewal_takes_effect:
  assumes "run_of (tls_start lib) (tls_step lib) s"
    and "cert_file (files s) = Some (c, p)" "key_file (files s) = Some (k, q)"
  shows "case build_acceptor lib (Some p) (Some q) of
      Inr a \<Rightarrow> fst (acceptor lib s) = a \<and> snd (cached (snd (acceptor lib s))) = a
    | Inl _ \<Rightarrow> fst (acceptor lib s) = snd (cached s)"
  using tls_life.reachable_inv [OF assms(1)] assms(2,3)
  by (auto simp: tls_inv_def cache_ok_def acceptor_def split: sum.splits prod.splits)

definition echo_lib :: "(string, string, string) tls_lib" where
  "echo_lib = \<lparr>pem_certs = (\<lambda>s. Some [s]), pem_key = Some, single_cert = (\<lambda>cs k. if cs = [k] then Some k else None)\<rparr>"

definition first_files :: pem_files where
  "first_files = \<lparr>cert_file = Some (1, ''old''), key_file = Some (2, ''old''), clock = 2\<rparr>"

definition first_state :: "string tls_state" where
  "first_state = \<lparr>files = first_files, cached = ((1, 2), ''old''), running = [], served = []\<rparr>"

definition renewed_files :: pem_files where
  "renewed_files = \<lparr>cert_file = Some (3, ''new''), key_file = Some (4, ''new''), clock = 4\<rparr>"

lemma renewed_run: "run_of (tls_start echo_lib) (tls_step echo_lib) (first_state\<lparr>files := renewed_files\<rparr>)"
proof -
  let ?m = "first_state\<lparr>files := \<lparr>cert_file = Some (3, ''new''), key_file = Some (2, ''old''), clock = 3\<rparr>\<rparr>"
  have "tls_start echo_lib first_state"
    by (auto simp: tls_start_def files_ok_def reloader_new_def build_acceptor_def pem_contents_def echo_lib_def first_state_def first_files_def
        intro!: exI [of _ first_files])
  then have "run_of (tls_start echo_lib) (tls_step echo_lib) first_state" by (rule run_init)
  then have "run_of (tls_start echo_lib) (tls_step echo_lib) ?m"
    by (rule run_next) (rule put_cert [of _ 3 echo_lib "''new''"], simp_all add: first_state_def first_files_def)
  then show ?thesis
    by (rule run_next) (rule put_key [of _ 4 echo_lib "''new''"], simp_all add: first_state_def renewed_files_def)
qed

theorem renewal_takes_effect_witness: "fst (acceptor echo_lib (first_state\<lparr>files := renewed_files\<rparr>)) = ''new''"
  using renewal_takes_effect [OF renewed_run, of 3 "''new''" 4 "''new''"]
  by (simp add: renewed_files_def build_acceptor_def echo_lib_def)

text \<open>
  The first acceptor is the exception. \<open>new\<close> builds before it asks for the times: when a renewal lands in
  between, the old acceptor is recorded under the new times and every handshake uses it until the files
  change again.
\<close>

lemma startup_race_serves_stale:
  "\<exists>s. reloader_new echo_lib first_files renewed_files = Inr s \<and> acceptor echo_lib s = (''old'', s)
     \<and> build_acceptor echo_lib (pem_contents (cert_file (files s))) (pem_contents (key_file (files s))) = Inr ''new''"
  by (simp add: reloader_new_def build_acceptor_def pem_contents_def echo_lib_def first_files_def renewed_files_def acceptor_def)

end
