(* ===== verification/Guest_Jobs.thy ===== *)
theory Guest_Jobs
  imports Quoting Session Bringup
begin

text \<open>
  The jobs \<open>src/src/vm.rs\<close> runs inside a guest: the scripts it builds (\<open>streaming_dump_job_body\<close>,
  \<open>archive_job_body\<close>, \<open>restore_job_body\<close>, \<open>gw_prelude\<close>), the command that plants and launches one, the probe of
  its sentinel, and the preflight of a restore. The scripts are the strings the code sends; beside them
  stands what a POSIX shell does with them, as functions of how the programs they call end.
\<close>

section \<open>The scripts\<close>

definition JOB_HEREDOC_EOF :: string where "JOB_HEREDOC_EOF = ''HEYO_JOB_EOF''"
definition DUMP_PATH :: string where "DUMP_PATH = ''/workspace/_archive.dump''"
definition RESTORE_PATH :: string where "RESTORE_PATH = ''/workspace/_restore.dump''"
definition STREAM_FAIL_MARK :: string where "STREAM_FAIL_MARK = ''/tmp/_dump_stream.failed''"

record detached_job =
  job_what :: string
  job_script :: string
  job_done :: string
  job_log :: string

definition ARCHIVE_JOB :: detached_job where
  "ARCHIVE_JOB = \<lparr>job_what = ''dump'', job_script = ''/workspace/_archive.job.sh'', job_done = ''/workspace/_archive.done'', job_log = ''/workspace/_archive.log''\<rparr>"

definition RESTORE_JOB :: detached_job where
  "RESTORE_JOB = \<lparr>job_what = ''restore'', job_script = ''/workspace/_restore.job.sh'', job_done = ''/workspace/_restore.done'', job_log = ''/workspace/_restore.log''\<rparr>"

text \<open>Every script is a list of lines, each ended by a newline.\<close>

definition unlines :: "string list \<Rightarrow> string" where
  "unlines ls = concat (map (\<lambda>l. l @ [NEWLINE]) ls)"

definition require_2xx :: "string \<Rightarrow> string list" where
  "require_2xx what =
    [TAB # ''case \"$code\" in'',
     TAB # ''2??) ;;'',
     TAB # ''*) echo \"'' @ what @ '' rejected by S3: HTTP $code\" >&2; if [ \"$ec\" = 0 ]; then ec=22; fi ;;'',
     TAB # ''esac'']"

definition sentinel_line :: "string \<Rightarrow> string" where
  "sentinel_line path = ''printf %s \"$ec\" > '' @ path @ ''.tmp && mv '' @ path @ ''.tmp '' @ path"

definition streaming_dump_job_body :: "string \<Rightarrow> string \<Rightarrow> string \<Rightarrow> string list" where
  "streaming_dump_job_body usr db url =
    [''ec=0'',
     ''rm -f '' @ STREAM_FAIL_MARK,
     ''code=$({ pg_dump -h 127.0.0.1 -U '' @ usr @ '' -Fc -d '' @ db @ '' || echo 1 > '' @ STREAM_FAIL_MARK
       @ ''; } | curl -sS -T - -o /dev/null -w '%{http_code}' \"'' @ url @ ''\") || ec=$?'',
     ''if [ -f '' @ STREAM_FAIL_MARK @ '' ]; then'',
     TAB # ''echo 'pg_dump failed before the stream ended' >&2'',
     TAB # ''ec=1'',
     ''fi'']
    @ require_2xx ''upload''
    @ [''if [ \"$ec\" = 0 ]; then'',
     TAB # ''code=$(curl -sS -X POST -o /dev/null -w '%{http_code}' \"'' @ url @ ''/commit\") || ec=$?'']
    @ require_2xx ''commit''
    @ [''else'',
     TAB # ''curl -sS -X POST -o /dev/null \"'' @ url @ ''/abort\" >/dev/null 2>&1 || true'',
     ''fi'',
     sentinel_line (job_done ARCHIVE_JOB)]"

definition archive_job_body :: "string \<Rightarrow> string \<Rightarrow> string \<Rightarrow> string \<Rightarrow> string list" where
  "archive_job_body usr db resolve url =
    [''ec=0'',
     ''if pg_dump -h 127.0.0.1 -U '' @ usr @ '' -Fc -d '' @ db @ '' -f '' @ DUMP_PATH @ ''; then'',
     TAB # ''sync '' @ DUMP_PATH @ '' 2>/dev/null || true'',
     TAB # ''if [ -s '' @ DUMP_PATH @ '' ]; then'',
     TAB # TAB # ''code=$(curl -sS '' @ resolve @ '' -T '' @ DUMP_PATH @ '' -o /dev/null -w '%{http_code}' \"'' @ url @ ''\") || ec=$?'']
    @ require_2xx ''upload''
    @ [TAB # ''else'',
     TAB # TAB # ''echo \"dump file empty/missing after pg_dump reported success (disk trouble?)\" >&2'',
     TAB # TAB # ''ec=1'',
     TAB # ''fi'',
     ''else'',
     TAB # ''ec=$?'',
     ''fi'',
     ''rm -f '' @ DUMP_PATH,
     sentinel_line (job_done ARCHIVE_JOB)]"

definition gw_prelude :: "string \<Rightarrow> string list" where
  "gw_prelude path =
    [''GW=$(awk '$2==\"00000000\" {print $3; exit}' /proc/net/route)'',
     ''if [ -n \"$GW\" ]; then'',
     TAB # ''GW=$(printf '%d.%d.%d.%d' \"0x$(echo \"$GW\" | cut -c7-8)\" \"0x$(echo \"$GW\" | cut -c5-6)\" \"0x$(echo \"$GW\" | cut -c3-4)\" \"0x$(echo \"$GW\" | cut -c1-2)\")'',
     ''fi'',
     ''if [ -z \"$GW\" ]; then'',
     TAB # ''echo 'cannot determine host gateway from /proc/net/route' >&2'',
     TAB # ''printf %s 1 > '' @ path @ ''.tmp && mv '' @ path @ ''.tmp '' @ path,
     TAB # ''exit 0'',
     ''fi'']"

definition restore_job_body :: "string \<Rightarrow> string \<Rightarrow> string \<Rightarrow> string \<Rightarrow> bool \<Rightarrow> string list" where
  "restore_job_body usr db resolve url keep_ownership =
    [''ec=0'',
     ''code=$(curl -sS '' @ resolve @ '' -o '' @ RESTORE_PATH @ '' -w '%{http_code}' \"'' @ url @ ''\") || ec=$?'']
    @ require_2xx ''download''
    @ [''if [ \"$ec\" = 0 ]; then'',
     TAB # ''pg_restore -h 127.0.0.1 -U '' @ usr @ '' --clean --if-exists ''
       @ (if keep_ownership then [] else ''--no-owner --no-privileges '') @ ''-j \"$(nproc)\" -d '' @ db @ '' '' @ RESTORE_PATH @ '' || ec=$?'',
     ''fi'',
     ''rm -f '' @ RESTORE_PATH,
     sentinel_line (job_done RESTORE_JOB)]"

definition launch_script :: "detached_job \<Rightarrow> string \<Rightarrow> string \<Rightarrow> string" where
  "launch_script j job scratch_path =
    ''rm -f '' @ job_done j @ '' '' @ scratch_path @ '' '' @ job_log j @ [NEWLINE]
    @ ''cat > '' @ job_script j @ '' <<'' @ [SQUOTE] @ JOB_HEREDOC_EOF @ [SQUOTE] @ [NEWLINE]
    @ job @ JOB_HEREDOC_EOF @ [NEWLINE]
    @ ''setsid sh '' @ job_script j @ '' </dev/null >'' @ job_log j @ '' 2>&1 &'' @ [NEWLINE]
    @ ''echo launched'' @ [NEWLINE]"

definition probe_command :: "detached_job \<Rightarrow> string" where
  "probe_command j =
    ''if [ -f '' @ job_done j @ '' ]; then read c < '' @ job_done j @ ''; printf '' @ [SQUOTE] @ PROBE_TAG @ ''D%s'' @ [BACKSLASH] @ ''n'' @ [SQUOTE]
    @ '' \"$c\"; else printf '' @ [SQUOTE] @ PROBE_TAG @ ''P'' @ [BACKSLASH] @ ''n'' @ [SQUOTE] @ ''; fi''"

section \<open>What the guest's shell does\<close>

text \<open>
  The file that \<open>cat > f <<'EOF'\<close> writes: the lines after the command, verbatim, up to the first line that is
  the delimiter; and the lines that follow, which the shell runs next. None when the delimiter is missing.
\<close>

fun heredoc :: "string \<Rightarrow> string list \<Rightarrow> (string list \<times> string list) option" where
  "heredoc eof [] = None"
| "heredoc eof (l # ls) =
     (if l = eof then Some ([], ls) else map_option (\<lambda>(body, rest). (l # body, rest)) (heredoc eof ls))"

definition planted :: "string \<Rightarrow> (string list \<times> string list) option" where
  "planted cmd = heredoc JOB_HEREDOC_EOF (drop 2 (split_on NEWLINE cmd))"

text \<open>The test \<open>2??\<close> on the status curl printed, and its effect on \<open>ec\<close>.\<close>

definition is_2xx :: "string \<Rightarrow> bool" where
  "is_2xx status \<longleftrightarrow> length status = 3 \<and> hd status = CHR ''2''"

definition check_2xx :: "string \<Rightarrow> nat \<Rightarrow> nat" where
  "check_2xx status ec = (if is_2xx status then ec else if ec = 0 then 22 else ec)"

datatype server_call = Commit | Abort

text \<open>
  The streaming dump: how \<open>pg_dump\<close>, the upload and the commit ended (exit status and printed HTTP code), and
  whether the mark of a failed \<open>pg_dump\<close> could be written. Gives the sentinel and what was posted.
\<close>

definition streaming_job :: "nat \<Rightarrow> bool \<Rightarrow> nat \<times> string \<Rightarrow> nat \<times> string \<Rightarrow> nat \<times> server_call list" where
  "streaming_job dump_exit mark_ok put commit =
     (let ec = fst put;
          ec = (if dump_exit \<noteq> 0 \<and> mark_ok then 1 else ec);
          ec = check_2xx (snd put) ec
      in if ec = 0 then (check_2xx (snd commit) (fst commit), [Commit]) else (ec, [Abort]))"

definition archive_job :: "nat \<Rightarrow> bool \<Rightarrow> nat \<times> string \<Rightarrow> nat" where
  "archive_job dump_exit non_empty put =
     (if dump_exit = 0 then (if non_empty then check_2xx (snd put) (fst put) else 1) else dump_exit)"

definition restore_job :: "nat \<times> string \<Rightarrow> nat \<Rightarrow> nat" where
  "restore_job get restore_exit =
     (let ec = check_2xx (snd get) (fst get) in if ec = 0 then restore_exit else ec)"

text \<open>A job behind \<open>gw_prelude\<close>: with no default gateway it ends at once with sentinel 1, and calls nobody.\<close>

definition behind_gateway :: "bool \<Rightarrow> nat \<times> server_call list \<Rightarrow> nat \<times> server_call list" where
  "behind_gateway found job = (if found then job else (1, []))"

text \<open>What the probe prints: the first line of the sentinel file, or that there is none.\<close>

definition probe_output :: "nat option \<Rightarrow> string" where
  "probe_output sentinel =
     PROBE_TAG @ (case sentinel of None \<Rightarrow> ''P'' | Some ec \<Rightarrow> CHR ''D'' # show_nat ec) @ [NEWLINE]"

section \<open>Preflights\<close>

datatype restore_refusal = No_Archive_Object | Archive_Too_Small nat | No_Local_Dump | Local_Dump_Too_Small nat

text \<open>\<open>restore_from_s3\<close>: \<open>client\<close> whether an HTTP client could be built, and the answer to the HEAD.\<close>

definition s3_preflight :: "bool \<Rightarrow> head_answer \<Rightarrow> restore_refusal option" where
  "s3_preflight client head =
     (if \<not> client then None
      else (case head of
              None \<Rightarrow> None
            | Some None \<Rightarrow> Some No_Archive_Object
            | Some (Some i) \<Rightarrow> if content_length i < MIN_ARCHIVE_BYTES then Some (Archive_Too_Small (content_length i)) else None))"

definition local_preflight :: "nat option \<Rightarrow> restore_refusal option" where
  "local_preflight len =
     (case len of
        None \<Rightarrow> Some No_Local_Dump
      | Some n \<Rightarrow> if n < MIN_ARCHIVE_BYTES then Some (Local_Dump_Too_Small n) else None)"

definition local_url :: "nat \<Rightarrow> string \<Rightarrow> string" where
  "local_url port token = ''http://$GW:'' @ show_nat port @ ''/d/'' @ token"

text \<open>The commands sent: the whole launch of a local dump, of a local restore and of a restore from S3.\<close>

definition dump_to_local_command :: "string \<Rightarrow> string \<Rightarrow> nat \<Rightarrow> string \<Rightarrow> string" where
  "dump_to_local_command pg_usr schema port token =
     launch_script ARCHIVE_JOB
       (unlines (gw_prelude (job_done ARCHIVE_JOB)
          @ streaming_dump_job_body (shell_squote pg_usr) (shell_squote schema) (local_url port token))) STREAM_FAIL_MARK"

definition restore_from_local_command :: "string \<Rightarrow> string \<Rightarrow> nat \<Rightarrow> string \<Rightarrow> bool \<Rightarrow> string" where
  "restore_from_local_command pg_usr schema port token owned =
     launch_script RESTORE_JOB
       (unlines (gw_prelude (job_done RESTORE_JOB)
          @ restore_job_body (shell_squote pg_usr) (shell_squote schema) [] (local_url port token) owned)) RESTORE_PATH"

definition restore_from_s3_command :: "string \<Rightarrow> string \<Rightarrow> string \<Rightarrow> string \<Rightarrow> bool \<Rightarrow> string" where
  "restore_from_s3_command pg_usr schema resolve url owned =
     launch_script RESTORE_JOB
       (unlines (restore_job_body (shell_squote pg_usr) (shell_squote schema) resolve url owned)) RESTORE_PATH"

definition dump_to_s3_command :: "string \<Rightarrow> string \<Rightarrow> string \<Rightarrow> string \<Rightarrow> string" where
  "dump_to_s3_command pg_usr schema resolve url =
     launch_script ARCHIVE_JOB
       (unlines (archive_job_body (shell_squote pg_usr) (shell_squote schema) resolve url)) DUMP_PATH"

definition build_resolve_flag :: "string \<Rightarrow> string list \<Rightarrow> string" where
  "build_resolve_flag host ips =
     (if ips = [] then []
      else ''--resolve '' @ [SQUOTE] @ host @ '':443:'' @ concat (hd ips # map (\<lambda>ip. CHR '','' # ip) (tl ips)) @ [SQUOTE])"

section \<open>Jobs arrive as written\<close>

lemma split_on_unlines: "list_all (\<lambda>l. NEWLINE \<notin> set l) ls \<Longrightarrow> split_on NEWLINE (unlines ls) = ls @ [[]]"
  by (induction ls) (simp_all add: unlines_def split_on_append)

lemma heredoc_verbatim: "list_all (\<lambda>l. l \<noteq> eof) body \<Longrightarrow> heredoc eof (body @ eof # rest) = Some (body, rest)"
  by (induction body) simp_all

text \<open>A line that cannot end the here-document: it has no newline and does not begin like the delimiter.\<close>

definition job_line :: "string \<Rightarrow> bool" where
  "job_line l \<longleftrightarrow> NEWLINE \<notin> set l \<and> (l = [] \<or> hd l \<noteq> CHR ''H'')"

lemma job_line_not_eof: "job_line l \<Longrightarrow> l \<noteq> JOB_HEREDOC_EOF"
  by (auto simp: job_line_def JOB_HEREDOC_EOF_def)

lemma launch_script_lines:
  "launch_script j (unlines body) sp = unlines ([''rm -f '' @ job_done j @ '' '' @ sp @ '' '' @ job_log j,
      ''cat > '' @ job_script j @ '' <<'' @ [SQUOTE] @ JOB_HEREDOC_EOF @ [SQUOTE]] @ body @
      [JOB_HEREDOC_EOF, ''setsid sh '' @ job_script j @ '' </dev/null >'' @ job_log j @ '' 2>&1 &'', ''echo launched''])"
  by (simp add: launch_script_def unlines_def)

definition launch_tail :: "detached_job \<Rightarrow> string list" where
  "launch_tail j = [''setsid sh '' @ job_script j @ '' </dev/null >'' @ job_log j @ '' 2>&1 &'', ''echo launched'', []]"

lemma planted_launch:
  assumes "list_all job_line body" "j = ARCHIVE_JOB \<or> j = RESTORE_JOB" "sp \<in> set [STREAM_FAIL_MARK, DUMP_PATH, RESTORE_PATH]"
  shows "planted (launch_script j (unlines body) sp) = Some (body, launch_tail j)"
proof -
  have "list_all (\<lambda>l. NEWLINE \<notin> set l) body" "list_all (\<lambda>l. l \<noteq> JOB_HEREDOC_EOF) body"
    using assms(1) by (auto simp: list_all_iff job_line_def) (use job_line_not_eof assms(1) in \<open>auto simp: list_all_iff\<close>)
  moreover have "NEWLINE \<notin> set JOB_HEREDOC_EOF" "NEWLINE \<notin> set sp" "NEWLINE \<notin> set (job_done j)" "NEWLINE \<notin> set (job_log j)"
    "NEWLINE \<notin> set (job_script j)"
    using assms(2,3) by (auto simp: JOB_HEREDOC_EOF_def STREAM_FAIL_MARK_def DUMP_PATH_def RESTORE_PATH_def ARCHIVE_JOB_def RESTORE_JOB_def)
  ultimately show ?thesis
    unfolding planted_def launch_script_lines
    by (subst split_on_unlines) (simp_all add: heredoc_verbatim launch_tail_def)
qed

lemma no_newline_squote: "NEWLINE \<notin> set s \<Longrightarrow> NEWLINE \<notin> set (shell_squote s)"
  by (auto simp: shell_squote_def replace_char_def)

lemma job_line_require: "NEWLINE \<notin> set what \<Longrightarrow> list_all job_line (require_2xx what)"
  by (simp add: require_2xx_def job_line_def)

lemma job_line_bodies:
  assumes "NEWLINE \<notin> set usr" "NEWLINE \<notin> set db" "NEWLINE \<notin> set resolve" "NEWLINE \<notin> set url"
  shows "list_all job_line (streaming_dump_job_body usr db url)" "list_all job_line (archive_job_body usr db resolve url)"
    "list_all job_line (restore_job_body usr db resolve url own)"
proof -
  have up: "list_all job_line (require_2xx ''upload'')" "list_all job_line (require_2xx ''commit'')" "list_all job_line (require_2xx ''download'')"
    by (simp_all add: job_line_require)
  note defs = job_line_def STREAM_FAIL_MARK_def DUMP_PATH_def RESTORE_PATH_def sentinel_line_def ARCHIVE_JOB_def RESTORE_JOB_def
  show "list_all job_line (streaming_dump_job_body usr db url)"
    using assms up(1,2) by (simp add: streaming_dump_job_body_def) (simp add: defs)
  show "list_all job_line (archive_job_body usr db resolve url)"
    using assms up(1) by (simp add: archive_job_body_def) (simp add: defs)
  show "list_all job_line (restore_job_body usr db resolve url own)"
    using assms up(3) by (simp add: restore_job_body_def) (simp add: defs)
qed

lemma job_line_gw: "NEWLINE \<notin> set path \<Longrightarrow> list_all job_line (gw_prelude path)"
  by (simp add: gw_prelude_def job_line_def)

lemma no_newline_local_url: "NEWLINE \<notin> set token \<Longrightarrow> NEWLINE \<notin> set (local_url port token)"
  using plain_field_show_nat [of port] by (auto simp: local_url_def plain_field_def)

text \<open>
  A job reaches the guest exactly as it was written. For every database name a client can reach, the
  here-document that plants the job yields the job's lines verbatim and then exactly the two lines that
  launch it: no name, user or address can end the document early or add a command to the launch, on any
  of the four routes.
\<close>

theorem jobs_planted_verbatim:
  assumes "is_valid_schema schema" "list_all (\<lambda>s. NEWLINE \<notin> set s) [pg_usr, resolve, url, token]"
  shows "planted (dump_to_local_command pg_usr schema port token) = Some (gw_prelude (job_done ARCHIVE_JOB)
        @ streaming_dump_job_body (shell_squote pg_usr) (shell_squote schema) (local_url port token), launch_tail ARCHIVE_JOB)
     \<and> planted (restore_from_local_command pg_usr schema port token own) = Some (gw_prelude (job_done RESTORE_JOB)
        @ restore_job_body (shell_squote pg_usr) (shell_squote schema) [] (local_url port token) own, launch_tail RESTORE_JOB)
     \<and> planted (dump_to_s3_command pg_usr schema resolve url)
        = Some (archive_job_body (shell_squote pg_usr) (shell_squote schema) resolve url, launch_tail ARCHIVE_JOB)
     \<and> planted (restore_from_s3_command pg_usr schema resolve url own)
        = Some (restore_job_body (shell_squote pg_usr) (shell_squote schema) resolve url own, launch_tail RESTORE_JOB)"
proof -
  have n: "NEWLINE \<notin> set (shell_squote pg_usr)" "NEWLINE \<notin> set (shell_squote schema)" "NEWLINE \<notin> set (local_url port token)"
    "NEWLINE \<notin> set resolve" "NEWLINE \<notin> set url" "NEWLINE \<notin> set ([] :: string)"
    using assms(2) valid_schema_name_ok [OF assms(1)]
    by (simp_all add: name_ok_def plain_field_def no_newline_squote no_newline_local_url)
  have gw: "list_all job_line (gw_prelude (job_done ARCHIVE_JOB))" "list_all job_line (gw_prelude (job_done RESTORE_JOB))"
    by (simp_all add: job_line_gw ARCHIVE_JOB_def RESTORE_JOB_def)
  have p: "list_all job_line body \<Longrightarrow> planted (launch_script ARCHIVE_JOB (unlines body) STREAM_FAIL_MARK) = Some (body, launch_tail ARCHIVE_JOB)"
    "list_all job_line body \<Longrightarrow> planted (launch_script ARCHIVE_JOB (unlines body) DUMP_PATH) = Some (body, launch_tail ARCHIVE_JOB)"
    "list_all job_line body \<Longrightarrow> planted (launch_script RESTORE_JOB (unlines body) RESTORE_PATH) = Some (body, launch_tail RESTORE_JOB)" for body
    by (rule planted_launch; simp)+
  show ?thesis
    unfolding dump_to_local_command_def restore_from_local_command_def dump_to_s3_command_def restore_from_s3_command_def
    using gw job_line_bodies(1) [OF n(1,2,6,3)] job_line_bodies(3) [OF n(1,2,6,3), of own] job_line_bodies(2) [OF n(1,2,4,5)]
      job_line_bodies(3) [OF n(1,2,4,5), of own]
    by (intro conjI p) (simp_all only: list_all_append simp_thms)
qed

theorem jobs_planted_verbatim_witness:
  "planted (dump_to_s3_command ''postgres'' ''it's'' [] ''https://b/k'') =
     Some (archive_job_body (shell_squote ''postgres'') (shell_squote ''it's'') [] ''https://b/k'', launch_tail ARCHIVE_JOB)"
proof -
  have "is_valid_schema ''it's''" by (simp add: is_valid_schema_def code_def)
  from jobs_planted_verbatim [OF this, of "''postgres''" "[]" "''https://b/k''" "[]"] show ?thesis by simp
qed

section \<open>Success is what it says\<close>

lemma after_last_None: "t \<noteq> [] \<Longrightarrow> hd t \<notin> set s \<Longrightarrow> after_last t s = None"
proof (induction s)
  case (Cons c s)
  then have "take (length t) (c # s) \<noteq> t" by (cases t) auto
  then show ?case using Cons by simp
qed simp

lemma after_last_tag: "t \<noteq> [] \<Longrightarrow> hd t \<notin> set (tl t @ r) \<Longrightarrow> after_last t (p @ t @ r) = Some r"
proof (induction p)
  case Nil
  obtain c cs where t: "t = c # cs" using Nil by (cases t) auto
  have "after_last t (cs @ r) = None" using Nil t by (intro after_last_None) auto
  then show ?case by (simp add: t)
qed simp

lemma reply_read:
  assumes "tail = [] \<or> is_ascii_graphic (hd tail)" "r \<noteq> []" "list_all is_ascii_graphic r" "CHR ''H'' \<notin> set r"
  shows "after_last PROBE_TAG (rust_trim (tail @ PROBE_TAG @ r)) = Some r"
proof -
  have "is_ascii_graphic (hd (tail @ PROBE_TAG @ r))"
    using assms(1) by (cases tail) (auto simp: PROBE_TAG_def is_ascii_graphic_def code_def)
  moreover have "is_ascii_graphic (last r)" using assms(2,3) by (simp add: list_all_iff)
  ultimately have "rust_trim (tail @ PROBE_TAG @ r) = tail @ PROBE_TAG @ r"
    using assms(2) by (intro rust_trim_ends) (simp_all add: PROBE_TAG_def)
  moreover have "after_last PROBE_TAG (tail @ PROBE_TAG @ r) = Some r"
    using assms(4) by (intro after_last_tag) (simp_all add: PROBE_TAG_def)
  ultimately show ?thesis by simp
qed

lemma rust_lines_unlines:
  assumes "list_all (\<lambda>l. NEWLINE \<notin> set l \<and> CR \<notin> set l) ns" "NEWLINE \<notin> set l" "CR \<notin> set l"
  shows "rust_lines (unlines ns @ l @ [NEWLINE]) = ns @ [l]"
  using assms by (induction ns) (simp_all add: unlines_def rust_lines_Cons)

lemma probe_reads_sentinel:
  assumes "list_all (\<lambda>l. NEWLINE \<notin> set l \<and> CR \<notin> set l) ns" "NEWLINE \<notin> set tail" "CR \<notin> set tail"
    and "tail = [] \<or> is_ascii_graphic (hd tail)" "ec < 2 ^ 31"
  shows "parse_probe (unlines ns @ tail @ probe_output (Some ec)) = (if ec = 0 then Job_Succeeded else Job_Exit (int ec))"
proof -
  let ?r = "CHR ''D'' # show_nat ec"
  have d: "list_all is_ascii_graphic (show_nat ec)" "\<And>c. c \<in> set (show_nat ec) \<Longrightarrow> is_ascii_digit c"
    by (auto simp: list_all_iff is_ascii_graphic_def is_ascii_digit_def dest!: show_nat_digits)
  have g: "list_all is_ascii_graphic ?r" "CHR ''H'' \<notin> set ?r"
    using d(1) d(2) [of "CHR ''H''"] by (auto simp: is_ascii_graphic_def code_def is_ascii_digit_def)
  have pl: "NEWLINE \<notin> set (tail @ PROBE_TAG @ ?r)" "CR \<notin> set (tail @ PROBE_TAG @ ?r)"
    using assms(2,3) plain_field_show_nat [of ec] by (auto simp: PROBE_TAG_def plain_field_def)
  have "rust_lines (unlines ns @ tail @ probe_output (Some ec)) = ns @ [tail @ PROBE_TAG @ ?r]"
    using rust_lines_unlines [OF assms(1) pl] by (simp add: probe_output_def)
  then have "probe_replies (unlines ns @ tail @ probe_output (Some ec)) =
      filter (\<lambda>r. starts_with ''D'' r \<or> starts_with ''P'' r) (List.map_filter (\<lambda>l. after_last PROBE_TAG (rust_trim l)) ns) @ [?r]"
    using reply_read [OF assms(4) _ g] by (simp add: probe_replies_def List.map_filter_def starts_with_def)
  moreover have "rust_trim (show_nat ec) = show_nat ec"
    using d(1) by (intro rust_trim_ends) (simp_all add: list_all_iff)
  moreover have "rust_parse_i32 (show_nat ec) = Some (int ec)"
  proof -
    obtain c cs where s: "show_nat ec = c # cs" by (cases "show_nat ec") auto
    then have "is_ascii_digit c" using d(2) by simp
    then have "c \<noteq> CHR ''-''" "c \<noteq> CHR ''+''" by (auto simp: is_ascii_digit_def code_def)
    then show ?thesis using s digits_value_show_nat [of ec] assms(5) by (simp add: rust_parse_i32_def Let_def)
  qed
  ultimately show ?thesis by (simp add: parse_probe_def Let_def)
qed

lemma no_gateway_is_reported:
  assumes "list_all (\<lambda>l. NEWLINE \<notin> set l \<and> CR \<notin> set l) (tail # ns)" "tail = [] \<or> is_ascii_graphic (hd tail)"
  shows "parse_probe (unlines ns @ tail @ probe_output (Some (fst (behind_gateway False job)))) = Job_Exit 1"
  using probe_reads_sentinel [of ns tail 1] assms by (simp add: behind_gateway_def)

text \<open>
  C22: A job that is read as succeeded did its work. Whatever else the shared console shows before the reply, the
  pooler reads success from the sentinel of a dump or restore exactly if the guest's \<open>pg_dump\<close> or
  \<open>pg_restore\<close> succeeded (for a dump to S3, with a file that is not empty) and every transfer ended cleanly with a
  2xx answer; and a streamed dump is
  committed exactly if \<open>pg_dump\<close> and the upload succeeded, and aborted otherwise. Hypothesis: a failure of
  \<open>pg_dump\<close> in the pipeline leaves its mark. Exit statuses are those of the shell, below 256.
\<close>

theorem guest_success_is_real:
  assumes "list_all (\<lambda>l. NEWLINE \<notin> set l \<and> CR \<notin> set l) (tail # ns)" "tail = [] \<or> is_ascii_graphic (hd tail)"
    and "list_all (\<lambda>n. n < 256) [dump_exit, fst put, fst commit, restore_exit]" "dump_exit = 0 \<or> mark_ok"
  shows "(parse_probe (unlines ns @ tail @ probe_output (Some (fst (streaming_job dump_exit mark_ok put commit)))) = Job_Succeeded
        \<longleftrightarrow> dump_exit = 0 \<and> fst put = 0 \<and> is_2xx (snd put) \<and> fst commit = 0 \<and> is_2xx (snd commit))
     \<and> snd (streaming_job dump_exit mark_ok put commit)
        = (if dump_exit = 0 \<and> fst put = 0 \<and> is_2xx (snd put) then [Commit] else [Abort])
     \<and> (parse_probe (unlines ns @ tail @ probe_output (Some (archive_job dump_exit non_empty put))) = Job_Succeeded
        \<longleftrightarrow> dump_exit = 0 \<and> non_empty \<and> fst put = 0 \<and> is_2xx (snd put))
     \<and> (parse_probe (unlines ns @ tail @ probe_output (Some (restore_job put restore_exit))) = Job_Succeeded
        \<longleftrightarrow> fst put = 0 \<and> is_2xx (snd put) \<and> restore_exit = 0)"
proof -
  have b: "fst (streaming_job dump_exit mark_ok put commit) < 2 ^ 31" "archive_job dump_exit non_empty put < 2 ^ 31"
    "restore_job put restore_exit < 2 ^ 31"
    using assms(3) by (auto simp: streaming_job_def archive_job_def restore_job_def check_2xx_def Let_def)
  have p: "parse_probe (unlines ns @ tail @ probe_output (Some ec)) = Job_Succeeded \<longleftrightarrow> ec = 0" if "ec < 2 ^ 31" for ec
    using probe_reads_sentinel [of ns tail ec] assms(1,2) that by simp
  show ?thesis
    unfolding p [OF b(1)] p [OF b(2)] p [OF b(3)] using assms(4)
    by (auto simp: streaming_job_def archive_job_def restore_job_def check_2xx_def Let_def)
qed

theorem guest_success_is_real_witness:
  "parse_probe (unlines [''[  12.5] random: crng init done''] @ [] @ probe_output (Some (fst (streaming_job 0 True (0, ''200'') (0, ''204''))))) = Job_Succeeded
   \<and> snd (streaming_job 0 True (0, ''200'') (0, ''204'')) = [Commit]
   \<and> snd (streaming_job 1 True (0, ''200'') (0, ''204'')) = [Abort]"
  using guest_success_is_real [of "[]" "[''[  12.5] random: crng init done'']" 0 "(0, ''200'')" "(0, ''204'')" 0 True True]
    guest_success_is_real [of "[]" "[]" 1 "(0, ''200'')" "(0, ''204'')" 0 True True]
  by (simp add: is_2xx_def)

text \<open>
  The mark is a file in the guest's \<open>/tmp\<close>. When it cannot be written, a \<open>pg_dump\<close> that dies in the middle
  goes unnoticed: the stream just ends, the upload is answered 2xx, and the torn dump is committed.
\<close>

lemma unmarked_failure_is_committed:
  "dump_exit \<noteq> 0 \<Longrightarrow> streaming_job dump_exit False (0, ''200'') (0, ''200'') = (0, [Commit])"
  by (simp add: streaming_job_def check_2xx_def is_2xx_def)

text \<open>A restore is refused before the guest is bothered exactly when the object is known to be missing or too small.\<close>

lemma preflights_refuse_iff:
  "s3_preflight client head \<noteq> None \<longleftrightarrow>
     client \<and> (head = Some None \<or> (\<exists>i. head = Some (Some i) \<and> content_length i < MIN_ARCHIVE_BYTES))"
  "local_preflight len \<noteq> None \<longleftrightarrow> (\<forall>n. len = Some n \<longrightarrow> n < MIN_ARCHIVE_BYTES)"
  by (auto simp: s3_preflight_def local_preflight_def split: option.splits)

end
