(* ===== verification/Gates.thy ===== *)
theory Gates
  imports Offload Reclaim "HOL-Library.Multiset"
begin

text \<open>
  The two gates of \<open>src/src/vm.rs\<close> that keep bring-ups from flooding the VM daemon: \<open>admission_slot\<close>, which
  bounds how many bring-ups exist, and \<open>bringup_slot\<close>, which bounds how many calls that deploy or boot a VM
  are open at the daemon, together with the permit of \<open>reclaim.rs\<close> a boot takes before its slot (the lock of
  its disk, or the read side of the boot gate) and the counter \<open>BRINGUPS_WAITING\<close> that holds background work
  back. The daemon accepts a deploy at once and builds in the background: the slots bound the open calls,
  and only admission bounds the builds. Of the semaphore only its documented contract is used: at most as many permits
  are out as it was made with, and one is free once it is returned. In which order waiters are served,
  and whether an attempt succeeds while others wait, is left open.
\<close>

section \<open>The gates\<close>

definition DEFAULT_BRINGUP_SLOTS :: nat where "DEFAULT_BRINGUP_SLOTS = 3"
definition DEFAULT_PENDING_BRINGUPS :: nat where "DEFAULT_PENDING_BRINGUPS = 16"

text \<open>How many slots a variable gives, with the default where it is unset or no number; 0 is no gate.\<close>

definition gate_slots :: "nat \<Rightarrow> string option \<Rightarrow> nat option" where
  "gate_slots default_slots var =
     (let n = (case var of
                 None \<Rightarrow> default_slots
               | Some v \<Rightarrow> (case rust_parse_u64 v of None \<Rightarrow> default_slots | Some n \<Rightarrow> n))
      in if n = 0 then None else Some n)"

definition bringup_gate :: "string option \<Rightarrow> nat option" where
  "bringup_gate var = gate_slots DEFAULT_BRINGUP_SLOTS var"

definition admission_gate :: "string option \<Rightarrow> nat option" where
  "admission_gate var = gate_slots DEFAULT_PENDING_BRINGUPS var"

text \<open>
  Somebody who boots VMs: a bring-up (\<open>rq_client\<close>), which passes the admission gate first, or an action of
  the dashboard or the spare pool, which does not. \<open>rq_todo\<close> are the daemon calls it still has to make: a
  deploy (None), or a boot, with the permit it takes first: which of the two kinds it is depends on the
  latch and on the lock file at that time, so any sequence of them is allowed. \<open>rq_disk\<close> is the permit it
  holds.
\<close>

datatype phase = Wait_Admission | At_Work | Wait_Slot | In_Daemon

record request =
  rq_client :: bool
  rq_phase :: phase
  rq_disk :: "permit option"
  rq_todo :: "permit option list"

text \<open>
  \<open>g_locked\<close>: the disks a reclaim pass or a device growth has locked; \<open>g_pass\<close>: a pass holds the write side of
  the boot gate. Neither takes a slot.
\<close>

record gates =
  g_admission :: "nat option"
  g_slots :: "nat option"
  g_requests :: "request multiset"
  g_locked :: "string multiset"
  g_pass :: bool
  g_waiting :: nat

definition waits :: "request \<Rightarrow> bool" where
  "waits r \<longleftrightarrow> rq_phase r = Wait_Admission \<or> rq_phase r = Wait_Slot"

definition past_admission :: "request \<Rightarrow> bool" where
  "past_admission r \<longleftrightarrow> rq_client r \<and> rq_phase r \<noteq> Wait_Admission"

definition in_daemon :: "request \<Rightarrow> bool" where
  "in_daemon r \<longleftrightarrow> rq_phase r = In_Daemon"

text \<open>It has the permit its next daemon call needs, and no other.\<close>

definition ready_to_boot :: "request \<Rightarrow> bool" where
  "ready_to_boot r = (case rq_todo r of [] \<Rightarrow> False | b # _ \<Rightarrow> rq_disk r = b)"

definition room :: "nat option \<Rightarrow> (request \<Rightarrow> bool) \<Rightarrow> request multiset \<Rightarrow> bool" where
  "room gate P rs = (case gate of None \<Rightarrow> True | Some n \<Rightarrow> size (filter_mset P rs) < n)"

definition holders :: "string \<Rightarrow> request multiset \<Rightarrow> nat" where
  "holders d rs = size (filter_mset (\<lambda>r. rq_disk r = Some (Disk_Permit d)) rs)"

definition gate_reader :: "request \<Rightarrow> bool" where
  "gate_reader r = (case rq_disk r of None \<Rightarrow> False | Some p \<Rightarrow> is_Gate_Permit p)"

definition disk_free :: "string \<Rightarrow> gates \<Rightarrow> bool" where
  "disk_free d s \<longleftrightarrow> d \<notin># g_locked s \<and> holders d (g_requests s) = 0"

text \<open>The lock of a disk is exclusive; readers share the gate, and only a pass keeps them out.\<close>

definition permit_free :: "permit \<Rightarrow> gates \<Rightarrow> bool" where
  "permit_free p s = (case p of Disk_Permit d \<Rightarrow> disk_free d s | Gate_Permit _ \<Rightarrow> \<not> g_pass s)"

section \<open>The steps\<close>

text \<open>
  What goes on without anybody new. \<open>slot_taken\<close> is \<open>try_acquire\<close>; \<open>slot_queued\<close> and \<open>slot_granted\<close> the wait, counted by
  the guard \<open>Waiting\<close>; \<open>boot_ended\<close> drops permit and slot, however the call ended.
\<close>

inductive work_step :: "gates \<Rightarrow> gates \<Rightarrow> bool" where
  admitted: "g_requests s = add_mset r rs \<Longrightarrow> rq_phase r = Wait_Admission \<Longrightarrow> room (g_admission s) past_admission rs \<Longrightarrow>
    work_step s (s\<lparr>g_requests := add_mset (r\<lparr>rq_phase := At_Work\<rparr>) rs, g_waiting := g_waiting s - 1\<rparr>)"
| permit_taken: "g_requests s = add_mset r rs \<Longrightarrow> rq_phase r = At_Work \<Longrightarrow> rq_disk r = None \<Longrightarrow> rq_todo r = Some p # bs \<Longrightarrow>
    permit_free p s \<Longrightarrow> work_step s (s\<lparr>g_requests := add_mset (r\<lparr>rq_disk := Some p\<rparr>) rs\<rparr>)"
| slot_taken: "g_requests s = add_mset r rs \<Longrightarrow> rq_phase r = At_Work \<Longrightarrow> ready_to_boot r \<Longrightarrow> room (g_slots s) in_daemon rs \<Longrightarrow>
    work_step s (s\<lparr>g_requests := add_mset (r\<lparr>rq_phase := In_Daemon\<rparr>) rs\<rparr>)"
| slot_queued: "g_requests s = add_mset r rs \<Longrightarrow> rq_phase r = At_Work \<Longrightarrow> ready_to_boot r \<Longrightarrow> g_slots s \<noteq> None \<Longrightarrow>
    work_step s (s\<lparr>g_requests := add_mset (r\<lparr>rq_phase := Wait_Slot\<rparr>) rs, g_waiting := g_waiting s + 1\<rparr>)"
| slot_granted: "g_requests s = add_mset r rs \<Longrightarrow> rq_phase r = Wait_Slot \<Longrightarrow> room (g_slots s) in_daemon rs \<Longrightarrow>
    work_step s (s\<lparr>g_requests := add_mset (r\<lparr>rq_phase := In_Daemon\<rparr>) rs, g_waiting := g_waiting s - 1\<rparr>)"
| boot_ended: "g_requests s = add_mset r rs \<Longrightarrow> rq_phase r = In_Daemon \<Longrightarrow>
    work_step s (s\<lparr>g_requests := add_mset (r\<lparr>rq_phase := At_Work, rq_disk := None, rq_todo := tl (rq_todo r)\<rparr>) rs\<rparr>)"
| finished: "g_requests s = add_mset r rs \<Longrightarrow> rq_phase r = At_Work \<Longrightarrow> rq_todo r = [] \<Longrightarrow>
    work_step s (s\<lparr>g_requests := rs\<rparr>)"
| unlocked: "g_locked s = add_mset d ds \<Longrightarrow> work_step s (s\<lparr>g_locked := ds\<rparr>)"
| pass_ended: "g_pass s \<Longrightarrow> work_step s (s\<lparr>g_pass := False\<rparr>)"

text \<open>
  And with others: a bring-up arrives and is admitted at once or queues, an action arrives, a pass takes
  the gate when no boot has it, or locks a disk, and a request is dropped at any await, as when its client disconnects or its time is up.
\<close>

inductive gate_step :: "gates \<Rightarrow> gates \<Rightarrow> bool" where
  work: "work_step s t \<Longrightarrow> gate_step s t"
| client_admitted: "room (g_admission s) past_admission (g_requests s) \<Longrightarrow>
    gate_step s (s\<lparr>g_requests := add_mset \<lparr>rq_client = True, rq_phase = At_Work, rq_disk = None, rq_todo = bs\<rparr> (g_requests s)\<rparr>)"
| client_queued: "g_admission s \<noteq> None \<Longrightarrow>
    gate_step s (s\<lparr>g_requests := add_mset \<lparr>rq_client = True, rq_phase = Wait_Admission, rq_disk = None, rq_todo = bs\<rparr> (g_requests s),
                   g_waiting := g_waiting s + 1\<rparr>)"
| action_arrives: "gate_step s (s\<lparr>g_requests :=
    add_mset \<lparr>rq_client = False, rq_phase = At_Work, rq_disk = None, rq_todo = bs\<rparr> (g_requests s)\<rparr>)"
| request_dropped: "g_requests s = add_mset r rs \<Longrightarrow>
    gate_step s (s\<lparr>g_requests := rs, g_waiting := (if waits r then g_waiting s - 1 else g_waiting s)\<rparr>)"
| pass_locks: "disk_free d s \<Longrightarrow> gate_step s (s\<lparr>g_locked := add_mset d (g_locked s)\<rparr>)"
| pass_gated: "\<not> g_pass s \<Longrightarrow> filter_mset gate_reader (g_requests s) = {#} \<Longrightarrow> gate_step s (s\<lparr>g_pass := True\<rparr>)"

definition gate_start :: "gates \<Rightarrow> bool" where
  "gate_start s \<longleftrightarrow> (\<exists>v w. g_admission s = admission_gate v \<and> g_slots s = bringup_gate w)
     \<and> g_requests s = {#} \<and> g_locked s = {#} \<and> \<not> g_pass s \<and> g_waiting s = 0"

section \<open>The invariant\<close>

definition within :: "nat option \<Rightarrow> nat \<Rightarrow> bool" where
  "within gate k = (case gate of None \<Rightarrow> True | Some n \<Rightarrow> k \<le> n)"

definition request_ok :: "request \<Rightarrow> bool" where
  "request_ok r \<longleftrightarrow> (rq_disk r = None \<or> ready_to_boot r)
     \<and> (rq_phase r = Wait_Slot \<or> rq_phase r = In_Daemon \<longrightarrow> ready_to_boot r)
     \<and> (rq_phase r = Wait_Admission \<longrightarrow> rq_client r \<and> rq_disk r = None)"

definition disk_users :: "string \<Rightarrow> gates \<Rightarrow> nat" where
  "disk_users d s = holders d (g_requests s) + count (g_locked s) d"

definition gate_inv :: "gates \<Rightarrow> bool" where
  "gate_inv s \<longleftrightarrow> g_admission s \<noteq> Some 0 \<and> g_slots s \<noteq> Some 0
     \<and> within (g_admission s) (size (filter_mset past_admission (g_requests s)))
     \<and> within (g_slots s) (size (filter_mset in_daemon (g_requests s)))
     \<and> g_waiting s = size (filter_mset waits (g_requests s))
     \<and> (\<forall>r \<in># g_requests s. request_ok r) \<and> (\<forall>d. disk_users d s \<le> 1)
     \<and> (g_pass s \<longrightarrow> filter_mset gate_reader (g_requests s) = {#})"

lemmas request_defs = waits_def past_admission_def in_daemon_def ready_to_boot_def request_ok_def

lemma room_within: "room g P rs \<Longrightarrow> within g (Suc (size (filter_mset P rs)))"
  by (auto simp: room_def within_def split: option.splits)

lemma within_Suc: "within g (Suc k) \<Longrightarrow> within g k"
  by (auto simp: within_def split: option.splits)

lemma disk_free_users: "disk_free d s \<Longrightarrow> disk_users d s = 0"
  by (simp add: disk_free_def disk_users_def count_eq_zero_iff)

lemma gate_slots_pos [simp]: "gate_slots n v \<noteq> Some 0" "within g 0"
  by (simp_all add: gate_slots_def within_def Let_def split: option.splits)

lemma holders_simps [simp]: "holders d {#} = 0" "holders d (add_mset r rs) = of_bool (rq_disk r = Some (Disk_Permit d)) + holders d rs"
  by (simp_all add: holders_def)

lemma gate_inv_start: "gate_start s \<Longrightarrow> gate_inv s"
  by (auto simp: gate_start_def gate_inv_def admission_gate_def bringup_gate_def disk_users_def dest: sym)

text \<open>One request moves on, the others stay: what the move must ensure to keep the invariant.\<close>

definition same_gates :: "gates \<Rightarrow> gates \<Rightarrow> bool" where
  "same_gates s t \<longleftrightarrow> g_admission t = g_admission s \<and> g_slots t = g_slots s \<and> g_locked t = g_locked s \<and> g_pass t = g_pass s"

lemma request_moves:
  assumes "gate_inv s" "g_requests s = add_mset r rs" "request_ok r'" "same_gates s t"
    and "past_admission r' \<Longrightarrow> past_admission r \<or> room (g_admission s) past_admission rs"
    and "in_daemon r' \<Longrightarrow> room (g_slots s) in_daemon rs"
    and "rq_disk r' = None \<or> rq_disk r' = rq_disk r \<or> (\<exists>p. rq_disk r' = Some p \<and> permit_free p s)"
    and "g_requests t = add_mset r' rs" "g_waiting t = g_waiting s + of_bool (waits r') - of_bool (waits r)"
  shows "gate_inv t"
proof -
  note inv = assms(1) [unfolded gate_inv_def assms(2)]
  have "within (g_admission s) (size (filter_mset past_admission (add_mset r' rs)))"
    using inv assms(5) room_within within_Suc by (auto split: if_splits)
  moreover have "within (g_slots s) (size (filter_mset in_daemon (add_mset r' rs)))"
    using inv assms(6) room_within within_Suc by (auto split: if_splits)
  moreover have "disk_users d t \<le> 1" for d
  proof -
    have "disk_users d s \<le> 1" using inv by blast
    moreover have "disk_users d s = 0" if "disk_free d s" using disk_free_users [OF that] .
    ultimately show ?thesis using assms(2,4,7,8) by (auto simp: disk_users_def same_gates_def permit_free_def split: if_splits)
  qed
  moreover have "g_pass t \<longrightarrow> filter_mset gate_reader (add_mset r' rs) = {#}"
  proof
    assume "g_pass t"
    then have g: "g_pass s" "\<not> gate_reader r" "filter_mset gate_reader rs = {#}"
      using inv assms(4) by (auto simp: same_gates_def split: if_splits)
    moreover have "\<not> gate_reader r'"
    proof
      assume "gate_reader r'"
      then obtain p where p: "rq_disk r' = Some p" "is_Gate_Permit p" by (auto simp: gate_reader_def split: option.splits)
      then have "\<not> permit_free p s" using g(1) by (cases p) (simp_all add: permit_free_def)
      with assms(7) p g(2) show False by (auto simp: gate_reader_def split: option.splits)
    qed
    ultimately show "filter_mset gate_reader (add_mset r' rs) = {#}" by simp
  qed
  ultimately show ?thesis using inv assms(3,4,8,9) by (auto simp: gate_inv_def same_gates_def)
qed

lemma request_leaves:
  assumes "gate_inv s" "g_requests s = add_mset r rs" "same_gates s t" "g_requests t = rs" "g_waiting t = g_waiting s - of_bool (waits r)"
  shows "gate_inv t"
proof -
  have "disk_users d t \<le> 1" for d
  proof -
    have "disk_users d s \<le> 1" using assms(1) by (simp add: gate_inv_def)
    then show ?thesis using assms(2-4) by (auto simp: disk_users_def same_gates_def split: if_splits)
  qed
  moreover have "g_pass t \<longrightarrow> filter_mset gate_reader rs = {#}"
    using assms(1-3) by (auto simp: gate_inv_def same_gates_def split: if_splits)
  ultimately show ?thesis using assms within_Suc by (auto simp: gate_inv_def same_gates_def split: if_splits)
qed

lemma request_arrives:
  assumes "gate_inv s" "request_ok r" "rq_disk r = None" "\<not> in_daemon r" "same_gates s t"
    and "past_admission r \<Longrightarrow> room (g_admission s) past_admission (g_requests s)"
    and "g_requests t = add_mset r (g_requests s)" "g_waiting t = g_waiting s + of_bool (waits r)"
  shows "gate_inv t"
  using assms room_within by (auto simp: gate_inv_def same_gates_def disk_users_def gate_reader_def)

lemma locks_change:
  assumes "gate_inv s" "\<And>d. disk_users d t \<le> 1" "t = s\<lparr>g_locked := ds\<rparr>"
  shows "gate_inv t"
  using assms by (auto simp: gate_inv_def)

lemma request_ok_phase [simp]:
  "ready_to_boot (r\<lparr>rq_phase := p\<rparr>) = ready_to_boot r"
  by (simp add: ready_to_boot_def split: list.splits)

lemma work_step_inv: "work_step s t \<Longrightarrow> gate_inv s \<Longrightarrow> gate_inv t"
proof (induction rule: work_step.induct)
  case (unlocked s d ds)
  have "disk_users x (s\<lparr>g_locked := ds\<rparr>) \<le> 1" for x
  proof -
    have "disk_users x s \<le> 1" using unlocked(2) by (simp add: gate_inv_def)
    then show ?thesis using unlocked(1) by (auto simp: disk_users_def split: if_splits)
  qed
  then show ?case by (rule locks_change [OF unlocked(2) _ refl])
next
  case (finished s r rs)
  then show ?case by (intro request_leaves [OF finished(4,1)]) (simp_all add: same_gates_def waits_def)
next
  case (permit_taken s r rs p bs)
  show ?case
    using permit_taken(2-5) by (intro request_moves [OF permit_taken(6,1)]) (auto simp: same_gates_def request_defs)
next
  case (pass_ended s)
  then show ?case by (simp add: gate_inv_def disk_users_def)
next
  case (admitted s r rs)
  then have "request_ok r" by (simp add: gate_inv_def)
  then show ?case
    using admitted(2,3) by (intro request_moves [OF admitted(4,1)]) (auto simp: same_gates_def request_defs)
next
  case (slot_taken s r rs)
  show ?case using slot_taken(2-4) by (intro request_moves [OF slot_taken(5,1)]) (auto simp: same_gates_def request_ok_def request_defs(1-3))
next
  case (slot_queued s r rs)
  show ?case using slot_queued(2,3) by (intro request_moves [OF slot_queued(5,1)]) (auto simp: same_gates_def request_ok_def request_defs(1-3))
next
  case (slot_granted s r rs)
  then have "request_ok r" by (simp add: gate_inv_def)
  then show ?case
    using slot_granted(2,3) by (intro request_moves [OF slot_granted(4,1)]) (auto simp: same_gates_def request_ok_def request_defs(1-3))
next
  case (boot_ended s r rs)
  show ?case using boot_ended(2) by (intro request_moves [OF boot_ended(3,1)]) (auto simp: same_gates_def request_defs)
qed

lemma gate_step_inv: "gate_step s t \<Longrightarrow> gate_inv s \<Longrightarrow> gate_inv t"
proof (induction rule: gate_step.induct)
  case (work s t)
  then show ?case by (rule work_step_inv)
next
  case (request_dropped s r rs)
  show ?case by (rule request_leaves [OF request_dropped(2,1)]) (simp_all add: same_gates_def)
next
  case (pass_locks d s)
  have "disk_users x (s\<lparr>g_locked := add_mset d (g_locked s)\<rparr>) \<le> 1" for x
    using disk_free_users [OF pass_locks(1)] pass_locks(2) by (auto simp: gate_inv_def disk_users_def)
  then show ?case by (rule locks_change [OF pass_locks(2) _ refl])
next
  case (pass_gated s)
  then show ?case by (simp add: gate_inv_def disk_users_def)
next
  case (client_admitted s bs)
  show ?case using client_admitted(1) by (intro request_arrives [OF client_admitted(2)]) (auto simp: same_gates_def request_defs)
next
  case (client_queued s bs)
  show ?case by (intro request_arrives [OF client_queued(2)]) (auto simp: same_gates_def request_defs)
next
  case (action_arrives s bs)
  show ?case by (intro request_arrives [OF action_arrives]) (auto simp: same_gates_def request_defs)
qed

interpretation gate_life: inductive_invariant gate_start gate_step gate_inv
  by unfold_locales (auto intro: gate_inv_start gate_step_inv)

section \<open>What the gates ensure\<close>

text \<open>
  C26: The daemon never sees more calls than the gates allow, and the pooler knows who waits. In every
  reachable state the pooler has at most as many deploy and boot calls open at the daemon as there are
  bring-up slots (3 unless set; a build that goes on after its deploy was accepted is not such a call),
  and at most as many bring-ups are past admission as its gate allows (16 unless set); the waiting counter
  is exactly the number of queued requests, those of clients that left no longer among them, so the
  offload pacer is held back exactly while somebody is queued (or a pass or a sweep runs); the lock of a
  disk is held once, and no boot has the boot gate while a pass does.
\<close>

theorem gates_bound_daemon:
  assumes "run_of gate_start gate_step s"
  shows "(case g_slots s of None \<Rightarrow> True | Some n \<Rightarrow> size (filter_mset in_daemon (g_requests s)) \<le> n)
     \<and> (case g_admission s of None \<Rightarrow> True | Some n \<Rightarrow> size (filter_mset past_admission (g_requests s)) \<le> n)
     \<and> g_waiting s = size (filter_mset waits (g_requests s))
     \<and> (dispatch_backpressure (g_waiting s) pass sweep \<longleftrightarrow> filter_mset waits (g_requests s) \<noteq> {#} \<or> pass \<or> sweep)
     \<and> holders d (g_requests s) + count (g_locked s) d \<le> 1
     \<and> (g_pass s \<longrightarrow> filter_mset gate_reader (g_requests s) = {#})"
proof -
  have inv: "gate_inv s" by (rule gate_life.reachable_inv [OF assms])
  then have "dispatch_backpressure (g_waiting s) pass sweep \<longleftrightarrow> filter_mset waits (g_requests s) \<noteq> {#} \<or> pass \<or> sweep"
    unfolding dispatch_backpressure_def gate_inv_def nonempty_has_size by metis
  then show ?thesis using inv by (simp add: gate_inv_def within_def disk_users_def)
qed

section \<open>Nobody waits for ever\<close>

text \<open>The work a request has left, a number every step of its own decreases.\<close>

fun phase_left :: "phase \<Rightarrow> nat" where
  "phase_left Wait_Admission = 5"
| "phase_left At_Work = 3"
| "phase_left Wait_Slot = 2"
| "phase_left In_Daemon = 1"

definition request_left :: "request \<Rightarrow> nat" where
  "request_left r = 4 * length (rq_todo r) + phase_left (rq_phase r) + of_bool (rq_phase r = At_Work \<and> rq_disk r = None)"

definition work_left :: "gates \<Rightarrow> nat" where
  "work_left s = sum_mset (image_mset request_left (g_requests s)) + size (g_locked s) + of_bool (g_pass s)"

lemma ready_todo: "ready_to_boot r \<Longrightarrow> 0 < length (rq_todo r)"
  by (auto simp: ready_to_boot_def split: list.splits)

lemma work_step_decreases: "work_step s t \<Longrightarrow> gate_inv s \<Longrightarrow> work_left t < work_left s"
proof (induction rule: work_step.induct)
  case (boot_ended s r rs)
  then have "0 < length (rq_todo r)" by (intro ready_todo) (auto simp: gate_inv_def request_ok_def)
  then show ?case using boot_ended(1,2) by (cases "rq_todo r") (simp_all add: work_left_def request_left_def)
qed (auto simp: work_left_def request_left_def)

lemma work_bounded:
  assumes "(work_step ^^ n) s t" "gate_inv s"
  shows "n + work_left t \<le> work_left s \<and> gate_inv t"
  using assms
proof (induction n arbitrary: t)
  case (Suc n)
  then obtain u where u: "(work_step ^^ n) s u" "work_step u t" by auto
  then show ?case using Suc.IH [OF u(1) Suc.prems(2)] work_step_decreases [OF u(2)] work_step_inv [OF u(2)] by simp
qed simp

text \<open>While anything is left, something can go on: the order admission, disk permit, slot has no cycle.\<close>

lemma room_empty:
  assumes "g \<noteq> Some 0" "\<And>r. r \<in># rs \<Longrightarrow> \<not> P r"
  shows "room g P rs"
proof -
  have "filter_mset P rs = {#}" using assms(2) by simp
  then show ?thesis unfolding room_def using assms(1) by (metis gr0I option.case_eq_if option.collapse size_empty)
qed

lemma holder_exists: "holders d rs \<noteq> 0 \<Longrightarrow> \<exists>r \<in># rs. rq_disk r = Some (Disk_Permit d)"
  by (induction rs) (auto split: if_splits)

lemma work_goes_on:
  assumes "gate_inv s" "g_requests s \<noteq> {#} \<or> g_locked s \<noteq> {#} \<or> g_pass s"
  shows "\<exists>t. work_step s t"
proof (rule ccontr)
  assume stuck: "\<nexists>t. work_step s t"
  have sl: "g_slots s \<noteq> Some 0" "g_admission s \<noteq> Some 0" using assms(1) by (simp_all add: gate_inv_def)
  have locked: "g_locked s = {#}" using stuck unlocked by (metis multiset_cases)
  have pass: "\<not> g_pass s" using stuck pass_ended by blast
  have ok: "request_ok r" if "r \<in># g_requests s" for r using assms(1) that by (simp add: gate_inv_def)
  have split: "\<exists>rs. g_requests s = add_mset r rs" if "r \<in># g_requests s" for r using that by (metis insert_DiffM)
  have d: "rq_phase r \<noteq> In_Daemon" if "r \<in># g_requests s" for r using stuck boot_ended split [OF that] by metis
  have slot: "room (g_slots s) in_daemon rs" if "g_requests s = add_mset r rs" for r rs
    using d that by (intro room_empty sl) (auto simp: in_daemon_def)
  have w: "rq_phase r \<noteq> Wait_Slot" if "r \<in># g_requests s" for r using stuck slot_granted slot split [OF that] by metis
  have nr: "\<not> ready_to_boot r" if "r \<in># g_requests s" "rq_phase r = At_Work" for r
    using stuck slot_taken slot split [OF that(1)] that(2) by metis
  have free: "rq_disk r = None" if "r \<in># g_requests s" for r
    using ok [OF that] nr [OF that] d [OF that] w [OF that] by (cases "rq_phase r") (auto simp: request_ok_def)
  have "disk_free x s" for x
    using locked free holder_exists [of x "g_requests s"] by (force simp: disk_free_def)
  then have df: "permit_free p s" for p using pass by (simp add: permit_free_def split: permit.splits)
  have a: "rq_phase r \<noteq> At_Work" if r: "r \<in># g_requests s" for r
  proof
    assume p: "rq_phase r = At_Work"
    obtain rs where rs: "g_requests s = add_mset r rs" using split [OF r] by blast
    have "rq_todo r \<noteq> []" using stuck finished [OF rs p] by blast
    moreover have "rq_todo r \<noteq> Some x # bs" for x bs using stuck permit_taken [OF rs p free [OF r] _ df] by blast
    moreover have "rq_todo r \<noteq> None # bs" for bs using nr [OF r p] free [OF r] by (auto simp: ready_to_boot_def)
    ultimately show False by (metis list.exhaust option.exhaust)
  qed
  have adm: "rq_phase r = Wait_Admission" if "r \<in># g_requests s" for r using a d w that by (cases "rq_phase r") auto
  obtain r rs where r: "g_requests s = add_mset r rs" using assms(2) locked pass by (metis multiset_cases)
  have "room (g_admission s) past_admission rs"
    using adm r by (intro room_empty sl) (auto simp: past_admission_def)
  then show False using stuck admitted r adm [of r] by (metis union_single_eq_member)
qed

text \<open>
  C27: Every request is served. From any reachable state, if nobody new arrives, the gates can take only so many
  steps, and they stop only when every request has made all its daemon calls and left, the counter is
  back at 0 and neither a disk nor the boot gate is held: admission, permits of both kinds and slots cannot
  deadlock, in whatever order waiters are served.
\<close>

theorem gates_serve_everyone:
  assumes "run_of gate_start gate_step s"
  shows "((work_step ^^ n) s t \<longrightarrow> n \<le> work_left s)
     \<and> (work_step\<^sup>*\<^sup>* s t \<longrightarrow> (\<nexists>u. work_step t u) \<longrightarrow> g_requests t = {#} \<and> g_locked t = {#} \<and> \<not> g_pass t \<and> g_waiting t = 0)"
proof (intro conjI impI)
  have inv: "gate_inv s" by (rule gate_life.reachable_inv [OF assms])
  show "n \<le> work_left s" if "(work_step ^^ n) s t" using work_bounded [OF that inv] by simp
  assume run: "work_step\<^sup>*\<^sup>* s t" and stop: "\<nexists>u. work_step t u"
  have t: "gate_inv t" using run work_bounded [OF _ inv] by (metis rtranclp_imp_relpowp)
  show "g_requests t = {#}" "g_locked t = {#}" "\<not> g_pass t" using work_goes_on [OF t] stop by blast+
  then show "g_waiting t = 0" using t by (simp add: gate_inv_def)
qed

text \<open>One bring-up that deploys a VM, alone at the gates.\<close>

definition quiet :: gates where
  "quiet = \<lparr>g_admission = Some 16, g_slots = Some 3, g_requests = {#}, g_locked = {#}, g_pass = False, g_waiting = 0\<rparr>"

abbreviation deploying :: "phase \<Rightarrow> permit option list \<Rightarrow> request" where
  "deploying p bs \<equiv> \<lparr>rq_client = True, rq_phase = p, rq_disk = None, rq_todo = bs\<rparr>"

lemma quiet_start: "gate_start quiet"
proof -
  have "admission_gate None = Some 16" "bringup_gate None = Some 3"
    by (simp_all add: admission_gate_def bringup_gate_def gate_slots_def DEFAULT_PENDING_BRINGUPS_def DEFAULT_BRINGUP_SLOTS_def)
  then show ?thesis by (auto simp: gate_start_def quiet_def intro: exI [of _ None])
qed

lemma one_queued: "run_of gate_start gate_step (quiet\<lparr>g_requests := {#deploying Wait_Admission [None]#}, g_waiting := 1\<rparr>)"
proof -
  have "run_of gate_start gate_step quiet" by (rule run_init) (rule quiet_start)
  then show ?thesis
    by (rule run_next) (rule client_queued [of quiet "[None]"], simp_all add: quiet_def)
qed

theorem gates_bound_daemon_witness:
  "g_waiting (quiet\<lparr>g_requests := {#deploying Wait_Admission [None]#}, g_waiting := 1\<rparr>) = 1
   \<and> dispatch_backpressure (g_waiting (quiet\<lparr>g_requests := {#deploying Wait_Admission [None]#}, g_waiting := 1\<rparr>)) False False"
  using gates_bound_daemon [OF one_queued, of False False] by (simp add: waits_def)

theorem gates_serve_everyone_witness:
  "\<nexists>t. (work_step ^^ 10) (quiet\<lparr>g_requests := {#deploying Wait_Admission [None]#}, g_waiting := 1\<rparr>) t"
proof
  let ?s = "quiet\<lparr>g_requests := {#deploying Wait_Admission [None]#}, g_waiting := 1\<rparr>"
  have w: "work_left ?s = 9" by (simp add: work_left_def request_left_def quiet_def)
  assume "\<exists>t. (work_step ^^ 10) ?s t"
  then have "10 \<le> work_left ?s" using gates_serve_everyone [OF one_queued] by blast
  then show False using w by linarith
qed

end
