(* ===== verification/Provisioning.thy ===== *)
theory Provisioning
  imports Session
begin

text \<open>
  Dedicated databases as an operator sees them: \<open>src/src/dashboard/dedicated.rs\<close> (the JSON API and the form),
  \<open>create_dedicated\<close> and \<open>spawn_provision\<close> of \<open>src/src/registry.rs\<close>, and the life of tenants on a host where
  clients connect, VMs come up and are evicted, and databases are provisioned and revoked, in any order.
\<close>

section \<open>Trimming twice\<close>

lemma strip_any_None_iff: "strip_any ws s = None \<longleftrightarrow> (\<forall>w \<in> set ws. take (length w) s \<noteq> w)"
  by (induction ws) auto

lemma trim_with_stripped: "[] \<notin> set ws \<Longrightarrow> strip_any ws (trim_with ws s) = None"
  by (induction ws s rule: trim_with.induct) (subst trim_with.simps, simp split: option.splits)

lemma strip_any_suffix: "strip_any ws s = Some t \<Longrightarrow> \<exists>p. s = p @ t"
  by (induction ws) (auto split: if_splits, metis append_take_drop_id)

lemma trim_with_suffix: "\<exists>p. s = p @ trim_with ws s"
proof (induction ws s rule: trim_with.induct)
  case (1 ws s)
  show ?case
  proof (cases "[] \<in> set ws \<or> strip_any ws s = None")
    case True
    then show ?thesis by (subst trim_with.simps) auto
  next
    case False
    then obtain t where t: "[] \<notin> set ws" "strip_any ws s = Some t" by auto
    then obtain p q where "s = p @ t" "t = q @ trim_with ws t" using 1 strip_any_suffix by metis
    then show ?thesis using t by (subst trim_with.simps) (simp, metis append.assoc)
  qed
qed

lemma trim_with_fixed: "strip_any ws s = None \<Longrightarrow> trim_with ws s = s"
  by (subst trim_with.simps) simp

lemma rust_trim_idem [simp]: "rust_trim (rust_trim s) = rust_trim s"
proof -
  let ?t = "trim_with ws_seqs s" and ?r = "trim_with (map rev ws_seqs) (rev (trim_with ws_seqs s))"
  obtain p where p: "rev ?t = p @ ?r" using trim_with_suffix by blast
  then have "?t = rev ?r @ rev p" by (metis rev_append rev_rev_ident)
  then have "take (length w) (rev ?r) \<noteq> w" if "w \<in> set ws_seqs" for w
    using trim_with_stripped [OF ws_seqs_nonempty(1), of s] that
    by (auto simp: strip_any_None_iff) (metis append_take_drop_id append.assoc append_eq_conv_conj)
  then have a: "trim_with ws_seqs (rev ?r) = rev ?r" by (intro trim_with_fixed) (auto simp: strip_any_None_iff)
  have "trim_with (map rev ws_seqs) ?r = ?r" by (intro trim_with_fixed trim_with_stripped ws_seqs_nonempty)
  then show ?thesis by (simp add: rust_trim_def a)
qed

section \<open>Provisioning and revoking\<close>

datatype create_error = Existing_Schema string | Not_Created cred_error

text \<open>\<open>create_dedicated\<close> refuses a name that backs an ordinary schema; the credential store does the rest.\<close>

definition create_dedicated ::
  "store \<Rightarrow> u64 \<Rightarrow> bool \<Rightarrow> string \<Rightarrow> string \<Rightarrow> string \<Rightarrow> credentials \<Rightarrow> (create_error + credential) \<times> credentials" where
  "create_dedicated str now disk_ok db rl pw cs =
     (if store_record str db \<noteq> None \<and> \<not> is_dedicated cs db then (Inl (Existing_Schema db), cs)
      else (case cred_create now disk_ok db rl pw cs of
              (Inl e, cs') \<Rightarrow> (Inl (Not_Created e), cs')
            | (Inr c, cs') \<Rightarrow> (Inr c, cs')))"

text \<open>\<open>provision\<close>: the role defaults to the database name, the password to a generated one (\<open>rng\<close> its random bytes).\<close>

definition provision ::
  "store \<Rightarrow> u64 \<Rightarrow> bool \<Rightarrow> bytes option \<Rightarrow> string \<Rightarrow> string option \<Rightarrow> string option \<Rightarrow> credentials \<Rightarrow>
     (create_error + credential) \<times> credentials" where
  "provision str now disk_ok rng db0 username pw0 cs =
     (let db = rust_trim db0;
          rl = (case username of None \<Rightarrow> db | Some u \<Rightarrow> rust_trim u)
      in case (case pw0 of Some p \<Rightarrow> Inr p | None \<Rightarrow> generate_password rng) of
           Inl e \<Rightarrow> (Inl (Not_Created e), cs)
         | Inr pw \<Rightarrow> create_dedicated str now disk_ok db rl pw cs)"

datatype api_reply = Reply_Created credential | Bad_Request create_error | No_Content | Not_Found | Server_Error cred_error

definition api_create ::
  "store \<Rightarrow> u64 \<Rightarrow> bool \<Rightarrow> bytes option \<Rightarrow> string \<Rightarrow> string option \<Rightarrow> string option \<Rightarrow> credentials \<Rightarrow> api_reply \<times> credentials" where
  "api_create str now disk_ok rng db0 username pw0 cs =
     (case provision str now disk_ok rng db0 username pw0 cs of
        (Inr c, cs') \<Rightarrow> (Reply_Created c, cs')
      | (Inl e, cs') \<Rightarrow> (Bad_Request e, cs'))"

definition api_delete :: "bool \<Rightarrow> string \<Rightarrow> credentials \<Rightarrow> api_reply \<times> credentials" where
  "api_delete disk_ok db cs =
     (case cred_remove disk_ok db cs of
        (Inr True, cs') \<Rightarrow> (No_Content, cs')
      | (Inr False, cs') \<Rightarrow> (Not_Found, cs')
      | (Inl e, cs') \<Rightarrow> (Server_Error e, cs'))"

text \<open>The form: a field left blank is unset.\<close>

definition blank_to_none :: "string \<Rightarrow> string option" where
  "blank_to_none s = (if rust_trim s = [] then None else Some (rust_trim s))"

definition create_form ::
  "store \<Rightarrow> u64 \<Rightarrow> bool \<Rightarrow> bytes option \<Rightarrow> string \<Rightarrow> string \<Rightarrow> string \<Rightarrow> credentials \<Rightarrow> (create_error + credential) \<times> credentials" where
  "create_form str now disk_ok rng db username pw cs =
     provision str now disk_ok rng db (blank_to_none username) (blank_to_none pw) cs"

record database_info =
  info_database :: string
  info_username :: string
  info_created_at :: u64
  info_sandbox_id :: "string option"
  info_tier :: "tier option"

definition dedicated_rows :: "credentials \<Rightarrow> store \<Rightarrow> database_info list" where
  "dedicated_rows cs str =
     map (\<lambda>(db, rl, t). \<lparr>info_database = db, info_username = rl, info_created_at = t,
        info_sandbox_id = map_option sandbox_id (store_record str db), info_tier = map_option tier_of (store_record str db)\<rparr>) (cred_list cs)"

lemma cred_create_get:
  assumes "cred_create now disk_ok db rl pw cs = (res, cs')"
  shows "case res of
      Inr c \<Rightarrow> cred_database c = rust_trim db \<and> password c = pw \<and> role c = rust_trim rl \<and> hm_get (by_database cs) (cred_database c) = None
        \<and> hm_get (by_database cs') = (hm_get (by_database cs))(cred_database c \<mapsto> c)
    | Inl _ \<Rightarrow> hm_get (by_database cs') = hm_get (by_database cs)"
  using assms
  by (auto simp: cred_create_def cred_insert_def cred_persist_def validate_identifier_Inr Let_def fun_eq_iff
      split: sum.splits option.splits if_splits)

lemma provision_spec:
  "case provision str now disk_ok rng db0 username pw0 cs of
     (Inr c, cs') \<Rightarrow> cred_database c = rust_trim db0 \<and> store_record str (cred_database c) = None
       \<and> hm_get (by_database cs) (cred_database c) = None
       \<and> role c = (case username of None \<Rightarrow> cred_database c | Some u \<Rightarrow> rust_trim u)
       \<and> (case pw0 of Some p \<Rightarrow> password c = p | None \<Rightarrow> generate_password rng = Inr (password c))
       \<and> hm_get (by_database cs') = (hm_get (by_database cs))(cred_database c \<mapsto> c)
   | (Inl _, cs') \<Rightarrow> hm_get (by_database cs') = hm_get (by_database cs)"
proof -
  define db rl where names: "db = rust_trim db0" "rl = (case username of None \<Rightarrow> db | Some u \<Rightarrow> rust_trim u)"
  have tr: "rust_trim db = db" "rust_trim rl = rl" by (simp_all add: names split: option.splits)
  have create: "case create_dedicated str now disk_ok db rl pw cs of
      (Inr c, cs') \<Rightarrow> cred_database c = db \<and> store_record str db = None \<and> hm_get (by_database cs) db = None
        \<and> role c = rl \<and> password c = pw \<and> hm_get (by_database cs') = (hm_get (by_database cs))(db \<mapsto> c)
    | (Inl _, cs') \<Rightarrow> hm_get (by_database cs') = hm_get (by_database cs)" for pw
  proof (cases "cred_create now disk_ok db rl pw cs")
    case (Pair res cs')
    from cred_create_get [OF this] Pair show ?thesis
      by (cases res) (auto simp: create_dedicated_def is_dedicated_def tr)
  qed
  have p: "provision str now disk_ok rng db0 username pw0 cs =
      (case (case pw0 of Some p \<Rightarrow> Inr p | None \<Rightarrow> generate_password rng) of
         Inl e \<Rightarrow> (Inl (Not_Created e), cs) | Inr pw \<Rightarrow> create_dedicated str now disk_ok db rl pw cs)"
    unfolding provision_def Let_def names(2) names(1) ..
  show ?thesis
  proof (cases "case pw0 of Some p \<Rightarrow> Inr p | None \<Rightarrow> generate_password rng")
    case (Inl e)
    then show ?thesis by (simp add: p)
  next
    case (Inr pw)
    then show ?thesis using create [of pw]
      by (auto simp: p names split: prod.splits sum.splits option.splits)
  qed
qed

lemma provision_get:
  assumes "provision str now disk_ok rng db0 username pw0 cs = (res, cs')"
  shows "hm_get (by_database cs') = hm_get (by_database cs)
     \<or> (\<exists>c. cred_database c = rust_trim db0 \<and> store_record str (rust_trim db0) = None \<and> hm_get (by_database cs) (rust_trim db0) = None
          \<and> hm_get (by_database cs') = (hm_get (by_database cs))(rust_trim db0 \<mapsto> c))"
proof (cases res)
  case (Inl e)
  then show ?thesis using provision_spec [of cs db0 str username rng pw0 now disk_ok] unfolding assms by simp
next
  case (Inr c)
  then show ?thesis using provision_spec [of cs db0 str username rng pw0 now disk_ok] unfolding assms by auto
qed

text \<open>
  Provisioning takes over nobody's data. A database is provisioned only under a name that no schema of the
  registry and no other credential has; then exactly this credential is added, with the password asked
  for, or a generated one; otherwise the credentials are as they were.
\<close>

theorem provision_takes_free_names:
  "case provision str now disk_ok rng db0 username pw0 cs of
     (Inr c, cs') \<Rightarrow> cred_database c = rust_trim db0 \<and> store_record str (cred_database c) = None
       \<and> hm_get (by_database cs) (cred_database c) = None
       \<and> role c = (case username of None \<Rightarrow> cred_database c | Some u \<Rightarrow> rust_trim u)
       \<and> (case pw0 of Some p \<Rightarrow> password c = p | None \<Rightarrow> generate_password rng = Inr (password c))
       \<and> hm_get (by_database cs') = (hm_get (by_database cs))(cred_database c \<mapsto> c)
   | (Inl _, cs') \<Rightarrow> hm_get (by_database cs') = hm_get (by_database cs)"
  by (rule provision_spec)

section \<open>Tenants on a host\<close>

text \<open>
  A bring-up in flight: for which schema, the credential read before it began (\<open>owner_of\<close>), and the role of
  the client it is for, or None for the warm-up after provisioning. \<open>tn_roles\<close> are the login roles created
  in the VM of a schema, \<open>tn_warm\<close> the schemas with a cached VM, \<open>tn_sessions\<close> the roles spliced to them.
\<close>

record flight =
  fl_db :: string
  fl_owner :: "credential option"
  fl_role :: "string option"

record tenancy =
  tn_store :: store
  tn_creds :: credentials
  tn_flights :: "flight set"
  tn_warm :: "string set"
  tn_roles :: "string \<Rightarrow> string set"
  tn_sessions :: "(string \<times> string) set"

definition begin_bringup :: "string \<Rightarrow> string option \<Rightarrow> tenancy \<Rightarrow> tenancy" where
  "begin_bringup db rl s =
     s\<lparr>tn_flights := insert \<lparr>fl_db = db, fl_owner = hm_get (by_database (tn_creds s)) db, fl_role = rl\<rparr> (tn_flights s)\<rparr>"

text \<open>The end of a bring-up: the role is in the VM, the schema is recorded and cached, the client spliced.\<close>

definition end_bringup :: "u64 \<Rightarrow> string \<Rightarrow> flight \<Rightarrow> tenancy \<Rightarrow> tenancy" where
  "end_bringup now sid f s =
     s\<lparr>tn_flights := tn_flights s - {f}, tn_store := store_put now (fl_db f) sid (tn_store s), tn_warm := insert (fl_db f) (tn_warm s),
       tn_roles := (tn_roles s)(fl_db f := (case fl_owner f of None \<Rightarrow> tn_roles s (fl_db f) | Some c \<Rightarrow> insert (role c) (tn_roles s (fl_db f)))),
       tn_sessions := (case fl_role f of None \<Rightarrow> tn_sessions s | Some rl \<Rightarrow> insert (rl, fl_db f) (tn_sessions s))\<rparr>"

text \<open>
  One process life. With \<open>quiet\<close>, a database is provisioned only while no bring-up of its name is in flight,
  which the code does not check.
\<close>

inductive tenancy_step :: "bool \<Rightarrow> tenancy \<Rightarrow> tenancy \<Rightarrow> bool" for quiet where
  connects: "authorize (tn_creds s) rl db = Inr () \<Longrightarrow> is_valid_schema db \<Longrightarrow> tenancy_step quiet s (begin_bringup db (Some rl) s)"
| warms_up: "is_dedicated (tn_creds s) db \<Longrightarrow> tenancy_step quiet s (begin_bringup db None s)"
| comes_up: "f \<in> tn_flights s \<Longrightarrow> tenancy_step quiet s (end_bringup now sid f s)"
| fails: "f \<in> tn_flights s \<Longrightarrow> tenancy_step quiet s (s\<lparr>tn_flights := tn_flights s - {f}\<rparr>)"
| joins: "authorize (tn_creds s) rl db = Inr () \<Longrightarrow> is_valid_schema db \<Longrightarrow> db \<in> tn_warm s \<Longrightarrow>
    tenancy_step quiet s (s\<lparr>tn_sessions := insert (rl, db) (tn_sessions s)\<rparr>)"
| leaves: "tenancy_step quiet s (s\<lparr>tn_sessions := tn_sessions s - {x}\<rparr>)"
| evicted: "tenancy_step quiet s (s\<lparr>tn_warm := tn_warm s - {db}\<rparr>)"
| provisioned: "now < U64_LIMIT \<Longrightarrow> (quiet \<longrightarrow> (\<forall>f \<in> tn_flights s. fl_db f \<noteq> rust_trim db0)) \<Longrightarrow>
    provision (tn_store s) now disk_ok rng db0 username pw0 (tn_creds s) = (res, cs) \<Longrightarrow> tenancy_step quiet s (s\<lparr>tn_creds := cs\<rparr>)"
| revoked: "tenancy_step quiet s (s\<lparr>tn_creds := snd (api_delete disk_ok db (tn_creds s))\<rparr>)"

definition tenancy_start :: "tenancy \<Rightarrow> bool" where
  "tenancy_start s \<longleftrightarrow> cred_inv (tn_creds s) \<and> tn_flights s = {} \<and> tn_warm s = {} \<and> tn_sessions s = {}"

text \<open>
  Once provisioned, a database is its tenant's: its bring-ups carry the credential, its sessions are of its
  role, and its cached VM knows the role.
\<close>

definition owned_by :: "credential \<Rightarrow> string \<Rightarrow> tenancy \<Rightarrow> bool" where
  "owned_by c db s \<longleftrightarrow> (\<forall>f \<in> tn_flights s. fl_db f = db \<longrightarrow> fl_owner f = Some c \<and> (fl_role f = None \<or> fl_role f = Some (role c)))
     \<and> (\<forall>rl. (rl, db) \<in> tn_sessions s \<longrightarrow> rl = role c) \<and> (db \<in> tn_warm s \<longrightarrow> role c \<in> tn_roles s db)"

definition recorded :: "string \<Rightarrow> store \<Rightarrow> bool" where
  "recorded db str \<longleftrightarrow> store_record str db \<noteq> None"

definition tenancy_inv :: "tenancy \<Rightarrow> bool" where
  "tenancy_inv s \<longleftrightarrow> cred_inv (tn_creds s)
     \<and> (\<forall>db. db \<in> tn_warm s \<or> (\<exists>rl. (rl, db) \<in> tn_sessions s) \<longrightarrow> recorded db (tn_store s))
     \<and> (\<forall>db c. hm_get (by_database (tn_creds s)) db = Some c \<longrightarrow> owned_by c db s)"

lemma owned_by_creds [simp]: "owned_by c db (s\<lparr>tn_creds := cs\<rparr>) = owned_by c db s"
  by (simp add: owned_by_def)

lemma cred_inv_provision:
  assumes "cred_inv cs" "now < U64_LIMIT"
  shows "cred_inv (snd (provision str now disk_ok rng db0 username pw0 cs))"
proof -
  have "cred_inv (snd (create_dedicated str now disk_ok db rl pw cs))" for db rl pw
    using assms cred_inv_create [OF assms, of disk_ok db rl pw]
    by (auto simp: create_dedicated_def split: prod.splits sum.splits)
  then show ?thesis using assms(1) by (auto simp: provision_def Let_def split: sum.splits)
qed

lemma api_delete_creds: "snd (api_delete disk_ok db cs) = snd (cred_remove disk_ok db cs)"
  by (auto simp: api_delete_def split: prod.splits sum.splits bool.splits)

lemma cred_remove_get: "hm_get (by_database (snd (cred_remove disk_ok db cs))) x = Some c \<Longrightarrow> hm_get (by_database cs) x = Some c"
  by (auto simp: cred_remove_def cred_persist_def Let_def split: if_splits)

lemma authorized_tenant:
  "cred_inv cs \<Longrightarrow> authorize cs rl db = Inr () \<Longrightarrow> hm_get (by_database cs) db = Some c \<Longrightarrow> rl = role c"
  using authorize_Inr_iff [of cs rl db] by (auto simp: cred_inv_def)

lemma put_recorded: "recorded x (store_put now k sid s) \<longleftrightarrow> x = k \<or> recorded x s"
  using store_put_look [of sid now k s] by (auto simp: recorded_def store_record_def)

lemma tenancy_inv_step: "tenancy_step True s t \<Longrightarrow> tenancy_inv s \<Longrightarrow> tenancy_inv t"
proof (induction rule: tenancy_step.induct)
  case (connects s rl db)
  then show ?case using authorized_tenant [of "tn_creds s" rl db]
    by (auto simp: tenancy_inv_def owned_by_def begin_bringup_def)
next
  case (warms_up s db)
  then show ?case by (auto simp: tenancy_inv_def owned_by_def begin_bringup_def)
next
  case (comes_up f s now sid)
  have "owned_by c db (end_bringup now sid f s)" if "owned_by c db s" for c db
    using that comes_up(1) by (auto simp: owned_by_def end_bringup_def split: option.splits)
  then show ?case using comes_up
    by (auto simp: tenancy_inv_def put_recorded end_bringup_def split: option.splits)
next
  case (joins s rl db)
  then show ?case using authorized_tenant [of "tn_creds s" rl db] by (auto simp: tenancy_inv_def owned_by_def)
next
  case (provisioned now s db0 disk_ok rng username pw0 res cs)
  have ci: "cred_inv cs" using cred_inv_provision provisioned(1,3,4) by (metis snd_conv tenancy_inv_def)
  have new: "owned_by c (rust_trim db0) s" if "store_record (tn_store s) (rust_trim db0) = None" for c
    using that provisioned(2,4) by (auto simp: tenancy_inv_def owned_by_def recorded_def)
  from provision_get [OF provisioned(3)] show ?case
    using provisioned(4) ci new by (auto simp: tenancy_inv_def split: if_splits)
next
  case (revoked s disk_ok db)
  then show ?case
    using cred_inv_remove [of "tn_creds s" disk_ok db] cred_remove_get [of disk_ok db "tn_creds s"]
    by (auto simp: tenancy_inv_def api_delete_creds)
qed (auto simp: tenancy_inv_def owned_by_def)

interpretation tenants: inductive_invariant tenancy_start "tenancy_step True" tenancy_inv
  by unfold_locales (simp add: tenancy_start_def tenancy_inv_def owned_by_def, rule tenancy_inv_step)

text \<open>
  C9: A tenant is alone in its database. If databases are provisioned only while no bring-up of their name is
  in flight, then in every state that clients, bring-ups, evictions, provisioning and revocation can lead
  to, a database that has a credential is used by nobody but its role: every session on it is of that
  role, every bring-up of it will create the role, and a VM that is cached for it knows the role.
\<close>

theorem tenants_isolated:
  assumes "run_of tenancy_start (tenancy_step True) s" "hm_get (by_database (tn_creds s)) db = Some c"
  shows "(\<forall>rl. (rl, db) \<in> tn_sessions s \<longrightarrow> rl = role c) \<and> (db \<in> tn_warm s \<longrightarrow> role c \<in> tn_roles s db)
     \<and> (\<forall>f \<in> tn_flights s. fl_db f = db \<longrightarrow> fl_owner f = Some c \<and> (fl_role f = None \<or> fl_role f = Some (role c)))"
proof -
  have "owned_by c db s" using tenants.reachable_inv [OF assms(1)] assms(2) by (simp add: tenancy_inv_def)
  then show ?thesis by (simp add: owned_by_def)
qed

definition quiet_host :: tenancy where
  "quiet_host = \<lparr>tn_store = store_load 4 None, tn_creds = cred_load None, tn_flights = {}, tn_warm = {}, tn_roles = (\<lambda>_. {}), tn_sessions = {}\<rparr>"

lemma quiet_host_start: "run_of tenancy_start (tenancy_step quiet) quiet_host"
  by (rule run_init) (simp add: tenancy_start_def quiet_host_def cred_inv_load)

lemma acme_trim: "rust_trim ''acme'' = ''acme''" "rust_trim ''acme_app'' = ''acme_app''"
  by (rule ident_ok_trim; simp add: ident_eval)+

lemma acme_provisions:
  "store_record str ''acme'' = None \<Longrightarrow>
     provision str 7 True rng ''acme'' (Some ''acme_app'') (Some ''correct-horse'') (cred_load None) = (Inr acme_cred, acme)"
  by (simp add: provision_def create_dedicated_def acme_trim acme_creates Let_def)

lemma acme_step:
  assumes "store_record (tn_store s) ''acme'' = None" "tn_creds s = cred_load None" "quiet \<longrightarrow> tn_flights s = {}"
  shows "tenancy_step quiet s (s\<lparr>tn_creds := acme\<rparr>)"
  using provisioned [of 7 quiet s "''acme''" True None "Some ''acme_app''" "Some ''correct-horse''"] assms acme_provisions [OF assms(1)]
  by simp

lemma acme_get: "hm_get (by_database acme) ''acme'' = Some acme_cred"
  by (simp add: acme_eq)

lemma empty_store: "store_record (store_load 4 None) x = None"
  by (simp add: store_record_def store_load_def)

definition acme_flight :: flight where
  "acme_flight = \<lparr>fl_db = ''acme'', fl_owner = Some acme_cred, fl_role = None\<rparr>"

theorem tenants_isolated_witness:
  "''acme_app'' \<in> tn_roles (end_bringup 9 ''sb-1'' acme_flight (begin_bringup ''acme'' None (quiet_host\<lparr>tn_creds := acme\<rparr>))) ''acme''"
proof -
  let ?s = "quiet_host\<lparr>tn_creds := acme\<rparr>"
  have "tenancy_step True quiet_host ?s"
    by (rule acme_step) (simp_all add: quiet_host_def empty_store)
  then have r: "run_of tenancy_start (tenancy_step True) ?s" by (rule run_step [OF quiet_host_start])
  have "tenancy_step True ?s (begin_bringup ''acme'' None ?s)" by (rule warms_up) (simp add: is_dedicated_def acme_get)
  with r have r: "run_of tenancy_start (tenancy_step True) (begin_bringup ''acme'' None ?s)" by (rule run_step)
  have "acme_flight \<in> tn_flights (begin_bringup ''acme'' None ?s)"
    by (simp add: begin_bringup_def acme_flight_def acme_get)
  then have "tenancy_step True (begin_bringup ''acme'' None ?s) (end_bringup 9 ''sb-1'' acme_flight (begin_bringup ''acme'' None ?s))"
    by (rule comes_up)
  with r have r: "run_of tenancy_start (tenancy_step True) (end_bringup 9 ''sb-1'' acme_flight (begin_bringup ''acme'' None ?s))"
    by (rule run_step)
  from tenants_isolated [OF r, of "''acme''" acme_cred] show ?thesis
    by (simp add: end_bringup_def begin_bringup_def acme_get acme_flight_def)
qed

section \<open>Where provisioning falls short\<close>

definition early_flight :: flight where
  "early_flight = \<lparr>fl_db = ''acme'', fl_owner = None, fl_role = Some ''postgres''\<rparr>"

text \<open>
  Nothing keeps a database from being provisioned under a name that a client is just bringing up, because
  the registry has no row before the bring-up ends. A client with the shared password then has a session on
  the tenant's database, although every later such client is refused; and the VM was made without the
  tenant's role, so the tenant's own sessions reach a server that does not know it.
\<close>

theorem provision_races_checkout:
  "\<exists>s. run_of tenancy_start (tenancy_step False) s \<and> hm_get (by_database (tn_creds s)) ''acme'' = Some acme_cred
     \<and> (''postgres'', ''acme'') \<in> tn_sessions s \<and> authorize (tn_creds s) ''postgres'' ''acme'' \<noteq> Inr ()
     \<and> authorize (tn_creds s) (role acme_cred) ''acme'' = Inr () \<and> ''acme'' \<in> tn_warm s \<and> role acme_cred \<notin> tn_roles s ''acme''"
proof -
  let ?s1 = "begin_bringup ''acme'' (Some ''postgres'') quiet_host"
  let ?s2 = "?s1\<lparr>tn_creds := acme\<rparr>"
  let ?s3 = "end_bringup 9 ''sb-1'' early_flight ?s2"
  have "authorize (tn_creds quiet_host) ''postgres'' ''acme'' = Inr ()"
    by (simp add: quiet_host_def authorize_def by_role_def is_dedicated_def cred_load_def)
  then have "tenancy_step False quiet_host ?s1" by (rule connects) (simp add: is_valid_schema_def code_def)
  then have r: "run_of tenancy_start (tenancy_step False) ?s1" by (rule run_step [OF quiet_host_start])
  have "tenancy_step False ?s1 ?s2"
    by (rule acme_step) (simp_all add: quiet_host_def begin_bringup_def empty_store)
  with r have r: "run_of tenancy_start (tenancy_step False) ?s2" by (rule run_step)
  have "early_flight \<in> tn_flights ?s2" by (simp add: begin_bringup_def early_flight_def quiet_host_def cred_load_def)
  then have "tenancy_step False ?s2 ?s3" by (rule comes_up)
  with r have r: "run_of tenancy_start (tenancy_step False) ?s3" by (rule run_step)
  have "tn_creds ?s3 = acme" "(''postgres'', ''acme'') \<in> tn_sessions ?s3" "''acme'' \<in> tn_warm ?s3" "tn_roles ?s3 ''acme'' = {}"
    by (simp_all add: end_bringup_def begin_bringup_def early_flight_def quiet_host_def)
  then show ?thesis using r acme_get by (intro exI [of _ ?s3]) (simp add: authorize_def by_role_def is_dedicated_def acme_eq)
qed

text \<open>
  Not every refusal is the caller's fault: a credential file that cannot be written is answered with 400,
  like a bad name.
\<close>

lemma write_failure_is_bad_request:
  assumes "cred_insert now (rust_trim db0) rl pw cs = Inr x" "store_record str (rust_trim db0) = None"
    and "rl = (case username of None \<Rightarrow> rust_trim db0 | Some u \<Rightarrow> rust_trim u)"
  shows "fst (api_create str now False rng db0 username (Some pw) cs) = Bad_Request (Not_Created PersistFailed)"
  using assms by (cases x) (simp add: api_create_def provision_def create_dedicated_def cred_create_def cred_persist_def Let_def)

text \<open>A revoked database that was ever brought up cannot be provisioned again, so a tenant's password cannot be replaced.\<close>

lemma revoked_name_not_reprovisioned:
  assumes "store_record str (rust_trim db0) \<noteq> None" "cred_remove disk_ok (rust_trim db0) cs = (res, cs')"
  shows "\<exists>e. fst (api_create str now ok rng db0 username pw0 cs') = Bad_Request e"
proof -
  have "hm_get (by_database cs') (rust_trim db0) = None"
    using assms(2) by (auto simp: cred_remove_def cred_persist_def Let_def split: if_splits)
  then show ?thesis
    using assms(1) by (auto simp: api_create_def provision_def create_dedicated_def is_dedicated_def Let_def split: sum.splits)
qed
end

