(* ===== verification/Spec2Isabelle.thy ===== *)
theory Spec2Isabelle
  imports Session Reclaim Tiers Thaw Dump_Server Events Janitors Warm_Entries Readiness Alerts Dashboard
    Adoption Sweeps Tls_Reload Guest_Jobs Gates Provisioning
begin

text \<open>
  Verification of pg-vm-pool (\<open>src/\<close>), a PostgreSQL pooler that gives every database name (a ``schema'')
  a Firecracker VM of its own, starts it on the first connection, stops it when idle and moves it to
  cheaper tiers (a local image, a local dump, S3) when it has not been used for long.

  \<^bold>\<open>The parts and how they interact.\<close> A client connects (\<open>main.rs\<close>): its startup message is read
  (\<open>startup.rs\<close>), its password checked (\<open>auth.rs\<close>), its right to the database decided (\<open>dedicated.rs\<close>);
  then the registry (\<open>registry.rs\<close>) checks out the schema's VM and the bytes are spliced. A checkout
  looks up the schema in the persistent store (\<open>store.rs\<close>) and, when no warm VM serves it, brings one up
  (\<open>vm.rs\<close>): by reattaching the recorded VM, by name, from a pool of pre-booted spares (\<open>spares.rs\<close>), or
  by creating one, in which case the pending ledger (\<open>pending.rs\<close>) names it until it is bound.
  Background loops of the registry offload idle schemas (planner, dispatcher, tier moves), stop idle and
  untracked VMs, purge leftovers, sweep orphaned disks (\<open>orphans.rs\<close>), keep the spares topped up, and run
  the reclaim command (\<open>reclaim.rs\<close>), which must not touch a disk a VM is
  booting from. The VM daemon, the guest and S3 are outside the repository: every definition takes
  their answers as arguments, so a theorem over all arguments is a theorem over all their behaviours,
  and a theorem that needs a law of theirs states it as a hypothesis.

  \<^bold>\<open>The theories.\<close>
  \<^item> \<open>Pool_Prelude\<close>: the parts of Rust's standard library the sources use (\<open>str::lines\<close>, \<open>trim\<close>, \<open>parse\<close>,
    \<open>from_utf8_lossy\<close>, big-endian integers, \<open>HashMap\<close> with its iteration order left open as a list of
    entries), with their lemmas. Strings are their UTF-8 bytes.
  \<^item> \<open>Interfaces\<close>: the contracts as locales. \<open>inductive_invariant\<close> (a transition system and its
    invariant), \<open>line_codec\<close> (a line-oriented file), \<open>capped_backoff\<close> and \<open>durable_registry\<close> (what a tier
    change may rely on). Each is interpreted on the model in the theory of the component that provides it.
  \<^item> \<open>Wire\<close>: \<open>startup.rs\<close>, \<open>auth.rs\<close>. The socket is the bytes still to come and the bytes written. The
    TLS stream is a parameter. The two startup loops recurse on the bytes left; each terminates.
  \<^item> \<open>Dedicated\<close>: \<open>dedicated.rs\<close>. Validation, the credential file, provisioning and revocation as steps
    of a process that may fail to write and may restart.
  \<^item> \<open>Store\<close>: \<open>store.rs\<close>. The map, generation stamps, detached writes that run in any order and may fail,
    the flush loop, the lock order, and what a crash leaves.
  \<^item> \<open>Session\<close>: \<open>main.rs\<close> \<open>handle_conn\<close>, end to end over \<open>Wire\<close> and \<open>Dedicated\<close>. The credentials are read twice, for
    the challenge and for the authorisation, and may have changed between.
  \<^item> \<open>Ledger\<close>: \<open>pending.rs\<close> and \<open>inventory.rs\<close>.
  \<^item> \<open>Spares\<close>: \<open>spares.rs\<close>. Claims, hand-over, release, the replenisher pass, culling.
  \<^item> \<open>Reclaim\<close>: \<open>reclaim.rs\<close>. Lock paths, boot permits with polling and timeouts, pre-emption of a pass,
    and the passes themselves as steps of a system of boots, creates (which take time and hold no permit),
    scripts and file locks.
  \<^item> \<open>Offload\<close>: the planner of \<open>registry.rs\<close>: back-off and circuit breaker, candidate selection, policies,
    dispatch and the drain loop.
  \<^item> \<open>Quoting\<close>: the string functions of \<open>vm.rs\<close> (identifiers, literals, shell words, truncation, probes).
  \<^item> \<open>Bringup\<close>: the bring-up of \<open>vm.rs\<close> and the loops that decide that a dump is durable.
  \<^item> \<open>Tiers\<close>: the tier moves of \<open>registry.rs\<close> and the cold path of \<open>checkout\<close>, as lists of effects whose
    prefixes are the crashes and whose interleavings are the races.
  \<^item> \<open>Warm_Entries\<close>: \<open>SchemaEntry\<close>, \<open>ConnGuard\<close>, the warm path of \<open>checkout\<close> and the idle reaper of \<open>registry.rs\<close>,
    as a system of anonymous clients, a clock and the reaper, and one pass of the reaper over the map.
  \<^item> \<open>Orphans\<close>: \<open>orphans.rs\<close>, \<open>gc_restore_scratch\<close> and \<open>sweep_orphans\<close>, over a host that may change between
    classification and deletion.
  \<^item> \<open>Janitors\<close>: \<open>purge_pass\<close>, \<open>pending_pass\<close> and \<open>reap_untracked\<close> of \<open>registry.rs\<close>. Other tasks act at every await and,
    in the purge, also between its reads of the store and the claims and before each kill.
  \<^item> \<open>Calendar\<close>: the date arithmetic of \<open>events.rs\<close> and \<open>s3.rs\<close> against the Gregorian calendar.
  \<^item> \<open>Sigv4\<close>: what an S3 store does with a presigned URL, from the published description of Signature Version 4.
    It models no code of the repository; it is the specification \<open>S3_Sign\<close> is checked against.
  \<^item> \<open>S3_Sign\<close>: \<open>s3.rs\<close> and the uploads of \<open>imgarchive.rs\<close>. The hash functions and the transport are parameters.
  \<^item> \<open>Images\<close>: the disk images of \<open>imgarchive.rs\<close>: compaction, archive, promotion, download.
  \<^item> \<open>Thaw\<close>: the way back of \<open>imgarchive.rs\<close>: a local or downloaded image is decompressed and checked, a VM is
    claimed and stopped, its disk overwritten, and booted. The external commands are a record of answers.
  \<^item> \<open>Dump_Server\<close>: \<open>dumpsrv.rs\<close>, as steps of uploads, commits, aborts and downloads over a directory.
  \<^item> \<open>Readiness\<close>: the end of a bring-up in \<open>vm.rs\<close>: the wait for PostgreSQL, the probes, the power cycle of a silent
    guest, and the disposal of a VM.
  \<^item> \<open>Settings\<close>: \<open>config.rs\<close>. The environment is a list of variables; each setting, its default and its bounds, the
    preflight checks, and the paths derived from them.
  \<^item> \<open>Alerts\<close>: \<open>dashboard/alerts.rs\<close>. The rules, their file (JSON printed and read back), the evaluation passes
    and the webhooks they send; any write may fail. The float parser is a parameter with one law.
  \<^item> \<open>Dashboard\<close>: the logic of the dashboard (\<open>auth.rs\<close>, \<open>model.rs\<close>, \<open>handlers.rs\<close>): basic authentication, query
    strings, sorting and paging, the shared inventory refresh, and the bulk stop of idle VMs.
  \<^item> \<open>Adoption\<close>: pointing a schema back at its archive: \<open>probe_archive\<close>, \<open>adopt_archive\<close>, the warm path of \<open>checkout\<close> and
    the recovery page (\<open>dashboard/archives.rs\<close>), over the HEAD requests of \<open>S3_Sign\<close> and the effects of \<open>Tiers\<close>.
  \<^item> \<open>Sweeps\<close>: the passes of \<open>registry.rs\<close> over many schemas (\<open>sweep_archive\<close>, the drain loop to the end of its
    jobs, \<open>pressure_pass\<close>), the reading of \<open>df\<close>, device growth, and \<open>supervise_with_wake\<close>, which runs every loop.
  \<^item> \<open>Tls_Reload\<close>: \<open>tls.rs\<close>. Handshakes as steps of single file reads, interleaved with the certificate tool.
    The PEM parsers and rustls are a record of functions.
  \<^item> \<open>Guest_Jobs\<close>: the scripts \<open>vm.rs\<close> plants in a guest, as the strings it sends, and what a shell does with
    them: the here-document that plants a job, its exit status, the sentinel and its probe; restore preflights.
  \<^item> \<open>Gates\<close>: the admission gate and the bring-up gate of \<open>vm.rs\<close>, with the boot permits taken between them
    (the lock of one disk, or the gate all boots share), as steps of requests that arrive, queue, are served or give up.
  \<^item> \<open>Provisioning\<close>: \<open>dashboard/dedicated.rs\<close> and \<open>create_dedicated\<close>: the API and the form over \<open>Dedicated\<close> and \<open>Store\<close>, and
    tenants beside bring-ups, sessions and evictions.
  \<^item> \<open>Events\<close>: \<open>events.rs\<close>: the event and journal rings, day partitions, pruning, reload, the hourly chart.

  \<^bold>\<open>What the theorems show.\<close> Routing: a client is spliced only to the database it named and proved
  its right to (\<open>splice_needs_authority\<close>, \<open>authorize_confines\<close>, \<open>require_password_accepts_iff\<close>), and the
  startup message is decoded and replayed exactly. Persistence: the registry file never regresses,
  what drained is what a restart reads, a tier change is on disk when it returns, a created VM whose
  ledger write succeeded is named after a crash, and a provisioned credential survives a restart. Data: as
  long as registry writes succeed, no crash point of any tier move puts a schema's data out of reach, and a
  cold checkout whose HEADs are truthful serves the latest write (a dump being restored into an empty
  database); a dump is durable only on the object store's word; a fresh VM is made only where the daemon
  shows none of the name. Spares: no VM is given to
  two schemas, none in use is culled, and a pass fills the pool. Reclaim: no pass works on a disk that a
  permit holder is about to boot, and on an open one only if its VM was in flight without a permit; no
  pre-emption is lost. Offload: the planner picks the best candidate, spares
  active schemas, stays within its concurrency bound, and backs off by the capped schedule. Quoting: a
  name cannot leave its quotes. Gates: the pooler never has more calls open at the daemon than slots, and
  admission, boot permits and slots cannot deadlock. Tenants: a dedicated database is used by nobody but its role. Warm VMs: the idle reaper takes no VM from a client, admission slots are
  never exceeded and never leak. Maintenance: the sweep, the purge, the janitor and the untracked reaper
  delete or stop only what was nobody's when they last looked, whatever other tasks do meanwhile, and a
  quiet pass does exactly its work. Images and dumps: a published dump is a whole upload, an image is put in place or
  reported archived only after it was verified, an upload sends exactly the file, and a presigned URL
  is accepted by a store that follows Signature Version 4, for exactly the object and parameters asked for; an image that was compacted and thawed is the disk it was, and a
  restore either boots on the whole image or fails, and writes only its scratch files and its vehicle's disk. Readiness: a guest is power
  cycled only after it stayed silent for the whole window. Configuration: every value that starts the
  process is within the bounds the other theories rely on. Dashboard: exactly the configured credentials
  get in, the pages show each match once, the bulk stop touches only idle schemas, alert rules that
  were saved survive a restart and a webhook marks a change of state. Metrics: dates are Gregorian and charts survive a restart.
  Recovery: an archive is adopted only if one is there, and the restore then serves the object shown. Passes:
  the operator's sweep tries exactly what is due, devices grow within the daemon's limit, and a panicking pass
  stops no loop. TLS: a certificate replaced atomically is used by the next handshake. Guest jobs: a job arrives as
  written, and is read as succeeded only if all its steps were.
  Several theorems pin down where the code falls short of its own
  comments; they are stated as what the code does (\<open>failed_revocation_resurfaces\<close>,
  \<open>concurrent_creates_lose_one\<close>, \<open>store_locks_can_deadlock\<close>, \<open>timeout_releases_gate_early\<close>,
  \<open>unlocked_pass_meets_boot\<close>, \<open>reattach_error_rebinds_spare\<close>, \<open>failed_disposal_forgets_leak\<close>,
  \<open>overlapping_archive_loses_write\<close>, \<open>spare_binding_lags\<close>, \<open>late_commit_publishes_partial_upload\<close>,
  \<open>lost_disk_deleted_after_rebind\<close>, \<open>purge_kills_restored_schema\<close>, \<open>untracked_stops_restoring_vm\<close>,
  \<open>leaving_client_looks_idle\<close>, \<open>janitor_drops_newer_create\<close>, \<open>reload_misses_third_day\<close>,
  \<open>live_server_power_cycled\<close>, \<open>ignored_setting_in_force\<close>, \<open>stale_id_hides_named_vm\<close>, \<open>overlapping_adds_lose_rule\<close>,
  \<open>failed_add_stays\<close>, \<open>threshold_rounds_on_restart\<close>, \<open>colon_user_locked_out\<close>, \<open>failing_daemon_walked_per_request\<close>,
  \<open>stop_idle_stops_cold_keepalive\<close>, \<open>backslash_passes_guard\<close>, \<open>warm_schema_not_restored\<close>,
  \<open>frozen_schema_rolled_back\<close>, \<open>displaced_vm_not_swept\<close>, \<open>failing_image_starves_drain\<close>, \<open>lost_claims_abort_sweep\<close>,
  \<open>aborted_pass_claims_exhaustion\<close>, \<open>startup_race_serves_stale\<close>, \<open>unmarked_failure_is_committed\<close>,
  \<open>provision_races_checkout\<close>, \<open>write_failure_is_bad_request\<close>, \<open>provisioning_during_challenge\<close>, \<open>purge_races_claim\<close>,
  \<open>create_in_flight_is_edited\<close>, \<open>restore_over_leftovers\<close>, \<open>failed_removal_leaves_tmp\<close>, and the lemmas that close \<open>Tiers\<close>).

  \<^bold>\<open>Bounds.\<close> Integers are \<open>nat\<close> or \<open>int\<close> with the machine bound written out where the code depends on it
  (\<open>u64\<close> parsing, \<open>i32\<close> lengths, the generation counter, which is assumed not to wrap). Loops that poll are
  functions of the list of answers they receive; that a list long enough ends them is proved
  (\<open>gates_serve_everyone\<close>, \<open>daemon_retry_terminates\<close>, \<open>await_archive_ends\<close>, \<open>wait_disk_released_ends\<close>, \<open>wait_pg_ready_returns\<close>). Retry budgets are the constants of the code.

  \<^bold>\<open>Not modelled.\<close> Byte copying and socket options (\<open>proxy.rs\<close>), which are calls of the network library; the
  HTML of the dashboard (\<open>views.rs\<close>), which has no state; process start-up (\<open>main\<close>), the load generator and the
  shell scripts, which are not part of the pooler. Of \<open>imgarchive.rs\<close>, trimming, which is an external tool; of
  \<open>registry.rs\<close>, statistics and log lines; of \<open>vm.rs\<close>, tunnels and the connection pools.
\<close>

section \<open>Spares and the registry across a crash\<close>

lemma bound_ids_put:
  "store_sane s \<Longrightarrow> sid \<in> ids_of (smap (store_put now x sid s))"
proof -
  obtain r where "sandbox_id r = sid" "hm_get (smap (store_put now x sid s)) x = Some r"
    using store_put_look [of sid now x s] by fastforce
  then show ?thesis by (force simp: ids_of_def dest: map_of_SomeD)
qed

text \<open>
  A spare bound to a schema is off the shelf at once, but only in memory. As soon as \<open>put\<close> returns, no
  replenisher pass of the running process counts the VM as a free spare, restarts it or deletes it,
  even after its claim is given up. A process that starts before the queued write has run still counts
  it as free, whatever schema's data it holds by then, because the VM keeps its spare name.
\<close>

theorem spare_binding_lags:
  assumes "store_sane s" "bound_cache s = None" "(sid, True) \<in> set rows" "sid \<notin> fst (bound_ids (store_load n (sfile s)))"
  shows "let s' = store_put now x sid s;
             ids = fst (bound_ids s');
             ids' = fst (bound_ids (store_load n (sfile s')));
             plan = plan_replenish rows ids {} tgt
         in sid \<notin> set (free_running rows ids {}) \<and> sid \<notin> set (plan_start plan) \<union> set (plan_delete plan)
            \<and> sid \<in> set (free_running rows ids' {})"
proof -
  let ?s = "store_put now x sid s"
  have "bound_cache ?s = None"
    using assms(2) by (simp add: store_put_def stamp_def write_detached_def Let_def split: option.splits)
  then have b: "sid \<in> fst (bound_ids ?s)"
    using bound_ids_put [OF assms(1)] by (simp add: bound_ids_def Let_def)
  have "sid \<notin> set (plan_start (plan_replenish rows (fst (bound_ids ?s)) {} tgt))
      \<union> set (plan_delete (plan_replenish rows (fst (bound_ids ?s)) {} tgt))"
    using plan_replenish_split [of rows "fst (bound_ids ?s)" "{}" tgt] b by (auto simp: Let_def)
  moreover have "sid \<in> set (free_running rows (fst (bound_ids (store_load n (sfile ?s)))) {})"
    using assms(3,4) by (force simp: free_running_def)
  ultimately show ?thesis using b by (auto simp: Let_def free_running_def)
qed

theorem spare_binding_lags_witness:
  "let s' = store_put 5 ''shop'' ''sb-9'' (store_load 4 None)
   in ''sb-9'' \<notin> set (free_running [(''sb-9'', True)] (fst (bound_ids s')) {})
      \<and> ''sb-9'' \<in> set (free_running [(''sb-9'', True)] (fst (bound_ids (store_load 6 (sfile s')))) {})"
proof -
  have "store_sane (store_load 4 None)" "bound_cache (store_load 4 None) = None"
    "''sb-9'' \<notin> fst (bound_ids (store_load 6 (sfile (store_load 4 None))))"
    by (simp_all add: store_sane_def store_load_def bound_ids_def ids_of_def Let_def)
  from spare_binding_lags [OF this(1,2) _ this(3), of "[(''sb-9'', True)]" 5 "''shop''" 0]
  show ?thesis by (simp add: Let_def)
qed

end
